(* ===== verification/Prelude.thy ===== *)
theory Prelude
  imports Main "HOL-Library.Word" "HOL-Library.Monad_Syntax"
begin

text \<open>
  Shared material of the development: names for the C integer types of
  \<^verbatim>\<open>include/types.h\<close>, the generic facts on intervals aligned to powers of two, on
  words and on function updates that the component theories use, and the
  collection \<open>word_nat\<close> of rewrite rules from words to natural numbers.
\<close>

type_synonym u8 = "8 word"
type_synonym u16 = "16 word"
type_synonym u32 = "32 word"
type_synonym u64 = "64 word"

named_theorems word_nat \<open>word operations read through unat, without overflow\<close>

text \<open>
  \<^verbatim>\<open>include/minix/config.h\<close> and the memory headers: a page is 4096 bytes.
\<close>

abbreviation PAGE_SHIFT :: nat where "PAGE_SHIFT \<equiv> 12"
abbreviation PAGE_SIZE :: u64 where "PAGE_SIZE \<equiv> 4096"

subsection \<open>Multiples of powers of two\<close>

unbundle bit_operations_syntax

lemma dvd_gap: "(d::nat) dvd a \<Longrightarrow> d dvd b \<Longrightarrow> a < b \<Longrightarrow> a + d \<le> b"
proof -
  assume "d dvd a" "d dvd b" "a < b"
  then have "d dvd b - a" "b - a \<noteq> 0" by (auto intro: dvd_diff_nat)
  then have "d \<le> b - a" by (simp add: dvd_imp_le)
  with \<open>a < b\<close> show ?thesis by simp
qed

lemma xor_power2_aligned:
  assumes "2 ^ k dvd (x::nat)"
  shows "x XOR 2 ^ k = (if 2 ^ Suc k dvd x then x + 2 ^ k else x - 2 ^ k)"
proof -
  from assms obtain m where x: "x = 2 ^ k * m" by (elim dvdE)
  have "x XOR 2 ^ k = push_bit k m XOR push_bit k 1"
    by (simp add: x push_bit_eq_mult mult.commute)
  also have "\<dots> = push_bit k (m XOR 1)"
    by (simp only: push_bit_xor)
  also have "m XOR 1 = (if even m then m + 1 else m - 1)"
    by (simp add: xor_Suc_0_eq)
  also have "push_bit k (if even m then m + 1 else m - 1) = (if even m then x + 2 ^ k else x - 2 ^ k)"
    by (simp add: push_bit_eq_mult x algebra_simps)
  finally show ?thesis by (simp add: x)
qed

text \<open>
  The buddy of an aligned block at \<open>x\<close>: the lower of the two is aligned to twice the
  size and the other starts \<open>2 ^ k\<close> after it.
\<close>

lemma buddy_pair:
  assumes "2 ^ k dvd (x::nat)" and y: "y = x XOR 2 ^ k"
  shows "x \<noteq> y" "2 ^ k dvd y" "2 ^ Suc k dvd min x y" "max x y = min x y + 2 ^ k"
proof -
  have "x \<noteq> y \<and> 2 ^ k dvd y \<and> 2 ^ Suc k dvd min x y \<and> max x y = min x y + 2 ^ k"
  proof (cases "2 ^ Suc k dvd x")
    case True
    have "x XOR 2 ^ k = x + 2 ^ k" using xor_power2_aligned [OF assms(1)] True by simp
    then have "y = x + 2 ^ k" using y by simp
    with True assms(1) show ?thesis by (simp add: min_def max_def)
  next
    case False
    from assms(1) obtain m where x0: "x = 2 ^ k * m" by (elim dvdE)
    with False have "odd m" by (metis dvd_def mult.assoc power_Suc2)
    note m = x0 this
    then obtain n where "m = 2 * n + 1" by (elim oddE)
    with m have x: "x = 2 ^ Suc k * n + 2 ^ k" by (simp add: algebra_simps)
    have "x XOR 2 ^ k = x - 2 ^ k" using xor_power2_aligned [OF assms(1)] False by simp
    with x have "y = 2 ^ Suc k * n" using y by simp
    with x show ?thesis by (simp add: min_def max_def)
  qed
  then show "x \<noteq> y" "2 ^ k dvd y" "2 ^ Suc k dvd min x y" "max x y = min x y + 2 ^ k"
    by blast+
qed

lemma power2_dvd_mono: "2 ^ k dvd (x::nat) \<Longrightarrow> j \<le> k \<Longrightarrow> 2 ^ j dvd x"
  by (meson dvd_trans le_imp_power_dvd)

text \<open>
  An aligned block that reaches over an aligned point of a pair of buddies without
  starting there holds the whole pair.
\<close>

lemma block_over_buddies:
  assumes x: "2 ^ k dvd (x::nat)" and y: "y = x XOR 2 ^ k"
    and q: "2 ^ j dvd q" "q < y" "y < q + 2 ^ j"
  shows "k < j \<and> q \<le> x \<and> x + 2 ^ k \<le> q + 2 ^ j"
proof -
  note bp = buddy_pair [OF x y]
  have kj: "k < j"
  proof (rule ccontr)
    assume "\<not> k < j"
    then have "2 ^ j dvd y" using bp(2) power2_dvd_mono by (simp add: not_less)
    from dvd_gap [OF q(1) this q(2)] q(3) show False by simp
  qed
  then have "Suc k \<le> j" by simp
  then have dj: "(2::nat) ^ Suc k dvd 2 ^ j" by (rule le_imp_power_dvd)
  have dq: "2 ^ Suc k dvd q" using dj q(1) by (rule dvd_trans)
  have de: "2 ^ Suc k dvd q + 2 ^ j" using dq dj by (rule dvd_add)
  obtain m where m: "m = min x y" by simp
  have y': "m \<le> y" "y \<le> m + 2 ^ k" and x': "m \<le> x" "x \<le> m + 2 ^ k"
    using bp(4) by (auto simp: m)
  have two: "(2::nat) ^ Suc k = 2 ^ k + 2 ^ k" by simp
  have "q \<le> m"
  proof (rule ccontr)
    assume "\<not> q \<le> m"
    then have "m + 2 ^ Suc k \<le> q" using dvd_gap [OF bp(3) [folded m] dq] by simp
    with q(2) y' two show False by linarith
  qed
  moreover have "m + 2 ^ Suc k \<le> q + 2 ^ j"
    using dvd_gap [OF bp(3) [folded m] de] q(3) y' by simp
  ultimately show ?thesis using kj x' two by linarith
qed

subsection \<open>Word arithmetic through natural numbers\<close>

lemma unat_add_small: "unat (a::u64) + n < 2 ^ 64 \<Longrightarrow> unat (a + of_nat n) = unat a + n"
proof -
  assume lt: "unat a + n < 2 ^ 64"
  then have n: "unat (of_nat n :: u64) = n"
    unfolding unsigned_of_nat by (intro trans [OF of_nat_id] take_bit_nat_eq_self) simp
  have "unat (a + of_nat n) = (if unat a + n < 2 ^ LENGTH(64) then unat a + n else unat a + n - 2 ^ LENGTH(64))"
    by (simp only: unat_plus_if' n)
  also have "\<dots> = unat a + n" using lt by simp
  finally show ?thesis .
qed

lemma clear_low_bits:
  fixes x :: u64
  shows "unat (x AND NOT (mask n)) = unat x - unat x mod 2 ^ n"
proof -
  have "x = (x AND NOT (mask n)) OR take_bit n x" by (rule bit_word_eqI) (auto simp: bit_simps)
  also have "\<dots> = (x AND NOT (mask n)) + take_bit n x"
    by (rule disjunctive_add [symmetric]) (auto simp: bit_simps)
  finally have e: "x AND NOT (mask n) = x - take_bit n x" by (simp add: algebra_simps)
  have l: "take_bit n x \<le> x" unfolding word_le_nat_alt unsigned_take_bit_eq
    by (simp add: take_bit_eq_mod)
  show ?thesis unfolding e unat_sub [OF l] unsigned_take_bit_eq by (simp add: take_bit_eq_mod)
qed

end
