(* ===== verification/FrameSource.thy ===== *)
theory FrameSource
  imports Prelude
begin

text \<open>
  What the users of \<^verbatim>\<open>alloc_page\<close> and \<^verbatim>\<open>free_page\<close> (page tables, slab caches, vmalloc) rely
  on: a page that is handed out is page-aligned, inside the 56-bit physical address
  space, comes from a fixed pool and is not handed out already; 0 means that nothing has
  changed.
\<close>

unbundle bit_operations_syntax

locale frame_source =
  fixes falloc :: "'s \<Rightarrow> u64 \<times> 's"
    and ffree :: "u64 \<Rightarrow> 's \<Rightarrow> 's"
    and fok :: "'s \<Rightarrow> bool"
    and owned :: "'s \<Rightarrow> u64 set"
    and pool :: "'s \<Rightarrow> u64 set"
  assumes falloc_some: "fok s \<Longrightarrow> falloc s = (a, s') \<Longrightarrow> a \<noteq> 0 \<Longrightarrow>
        fok s' \<and> a \<notin> owned s \<and> owned s' = insert a (owned s) \<and> pool s' = pool s"
    and falloc_none: "fok s \<Longrightarrow> falloc s = (0, s') \<Longrightarrow> s' = s"
    and owned_pool: "fok s \<Longrightarrow> owned s \<subseteq> pool s"
    and owned_frame: "fok s \<Longrightarrow> a \<in> owned s \<Longrightarrow> a \<noteq> 0 \<and> 4096 dvd unat a \<and> unat a < 2 ^ 56"
    and ffree_owned: "fok s \<Longrightarrow> a \<in> owned s \<Longrightarrow>
        fok (ffree a s) \<and> owned (ffree a s) = owned s - {a} \<and> pool (ffree a s) = pool s"
begin

lemma falloc_cases:
  assumes "fok s" "falloc s = (a, s')"
  obtains (none) "a = 0" "s' = s"
  | (some) "a \<noteq> 0" "fok s'" "a \<notin> owned s" "owned s' = insert a (owned s)"
      "pool s' = pool s" "a \<in> pool s"
      "4096 dvd unat a" "unat a < 2 ^ 56"
proof (cases "a = 0")
  case True
  with assms falloc_none show thesis by (auto intro: none)
next
  case False
  note f = falloc_some [OF assms False]
  with owned_frame [of s' a] owned_pool [of s'] False show thesis by (intro some) auto
qed

text \<open>Freeing what was just allocated gives the frames back.\<close>

lemma falloc_ffree:
  assumes "fok s" "falloc s = (a, s')" "a \<noteq> 0"
  shows "owned (ffree a s') = owned s"
  using falloc_some [OF assms] ffree_owned [of s' a] by auto

end

text \<open>A source that also knows how many frames it has left, and fails only at zero.\<close>

locale counted_frames = frame_source +
  fixes favail :: "'a \<Rightarrow> nat"
  assumes falloc_avail: "fok s \<Longrightarrow> 0 < favail s \<Longrightarrow> falloc s = (a, s') \<Longrightarrow>
      a \<noteq> 0 \<and> Suc (favail s') = favail s"
begin

lemma falloc_avail_mono:
  assumes "fok s" "falloc s = (a, s')"
  shows "favail s \<le> Suc (favail s')"
  using falloc_avail [OF assms(1) _ assms(2)] by (cases "favail s") auto

end

end
