(* ===== verification/PageTable.thy ===== *)
theory PageTable
  imports FrameSource
begin

text \<open>
  The Sv39 page tables, \<^verbatim>\<open>arch/riscv64/mm/pgtable.c\<close>.

  A table is named by its physical address and is an array of 512 entries; every
  address the code uses as a table is page-aligned (the root is declared so, the others
  come out of \<open>pte_to_phys\<close>), so a slot is a pair of an address and an index.  A
  \<^verbatim>\<open>pte_t *\<close> is such a pair, \<open>None\<close> for \<open>NULL\<close>.  \<^verbatim>\<open>alloc_page\<close> and \<^verbatim>\<open>free_page\<close> are arguments,
  as they are \<^verbatim>\<open>extern\<close> in the file.  The \<^verbatim>\<open>sfence.vma\<close> instructions are recorded in order;
  console messages are left out.
\<close>

unbundle bit_operations_syntax

subsection \<open>Data\<close>

definition PTE_V :: u64 where "PTE_V = 1"
definition PTE_R :: u64 where "PTE_R = 2"
definition PTE_W :: u64 where "PTE_W = 4"
definition PTE_X :: u64 where "PTE_X = 8"
definition PTE_A :: u64 where "PTE_A = 64"
definition PTE_D :: u64 where "PTE_D = 128"

definition PTE_KERNEL :: u64 where
  "PTE_KERNEL = PTE_V OR PTE_R OR PTE_W OR PTE_A OR PTE_D"
definition PTE_KERNEL_RWX :: u64 where
  "PTE_KERNEL_RWX = PTE_V OR PTE_R OR PTE_W OR PTE_X OR PTE_A OR PTE_D"

definition PGDIR_SHIFT :: nat where "PGDIR_SHIFT = 30"
definition PMD_SHIFT :: nat where "PMD_SHIFT = 21"
definition PTE_SHIFT :: nat where "PTE_SHIFT = 12"

definition MMIO_BASE :: u64 where "MMIO_BASE = 0"
definition KERNEL_BASE :: u64 where "KERNEL_BASE = 0x80000000"
definition SATP_SV39_MODE :: u64 where "SATP_SV39_MODE = push_bit 60 8"

datatype fence = Fence_va u64 | Fence_asid u64 | Fence_all

record 's ptab =
  tables :: "u64 \<Rightarrow> nat \<Rightarrow> u64"
  frames :: 's
  fences :: "fence list"
  kernel_satp :: u64
  csr_satp :: u64

type_synonym slot = "u64 \<times> nat"

definition entry :: "'s ptab \<Rightarrow> slot \<Rightarrow> u64" where
  "entry s sl = tables s (fst sl) (snd sl)"

definition set_entry :: "slot \<Rightarrow> u64 \<Rightarrow> 's ptab \<Rightarrow> 's ptab" where
  "set_entry sl e s = s\<lparr>tables := (tables s)(fst sl := (tables s (fst sl))(snd sl := e))\<rparr>"

definition sfence :: "fence \<Rightarrow> 's ptab \<Rightarrow> 's ptab" where
  "sfence f s = s\<lparr>fences := fences s @ [f]\<rparr>"

subsection \<open>Entries\<close>

definition pgd_index :: "u64 \<Rightarrow> nat" where
  "pgd_index va = unat (drop_bit PGDIR_SHIFT va AND (512 - 1))"

definition pmd_index :: "u64 \<Rightarrow> nat" where
  "pmd_index va = unat (drop_bit PMD_SHIFT va AND (512 - 1))"

definition pte_index :: "u64 \<Rightarrow> nat" where
  "pte_index va = unat (drop_bit PTE_SHIFT va AND (512 - 1))"

definition pte_valid :: "u64 \<Rightarrow> bool" where
  "pte_valid pte \<longleftrightarrow> pte AND PTE_V \<noteq> 0"

definition pte_leaf :: "u64 \<Rightarrow> bool" where
  "pte_leaf pte \<longleftrightarrow> pte AND (PTE_R OR PTE_W OR PTE_X) \<noteq> 0"

definition pte_to_phys :: "u64 \<Rightarrow> u64" where
  "pte_to_phys pte = push_bit PAGE_SHIFT (drop_bit 10 pte)"

definition phys_to_pte :: "u64 \<Rightarrow> u64 \<Rightarrow> u64" where
  "phys_to_pte phys flags = push_bit 10 (drop_bit PAGE_SHIFT phys) OR flags"

subsection \<open>Walking\<close>

definition pgtable_alloc :: "('s \<Rightarrow> u64 \<times> 's) \<Rightarrow> 's ptab \<Rightarrow> u64 \<times> 's ptab" where
  "pgtable_alloc alloc s =
     (let (page, fr) = alloc (frames s);
          s1 = s\<lparr>frames := fr\<rparr>
      in if page \<noteq> 0
         then (page, s1\<lparr>tables := (tables s1)
                 (page := fold (\<lambda>i t. t(i := 0)) [0..<512] (tables s1 page))\<rparr>)
         else (page, s1))"

definition pgtable_free :: "(u64 \<Rightarrow> 's \<Rightarrow> 's) \<Rightarrow> u64 \<Rightarrow> 's ptab \<Rightarrow> 's ptab" where
  "pgtable_free free page s = s\<lparr>frames := free page (frames s)\<rparr>"

text \<open>
  The step the walk makes at the two upper levels: an invalid entry gets a fresh table,
  or ends the walk with \<^verbatim>\<open>NULL\<close>.
\<close>

definition ensure_table :: "('s \<Rightarrow> u64 \<times> 's) \<Rightarrow> bool \<Rightarrow> slot \<Rightarrow> 's ptab \<Rightarrow> bool \<times> 's ptab" where
  "ensure_table alloc create sl s =
     (if pte_valid (entry s sl) then (True, s)
      else if \<not> create then (False, s)
      else
        (let (phys, s1) = pgtable_alloc alloc s
         in if phys = 0 then (False, s1)
            else (True, set_entry sl (phys_to_pte phys PTE_V) s1)))"

definition walk_pgtable :: "('s \<Rightarrow> u64 \<times> 's) \<Rightarrow> u64 \<Rightarrow> u64 \<Rightarrow> bool \<Rightarrow> 's ptab \<Rightarrow> slot option \<times> 's ptab" where
  "walk_pgtable alloc pgd va create s =
     (let sl2 = (pgd, pgd_index va);
          (ok2, s2) = ensure_table alloc create sl2 s
      in if \<not> ok2 then (None, s2)
         else if pte_leaf (entry s2 sl2) then (Some sl2, s2)
         else
           (let sl1 = (pte_to_phys (entry s2 sl2), pmd_index va);
                (ok1, s1) = ensure_table alloc create sl1 s2
            in if \<not> ok1 then (None, s1)
               else if pte_leaf (entry s1 sl1) then (Some sl1, s1)
               else (Some (pte_to_phys (entry s1 sl1), pte_index va), s1)))"

subsection \<open>Mapping\<close>

definition page_align :: "u64 \<Rightarrow> u64" where
  "page_align x = x AND NOT (PAGE_SIZE - 1)"

definition map_page_4k :: "('s \<Rightarrow> u64 \<times> 's) \<Rightarrow> u64 \<Rightarrow> u64 \<Rightarrow> u64 \<Rightarrow> u64 \<Rightarrow> 's ptab \<Rightarrow> int \<times> 's ptab" where
  "map_page_4k alloc pgd va pa flags s =
     (let va = page_align va;
          pa = page_align pa
      in case walk_pgtable alloc pgd va True s of
           (None, s1) \<Rightarrow> (-1, s1)
         | (Some sl, s1) \<Rightarrow> (0, sfence (Fence_va va) (set_entry sl (phys_to_pte pa (flags OR PTE_V)) s1)))"

definition map_page_2m :: "('s \<Rightarrow> u64 \<times> 's) \<Rightarrow> u64 \<Rightarrow> u64 \<Rightarrow> u64 \<Rightarrow> u64 \<Rightarrow> 's ptab \<Rightarrow> int \<times> 's ptab" where
  "map_page_2m alloc pgd va pa flags s =
     (let va = va AND NOT (push_bit PMD_SHIFT 1 - 1);
          pa = pa AND NOT (push_bit PMD_SHIFT 1 - 1);
          sl2 = (pgd, pgd_index va);
          (ok2, s1) = ensure_table alloc True sl2 s
      in if \<not> ok2 then (-1, s1)
         else
           (let pmd_table = pte_to_phys (entry s1 sl2);
                s2 = set_entry (pmd_table, pmd_index va) (phys_to_pte pa (flags OR PTE_V)) s1
            in (0, sfence (Fence_va va) s2)))"

definition map_page_1g :: "u64 \<Rightarrow> u64 \<Rightarrow> u64 \<Rightarrow> u64 \<Rightarrow> 's ptab \<Rightarrow> int \<times> 's ptab" where
  "map_page_1g pgd va pa flags s =
     (let va = va AND NOT (push_bit PGDIR_SHIFT 1 - 1);
          pa = pa AND NOT (push_bit PGDIR_SHIFT 1 - 1)
      in (0, sfence (Fence_va va)
               (set_entry (pgd, pgd_index va) (phys_to_pte pa (flags OR PTE_V)) s)))"

definition unmap_page_pte :: "('s \<Rightarrow> u64 \<times> 's) \<Rightarrow> u64 \<Rightarrow> u64 \<Rightarrow> 's ptab \<Rightarrow> 's ptab" where
  "unmap_page_pte alloc pgd va s =
     (let va = page_align va
      in case walk_pgtable alloc pgd va False s of
           (None, s1) \<Rightarrow> s1
         | (Some sl, s1) \<Rightarrow>
             if pte_valid (entry s1 sl) then sfence (Fence_va va) (set_entry sl 0 s1) else s1)"

text \<open>
  The loops of \<^verbatim>\<open>map_region\<close> and \<^verbatim>\<open>map_region_large\<close> add to a 64-bit address and may wrap;
  a run that does not end has the value \<open>None\<close>.
\<close>

partial_function (option) map_region_loop ::
  "('s \<Rightarrow> u64 \<times> 's) \<Rightarrow> u64 \<Rightarrow> u64 \<Rightarrow> u64 \<Rightarrow> u64 \<Rightarrow> u64 \<Rightarrow> 's ptab \<Rightarrow> (int \<times> 's ptab) option" where
  "map_region_loop alloc pgd va pa end flags s =
     (if va < end then
        (case map_page_4k alloc pgd va pa flags s of
           (r, s1) \<Rightarrow> if r < 0 then Some (-1, s1)
                      else map_region_loop alloc pgd (va + PAGE_SIZE) (pa + PAGE_SIZE) end flags s1)
      else Some (0, s))"

definition map_region ::
  "('s \<Rightarrow> u64 \<times> 's) \<Rightarrow> u64 \<Rightarrow> u64 \<Rightarrow> u64 \<Rightarrow> u64 \<Rightarrow> u64 \<Rightarrow> 's ptab \<Rightarrow> (int \<times> 's ptab) option" where
  "map_region alloc pgd va_start pa_start sz flags s =
     (let va = page_align va_start;
          pa = page_align pa_start;
          end = page_align (va_start + sz + PAGE_SIZE - 1)
      in map_region_loop alloc pgd va pa end flags s)"

partial_function (option) map_region_large_loop ::
  "('s \<Rightarrow> u64 \<times> 's) \<Rightarrow> u64 \<Rightarrow> u64 \<Rightarrow> u64 \<Rightarrow> u64 \<Rightarrow> u64 \<Rightarrow> 's ptab \<Rightarrow> (int \<times> 's ptab) option" where
  "map_region_large_loop alloc pgd va pa end flags s =
     (if va < end then
        (let remaining = end - va;
             giga = push_bit PGDIR_SHIFT 1;
             mega = push_bit PMD_SHIFT 1;
             (step, r, s1) =
               (if va AND (giga - 1) = 0 \<and> pa AND (giga - 1) = 0 \<and> remaining \<ge> giga
                then (giga, map_page_1g pgd va pa flags s)
                else if va AND (mega - 1) = 0 \<and> pa AND (mega - 1) = 0 \<and> remaining \<ge> mega
                then (mega, map_page_2m alloc pgd va pa flags s)
                else (PAGE_SIZE, map_page_4k alloc pgd va pa flags s))
         in if r < 0 then Some (-1, s1)
            else map_region_large_loop alloc pgd (va + step) (pa + step) end flags s1)
      else Some (0, s))"

definition map_region_large ::
  "('s \<Rightarrow> u64 \<times> 's) \<Rightarrow> u64 \<Rightarrow> u64 \<Rightarrow> u64 \<Rightarrow> u64 \<Rightarrow> u64 \<Rightarrow> 's ptab \<Rightarrow> (int \<times> 's ptab) option" where
  "map_region_large alloc pgd va_start pa_start sz flags s =
     map_region_large_loop alloc pgd va_start pa_start (va_start + sz) flags s"

subsection \<open>The kernel's root table\<close>

text \<open>\<open>kernel_pgd\<close> is the address of the static root table.\<close>

definition lookup_pa :: "('s \<Rightarrow> u64 \<times> 's) \<Rightarrow> u64 \<Rightarrow> u64 \<Rightarrow> 's ptab \<Rightarrow> u64" where
  "lookup_pa alloc kernel_pgd va s =
     (case walk_pgtable alloc kernel_pgd va False s of
        (None, s1) \<Rightarrow> 0
      | (Some sl, s1) \<Rightarrow>
          if \<not> pte_valid (entry s1 sl) then 0
          else pte_to_phys (entry s1 sl) OR (va AND (PAGE_SIZE - 1)))"

definition protect_page :: "('s \<Rightarrow> u64 \<times> 's) \<Rightarrow> u64 \<Rightarrow> u64 \<Rightarrow> u64 \<Rightarrow> 's ptab \<Rightarrow> int \<times> 's ptab" where
  "protect_page alloc kernel_pgd va flags s =
     (case walk_pgtable alloc kernel_pgd va False s of
        (None, s1) \<Rightarrow> (-1, s1)
      | (Some sl, s1) \<Rightarrow>
          if \<not> pte_valid (entry s1 sl) then (-1, s1)
          else (let phys = pte_to_phys (entry s1 sl)
                in (0, sfence (Fence_va va) (set_entry sl (phys_to_pte phys (flags OR PTE_V)) s1))))"

definition flush_tlb_mm :: "u64 \<Rightarrow> 's ptab \<Rightarrow> 's ptab" where
  "flush_tlb_mm asid s = (if asid = 0 then sfence Fence_all s else sfence (Fence_asid asid) s)"

definition flush_tlb_range :: "u64 \<Rightarrow> u64 \<Rightarrow> 's ptab \<Rightarrow> 's ptab" where
  "flush_tlb_range start sz s = sfence Fence_all s"

text \<open>\<^verbatim>\<open>virt_to_phys\<close> is the identity (\<^verbatim>\<open>page_alloc.c\<close>).\<close>

definition virt_to_phys :: "u64 \<Rightarrow> u64" where
  "virt_to_phys addr = addr"

definition pgtable_init :: "u64 \<Rightarrow> 's ptab \<Rightarrow> int \<times> 's ptab" where
  "pgtable_init kernel_pgd s =
     (let s1 = fold (\<lambda>i. set_entry (kernel_pgd, i) 0) [0..<512] s;
          (r1, s2) = map_page_1g kernel_pgd MMIO_BASE MMIO_BASE PTE_KERNEL s1
      in if r1 < 0 then (-1, s2)
         else
           (let (r2, s3) = map_page_1g kernel_pgd KERNEL_BASE KERNEL_BASE PTE_KERNEL_RWX s2
            in if r2 < 0 then (-1, s3)
               else (0, s3\<lparr>kernel_satp := SATP_SV39_MODE OR drop_bit PAGE_SHIFT (virt_to_phys kernel_pgd)\<rparr>)))"

text \<open>\<^verbatim>\<open>enable_mmu\<close>: the read-back of \<^verbatim>\<open>satp\<close> only selects a message.\<close>

definition enable_mmu :: "'s ptab \<Rightarrow> 's ptab" where
  "enable_mmu s = sfence Fence_all (s\<lparr>csr_satp := kernel_satp s\<rparr>)"

end
