(* ===== verification/DLink.thy ===== *)
theory DLink
  imports Prelude
begin

text \<open>
  Doubly linked, \<open>NULL\<close>-terminated lists over two pointer fields.  The buddy
  allocator (\<^verbatim>\<open>list_add\<close>, \<^verbatim>\<open>list_del\<close> of \<^verbatim>\<open>page_alloc.c\<close>) and the slab allocator
  (\<^verbatim>\<open>slab_list_add\<close>, \<^verbatim>\<open>slab_list_remove\<close> of \<^verbatim>\<open>slab.c\<close>) keep their lists this way.
  \<open>dll nx pv p h xs\<close> says that the list that starts at \<open>h\<close>, whose first element has
  \<open>p\<close> as its predecessor, holds exactly the elements \<open>xs\<close>, in this order.
\<close>

primrec dll :: "('a \<Rightarrow> 'a option) \<Rightarrow> ('a \<Rightarrow> 'a option) \<Rightarrow> 'a option \<Rightarrow> 'a option \<Rightarrow> 'a list \<Rightarrow> bool"
where
  "dll nx pv p h [] \<longleftrightarrow> h = None"
| "dll nx pv p h (x # xs) \<longleftrightarrow> h = Some x \<and> pv x = p \<and> dll nx pv (Some x) (nx x) xs"

lemma dll_None [simp]: "dll nx pv p None xs \<longleftrightarrow> xs = []"
  by (cases xs) auto

lemma dll_Some: "dll nx pv p (Some x) xs \<Longrightarrow> \<exists>ys. xs = x # ys"
  by (cases xs) auto

lemma dll_first_in: "dll nx pv p (Some x) xs \<Longrightarrow> x \<in> set xs"
  by (cases xs) auto

lemma dll_cong:
  assumes "\<And>x. x \<in> set xs \<Longrightarrow> nx x = nx' x" and "\<And>x. x \<in> set xs \<Longrightarrow> pv x = pv' x"
  shows "dll nx pv p h xs = dll nx' pv' p h xs"
  using assms by (induction xs arbitrary: p h) auto

lemma dll_cong_off:
  assumes "x \<notin> set xs"
    and "\<And>y. y \<in> set xs \<Longrightarrow> y \<noteq> x \<Longrightarrow> nx y = nx' y"
    and "\<And>y. y \<in> set xs \<Longrightarrow> y \<noteq> x \<Longrightarrow> pv y = pv' y"
  shows "dll nx pv p h xs = dll nx' pv' p h xs"
  by (rule dll_cong) (use assms in metis)+

lemma dll_unique: "dll nx pv p h xs \<Longrightarrow> dll nx pv p' h ys \<Longrightarrow> xs = ys"
proof (induction xs arbitrary: p h p' ys)
  case Nil
  then show ?case by simp
next
  case (Cons x xs)
  then obtain zs where "ys = x # zs" by (auto dest: dll_Some)
  with Cons show ?case by auto
qed

lemma dll_suffix: "dll nx pv p h (xs @ y # ys) \<Longrightarrow> dll nx pv (Some y) (nx y) ys"
  by (induction xs arbitrary: p h) auto

lemma dll_distinct: "dll nx pv p h xs \<Longrightarrow> distinct xs"
proof (induction xs arbitrary: p h)
  case Nil
  then show ?case by simp
next
  case (Cons x xs)
  have "x \<notin> set xs"
  proof
    assume "x \<in> set xs"
    then obtain as bs where xs: "xs = as @ x # bs" by (auto simp: in_set_conv_decomp)
    from Cons.prems have a: "dll nx pv (Some x) (nx x) xs" by simp
    then have "dll nx pv (Some x) (nx x) bs" unfolding xs by (rule dll_suffix)
    with a have "xs = bs" by (rule dll_unique)
    with xs show False by simp
  qed
  with Cons show ?case by auto
qed

lemma dll_add:
  assumes l: "dll nx pv None h xs" and x: "x \<notin> set xs"
    and nx': "\<And>y. nx' y = (if y = x then h else nx y)"
    and pv': "\<And>y. pv' y = (if y = x then None else if Some y = h then Some x else pv y)"
  shows "dll nx' pv' None (Some x) (x # xs)"
proof (cases xs)
  case Nil
  with l show ?thesis by (simp add: nx' pv')
next
  case (Cons z zs)
  with l have h: "h = Some z" and zs: "dll nx pv (Some z) (nx z) zs" by auto
  have d: "distinct xs" using l by (rule dll_distinct)
  have "dll nx' pv' (Some z) (nx z) zs = dll nx pv (Some z) (nx z) zs"
    by (rule dll_cong) (use d x Cons h in \<open>auto simp: nx' pv'\<close>)
  with zs Cons h x show ?thesis by (auto simp: nx' pv')
qed

text \<open>
  Unlinking \<open>x\<close>: its predecessor (or the head) takes its successor, its successor
  takes its predecessor, and its own pointers are cleared.
\<close>

lemma dll_prev: "dll nx pv p h (xs @ x # ys) \<Longrightarrow> pv x = (if xs = [] then p else Some (last xs))"
  by (induction xs arbitrary: p h) auto

lemma dll_next:
  "dll nx pv p h (xs @ x # ys) \<Longrightarrow> nx x = (case ys of [] \<Rightarrow> None | y # _ \<Rightarrow> Some y)"
  by (drule dll_suffix) (auto split: list.splits)

lemma dll_remove_aux:
  assumes "dll nx pv p h (xs @ x # ys)" and "distinct (xs @ x # ys)"
    and nx': "\<And>y. y \<noteq> x \<Longrightarrow> nx' y = (if xs \<noteq> [] \<and> y = last xs then nx x else nx y)"
    and pv': "\<And>y. y \<noteq> x \<Longrightarrow> pv' y = (if Some y = nx x then (if xs = [] then p else Some (last xs)) else pv y)"
  shows "dll nx' pv' p (if xs = [] then nx x else h) (xs @ ys)"
  using assms
proof (induction xs arbitrary: p h)
  case Nil
  show ?case
  proof (cases ys)
    case Nil
    with Nil.prems show ?thesis by simp
  next
    case (Cons z zs)
    with Nil.prems have "nx x = Some z" and zs: "dll nx pv (Some z) (nx z) zs" by auto
    moreover have "dll nx' pv' (Some z) (nx z) zs = dll nx pv (Some z) (nx z) zs"
      by (rule dll_cong_off [where x = x]) (use Nil.prems Cons in \<open>auto\<close>)
    moreover have "nx' z = nx z" "pv' z = p" using Nil.prems Cons by auto
    ultimately show ?thesis using Cons by simp
  qed
next
  case (Cons u us)
  have u: "pv' u = pv u"
  proof -
    have "Some u \<noteq> nx x"
      using dll_next [of nx pv p h "u # us" x ys] Cons.prems(1,2) by (auto split: list.splits)
    with Cons.prems show ?thesis by auto
  qed
  show ?case
  proof (cases "us = []")
    case True
    show ?thesis
    proof (cases ys)
      case Nil
      with Cons.prems True u show ?thesis by auto
    next
      case (Cons z zs)
      have "dll nx' pv' (Some z) (nx z) zs = dll nx pv (Some z) (nx z) zs"
        by (rule dll_cong_off [where x = x]) (use Cons.prems True Cons in \<open>auto\<close>)
      moreover have "nx' z = nx z" "pv' z = Some u" using Cons.prems True Cons by auto
      ultimately show ?thesis using Cons.prems True Cons u by auto
    qed
  next
    case False
    have "dll nx' pv' (Some u) (if us = [] then nx x else nx u) (us @ ys)"
      by (rule Cons.IH) (use Cons.prems False in \<open>auto\<close>)
    moreover have "nx' u = nx u" using Cons.prems False by auto
    ultimately show ?thesis using Cons.prems False u by simp
  qed
qed

lemma dll_remove:
  assumes l: "dll nx pv None h xs" and x: "x \<in> set xs"
    and nx': "\<And>y. y \<noteq> x \<Longrightarrow> nx' y = (if pv x = Some y then nx x else nx y)"
    and pv': "\<And>y. y \<noteq> x \<Longrightarrow> pv' y = (if nx x = Some y then pv x else pv y)"
  shows "dll nx' pv' None (if pv x = None then nx x else h) (remove1 x xs)"
proof -
  from x obtain as bs where xs: "xs = as @ x # bs" and "x \<notin> set as"
    by (auto dest: split_list_first)
  have d: "distinct (as @ x # bs)" using l xs dll_distinct by blast
  have p: "pv x = (if as = [] then None else Some (last as))"
    using l unfolding xs by (rule dll_prev)
  have "dll nx' pv' None (if as = [] then nx x else h) (as @ bs)"
    by (rule dll_remove_aux [OF l [unfolded xs] d]) (auto simp: nx' pv' p)
  moreover have "remove1 x xs = as @ bs" using \<open>x \<notin> set as\<close> by (simp add: xs remove1_append)
  ultimately show ?thesis by (simp add: p split: if_splits)
qed

text \<open>In a list the neighbours of an element are elements other than it.\<close>

lemma dll_neighbours:
  assumes l: "dll nx pv None h xs" and x: "x \<in> set xs"
  shows "\<And>y. nx x = Some y \<Longrightarrow> y \<in> set xs \<and> y \<noteq> x \<and> pv y = Some x"
    and "\<And>y. pv x = Some y \<Longrightarrow> y \<in> set xs \<and> y \<noteq> x \<and> nx y = Some x"
proof -
  from x obtain as bs where xs: "xs = as @ x # bs" by (auto dest: split_list)
  have d: "distinct xs" using l by (rule dll_distinct)
  have n: "nx x = (case bs of [] \<Rightarrow> None | y # _ \<Rightarrow> Some y)"
    using l unfolding xs by (rule dll_next)
  have p: "pv x = (if as = [] then None else Some (last as))"
    using l unfolding xs by (rule dll_prev)
  have s: "dll nx pv (Some x) (nx x) bs" using l unfolding xs by (rule dll_suffix)
  show "y \<in> set xs \<and> y \<noteq> x \<and> pv y = Some x" if "nx x = Some y" for y
    using that n s d xs by (auto split: list.splits)
  show "y \<in> set xs \<and> y \<noteq> x \<and> nx y = Some x" if y: "pv x = Some y" for y
  proof -
    from y p have as: "as \<noteq> []" and y': "y = last as" by (auto split: if_splits)
    then have "as = butlast as @ [y]" by simp
    then have xs': "xs = butlast as @ y # (x # bs)" using xs by (metis append.assoc append_Cons append_Nil)
    with l have "nx y = Some x" using dll_next [of nx pv None h "butlast as" y "x # bs"] by simp
    moreover have "y \<in> set xs" unfolding xs' by simp
    moreover have "y \<noteq> x" using d unfolding xs' by auto
    ultimately show ?thesis by simp
  qed
qed

lemma dll_head: "dll nx pv p h xs \<Longrightarrow> h = (case xs of [] \<Rightarrow> None | x # _ \<Rightarrow> Some x)"
  by (auto split: list.splits)

text \<open>A family of disjoint lists over the same two fields, with heads \<open>hs\<close>.\<close>

definition dlls :: "('a \<Rightarrow> 'a option) \<Rightarrow> ('a \<Rightarrow> 'a option) \<Rightarrow> ('k \<Rightarrow> 'a option) \<Rightarrow> ('k \<Rightarrow> 'a list) \<Rightarrow> bool" where
  "dlls nx pv hs G \<longleftrightarrow> (\<forall>k. dll nx pv None (hs k) (G k)) \<and> (\<forall>j k. j \<noteq> k \<longrightarrow> set (G j) \<inter> set (G k) = {})"

lemma dlls_add:
  assumes g: "dlls nx pv hs G" and x: "\<And>j. x \<notin> set (G j)"
    and nx': "\<And>y. nx' y = (if y = x then hs k else nx y)"
    and pv': "\<And>y. pv' y = (if y = x then None else if Some y = hs k then Some x else pv y)"
  shows "dlls nx' pv' (hs(k := Some x)) (G(k := x # G k))"
proof -
  have l: "dll nx pv None (hs j) (G j)" for j using g by (simp add: dlls_def)
  have "dll nx' pv' None (hs j) (G j)" if "j \<noteq> k" for j
  proof -
    have "y \<noteq> x \<and> Some y \<noteq> hs k" if "y \<in> set (G j)" for y
      using that x g l [of k] \<open>j \<noteq> k\<close> unfolding dlls_def by (metis dll_first_in disjoint_iff)
    then have "dll nx' pv' None (hs j) (G j) = dll nx pv None (hs j) (G j)"
      by (intro dll_cong) (auto simp: nx' pv')
    with l show ?thesis by simp
  qed
  moreover have "dll nx' pv' None (Some x) (x # G k)" by (rule dll_add [OF l x nx' pv'])
  ultimately show ?thesis using g x by (auto simp: dlls_def)
qed

lemma dlls_remove:
  assumes g: "dlls nx pv hs G" and x: "x \<in> set (G k)"
    and nx': "\<And>y. y \<noteq> x \<Longrightarrow> nx' y = (if pv x = Some y then nx x else nx y)"
    and pv': "\<And>y. y \<noteq> x \<Longrightarrow> pv' y = (if nx x = Some y then pv x else pv y)"
  shows "dlls nx' pv' (hs(k := if pv x = None then nx x else hs k)) (G(k := remove1 x (G k)))"
proof -
  have l: "dll nx pv None (hs j) (G j)" for j using g by (simp add: dlls_def)
  note nb = dll_neighbours [OF l x]
  have "dll nx' pv' None (hs j) (G j)" if "j \<noteq> k" for j
  proof -
    have "y \<noteq> x \<and> pv x \<noteq> Some y \<and> nx x \<noteq> Some y" if "y \<in> set (G j)" for y
    proof -
      have "y \<notin> set (G k)" using that g \<open>j \<noteq> k\<close> unfolding dlls_def by blast
      then show ?thesis using nb x by blast
    qed
    then have "dll nx' pv' None (hs j) (G j) = dll nx pv None (hs j) (G j)"
      by (intro dll_cong) (auto simp: nx' pv')
    with l show ?thesis by simp
  qed
  moreover have "dll nx' pv' None (if pv x = None then nx x else hs k) (remove1 x (G k))"
    by (rule dll_remove [OF l x nx' pv'])
  moreover have "set ((G(k := remove1 x (G k))) j) \<subseteq> set (G j)" for j using set_remove1_subset [of x "G k"] by simp
  then have "set ((G(k := remove1 x (G k))) i) \<inter> set ((G(k := remove1 x (G k))) j) = {}" if "i \<noteq> j" for i j
    using g that unfolding dlls_def by blast
  ultimately show ?thesis by (auto simp: dlls_def)
qed

text \<open>Singly linked lists: \<open>chain lk h xs\<close>, the elements \<open>xs\<close> from \<open>h\<close> along \<open>lk\<close>.\<close>

primrec chain :: "('a \<Rightarrow> 'a option) \<Rightarrow> 'a option \<Rightarrow> 'a list \<Rightarrow> bool" where
  "chain lk h [] \<longleftrightarrow> h = None"
| "chain lk h (x # xs) \<longleftrightarrow> h = Some x \<and> chain lk (lk x) xs"

lemma chain_cong: "(\<And>x. x \<in> set xs \<Longrightarrow> lk x = lk' x) \<Longrightarrow> chain lk h xs = chain lk' h xs"
  by (induction xs arbitrary: h) auto

lemma chain_head: "chain lk h xs \<Longrightarrow> h = (case xs of [] \<Rightarrow> None | x # _ \<Rightarrow> Some x)"
  by (cases xs) auto

lemma chain_append: "chain lk h (xs @ x # ys) \<Longrightarrow> chain lk (lk x) ys"
  by (induction xs arbitrary: h) auto

lemma chain_unique: "chain lk h xs \<Longrightarrow> chain lk h ys \<Longrightarrow> xs = ys"
proof (induction xs arbitrary: h ys)
  case Nil
  then show ?case by (cases ys) auto
next
  case (Cons x xs)
  then show ?case by (cases ys) auto
qed

lemma chain_distinct: "chain lk h xs \<Longrightarrow> distinct xs"
proof (induction xs arbitrary: h)
  case (Cons x xs)
  have "x \<notin> set xs"
  proof
    assume "x \<in> set xs"
    then obtain ys zs where xs: "xs = ys @ x # zs" by (auto dest: split_list)
    have c: "chain lk (lk x) (ys @ x # zs)" using Cons.prems xs by simp
    then have c': "chain lk (lk x) zs" by (rule chain_append)
    from chain_unique [OF c c'] show False by simp
  qed
  then show ?case using Cons by auto
qed simp

lemma chain_insert:
  assumes "chain lk h (ys @ zs)" "distinct ys" "set ys \<inter> set zs = {}" "x \<notin> set ys" "x \<notin> set zs"
    and lk': "\<And>y. y \<in> set zs \<Longrightarrow> lk' y = lk y" "\<And>y. y \<in> set (butlast ys) \<Longrightarrow> lk' y = lk y"
    and x: "lk' x = (case zs of [] \<Rightarrow> None | z # _ \<Rightarrow> Some z)" and l: "ys \<noteq> [] \<Longrightarrow> lk' (last ys) = Some x"
    and h': "h' = (if ys = [] then Some x else h)"
  shows "chain lk' h' (ys @ x # zs)"
  using assms
proof (induction ys arbitrary: h h')
  case Nil
  have "chain lk' h zs" using Nil.prems(1,6) chain_cong [of zs lk' lk h] by simp
  then show ?case using Nil.prems chain_head [of lk' h zs] by simp
next
  case (Cons y ys)
  show ?case
  proof (cases ys)
    case Nil
    have "chain lk' (lk y) zs" using Cons.prems(1,6) Nil chain_cong [of zs lk' lk] by simp
    then show ?thesis using Cons.prems Nil chain_head [of lk' "lk y" zs] by simp
  next
    case (Cons y' ys')
    have "chain lk' (lk y) (ys @ x # zs)"
      by (rule Cons.IH [where h = "lk y"]) (use Cons.prems Cons in auto)
    moreover have "lk' y = lk y" "h' = h" "h = Some y" using Cons.prems Cons by auto
    ultimately show ?thesis by simp
  qed
qed

lemma chain_remove:
  assumes "chain lk h (ys @ x # zs)"
    and lk': "\<And>y. y \<in> set zs \<Longrightarrow> lk' y = lk y" "\<And>y. y \<in> set (butlast ys) \<Longrightarrow> lk' y = lk y"
    and l: "ys \<noteq> [] \<Longrightarrow> lk' (last ys) = lk x"
    and h': "h' = (if ys = [] then lk x else h)"
  shows "chain lk' h' (ys @ zs)"
  using assms
proof (induction ys arbitrary: h h')
  case Nil
  then show ?case using chain_cong [of zs lk' lk "lk x"] by simp
next
  case (Cons y ys)
  show ?case
  proof (cases ys)
    case Nil
    then show ?thesis using Cons.prems chain_cong [of zs lk' lk "lk x"] by simp
  next
    case (Cons y' ys')
    have "chain lk' (lk y) (ys @ zs)"
      by (rule Cons.IH [where h = "lk y"]) (use Cons.prems Cons in auto)
    moreover have "lk' y = lk y" "h' = h" "h = Some y" using Cons.prems Cons by auto
    ultimately show ?thesis by simp
  qed
qed

end
