(* ===== verification/PageAlloc.thy ===== *)
theory PageAlloc
  imports DLink
begin

text \<open>
  The buddy page allocator, \<^verbatim>\<open>arch/riscv64/mm/page_alloc.c\<close>.

  A \<^verbatim>\<open>struct page *\<close> is an index into \<open>mem_map\<close>, with \<open>None\<close> for \<open>NULL\<close>; the array
  itself is a function on indices (the code places it at the start of the managed
  region).  Page frame numbers are natural numbers: they are at most \<open>end_pfn\<close>, so no
  operation on them can overflow an \<^verbatim>\<open>unsigned long\<close>.  Counters and addresses are
  64-bit words, and \<^verbatim>\<open>int order\<close> is an \<open>int\<close>.  The console messages of the code are not
  part of the model.
\<close>

unbundle bit_operations_syntax

subsection \<open>Data\<close>

definition MAX_ORDER :: nat where "MAX_ORDER = 11"

definition PG_FREE :: u64 where "PG_FREE = 1"
definition PG_USED :: u64 where "PG_USED = 2"
definition PG_RESERVED :: u64 where "PG_RESERVED = 4"
definition PG_HEAD :: u64 where "PG_HEAD = 8"

definition PHYS_MEMORY_BASE :: u64 where "PHYS_MEMORY_BASE = 0x80000000"
definition PHYS_MEMORY_SIZE :: u64 where "PHYS_MEMORY_SIZE = 128 * 1024 * 1024"
definition KERNEL_RESERVED :: u64 where "KERNEL_RESERVED = 4 * 1024 * 1024"

text \<open>\<^verbatim>\<open>sizeof(struct page)\<close>: five 8-byte slots (\<^verbatim>\<open>order\<close> is padded).\<close>

definition sizeof_page :: u64 where "sizeof_page = 40"

record page =
  pg_flags :: u64
  pg_order :: int
  pg_next :: "nat option"
  pg_prev :: "nat option"
  pg_ref_count :: u64

record free_area =
  fa_free_list :: "nat option"
  fa_nr_free :: u64

record buddy =
  mem_map :: "nat \<Rightarrow> page"
  mem_map_pages :: nat
  start_pfn :: nat
  end_pfn :: nat
  total_pages :: u64
  free_page_count :: u64
  free_area :: "nat \<Rightarrow> free_area"

definition upd_page :: "nat \<Rightarrow> (page \<Rightarrow> page) \<Rightarrow> buddy \<Rightarrow> buddy" where
  "upd_page p f s = s\<lparr>mem_map := (mem_map s)(p := f (mem_map s p))\<rparr>"

subsection \<open>Operations\<close>

definition pfn_to_phys :: "nat \<Rightarrow> u64" where
  "pfn_to_phys pfn = push_bit PAGE_SHIFT (of_nat pfn)"

definition phys_to_pfn :: "u64 \<Rightarrow> nat" where
  "phys_to_pfn phys = unat (drop_bit PAGE_SHIFT phys)"

definition pfn_to_page :: "buddy \<Rightarrow> nat \<Rightarrow> nat option" where
  "pfn_to_page s pfn =
     (if pfn < start_pfn s \<or> pfn \<ge> end_pfn s then None else Some (pfn - start_pfn s))"

definition page_to_pfn :: "buddy \<Rightarrow> nat \<Rightarrow> nat" where
  "page_to_pfn s p = p + start_pfn s"

definition page_to_phys :: "buddy \<Rightarrow> nat \<Rightarrow> u64" where
  "page_to_phys s p = pfn_to_phys (page_to_pfn s p)"

text \<open>\<open>list_add k p\<close> is \<^verbatim>\<open>list_add(&free_area[k], p)\<close>.\<close>

definition list_add :: "nat \<Rightarrow> nat \<Rightarrow> buddy \<Rightarrow> buddy" where
  "list_add k p s =
     (let area = free_area s k;
          s1 = upd_page p (\<lambda>pg. pg\<lparr>pg_prev := None, pg_next := fa_free_list area\<rparr>) s;
          s2 = (case fa_free_list area of
                  None \<Rightarrow> s1
                | Some h \<Rightarrow> upd_page h (\<lambda>pg. pg\<lparr>pg_prev := Some p\<rparr>) s1)
      in s2\<lparr>free_area := (free_area s2)
              (k := \<lparr>fa_free_list = Some p, fa_nr_free = fa_nr_free area + 1\<rparr>)\<rparr>)"

definition list_del :: "nat \<Rightarrow> nat \<Rightarrow> buddy \<Rightarrow> buddy" where
  "list_del k p s =
     (let s1 = (case pg_prev (mem_map s p) of
                  Some q \<Rightarrow> upd_page q (\<lambda>pg. pg\<lparr>pg_next := pg_next (mem_map s p)\<rparr>) s
                | None \<Rightarrow> s\<lparr>free_area := (free_area s)
                     (k := (free_area s k)\<lparr>fa_free_list := pg_next (mem_map s p)\<rparr>)\<rparr>);
          s2 = (case pg_next (mem_map s1 p) of
                  Some q \<Rightarrow> upd_page q (\<lambda>pg. pg\<lparr>pg_prev := pg_prev (mem_map s1 p)\<rparr>) s1
                | None \<Rightarrow> s1);
          s3 = upd_page p (\<lambda>pg. pg\<lparr>pg_next := None, pg_prev := None\<rparr>) s2
      in s3\<lparr>free_area := (free_area s3)
              (k := (free_area s3 k)\<lparr>fa_nr_free := fa_nr_free (free_area s3 k) - 1\<rparr>)\<rparr>)"

definition find_buddy :: "buddy \<Rightarrow> nat \<Rightarrow> nat \<Rightarrow> nat option" where
  "find_buddy s p order =
     (let pfn = page_to_pfn s p;
          buddy_pfn = pfn XOR 2 ^ order
      in if buddy_pfn < start_pfn s \<or> buddy_pfn \<ge> end_pfn s then None
         else pfn_to_page s buddy_pfn)"

text \<open>
  \<^verbatim>\<open>alloc_pages\<close>: the inner \<^verbatim>\<open>while\<close> loop is \<open>split_block\<close>, the outer \<^verbatim>\<open>for\<close> loop is
  \<open>alloc_scan\<close>.
\<close>

fun split_block :: "nat \<Rightarrow> nat \<Rightarrow> nat \<Rightarrow> buddy \<Rightarrow> buddy" where
  "split_block order 0 p s = s"
| "split_block order (Suc current_order) p s =
     (if Suc current_order > order then
        (let b = p + 2 ^ current_order;
             s1 = upd_page b (\<lambda>pg. pg\<lparr>pg_flags := PG_FREE OR PG_HEAD,
                     pg_order := int current_order, pg_ref_count := 0\<rparr>) s
         in split_block order current_order p (list_add current_order b s1))
      else s)"

definition mark_used :: "nat \<Rightarrow> nat \<Rightarrow> buddy \<Rightarrow> buddy" where
  "mark_used order p s =
     (let s1 = upd_page p (\<lambda>pg. pg\<lparr>pg_flags := PG_USED OR PG_HEAD,
                 pg_order := int order, pg_ref_count := 1\<rparr>) s
      in s1\<lparr>free_page_count := free_page_count s1 - 2 ^ order\<rparr>)"

function alloc_scan :: "nat \<Rightarrow> nat \<Rightarrow> buddy \<Rightarrow> u64 \<times> buddy" where
  "alloc_scan order current_order s =
     (if current_order \<le> MAX_ORDER then
        (case fa_free_list (free_area s current_order) of
           Some p \<Rightarrow>
             (let s1 = list_del current_order p s;
                  s2 = split_block order current_order p s1;
                  s3 = mark_used order p s2
              in (page_to_phys s3 p, s3))
         | None \<Rightarrow> alloc_scan order (Suc current_order) s)
      else (0, s))"
  by pat_completeness auto
termination
  by (relation "measure (\<lambda>(_, current_order, _). Suc MAX_ORDER - current_order)") auto

declare alloc_scan.simps [simp del]

definition alloc_pages :: "int \<Rightarrow> buddy \<Rightarrow> u64 \<times> buddy" where
  "alloc_pages order s =
     (if order < 0 \<or> order > int MAX_ORDER then (0, s)
      else alloc_scan (nat order) (nat order) s)"

text \<open>\<^verbatim>\<open>free_pages\<close>: the coalescing \<^verbatim>\<open>while\<close> loop, then the function.\<close>

function coalesce :: "nat \<Rightarrow> nat \<Rightarrow> buddy \<Rightarrow> nat \<times> nat \<times> buddy" where
  "coalesce order p s =
     (if order < MAX_ORDER then
        (case find_buddy s p order of
           None \<Rightarrow> (order, p, s)
         | Some b \<Rightarrow>
             if pg_flags (mem_map s b) AND PG_FREE = 0 \<or> pg_order (mem_map s b) \<noteq> int order
             then (order, p, s)
             else
               (let s1 = list_del order b s;
                    s2 = upd_page b (\<lambda>pg. pg\<lparr>pg_flags := 0, pg_order := -1\<rparr>) s1;
                    p' = (if b < p then b else p);
                    s3 = upd_page p' (\<lambda>pg. pg\<lparr>pg_order := int (Suc order)\<rparr>) s2
                in coalesce (Suc order) p' s3))
      else (order, p, s))"
  by pat_completeness auto
termination
  by (relation "measure (\<lambda>(order, _, _). MAX_ORDER - order)") auto

declare coalesce.simps [simp del]

definition free_pages :: "u64 \<Rightarrow> int \<Rightarrow> buddy \<Rightarrow> buddy" where
  "free_pages addr order s =
     (if addr = 0 \<or> order < 0 \<or> order > int MAX_ORDER then s
      else
        (case pfn_to_page s (phys_to_pfn addr) of
           None \<Rightarrow> s
         | Some p \<Rightarrow>
             if pg_flags (mem_map s p) AND PG_HEAD = 0 then s
             else
               (let s1 = (if pg_ref_count (mem_map s p) > 0
                          then upd_page p (\<lambda>pg. pg\<lparr>pg_ref_count := pg_ref_count pg - 1\<rparr>) s
                          else s)
                in if pg_ref_count (mem_map s p) > 0 \<and> pg_ref_count (mem_map s1 p) > 0 then s1
                   else
                     (let s2 = upd_page p (\<lambda>pg. pg\<lparr>pg_flags := PG_FREE OR PG_HEAD\<rparr>) s1;
                          s3 = s2\<lparr>free_page_count := free_page_count s2 + 2 ^ nat order\<rparr>;
                          (order', p', s4) = coalesce (nat order) p s3
                      in list_add order' p' s4))))"

definition alloc_page :: "buddy \<Rightarrow> u64 \<times> buddy" where
  "alloc_page s = alloc_pages 0 s"

definition free_page :: "u64 \<Rightarrow> buddy \<Rightarrow> buddy" where
  "free_page addr s = free_pages addr 0 s"

text \<open>\<^verbatim>\<open>get_mem_info\<close> returns both values; a caller that passes \<^verbatim>\<open>NULL\<close> ignores one.\<close>

definition get_mem_info :: "buddy \<Rightarrow> u64 \<times> u64" where
  "get_mem_info s = (total_pages s * PAGE_SIZE, free_page_count s * PAGE_SIZE)"

text \<open>
  \<^verbatim>\<open>page_init\<close>.  \<open>largest_order\<close> is the inner \<^verbatim>\<open>for\<close> loop, which counts down from
  \<^verbatim>\<open>MAX_ORDER\<close> and stops at the first order whose block starts at \<open>pfn\<close> and ends inside
  the region; \<^verbatim>\<open>x & ~(block_size - 1)\<close> clears the low bits, that is, takes away
  \<open>x mod block_size\<close>.
\<close>

definition fits :: "nat \<Rightarrow> nat \<Rightarrow> nat \<Rightarrow> bool" where
  "fits end pfn order =
     (let block_size = 2 ^ order;
          x = pfn + block_size - 1;
          aligned_pfn = x - x mod block_size
      in aligned_pfn = pfn \<and> pfn + block_size \<le> end)"

fun largest_order :: "nat \<Rightarrow> nat \<Rightarrow> nat \<Rightarrow> nat option" where
  "largest_order end pfn 0 = (if fits end pfn 0 then Some 0 else None)"
| "largest_order end pfn (Suc order) =
     (if fits end pfn (Suc order) then Some (Suc order) else largest_order end pfn order)"

definition add_block :: "nat \<Rightarrow> nat \<Rightarrow> buddy \<Rightarrow> buddy" where
  "add_block order p s =
     (let s1 = upd_page p (\<lambda>pg. pg\<lparr>pg_flags := PG_FREE OR PG_HEAD, pg_order := int order\<rparr>) s;
          s2 = list_add order p s1
      in s2\<lparr>free_page_count := free_page_count s2 + 2 ^ order\<rparr>)"

lemma end_pfn_add_block [simp]: "end_pfn (add_block k p s) = end_pfn s"
  by (simp add: add_block_def Let_def upd_page_def list_add_def split: option.split)

function add_blocks :: "nat \<Rightarrow> buddy \<Rightarrow> buddy" where
  "add_blocks pfn s =
     (if pfn < end_pfn s then
        (case largest_order (end_pfn s) pfn MAX_ORDER of
           Some order \<Rightarrow> add_blocks (pfn + 2 ^ order) (add_block order (pfn - start_pfn s) s)
         | None \<Rightarrow> add_blocks (pfn + 1) s)
      else s)"
  by pat_completeness auto
termination
  by (relation "measure (\<lambda>(pfn, s). end_pfn s - pfn)")
    (auto intro: diff_less_mono2 simp: less_diff_conv2)

declare add_blocks.simps [simp del]

definition page_init :: "buddy \<Rightarrow> buddy" where
  "page_init s0 =
     (let managed_start = PHYS_MEMORY_BASE + KERNEL_RESERVED;
          managed_end = PHYS_MEMORY_BASE + PHYS_MEMORY_SIZE;
          spfn = phys_to_pfn managed_start;
          epfn = phys_to_pfn managed_end;
          total = of_nat epfn - of_nat spfn;
          mem_map_size = total * sizeof_page;
          mmp = unat ((mem_map_size + PAGE_SIZE - 1) div PAGE_SIZE);
          s1 = s0\<lparr>start_pfn := spfn, end_pfn := epfn, total_pages := total, mem_map_pages := mmp\<rparr>;
          s2 = fold (\<lambda>p. upd_page p (\<lambda>pg. pg\<lparr>pg_flags := 0, pg_order := -1, pg_next := None,
                  pg_prev := None, pg_ref_count := 0\<rparr>)) [0..<epfn - spfn] s1;
          s3 = s2\<lparr>free_area := fold (\<lambda>k fa. fa(k := \<lparr>fa_free_list = None, fa_nr_free = 0\<rparr>))
                  [0..<Suc MAX_ORDER] (free_area s2)\<rparr>;
          s4 = fold (\<lambda>p. upd_page p (\<lambda>pg. pg\<lparr>pg_flags := PG_RESERVED\<rparr>)) [0..<mmp] s3;
          pfn = spfn + mmp;
          (pfn', s5) = (if odd pfn
                        then (pfn + 1, upd_page (pfn - spfn) (\<lambda>pg. pg\<lparr>pg_flags := PG_RESERVED\<rparr>) s4)
                        else (pfn, s4))
      in add_blocks pfn' (s5\<lparr>free_page_count := 0\<rparr>))"

end
