(* ===== verification/BuddyInv.thy ===== *)
theory BuddyInv
  imports PageAlloc
begin

text \<open>
  The invariant of the buddy allocator and that every operation keeps it.

  A \<^emph>\<open>block\<close> is a page index with an order.  The abstract state is the set of
  allocated blocks (read off the page flags) and the free blocks (the contents of the
  free lists).  \<open>links_ok\<close> says that the free lists are well-formed and hold the
  lists \<open>fl\<close>; \<open>marks_ok\<close> says that free, allocated and \<^emph>\<open>detached\<close> blocks (those that an
  operation has taken off a list and not yet put back) are aligned, in range and
  pairwise disjoint, and that the page flags agree with them.
\<close>

unbundle bit_operations_syntax

type_synonym block = "nat \<times> nat"

definition npages :: "buddy \<Rightarrow> nat" where
  "npages s = end_pfn s - start_pfn s"

definition block_pages :: "block \<Rightarrow> nat set" where
  "block_pages b = {fst b ..< fst b + 2 ^ snd b}"

definition free_blocks :: "(nat \<Rightarrow> nat list) \<Rightarrow> block set" where
  "free_blocks fl = {(p, k). p \<in> set (fl k)}"

definition allocated :: "buddy \<Rightarrow> block set" where
  "allocated s = {(p, k). p < npages s \<and> pg_flags (mem_map s p) AND PG_USED \<noteq> 0
                          \<and> pg_order (mem_map s p) = int k}"

definition links_ok :: "buddy \<Rightarrow> (nat \<Rightarrow> nat list) \<Rightarrow> bool" where
  "links_ok s fl \<longleftrightarrow>
     (\<forall>k \<le> MAX_ORDER.
        dll (\<lambda>p. pg_next (mem_map s p)) (\<lambda>p. pg_prev (mem_map s p)) None
            (fa_free_list (free_area s k)) (fl k)
        \<and> fa_nr_free (free_area s k) = of_nat (length (fl k)))
     \<and> (\<forall>k > MAX_ORDER. fl k = [])
     \<and> (\<forall>j k. j \<noteq> k \<longrightarrow> set (fl j) \<inter> set (fl k) = {})"

definition blocks_ok :: "buddy \<Rightarrow> block set \<Rightarrow> bool" where
  "blocks_ok s B \<longleftrightarrow>
     (\<forall>p k. (p, k) \<in> B \<longrightarrow> k \<le> MAX_ORDER \<and> 2 ^ k dvd page_to_pfn s p \<and> p + 2 ^ k \<le> npages s)
     \<and> (\<forall>b \<in> B. \<forall>c \<in> B. b \<noteq> c \<longrightarrow> block_pages b \<inter> block_pages c = {})"

definition marks_ok :: "buddy \<Rightarrow> block set \<Rightarrow> block set \<Rightarrow> bool" where
  "marks_ok s F X \<longleftrightarrow>
     blocks_ok s (F \<union> allocated s \<union> X) \<and> F \<inter> X = {}
     \<and> (\<forall>p k. (p, k) \<in> F \<longrightarrow> pg_order (mem_map s p) = int k
                               \<and> pg_flags (mem_map s p) \<in> {0, PG_FREE OR PG_HEAD})
     \<and> (\<forall>p k. (p, k) \<in> X \<longrightarrow> pg_flags (mem_map s p) AND PG_USED = 0)
     \<and> (\<forall>p < npages s. pg_flags (mem_map s p) AND PG_FREE \<noteq> 0 \<longrightarrow>
          (\<exists>k. (p, k) \<in> F \<union> X)
          \<or> (\<exists>q j. (q, j) \<in> F \<union> allocated s \<union> X \<and> q < p \<and> p < q + 2 ^ j))
     \<and> (\<forall>p < npages s. pg_flags (mem_map s p) AND PG_USED \<noteq> 0 \<longrightarrow>
          pg_flags (mem_map s p) = PG_USED OR PG_HEAD
          \<and> pg_ref_count (mem_map s p) = 1 \<and> pg_order (mem_map s p) \<ge> 0)"

text \<open>The pages of a set of blocks.\<close>

definition space :: "block set \<Rightarrow> nat set" where
  "space B = (\<Union>b \<in> B. block_pages b)"

definition free_total :: "(nat \<Rightarrow> nat list) \<Rightarrow> nat" where
  "free_total fl = (\<Sum>k \<le> MAX_ORDER. length (fl k) * 2 ^ k)"

definition range_ok :: "buddy \<Rightarrow> bool" where
  "range_ok s \<longleftrightarrow> 0 < start_pfn s \<and> start_pfn s \<le> end_pfn s \<and> end_pfn s < 2 ^ 44"

definition buddy_rep :: "buddy \<Rightarrow> (nat \<Rightarrow> nat list) \<Rightarrow> bool" where
  "buddy_rep s fl \<longleftrightarrow> range_ok s \<and> links_ok s fl \<and> marks_ok s (free_blocks fl) {}
                    \<and> free_page_count s = of_nat (free_total fl)"

subsection \<open>Fields the list operations leave alone\<close>

named_theorems buddy_simps \<open>record fields after the low-level operations\<close>

lemma upd_page_simps [buddy_simps]:
  "mem_map (upd_page p f s) = (mem_map s)(p := f (mem_map s p))"
  "free_area (upd_page p f s) = free_area s"
  "start_pfn (upd_page p f s) = start_pfn s" "end_pfn (upd_page p f s) = end_pfn s"
  "free_page_count (upd_page p f s) = free_page_count s"
  "total_pages (upd_page p f s) = total_pages s"
  by (simp_all add: upd_page_def)

lemma list_add_simps [buddy_simps]:
  "pg_flags (mem_map (list_add k p s) q) = pg_flags (mem_map s q)"
  "pg_order (mem_map (list_add k p s) q) = pg_order (mem_map s q)"
  "pg_ref_count (mem_map (list_add k p s) q) = pg_ref_count (mem_map s q)"
  "start_pfn (list_add k p s) = start_pfn s" "end_pfn (list_add k p s) = end_pfn s"
  "free_page_count (list_add k p s) = free_page_count s"
  "total_pages (list_add k p s) = total_pages s"
  by (auto simp: list_add_def Let_def buddy_simps split: option.splits)

lemma list_del_simps [buddy_simps]:
  "pg_flags (mem_map (list_del k p s) q) = pg_flags (mem_map s q)"
  "pg_order (mem_map (list_del k p s) q) = pg_order (mem_map s q)"
  "pg_ref_count (mem_map (list_del k p s) q) = pg_ref_count (mem_map s q)"
  "start_pfn (list_del k p s) = start_pfn s" "end_pfn (list_del k p s) = end_pfn s"
  "free_page_count (list_del k p s) = free_page_count s"
  "total_pages (list_del k p s) = total_pages s"
  by (auto simp: list_del_def Let_def buddy_simps split: option.splits)

lemma marks_cong:
  assumes "start_pfn s' = start_pfn s" "end_pfn s' = end_pfn s"
    and "\<And>p. pg_flags (mem_map s' p) = pg_flags (mem_map s p)"
    and "\<And>p. pg_order (mem_map s' p) = pg_order (mem_map s p)"
    and "\<And>p. pg_ref_count (mem_map s' p) = pg_ref_count (mem_map s p)"
  shows "marks_ok s' F X = marks_ok s F X" and "allocated s' = allocated s"
    and "npages s' = npages s"
  using assms by (simp_all add: marks_ok_def blocks_ok_def allocated_def npages_def page_to_pfn_def)

lemma list_add_marks [buddy_simps]:
  "marks_ok (list_add k p s) F X = marks_ok s F X" "allocated (list_add k p s) = allocated s"
  "npages (list_add k p s) = npages s" "range_ok (list_add k p s) = range_ok s"
  by (rule marks_cong; simp add: buddy_simps)+ (simp add: range_ok_def buddy_simps)

lemma list_del_marks [buddy_simps]:
  "marks_ok (list_del k p s) F X = marks_ok s F X" "allocated (list_del k p s) = allocated s"
  "npages (list_del k p s) = npages s" "range_ok (list_del k p s) = range_ok s"
  by (rule marks_cong; simp add: buddy_simps)+ (simp add: range_ok_def buddy_simps)

subsection \<open>The list operations on the free lists\<close>

lemma list_add_links:
  assumes l: "links_ok s fl" and k: "k \<le> MAX_ORDER" and p: "\<And>j. p \<notin> set (fl j)"
  shows "links_ok (list_add k p s) (fl(k := p # fl k))"
proof -
  let ?s = "list_add k p s"
  let ?n = "\<lambda>s p. pg_next (mem_map s p)" and ?v = "\<lambda>s p. pg_prev (mem_map s p)"
  let ?h = "fa_free_list (free_area s k)"
  have lk: "dll (?n s) (?v s) None ?h (fl k)" using l k by (simp add: links_ok_def)
  have n: "?n ?s y = (if y = p then ?h else ?n s y)" for y
    by (auto simp: list_add_def Let_def buddy_simps split: option.splits)
  have ph: "?h \<noteq> Some p" using lk p [of k] by (auto dest: dll_first_in)
  have v: "?v ?s y = (if y = p then None else if Some y = ?h then Some p else ?v s y)" for y
    using ph by (auto simp: list_add_def Let_def buddy_simps split: option.splits)
  have new: "dll (?n ?s) (?v ?s) None (Some p) (p # fl k)"
    by (rule dll_add [OF lk p n v])
  have other: "dll (?n ?s) (?v ?s) None (fa_free_list (free_area s j)) (fl j)"
    if j: "j \<le> MAX_ORDER" "j \<noteq> k" for j
  proof -
    have "\<And>y. y \<in> set (fl j) \<Longrightarrow> y \<noteq> p \<and> Some y \<noteq> ?h"
      using l j(2) lk p [of j] unfolding links_ok_def by (metis dll_first_in disjoint_iff)
    then have "dll (?n ?s) (?v ?s) None (fa_free_list (free_area s j)) (fl j)
             = dll (?n s) (?v s) None (fa_free_list (free_area s j)) (fl j)"
      by (intro dll_cong) (auto simp: n v)
    then show ?thesis using l j by (simp add: links_ok_def)
  qed
  have fa: "fa_free_list (free_area ?s j) = (if j = k then Some p else fa_free_list (free_area s j))"
    "fa_nr_free (free_area ?s j) = (if j = k then fa_nr_free (free_area s k) + 1
        else fa_nr_free (free_area s j))" for j
    by (auto simp: list_add_def Let_def buddy_simps split: option.splits)
  show ?thesis using l k p new other by (auto simp: links_ok_def fa)
qed

lemma list_del_links:
  assumes l: "links_ok s fl" and p: "p \<in> set (fl k)"
  shows "links_ok (list_del k p s) (fl(k := remove1 p (fl k)))"
proof -
  let ?s = "list_del k p s"
  let ?n = "\<lambda>s p. pg_next (mem_map s p)" and ?v = "\<lambda>s p. pg_prev (mem_map s p)"
  let ?h = "\<lambda>s. fa_free_list (free_area s k)"
  have k: "k \<le> MAX_ORDER" using l p by (cases "k \<le> MAX_ORDER") (auto simp: links_ok_def)
  have lk: "dll (?n s) (?v s) None (?h s) (fl k)" using l k by (simp add: links_ok_def)
  note nb = dll_neighbours [OF lk p]
  have self: "?v s p \<noteq> Some p" "?n s p \<noteq> Some p" using nb by auto
  have n: "?n ?s y = (if y = p then None else if ?v s p = Some y then ?n s p else ?n s y)" for y
    using self by (auto simp: list_del_def Let_def buddy_simps split: option.splits)
  have v: "?v ?s y = (if y = p then None else if ?n s p = Some y then ?v s p else ?v s y)" for y
    using self by (auto simp: list_del_def Let_def buddy_simps split: option.splits)
  have fa: "fa_free_list (free_area ?s j) = (if j = k \<and> ?v s p = None then ?n s p
        else fa_free_list (free_area s j))"
    "fa_nr_free (free_area ?s j) = (if j = k then fa_nr_free (free_area s k) - 1
        else fa_nr_free (free_area s j))" for j
    by (auto simp: list_del_def Let_def buddy_simps split: option.splits)
  have new: "dll (?n ?s) (?v ?s) None (if ?v s p = None then ?n s p else ?h s) (remove1 p (fl k))"
    by (rule dll_remove [OF lk p]) (simp_all add: n v)
  have other: "dll (?n ?s) (?v ?s) None (fa_free_list (free_area s j)) (fl j)"
    if j: "j \<le> MAX_ORDER" "j \<noteq> k" for j
  proof -
    have "\<And>y. y \<in> set (fl j) \<Longrightarrow> y \<notin> set (fl k)"
      using l j(2) unfolding links_ok_def by blast
    then have "\<And>y. y \<in> set (fl j) \<Longrightarrow> y \<noteq> p \<and> ?v s p \<noteq> Some y \<and> ?n s p \<noteq> Some y"
      using nb p by blast
    then have "dll (?n ?s) (?v ?s) None (fa_free_list (free_area s j)) (fl j)
             = dll (?n s) (?v s) None (fa_free_list (free_area s j)) (fl j)"
      by (intro dll_cong) (auto simp: n v)
    then show ?thesis using l j by (simp add: links_ok_def)
  qed
  have len: "(of_nat (length (remove1 p (fl k))) :: u64) = of_nat (length (fl k)) - 1"
  proof -
    have "length (fl k) = Suc (length (remove1 p (fl k)))"
      using p by (metis One_nat_def Suc_pred length_pos_if_in_set length_remove1)
    then show ?thesis by simp
  qed
  have "set (remove1 p (fl k)) \<subseteq> set (fl k)" by (rule set_remove1_subset)
  then show ?thesis using l k new other len by (fastforce simp: links_ok_def fa)
qed

subsection \<open>How blocks change hands\<close>

lemma flag_bits [simp]:
  "PG_FREE \<noteq> 0" "PG_USED \<noteq> 0" "PG_HEAD \<noteq> 0"
  "PG_FREE OR PG_HEAD \<noteq> 0" "PG_USED OR PG_HEAD \<noteq> 0"
  "(PG_FREE OR PG_HEAD) AND PG_FREE \<noteq> 0" "(PG_FREE OR PG_HEAD) AND PG_USED = 0"
  "(PG_FREE OR PG_HEAD) AND PG_HEAD \<noteq> 0"
  "(PG_USED OR PG_HEAD) AND PG_USED \<noteq> 0" "(PG_USED OR PG_HEAD) AND PG_FREE = 0"
  "(PG_USED OR PG_HEAD) AND PG_HEAD \<noteq> 0"
  "PG_RESERVED AND PG_FREE = 0" "PG_RESERVED AND PG_USED = 0"
  by (simp_all add: PG_FREE_def PG_USED_def PG_HEAD_def PG_RESERVED_def)

lemma blocks_ok_mono: "blocks_ok s B \<Longrightarrow> B' \<subseteq> B \<Longrightarrow> blocks_ok s B'"
  unfolding blocks_ok_def by (meson subsetD)

lemma blocks_ok_insert:
  assumes "blocks_ok s B" "k \<le> MAX_ORDER" "2 ^ k dvd page_to_pfn s p" "p + 2 ^ k \<le> npages s"
    and d: "\<And>c. c \<in> B \<Longrightarrow> block_pages c \<inter> block_pages (p, k) = {}"
  shows "blocks_ok s (insert (p, k) B)"
proof -
  have "block_pages b \<inter> block_pages c = {}"
    if bc: "b \<in> insert (p, k) B" "c \<in> insert (p, k) B" "b \<noteq> c" for b c
  proof -
    consider "b = (p, k)" "c \<in> B" | "b \<in> B" "c = (p, k)" | "b \<in> B" "c \<in> B" using bc by blast
    then show ?thesis
    proof cases
      case 1
      then show ?thesis using d by blast
    next
      case 2
      then show ?thesis using d by blast
    next
      case 3
      then show ?thesis using assms(1) \<open>b \<noteq> c\<close> unfolding blocks_ok_def by blast
    qed
  qed
  moreover have "j \<le> MAX_ORDER \<and> 2 ^ j dvd page_to_pfn s q \<and> q + 2 ^ j \<le> npages s"
    if "(q, j) \<in> insert (p, k) B" for q j
    using that assms(1-4) unfolding blocks_ok_def by blast
  ultimately show ?thesis unfolding blocks_ok_def by blast
qed

lemma blocks_ok_cong:
  "start_pfn s' = start_pfn s \<Longrightarrow> end_pfn s' = end_pfn s \<Longrightarrow> blocks_ok s' B = blocks_ok s B"
  by (simp add: blocks_ok_def npages_def page_to_pfn_def)

lemma blocks_disjoint:
  "blocks_ok s B \<Longrightarrow> (p, j) \<in> B \<Longrightarrow> (q, k) \<in> B \<Longrightarrow>
   x \<in> block_pages (p, j) \<Longrightarrow> x \<in> block_pages (q, k) \<Longrightarrow> p = q \<and> j = k"
  unfolding blocks_ok_def by (metis Int_iff empty_iff prod.inject)

lemma in_block_pages [simp]: "x \<in> block_pages (p, k) \<longleftrightarrow> p \<le> x \<and> x < p + 2 ^ k"
  by (simp add: block_pages_def)

lemma block_head_in: "p \<in> block_pages (p, k)"
  by simp

lemma marks_okI:
  assumes "blocks_ok s (F \<union> allocated s \<union> X)" "F \<inter> X = {}"
    and "\<And>p k. (p, k) \<in> F \<Longrightarrow> pg_order (mem_map s p) = int k
           \<and> pg_flags (mem_map s p) \<in> {0, PG_FREE OR PG_HEAD}"
    and "\<And>p k. (p, k) \<in> X \<Longrightarrow> pg_flags (mem_map s p) AND PG_USED = 0"
    and "\<And>p. p < npages s \<Longrightarrow> pg_flags (mem_map s p) AND PG_FREE \<noteq> 0 \<Longrightarrow>
           (\<exists>k. (p, k) \<in> F \<union> X)
           \<or> (\<exists>q j. (q, j) \<in> F \<union> allocated s \<union> X \<and> q < p \<and> p < q + 2 ^ j)"
    and "\<And>p. p < npages s \<Longrightarrow> pg_flags (mem_map s p) AND PG_USED \<noteq> 0 \<Longrightarrow>
           pg_flags (mem_map s p) = PG_USED OR PG_HEAD
           \<and> pg_ref_count (mem_map s p) = 1 \<and> pg_order (mem_map s p) \<ge> 0"
  shows "marks_ok s F X"
  unfolding marks_ok_def using assms by blast

lemma marks_okD:
  assumes "marks_ok s F X"
  shows "blocks_ok s (F \<union> allocated s \<union> X)" "F \<inter> X = {}"
    and "(p, k) \<in> F \<Longrightarrow> pg_order (mem_map s p) = int k"
    and "(p, k) \<in> F \<Longrightarrow> pg_flags (mem_map s p) \<in> {0, PG_FREE OR PG_HEAD}"
    and "(p, k) \<in> X \<Longrightarrow> pg_flags (mem_map s p) AND PG_USED = 0"
    and "p < npages s \<Longrightarrow> pg_flags (mem_map s p) AND PG_FREE \<noteq> 0 \<Longrightarrow>
           (\<exists>k. (p, k) \<in> F \<union> X)
           \<or> (\<exists>q j. (q, j) \<in> F \<union> allocated s \<union> X \<and> q < p \<and> p < q + 2 ^ j)"
    and "p < npages s \<Longrightarrow> pg_flags (mem_map s p) AND PG_USED \<noteq> 0 \<Longrightarrow>
           pg_flags (mem_map s p) = PG_USED OR PG_HEAD
           \<and> pg_ref_count (mem_map s p) = 1 \<and> pg_order (mem_map s p) \<ge> 0"
  using assms unfolding marks_ok_def by blast+

lemma marks_in_range:
  assumes "marks_ok s F X" "(p, k) \<in> F \<union> allocated s \<union> X"
  shows "k \<le> MAX_ORDER" "2 ^ k dvd page_to_pfn s p" "p + 2 ^ k \<le> npages s" "p < npages s"
proof -
  show *: "k \<le> MAX_ORDER" "2 ^ k dvd page_to_pfn s p" "p + 2 ^ k \<le> npages s"
    using marks_okD(1) [OF assms(1)] assms(2) unfolding blocks_ok_def by blast+
  have "0 < (2::nat) ^ k" by simp
  with *(3) show "p < npages s" by linarith
qed

text \<open>Taking a block off a list and putting it back only moves it between the sets.\<close>

lemma marks_detach:
  assumes m: "marks_ok s F X" and b: "(p, k) \<in> F"
  shows "marks_ok s (F - {(p, k)}) (insert (p, k) X)"
proof (rule marks_okI)
  have *: "F - {(p, k)} \<union> allocated s \<union> insert (p, k) X = F \<union> allocated s \<union> X" using b by auto
  show "blocks_ok s (F - {(p, k)} \<union> allocated s \<union> insert (p, k) X)"
    unfolding * by (rule marks_okD(1) [OF m])
  show "(F - {(p, k)}) \<inter> insert (p, k) X = {}" using marks_okD(2) [OF m] by auto
  show "pg_flags (mem_map s q) AND PG_USED = 0" if "(q, j) \<in> insert (p, k) X" for q j
    using that marks_okD(4) [OF m b] marks_okD(5) [OF m] by auto
  show "(\<exists>j. (q, j) \<in> F - {(p, k)} \<union> insert (p, k) X)
      \<or> (\<exists>q' j. (q', j) \<in> F - {(p, k)} \<union> allocated s \<union> insert (p, k) X \<and> q' < q \<and> q < q' + 2 ^ j)"
    if "q < npages s" "pg_flags (mem_map s q) AND PG_FREE \<noteq> 0" for q
    unfolding * using marks_okD(6) [OF m that] by auto
qed (use marks_okD(3,4,7) [OF m] in auto)

lemma marks_attach:
  assumes m: "marks_ok s F (insert (p, k) X)" and x: "(p, k) \<notin> X"
    and o: "pg_order (mem_map s p) = int k"
    and f: "pg_flags (mem_map s p) \<in> {0, PG_FREE OR PG_HEAD}"
  shows "marks_ok s (insert (p, k) F) X"
proof (rule marks_okI)
  have *: "insert (p, k) F \<union> allocated s \<union> X = F \<union> allocated s \<union> insert (p, k) X" by auto
  show "blocks_ok s (insert (p, k) F \<union> allocated s \<union> X)"
    unfolding * by (rule marks_okD(1) [OF m])
  show "insert (p, k) F \<inter> X = {}" using marks_okD(2) [OF m] x by auto
  show "pg_flags (mem_map s q) AND PG_USED = 0" if "(q, j) \<in> X" for q j
    using that marks_okD(5) [OF m] by auto
  show "pg_order (mem_map s q) = int j \<and> pg_flags (mem_map s q) \<in> {0, PG_FREE OR PG_HEAD}"
    if "(q, j) \<in> insert (p, k) F" for q j
    using that o f marks_okD(3,4) [OF m] by auto
  show "(\<exists>j. (q, j) \<in> insert (p, k) F \<union> X)
      \<or> (\<exists>q' j. (q', j) \<in> insert (p, k) F \<union> allocated s \<union> X \<and> q' < q \<and> q < q' + 2 ^ j)"
    if "q < npages s" "pg_flags (mem_map s q) AND PG_FREE \<noteq> 0" for q
    unfolding * using marks_okD(6) [OF m that] by auto
qed (use marks_okD(7) [OF m] in auto)

lemma npages_upd [buddy_simps]: "npages (upd_page p f s) = npages s"
  "page_to_pfn (upd_page p f s) q = page_to_pfn s q" "range_ok (upd_page p f s) = range_ok s"
  by (simp_all add: npages_def page_to_pfn_def range_ok_def buddy_simps)

lemma allocated_upd_other:
  assumes "\<And>k. (p, k) \<notin> allocated s" "pg_flags (f (mem_map s p)) AND PG_USED = 0"
  shows "allocated (upd_page p f s) = allocated s"
proof -
  have "(q, k) \<in> allocated (upd_page p f s) \<longleftrightarrow> (q, k) \<in> allocated s" for q k
    by (cases "q = p") (use assms(1) [of k] assms(2) in \<open>auto simp: allocated_def buddy_simps\<close>)
  then show ?thesis by auto
qed

lemma allocatedD: "(p, k) \<in> allocated s \<Longrightarrow>
    p < npages s \<and> pg_flags (mem_map s p) AND PG_USED \<noteq> 0 \<and> pg_order (mem_map s p) = int k"
  by (simp add: allocated_def)

text \<open>Splitting a detached block in two; the upper half gets its own head.\<close>

lemma marks_split:
  assumes m: "marks_ok s F {(p, Suc c)}"
  shows "marks_ok (upd_page (p + 2 ^ c) (\<lambda>pg. pg\<lparr>pg_flags := PG_FREE OR PG_HEAD,
             pg_order := int c, pg_ref_count := 0\<rparr>) s) F {(p, c), (p + 2 ^ c, c)}" (is "marks_ok ?s _ _")
    and "allocated (upd_page (p + 2 ^ c) (\<lambda>pg. pg\<lparr>pg_flags := PG_FREE OR PG_HEAD,
             pg_order := int c, pg_ref_count := 0\<rparr>) s) = allocated s"
proof -
  let ?b = "p + 2 ^ c" and ?B = "F \<union> allocated s"
  note bo = marks_okD(1) [OF m]
  note r = marks_in_range [OF m, of p "Suc c", simplified]
  have out: "\<not> (q \<le> x \<and> x < q + 2 ^ j)" if "(q, j) \<in> ?B" "p \<le> x" "x < p + 2 ^ Suc c" for q j x
  proof
    assume "q \<le> x \<and> x < q + 2 ^ j"
    then have "q = p \<and> j = Suc c"
      by (intro blocks_disjoint [OF bo, of q j p "Suc c" x]) (use that in auto)
    with that(1) marks_okD(2) [OF m] have "(p, Suc c) \<in> allocated s" by auto
    with marks_okD(5) [OF m, of p "Suc c"] show False by (auto dest: allocatedD)
  qed
  have nb: "(?b, k) \<notin> ?B" and np: "(p, k) \<notin> ?B" for k
    using out [of ?b k ?b] out [of p k p] by auto
  show al: "allocated ?s = allocated s"
    by (rule allocated_upd_other) (use nb in auto)
  have "blocks_ok s (?B \<union> {(p, c), (?b, c)})"
  proof -
    have "2 ^ c dvd page_to_pfn s p" using r(2) by (metis dvd_mult_right power_Suc)
    moreover have "page_to_pfn s ?b = page_to_pfn s p + 2 ^ c" by (simp add: page_to_pfn_def)
    ultimately have "2 ^ c dvd page_to_pfn s ?b" by simp
    moreover have "\<forall>b \<in> ?B. \<forall>d \<in> {(p, c), (?b, c)}. block_pages b \<inter> block_pages d = {}"
      using out by (fastforce simp: block_pages_def)
    ultimately show ?thesis
      using bo r \<open>2 ^ c dvd page_to_pfn s p\<close>
      unfolding blocks_ok_def by (auto simp: Int_commute block_pages_def)
  qed
  then have bl: "blocks_ok ?s (F \<union> allocated ?s \<union> {(p, c), (?b, c)})"
    unfolding al by (subst blocks_ok_cong [of _ s]) (simp_all add: buddy_simps)
  show "marks_ok ?s F {(p, c), (?b, c)}"
  proof (rule marks_okI [OF bl])
    show "F \<inter> {(p, c), (?b, c)} = {}" using nb np by auto
    show "pg_order (mem_map ?s q) = int j \<and> pg_flags (mem_map ?s q) \<in> {0, PG_FREE OR PG_HEAD}"
      if "(q, j) \<in> F" for q j
      using marks_okD(3,4) [OF m that] nb [of j] that by (auto simp: buddy_simps)
    show "pg_flags (mem_map ?s q) AND PG_USED = 0" if "(q, j) \<in> {(p, c), (?b, c)}" for q j
      using that marks_okD(5) [OF m, of p "Suc c"] by (auto simp: buddy_simps)
    show "(\<exists>k. (q, k) \<in> F \<union> {(p, c), (?b, c)})
        \<or> (\<exists>q' j. (q', j) \<in> F \<union> allocated ?s \<union> {(p, c), (?b, c)} \<and> q' < q \<and> q < q' + 2 ^ j)"
      if q: "q < npages ?s" "pg_flags (mem_map ?s q) AND PG_FREE \<noteq> 0" for q
    proof (cases "q = ?b")
      case False
      with q marks_okD(6) [OF m, of q]
      consider k where "(q, k) \<in> F" | "q = p"
        | q' j where "(q', j) \<in> F \<union> allocated s" "q' < q" "q < q' + 2 ^ j"
        | "p < q" "q < p + 2 ^ Suc c"
        by (auto simp: buddy_simps)
      then show ?thesis
      proof cases
        case 4
        show ?thesis
        proof (cases "q < ?b")
          case True
          with 4 show ?thesis by auto
        next
          case False
          with 4 \<open>q \<noteq> ?b\<close> have "?b < q" "q < ?b + 2 ^ c" by auto
          then show ?thesis by blast
        qed
      qed (auto simp: al)
    qed auto
    show "pg_flags (mem_map ?s q) = PG_USED OR PG_HEAD \<and> pg_ref_count (mem_map ?s q) = 1
        \<and> pg_order (mem_map ?s q) \<ge> 0"
      if "q < npages ?s" "pg_flags (mem_map ?s q) AND PG_USED \<noteq> 0" for q
      using that marks_okD(7) [OF m, of q] by (auto simp: buddy_simps split: if_splits)
  qed
qed

text \<open>A detached block becomes an allocated one, and back.\<close>

lemma marks_use:
  assumes m: "marks_ok s F {(p, k)}"
  shows "marks_ok (upd_page p (\<lambda>pg. pg\<lparr>pg_flags := PG_USED OR PG_HEAD,
             pg_order := int k, pg_ref_count := 1\<rparr>) s) F {}" (is "marks_ok ?s _ _")
    and "allocated (upd_page p (\<lambda>pg. pg\<lparr>pg_flags := PG_USED OR PG_HEAD,
             pg_order := int k, pg_ref_count := 1\<rparr>) s) = insert (p, k) (allocated s)"
    and "(p, k) \<notin> allocated s"
proof -
  note r = marks_in_range [OF m, of p k, simplified]
  have np: "(p, j) \<notin> F \<union> allocated s" for j
  proof
    assume a: "(p, j) \<in> F \<union> allocated s"
    then have "j = k" using blocks_disjoint [OF marks_okD(1) [OF m], of p j p k p] by auto
    with a marks_okD(2) [OF m] have "(p, k) \<in> allocated s" by auto
    with marks_okD(5) [OF m, of p k] show False by (auto dest: allocatedD)
  qed
  then show "(p, k) \<notin> allocated s" by auto
  have "(q, j) \<in> allocated ?s \<longleftrightarrow> (q, j) \<in> insert (p, k) (allocated s)" for q j
    by (cases "q = p") (use np [of j] r in \<open>auto simp: allocated_def buddy_simps\<close>)
  then show al: "allocated ?s = insert (p, k) (allocated s)" by auto
  show "marks_ok ?s F {}"
  proof (rule marks_okI)
    have *: "F \<union> allocated ?s \<union> {} = F \<union> allocated s \<union> {(p, k)}" by (auto simp: al)
    show "blocks_ok ?s (F \<union> allocated ?s \<union> {})"
      unfolding * using marks_okD(1) [OF m]
      by (subst blocks_ok_cong [of _ s]) (simp_all add: buddy_simps)
    show "pg_order (mem_map ?s q) = int j \<and> pg_flags (mem_map ?s q) \<in> {0, PG_FREE OR PG_HEAD}"
      if "(q, j) \<in> F" for q j
      using marks_okD(3,4) [OF m that] np [of j] that by (auto simp: buddy_simps)
    show "(\<exists>k. (q, k) \<in> F \<union> {})
        \<or> (\<exists>q' j. (q', j) \<in> F \<union> allocated ?s \<union> {} \<and> q' < q \<and> q < q' + 2 ^ j)"
      if q: "q < npages ?s" "pg_flags (mem_map ?s q) AND PG_FREE \<noteq> 0" for q
    proof -
      have "q \<noteq> p" using q(2) by (auto simp: buddy_simps)
      with q marks_okD(6) [OF m, of q] show ?thesis by (auto simp: buddy_simps al)
    qed
    show "pg_flags (mem_map ?s q) = PG_USED OR PG_HEAD \<and> pg_ref_count (mem_map ?s q) = 1
        \<and> pg_order (mem_map ?s q) \<ge> 0"
      if "q < npages ?s" "pg_flags (mem_map ?s q) AND PG_USED \<noteq> 0" for q
      using that marks_okD(7) [OF m, of q] by (auto simp: buddy_simps split: if_splits)
  qed auto
qed

lemma marks_release:
  assumes m: "marks_ok s F {}" and b: "(p, k) \<in> allocated s"
  shows "marks_ok (upd_page p (\<lambda>pg. pg\<lparr>pg_flags := PG_FREE OR PG_HEAD, pg_ref_count := r\<rparr>) s)
            F {(p, k)}" (is "marks_ok ?s _ _")
    and "allocated (upd_page p (\<lambda>pg. pg\<lparr>pg_flags := PG_FREE OR PG_HEAD, pg_ref_count := r\<rparr>) s)
           = allocated s - {(p, k)}"
proof -
  have np: "(p, j) \<notin> F" for j
    using marks_okD(4) [OF m, of p j] allocatedD [OF b] by auto
  have "(q, j) \<in> allocated ?s \<longleftrightarrow> (q, j) \<in> allocated s - {(p, k)}" for q j
    by (cases "q = p") (use b in \<open>auto simp: allocated_def buddy_simps\<close>)
  then show al: "allocated ?s = allocated s - {(p, k)}" by auto
  show "marks_ok ?s F {(p, k)}"
  proof (rule marks_okI)
    have *: "F \<union> allocated ?s \<union> {(p, k)} = F \<union> allocated s \<union> {}" using b by (auto simp: al)
    show "blocks_ok ?s (F \<union> allocated ?s \<union> {(p, k)})"
      unfolding * using marks_okD(1) [OF m]
      by (subst blocks_ok_cong [of _ s]) (simp_all add: buddy_simps)
    show "F \<inter> {(p, k)} = {}" using np by auto
    show "pg_order (mem_map ?s q) = int j \<and> pg_flags (mem_map ?s q) \<in> {0, PG_FREE OR PG_HEAD}"
      if "(q, j) \<in> F" for q j
      using marks_okD(3,4) [OF m that] np [of j] that by (auto simp: buddy_simps)
    show "(\<exists>j. (q, j) \<in> F \<union> {(p, k)})
        \<or> (\<exists>q' j. (q', j) \<in> F \<union> allocated ?s \<union> {(p, k)} \<and> q' < q \<and> q < q' + 2 ^ j)"
      if q: "q < npages ?s" "pg_flags (mem_map ?s q) AND PG_FREE \<noteq> 0" for q
    proof (cases "q = p")
      case False
      with q marks_okD(6) [OF m, of q] show ?thesis unfolding * by (auto simp: buddy_simps)
    qed auto
    show "pg_flags (mem_map ?s q) = PG_USED OR PG_HEAD \<and> pg_ref_count (mem_map ?s q) = 1
        \<and> pg_order (mem_map ?s q) \<ge> 0"
      if "q < npages ?s" "pg_flags (mem_map ?s q) AND PG_USED \<noteq> 0" for q
      using that marks_okD(7) [OF m, of q] by (auto simp: buddy_simps split: if_splits)
  qed (auto simp: buddy_simps)
qed

subsection \<open>Buddies\<close>

lemma find_buddyD:
  assumes f: "find_buddy s p k = Some b" and a: "2 ^ k dvd page_to_pfn s p" and p: "p < npages s"
  shows "b < npages s" "page_to_pfn s b = page_to_pfn s p XOR 2 ^ k" "b \<noteq> p"
    and "2 ^ k dvd page_to_pfn s b" "2 ^ Suc k dvd page_to_pfn s (min p b)"
    and "max p b = min p b + 2 ^ k"
proof -
  show b: "b < npages s" and x: "page_to_pfn s b = page_to_pfn s p XOR 2 ^ k"
    using f by (auto simp: find_buddy_def Let_def pfn_to_page_def page_to_pfn_def npages_def
        split: if_splits)
  note bp = buddy_pair [OF a x]
  show "b \<noteq> p" "2 ^ k dvd page_to_pfn s b" using bp(1,2) by (auto simp: page_to_pfn_def)
  have "min (page_to_pfn s p) (page_to_pfn s b) = page_to_pfn s (min p b)"
    "max (page_to_pfn s p) (page_to_pfn s b) = page_to_pfn s (max p b)"
    by (auto simp: page_to_pfn_def min_def max_def)
  with bp(3,4) show "2 ^ Suc k dvd page_to_pfn s (min p b)" "max p b = min p b + 2 ^ k"
    by (auto simp: page_to_pfn_def)
qed

text \<open>
  The test of the coalescing loop is exact: a buddy that carries \<^verbatim>\<open>PG_FREE\<close> and the
  order of the block in hand heads a free block of that order.  A stale \<^verbatim>\<open>PG_FREE\<close> mark
  can only sit strictly inside a block, and no block other than the one in hand can
  reach over the buddy.
\<close>

lemma buddy_is_free:
  assumes m: "marks_ok s F {(p, k)}" and f: "find_buddy s p k = Some b"
    and free: "pg_flags (mem_map s b) AND PG_FREE \<noteq> 0" and o: "pg_order (mem_map s b) = int k"
  shows "(b, k) \<in> F"
proof -
  note r = marks_in_range [OF m, of p k, simplified]
  note fb = find_buddyD [OF f r(2,4)]
  from marks_okD(6) [OF m fb(1) free] fb(3)
  consider j where "(b, j) \<in> F"
    | q j where "(q, j) \<in> F \<union> allocated s \<union> {(p, k)}" "q < b" "b < q + 2 ^ j"
    by blast
  then show ?thesis
  proof cases
    case 1
    with marks_okD(3) [OF m] o show ?thesis by auto
  next
    case (2 q j)
    note rq = marks_in_range [OF m 2(1)]
    have "k < j \<and> page_to_pfn s q \<le> page_to_pfn s p
        \<and> page_to_pfn s p + 2 ^ k \<le> page_to_pfn s q + 2 ^ j"
      by (rule block_over_buddies [OF r(2) fb(2) rq(2)])
        (use 2 in \<open>auto simp: page_to_pfn_def\<close>)
    then have kj: "k < j" and "q \<le> p" "p + 2 ^ k \<le> q + 2 ^ j" by (auto simp: page_to_pfn_def)
    moreover have "(0::nat) < 2 ^ k" by simp
    ultimately have "p \<in> block_pages (q, j)" unfolding in_block_pages by linarith
    with blocks_disjoint [OF marks_okD(1) [OF m] 2(1), of p k p] kj show ?thesis by auto
  qed
qed

lemma marks_merge:
  assumes m: "marks_ok s F {(p, k), (b, k)}" and f: "find_buddy s p k = Some b"
    and k: "k < MAX_ORDER" and q: "q = (if b < p then b else p)"
    and s': "s' = upd_page q (\<lambda>pg. pg\<lparr>pg_order := int (Suc k)\<rparr>)
                    (upd_page b (\<lambda>pg. pg\<lparr>pg_flags := 0, pg_order := -1\<rparr>) s)"
  shows "marks_ok s' F {(q, Suc k)}" and "allocated s' = allocated s"
proof -
  note r = marks_in_range [OF m, of p k, simplified]
  note rb = marks_in_range [OF m, of b k, simplified]
  note fb = find_buddyD [OF f r(2,4)]
  have qmin: "q = min p b" by (simp add: q)
  then have up: "p = q \<and> b = q + 2 ^ k \<or> b = q \<and> p = q + 2 ^ k"
    using fb(6) by (auto simp: min_def max_def split: if_splits)
  have nX: "(q', j) \<notin> F \<union> allocated s" if "q' = p \<or> q' = b" for q' j
  proof
    assume a: "(q', j) \<in> F \<union> allocated s"
    have "q' = p \<and> j = k \<or> q' = b \<and> j = k"
      using that a blocks_disjoint [OF marks_okD(1) [OF m], of q' j q' k q'] by auto
    with a marks_okD(2,5) [OF m] show False by (auto dest: allocatedD)
  qed
  have fl: "pg_flags (mem_map s p) AND PG_USED = 0" "pg_flags (mem_map s b) AND PG_USED = 0"
    using marks_okD(5) [OF m] by auto
  have np: "npages s' = npages s" by (simp add: s' buddy_simps)
  have mm: "pg_flags (mem_map s' x) = (if x = b then 0 else pg_flags (mem_map s x))"
    "pg_ref_count (mem_map s' x) = pg_ref_count (mem_map s x)"
    "x \<noteq> p \<Longrightarrow> x \<noteq> b \<Longrightarrow> pg_order (mem_map s' x) = pg_order (mem_map s x)" for x
    using q by (auto simp: s' buddy_simps)
  have "(x, j) \<in> allocated s' \<longleftrightarrow> (x, j) \<in> allocated s" for x j
    using fl nX [of x j] mm [of x] by (cases "x = p \<or> x = b") (auto simp: allocated_def np)
  then show al: "allocated s' = allocated s" by auto
  have bp: "block_pages (q, Suc k) = block_pages (p, k) \<union> block_pages (b, k)"
    using up by (auto simp: block_pages_def)
  have bl: "blocks_ok s' (F \<union> allocated s' \<union> {(q, Suc k)})"
  proof -
    have "2 ^ Suc k dvd page_to_pfn s q" "q + 2 ^ Suc k \<le> npages s" "Suc k \<le> MAX_ORDER"
      using fb(5) qmin up r(3) rb(3) k by auto
    moreover have "block_pages c \<inter> block_pages (q, Suc k) = {}" if c: "c \<in> F \<union> allocated s" for c
    proof -
      have "c \<noteq> (p, k)" "c \<noteq> (b, k)" using c nX by auto
      then have "block_pages c \<inter> block_pages (p, k) = {}" "block_pages c \<inter> block_pages (b, k) = {}"
        using marks_okD(1) [OF m] c unfolding blocks_ok_def by blast+
      then show ?thesis unfolding bp by blast
    qed
    moreover have "blocks_ok s (F \<union> allocated s)"
      by (rule blocks_ok_mono [OF marks_okD(1) [OF m]]) auto
    ultimately have "blocks_ok s (F \<union> allocated s \<union> {(q, Suc k)})"
      using blocks_ok_insert [of s "F \<union> allocated s" "Suc k" q] by simp
    then show ?thesis unfolding al by (subst blocks_ok_cong [of _ s]) (simp_all add: s' buddy_simps)
  qed
  show "marks_ok s' F {(q, Suc k)}"
  proof (rule marks_okI [OF bl])
    show "F \<inter> {(q, Suc k)} = {}" using nX up by auto
    show "pg_order (mem_map s' x) = int j \<and> pg_flags (mem_map s' x) \<in> {0, PG_FREE OR PG_HEAD}"
      if "(x, j) \<in> F" for x j
    proof -
      have "x \<noteq> p" "x \<noteq> b" using that nX [of x j] by auto
      then show ?thesis using marks_okD(3,4) [OF m that] by (simp add: mm)
    qed
    show "pg_flags (mem_map s' x) AND PG_USED = 0" if "(x, j) \<in> {(q, Suc k)}" for x j
      using that up fl by (auto simp: mm)
    show "(\<exists>j. (x, j) \<in> F \<union> {(q, Suc k)})
        \<or> (\<exists>q' j. (q', j) \<in> F \<union> allocated s' \<union> {(q, Suc k)} \<and> q' < x \<and> x < q' + 2 ^ j)"
      if x: "x < npages s'" "pg_flags (mem_map s' x) AND PG_FREE \<noteq> 0" for x
    proof -
      have xb: "x \<noteq> b" and fx: "pg_flags (mem_map s x) AND PG_FREE \<noteq> 0" and xn: "x < npages s"
        using x by (auto simp: mm np split: if_splits)
      consider j where "(x, j) \<in> F"
        | q' j where "(q', j) \<in> F \<union> allocated s" "q' < x" "x < q' + 2 ^ j"
        | "x \<in> block_pages (p, k) \<union> block_pages (b, k)"
        using marks_okD(6) [OF m xn fx] by fastforce
      then show ?thesis
      proof cases
        case 3
        then have "x = q \<or> q < x \<and> x < q + 2 ^ Suc k" unfolding bp [symmetric] by auto
        then show ?thesis by blast
      qed (auto simp: al)
    qed
    show "pg_flags (mem_map s' x) = PG_USED OR PG_HEAD \<and> pg_ref_count (mem_map s' x) = 1
        \<and> pg_order (mem_map s' x) \<ge> 0"
      if x: "x < npages s'" "pg_flags (mem_map s' x) AND PG_USED \<noteq> 0" for x
    proof -
      have "x \<noteq> b" "x \<noteq> p" using x(2) fl by (auto simp: mm split: if_splits)
      then show ?thesis using x marks_okD(7) [OF m, of x] by (simp add: mm np)
    qed
  qed
qed

subsection \<open>The free lists as sets of blocks\<close>

lemma links_distinct: "links_ok s fl \<Longrightarrow> distinct (fl k)"
  unfolding links_ok_def by (cases "k \<le> MAX_ORDER") (auto dest: dll_distinct)

lemma free_blocks_remove:
  "distinct (fl k) \<Longrightarrow> free_blocks (fl(k := remove1 p (fl k))) = free_blocks fl - {(p, k)}"
  by (auto simp: free_blocks_def split: if_splits)

lemma free_blocks_insert: "free_blocks (fl(k := p # fl k)) = insert (p, k) (free_blocks fl)"
  by (auto simp: free_blocks_def split: if_splits)

lemma free_total_upd:
  assumes "k \<le> MAX_ORDER"
  shows "free_total (fl(k := xs)) + length (fl k) * 2 ^ k = free_total fl + length xs * 2 ^ k"
proof -
  have "free_total (fl(k := xs)) = length xs * 2 ^ k + (\<Sum>j \<in> {..MAX_ORDER} - {k}. length (fl j) * 2 ^ j)"
    unfolding free_total_def using assms by (subst sum.remove [of _ k]) (auto intro!: sum.cong)
  moreover have "free_total fl = length (fl k) * 2 ^ k
      + (\<Sum>j \<in> {..MAX_ORDER} - {k}. length (fl j) * 2 ^ j)"
    unfolding free_total_def using assms by (subst sum.remove [of _ k]) auto
  ultimately show ?thesis by simp
qed

lemma free_total_remove:
  assumes "links_ok s fl" "p \<in> set (fl k)"
  shows "free_total (fl(k := remove1 p (fl k))) + 2 ^ k = free_total fl"
proof -
  have k: "k \<le> MAX_ORDER" using assms by (cases "k \<le> MAX_ORDER") (auto simp: links_ok_def)
  have "length (fl k) = Suc (length (remove1 p (fl k)))"
    using assms(2) by (metis One_nat_def Suc_pred length_pos_if_in_set length_remove1)
  with free_total_upd [OF k, of fl "remove1 p (fl k)"] show ?thesis by simp
qed

lemma free_total_insert: "k \<le> MAX_ORDER \<Longrightarrow> free_total (fl(k := p # fl k)) = free_total fl + 2 ^ k"
  using free_total_upd [of k fl "p # fl k"] by simp

subsection \<open>The pages of the blocks\<close>

lemma space_simps [simp]:
  "space {} = {}" "space (insert b B) = block_pages b \<union> space B"
  "space (A \<union> B) = space A \<union> space B"
  by (auto simp: space_def)

lemma space_remove: "b \<in> B \<Longrightarrow> space (B - {b}) \<union> block_pages b = space B"
  by (auto simp: space_def)

lemma block_pages_halves: "block_pages (p, Suc c) = block_pages (p, c) \<union> block_pages (p + 2 ^ c, c)"
  by (auto simp: block_pages_def)

lemma block_pages_pair:
  "max p q = min p q + 2 ^ c \<Longrightarrow>
   block_pages (min p q, Suc c) = block_pages (p, c) \<union> block_pages (q, c)"
  unfolding block_pages_halves by (cases "p \<le> q") auto

end
