(* ===== verification/BuddyOps.thy ===== *)
theory BuddyOps
  imports BuddyInv
begin

text \<open>
  What the loops of the buddy allocator do to the blocks: \<open>split_block\<close>, \<open>coalesce\<close> and
  \<open>alloc_scan\<close> (the loops of \<^verbatim>\<open>alloc_pages\<close> and \<^verbatim>\<open>free_pages\<close>), and the conversion between
  page indices and physical addresses.
\<close>

unbundle bit_operations_syntax

text \<open>The fields that only \<^verbatim>\<open>page_init\<close> writes, and the free-page counter.\<close>

definition same_frame :: "buddy \<Rightarrow> buddy \<Rightarrow> bool" where
  "same_frame s s' \<longleftrightarrow> start_pfn s' = start_pfn s \<and> end_pfn s' = end_pfn s
     \<and> total_pages s' = total_pages s \<and> free_page_count s' = free_page_count s"

lemma same_frame_refl [simp]: "same_frame s s"
  by (simp add: same_frame_def)

lemma same_frame_trans: "same_frame s t \<Longrightarrow> same_frame t u \<Longrightarrow> same_frame s u"
  by (simp add: same_frame_def)

lemma same_frame_upd [simp]:
  "same_frame s (upd_page p f s)" "same_frame s (list_add k p s)" "same_frame s (list_del k p s)"
  by (simp_all add: same_frame_def buddy_simps)

text \<open>
  One block is in hand: the lists and marks are right but for the detached block
  \<open>(p, k)\<close>, whose head is ready to go on the free list of its order.
\<close>

definition in_hand :: "buddy \<Rightarrow> (nat \<Rightarrow> nat list) \<Rightarrow> nat \<Rightarrow> nat \<Rightarrow> bool" where
  "in_hand s fl p k \<longleftrightarrow> links_ok s fl \<and> marks_ok s (free_blocks fl) {(p, k)}"

definition ready :: "buddy \<Rightarrow> nat \<Rightarrow> nat \<Rightarrow> bool" where
  "ready s p k \<longleftrightarrow> pg_order (mem_map s p) = int k
                 \<and> pg_flags (mem_map s p) \<in> {0, PG_FREE OR PG_HEAD}"

lemma links_upd:
  assumes "\<And>pg. pg_next (f pg) = pg_next pg" "\<And>pg. pg_prev (f pg) = pg_prev pg"
  shows "links_ok (upd_page p f s) fl = links_ok s fl"
proof -
  have "(\<lambda>q. pg_next (mem_map (upd_page p f s) q)) = (\<lambda>q. pg_next (mem_map s q))"
    "(\<lambda>q. pg_prev (mem_map (upd_page p f s) q)) = (\<lambda>q. pg_prev (mem_map s q))"
    using assms by (auto simp: buddy_simps)
  then show ?thesis by (simp add: links_ok_def upd_page_simps(2))
qed

lemma detached_not_free:
  assumes "marks_ok s (free_blocks fl) X" "(p, k) \<in> X"
  shows "p \<notin> set (fl j)"
proof
  assume "p \<in> set (fl j)"
  then have a: "(p, j) \<in> free_blocks fl" by (simp add: free_blocks_def)
  then have "j = k"
    using blocks_disjoint [OF marks_okD(1) [OF assms(1)], of p j p k p] assms(2) by auto
  with a assms(2) marks_okD(2) [OF assms(1)] show False by auto
qed

lemma take_from_list:
  assumes "links_ok s fl" "marks_ok s (free_blocks fl) X" "p \<in> set (fl k)"
  shows "links_ok (list_del k p s) (fl(k := remove1 p (fl k)))"
    and "marks_ok (list_del k p s) (free_blocks (fl(k := remove1 p (fl k)))) (insert (p, k) X)"
    and "free_total (fl(k := remove1 p (fl k))) + 2 ^ k = free_total fl"
    and "space (free_blocks (fl(k := remove1 p (fl k)))) \<union> block_pages (p, k) = space (free_blocks fl)"
proof -
  show "links_ok (list_del k p s) (fl(k := remove1 p (fl k)))"
    using assms(1,3) by (rule list_del_links)
  have b: "(p, k) \<in> free_blocks fl" using assms(3) by (simp add: free_blocks_def)
  note fr = free_blocks_remove [of fl k p, OF links_distinct [OF assms(1)]]
  show "space (free_blocks (fl(k := remove1 p (fl k)))) \<union> block_pages (p, k) = space (free_blocks fl)"
    unfolding fr using b by (rule space_remove)
  from marks_detach [OF assms(2) b]
  show "marks_ok (list_del k p s) (free_blocks (fl(k := remove1 p (fl k)))) (insert (p, k) X)"
    by (simp add: fr buddy_simps)
  show "free_total (fl(k := remove1 p (fl k))) + 2 ^ k = free_total fl"
    using assms(1,3) by (rule free_total_remove)
qed

lemma put_on_list:
  assumes l: "links_ok s fl" and m: "marks_ok s (free_blocks fl) (insert (p, k) X)"
    and "(p, k) \<notin> X" "ready s p k"
  shows "links_ok (list_add k p s) (fl(k := p # fl k))"
    and "marks_ok (list_add k p s) (free_blocks (fl(k := p # fl k))) X"
    and "free_total (fl(k := p # fl k)) = free_total fl + 2 ^ k"
proof -
  have k: "k \<le> MAX_ORDER" by (rule marks_in_range [OF m]) auto
  show "links_ok (list_add k p s) (fl(k := p # fl k))"
    using l k detached_not_free [OF m, of p k] by (intro list_add_links) auto
  show "marks_ok (list_add k p s) (free_blocks (fl(k := p # fl k))) X"
    using marks_attach [OF m assms(3)] assms(4) by (simp add: buddy_simps free_blocks_insert ready_def)
  show "free_total (fl(k := p # fl k)) = free_total fl + 2 ^ k"
    using k by (rule free_total_insert)
qed

subsection \<open>Splitting\<close>

lemma split_block_ok:
  assumes "in_hand s fl p c" "k \<le> c"
  shows "\<exists>fl'. in_hand (split_block k c p s) fl' p k
            \<and> allocated (split_block k c p s) = allocated s
            \<and> same_frame s (split_block k c p s)
            \<and> free_total fl' + 2 ^ k = free_total fl + 2 ^ c
            \<and> space (free_blocks fl') \<union> block_pages (p, k) = space (free_blocks fl) \<union> block_pages (p, c)"
  using assms
proof (induction k c p s arbitrary: fl rule: split_block.induct)
  case (1 k p s)
  then show ?case by auto
next
  case (2 k c p s)
  show ?case
  proof (cases "k < Suc c")
    case False
    with 2 show ?thesis by auto
  next
    case True
    let ?b = "p + 2 ^ c"
    let ?s1 = "upd_page ?b (\<lambda>pg. pg\<lparr>pg_flags := PG_FREE OR PG_HEAD,
                 pg_order := int c, pg_ref_count := 0\<rparr>) s"
    let ?s2 = "list_add c ?b ?s1" and ?fl = "fl(c := ?b # fl c)"
    from 2(2) have l: "links_ok s fl" and m: "marks_ok s (free_blocks fl) {(p, Suc c)}"
      by (auto simp: in_hand_def)
    have l1: "links_ok ?s1 fl" using l by (simp add: links_upd)
    have m1: "marks_ok ?s1 (free_blocks fl) (insert (?b, c) {(p, c)})"
      using marks_split(1) [OF m] by (simp add: insert_commute)
    have r1: "ready ?s1 ?b c" by (simp add: ready_def buddy_simps)
    note pl = put_on_list [OF l1 m1 _ r1]
    have "in_hand ?s2 ?fl p c" using pl(1,2) by (simp add: in_hand_def)
    moreover have "k \<le> c" using True by simp
    ultimately obtain fl' where
      ih: "in_hand (split_block k c p ?s2) fl' p k"
        "allocated (split_block k c p ?s2) = allocated ?s2"
        "same_frame ?s2 (split_block k c p ?s2)"
        "free_total fl' + 2 ^ k = free_total ?fl + 2 ^ c"
        "space (free_blocks fl') \<union> block_pages (p, k) = space (free_blocks ?fl) \<union> block_pages (p, c)"
      using "2.IH" [OF True refl refl] by blast
    have "allocated ?s2 = allocated s" using marks_split(2) [OF m] by (simp add: buddy_simps)
    moreover have "same_frame s (split_block k c p ?s2)"
      using ih(3) by (blast intro: same_frame_trans same_frame_upd)
    moreover have "free_total ?fl = free_total fl + 2 ^ c" using pl(3) by simp
    moreover have "space (free_blocks fl') \<union> block_pages (p, k)
        = space (free_blocks fl) \<union> block_pages (p, Suc c)"
      unfolding ih(5) by (simp only: free_blocks_insert space_simps block_pages_halves Un_ac)
    ultimately show ?thesis using ih True by (intro exI [of _ fl']) (simp add: Let_def)
  qed
qed

subsection \<open>Coalescing\<close>

lemma find_buddy_cong:
  assumes "start_pfn s' = start_pfn s" "end_pfn s' = end_pfn s"
  shows "find_buddy s' p k = find_buddy s p k"
  unfolding find_buddy_def pfn_to_page_def page_to_pfn_def assms ..

lemma coalesce_ok:
  assumes "in_hand s fl p k" "ready s p k" "coalesce k p s = (k', p', s')"
  shows "\<exists>fl'. in_hand s' fl' p' k' \<and> ready s' p' k' \<and> allocated s' = allocated s
            \<and> same_frame s s' \<and> free_total fl' + 2 ^ k' = free_total fl + 2 ^ k
            \<and> k \<le> k'
            \<and> space (free_blocks fl') \<union> block_pages (p', k') = space (free_blocks fl) \<union> block_pages (p, k)"
  using assms
proof (induction k p s arbitrary: fl rule: coalesce.induct)
  case (1 k p s)
  from "1.prems"(1) have l: "links_ok s fl" and m: "marks_ok s (free_blocks fl) {(p, k)}"
    by (auto simp: in_hand_def)
  note r = marks_in_range [OF m, of p k, simplified]
  show ?case
  proof (cases "k < MAX_ORDER \<and> (\<exists>b. find_buddy s p k = Some b
      \<and> pg_flags (mem_map s b) AND PG_FREE \<noteq> 0 \<and> pg_order (mem_map s b) = int k)")
    case False
    then have "coalesce k p s = (k, p, s)"
      by (subst coalesce.simps) (auto split: option.splits)
    with "1.prems" show ?thesis by auto
  next
    case True
    then obtain b where k: "k < MAX_ORDER" and b: "find_buddy s p k = Some b"
      and f: "pg_flags (mem_map s b) AND PG_FREE \<noteq> 0" "pg_order (mem_map s b) = int k" by auto
    obtain q where q: "q = (if b < p then b else p)" by simp
    let ?s1 = "list_del k b s" and ?fl = "fl(k := remove1 b (fl k))"
    let ?s2 = "upd_page b (\<lambda>pg. pg\<lparr>pg_flags := 0, pg_order := -1\<rparr>) ?s1"
    let ?s3 = "upd_page q (\<lambda>pg. pg\<lparr>pg_order := int (Suc k)\<rparr>) ?s2"
    note fb = find_buddyD [OF b r(2,4)]
    have "(b, k) \<in> free_blocks fl" by (rule buddy_is_free [OF m b f])
    then have "b \<in> set (fl k)" by (simp add: free_blocks_def)
    note tk = take_from_list [OF l m this]
    have b1: "find_buddy ?s1 p k = Some b"
      using b find_buddy_cong [of ?s1 s] by (simp add: buddy_simps)
    have "marks_ok ?s1 (free_blocks ?fl) {(p, k), (b, k)}" using tk(2) by (simp add: insert_commute)
    note mg = marks_merge [OF this b1 k q refl]
    have h: "in_hand ?s3 ?fl q (Suc k)"
      using mg(1) tk(1) by (simp add: in_hand_def links_upd)
    have rd: "ready ?s3 q (Suc k)"
      using "1.prems"(2) fb(3) q by (auto simp: ready_def buddy_simps)
    have "coalesce k p s = coalesce (Suc k) q ?s3"
      using k b f q by (subst coalesce.simps) (simp add: Let_def)
    with "1.prems"(3) have "coalesce (Suc k) q ?s3 = (k', p', s')" by simp
    from "1.IH" [OF k b _ refl refl q refl h rd this] f
    obtain fl' where ih: "in_hand s' fl' p' k'" "ready s' p' k'" "allocated s' = allocated ?s3"
      "same_frame ?s3 s'" "free_total fl' + 2 ^ k' = free_total ?fl + 2 ^ Suc k"
      "Suc k \<le> k'"
      "space (free_blocks fl') \<union> block_pages (p', k') = space (free_blocks ?fl) \<union> block_pages (q, Suc k)"
      by blast
    have "allocated s' = allocated s" using ih(3) mg(2) by (simp add: buddy_simps)
    moreover have "same_frame s s'"
      using ih(4) by (blast intro: same_frame_trans same_frame_upd)
    moreover have "free_total fl' + 2 ^ k' = free_total fl + 2 ^ k" using ih(5) tk(3) by simp
    moreover have "space (free_blocks fl') \<union> block_pages (p', k') = space (free_blocks fl) \<union> block_pages (p, k)"
    proof -
      have "q = min p b" using q by (simp add: min_def)
      then have "block_pages (q, Suc k) = block_pages (p, k) \<union> block_pages (b, k)"
        using block_pages_pair [OF fb(6)] by simp
      then show ?thesis unfolding ih(7) tk(4) [symmetric] by (simp only: Un_ac)
    qed
    ultimately show ?thesis using ih(1,2,6) by (intro exI [of _ fl']) simp
  qed
qed

subsection \<open>alloc_pages\<close>

definition same_region :: "buddy \<Rightarrow> buddy \<Rightarrow> bool" where
  "same_region s s' \<longleftrightarrow> start_pfn s' = start_pfn s \<and> end_pfn s' = end_pfn s
                      \<and> total_pages s' = total_pages s"

lemma alloc_scan_ok:
  assumes "buddy_rep s fl" "k \<le> c" "\<forall>j. k \<le> j \<and> j < c \<longrightarrow> fl j = []" "alloc_scan k c s = (a, s')"
  shows "if \<forall>j \<ge> k. fl j = [] then a = 0 \<and> s' = s
         else \<exists>p fl'. buddy_rep s' fl' \<and> a = page_to_phys s p \<and> same_region s s'
                \<and> (p, k) \<notin> allocated s \<and> allocated s' = insert (p, k) (allocated s)
                \<and> free_total fl' + 2 ^ k = free_total fl
                \<and> space (free_blocks fl') \<union> block_pages (p, k) = space (free_blocks fl)"
  using assms
proof (induction k c s rule: alloc_scan.induct)
  case (1 k c s)
  from "1.prems"(1) have rg: "range_ok s" and l: "links_ok s fl"
    and m: "marks_ok s (free_blocks fl) {}" and fc: "free_page_count s = of_nat (free_total fl)"
    by (auto simp: buddy_rep_def)
  show ?case
  proof (cases "c \<le> MAX_ORDER")
    case False
    then have "\<forall>j \<ge> k. fl j = []"
      using "1.prems"(3) l unfolding links_ok_def by (meson not_le_imp_less less_le_trans order.strict_trans2)
    with False "1.prems"(4) show ?thesis by (subst (asm) alloc_scan.simps) simp
  next
    case c: True
    have hd: "dll (\<lambda>p. pg_next (mem_map s p)) (\<lambda>p. pg_prev (mem_map s p)) None
        (fa_free_list (free_area s c)) (fl c)" using l c by (simp add: links_ok_def)
    show ?thesis
    proof (cases "fa_free_list (free_area s c)")
      case None
      with hd have "fl c = []" by simp
      with "1.prems"(3) have "\<forall>j. k \<le> j \<and> j < Suc c \<longrightarrow> fl j = []" by (metis less_SucE)
      moreover have "alloc_scan k (Suc c) s = (a, s')"
        using "1.prems"(4) c None by (subst (asm) alloc_scan.simps) simp
      ultimately show ?thesis using "1.IH" [OF c None "1.prems"(1)] "1.prems"(2) by simp
    next
      case (Some p)
      with hd have p: "p \<in> set (fl c)" by (auto dest: dll_first_in)
      then have ne: "\<not> (\<forall>j \<ge> k. fl j = [])" using "1.prems"(2) by auto
      let ?s1 = "list_del c p s" and ?fl = "fl(c := remove1 p (fl c))"
      let ?s2 = "split_block k c p ?s1" and ?s3 = "mark_used k p (split_block k c p (list_del c p s))"
      note tk = take_from_list [OF l m p]
      have "in_hand ?s1 ?fl p c" using tk(1,2) by (simp add: in_hand_def)
      from split_block_ok [OF this "1.prems"(2)] obtain fl' where
        sb: "in_hand ?s2 fl' p k" "allocated ?s2 = allocated ?s1" "same_frame ?s1 ?s2"
          "free_total fl' + 2 ^ k = free_total ?fl + 2 ^ c"
          "space (free_blocks fl') \<union> block_pages (p, k) = space (free_blocks ?fl) \<union> block_pages (p, c)"
        by blast
      have "marks_ok ?s2 (free_blocks fl') {(p, k)}" using sb(1) by (simp add: in_hand_def)
      note us = marks_use [OF this]
      let ?u = "upd_page p (\<lambda>pg. pg\<lparr>pg_flags := PG_USED OR PG_HEAD,
                  pg_order := int k, pg_ref_count := 1\<rparr>) ?s2"
      have s3: "?s3 = ?u\<lparr>free_page_count := free_page_count ?u - 2 ^ k\<rparr>"
        by (simp add: mark_used_def Let_def)
      have res: "a = page_to_phys ?s3 p" "s' = ?s3"
        using "1.prems"(4) c Some by (auto simp: alloc_scan.simps [of k c s] Let_def)
      have fr: "same_frame s ?s2" using sb(3) by (blast intro: same_frame_trans same_frame_upd)
      have tot: "free_total fl' + 2 ^ k = free_total fl" using sb(4) tk(3) by simp
      have "free_page_count ?s3 = of_nat (free_total fl')"
      proof -
        have "free_page_count s = of_nat (free_total fl') + 2 ^ k"
          unfolding fc tot [symmetric] by simp
        with fr show ?thesis by (simp add: s3 same_frame_def buddy_simps)
      qed
      moreover have "links_ok ?s3 fl'"
        using sb(1) links_upd [of "\<lambda>pg. pg\<lparr>pg_flags := PG_USED OR PG_HEAD,
           pg_order := int k, pg_ref_count := 1\<rparr>" p ?s2 fl']
        by (simp add: in_hand_def s3 links_ok_def)
      moreover have "marks_ok ?s3 (free_blocks fl') {}" "allocated ?s3 = allocated ?u"
        using us(1) marks_cong(1,2) [of ?s3 ?u] by (simp_all add: s3)
      moreover have "range_ok ?s3" "same_region s ?s3" "page_to_phys ?s3 p = page_to_phys s p"
        using rg fr by (simp_all add: range_ok_def s3 same_frame_def same_region_def buddy_simps
            page_to_phys_def page_to_pfn_def)
      moreover have "allocated ?u = insert (p, k) (allocated s)" "(p, k) \<notin> allocated s"
        using us(2,3) sb(2) by (simp_all add: buddy_simps)
      moreover have "space (free_blocks fl') \<union> block_pages (p, k) = space (free_blocks fl)"
        unfolding sb(5) by (rule tk(4))
      ultimately show ?thesis using ne tot res unfolding buddy_rep_def by (simp only: if_False) blast
    qed
  qed
qed

subsection \<open>Addresses\<close>

lemma unat_pfn_to_phys: "pfn < 2 ^ 52 \<Longrightarrow> unat (pfn_to_phys pfn) = pfn * 4096"
proof -
  assume "pfn < 2 ^ 52"
  then have lt: "pfn * 4096 < 2 ^ LENGTH(64)" by simp
  have "pfn_to_phys pfn = of_nat (pfn * 4096)"
    by (simp add: pfn_to_phys_def push_bit_eq_mult)
  then have "unat (pfn_to_phys pfn) = take_bit LENGTH(64) (pfn * 4096)"
    by (simp only: unsigned_of_nat of_nat_id)
  also have "\<dots> = pfn * 4096" using lt by (rule take_bit_nat_eq_self)
  finally show ?thesis .
qed

lemma phys_pfn_roundtrip: "pfn < 2 ^ 52 \<Longrightarrow> phys_to_pfn (pfn_to_phys pfn) = pfn"
  unfolding phys_to_pfn_def unat_drop_bit_eq by (simp only: unat_pfn_to_phys drop_bit_eq_div) simp

lemma page_addr:
  assumes "range_ok s" "p < npages s"
  shows "page_to_phys s p \<noteq> 0" "phys_to_pfn (page_to_phys s p) = page_to_pfn s p"
    and "pfn_to_page s (phys_to_pfn (page_to_phys s p)) = Some p"
    and "unat (page_to_phys s p) = page_to_pfn s p * 4096"
proof -
  have p: "page_to_pfn s p < 2 ^ 52" "0 < page_to_pfn s p"
    using assms by (auto simp: range_ok_def npages_def page_to_pfn_def)
  show u: "unat (page_to_phys s p) = page_to_pfn s p * 4096"
    using p(1) unfolding page_to_phys_def by (rule unat_pfn_to_phys)
  show "page_to_phys s p \<noteq> 0"
  proof
    assume "page_to_phys s p = 0"
    with u have "page_to_pfn s p * 4096 = 0" by (simp only: unsigned_0)
    with p(2) show False by simp
  qed
  show f: "phys_to_pfn (page_to_phys s p) = page_to_pfn s p"
    using p(1) unfolding page_to_phys_def by (rule phys_pfn_roundtrip)
  show "pfn_to_page s (phys_to_pfn (page_to_phys s p)) = Some p"
    unfolding f using assms by (auto simp: pfn_to_page_def page_to_pfn_def npages_def)
qed

lemma page_addr_inj:
  assumes "range_ok s" "p < npages s" "q < npages s" "page_to_phys s p = page_to_phys s q"
  shows "p = q"
proof -
  have "Some p = Some q"
    using page_addr(3) [OF assms(1,2)] page_addr(3) [OF assms(1,3)] unfolding assms(4) by (rule trans [OF sym])
  then show ?thesis by simp
qed

lemma free_blocks_Sigma:
  "links_ok s fl \<Longrightarrow> free_blocks fl = (\<lambda>(k, p). (p, k)) ` Sigma {..MAX_ORDER} (\<lambda>k. set (fl k))"
proof (intro equalityI subsetI)
  fix b assume l: "links_ok s fl" and b: "b \<in> free_blocks fl"
  obtain p k where pk: "b = (p, k)" by (cases b)
  with b have p: "p \<in> set (fl k)" by (simp add: free_blocks_def)
  have "k \<le> MAX_ORDER"
  proof (rule ccontr)
    assume "\<not> k \<le> MAX_ORDER"
    then have "fl k = []" using l unfolding links_ok_def by simp
    with p show False by simp
  qed
  with p pk show "b \<in> (\<lambda>(k, p). (p, k)) ` Sigma {..MAX_ORDER} (\<lambda>k. set (fl k))"
    by (intro image_eqI [of _ _ "(k, p)"]) auto
qed (auto simp: free_blocks_def)

lemma free_total_card:
  assumes l: "links_ok s fl"
  shows "finite (free_blocks fl)" "free_total fl = (\<Sum>b \<in> free_blocks fl. card (block_pages b))"
proof -
  let ?S = "Sigma {..MAX_ORDER} (\<lambda>k. set (fl k))"
  show "finite (free_blocks fl)" unfolding free_blocks_Sigma [OF l] by (intro finite_imageI) auto
  have "inj_on (\<lambda>(k, p). (p, k)) ?S" by (rule inj_onI) auto
  then have "(\<Sum>b \<in> free_blocks fl. card (block_pages b))
      = (\<Sum>x \<in> ?S. card (block_pages ((\<lambda>(k, p). (p, k)) x)))"
    unfolding free_blocks_Sigma [OF l] by (simp only: sum.reindex comp_def)
  also have "\<dots> = (\<Sum>(k, p) \<in> ?S. 2 ^ k)"
    by (rule sum.cong) (auto simp: block_pages_def)
  also have "\<dots> = (\<Sum>k \<le> MAX_ORDER. \<Sum>p \<in> set (fl k). 2 ^ k)"
    by (rule sum.Sigma [symmetric]) auto
  also have "\<dots> = free_total fl"
    unfolding free_total_def
    by (rule sum.cong) (simp_all only: sum_constant distinct_card [OF links_distinct [OF l]] of_nat_id)
  finally show "free_total fl = (\<Sum>b \<in> free_blocks fl. card (block_pages b))" by simp
qed

lemma free_total_le:
  assumes l: "links_ok s fl" and m: "marks_ok s (free_blocks fl) X"
  shows "free_total fl \<le> npages s"
proof -
  have sub: "(\<Union>b \<in> free_blocks fl. block_pages b) \<subseteq> {..<npages s}"
  proof
    fix x assume "x \<in> (\<Union>b \<in> free_blocks fl. block_pages b)"
    then obtain p k where b: "(p, k) \<in> free_blocks fl" "x \<in> block_pages (p, k)" by force
    then have "p + 2 ^ k \<le> npages s" by (intro marks_in_range(3) [OF m]) simp
    with b(2) show "x \<in> {..<npages s}" by simp
  qed
  have "card (\<Union>b \<in> free_blocks fl. block_pages b) = (\<Sum>b \<in> free_blocks fl. card (block_pages b))"
  proof (rule card_UN_disjoint)
    show "\<forall>b \<in> free_blocks fl. \<forall>c \<in> free_blocks fl. b \<noteq> c \<longrightarrow> block_pages b \<inter> block_pages c = {}"
      using marks_okD(1) [OF m] unfolding blocks_ok_def by blast
  qed (auto simp: free_total_card [OF l] block_pages_def)
  with free_total_card(2) [OF l] card_mono [OF _ sub] show ?thesis by simp
qed

subsection \<open>The representation\<close>

lemma buddy_repD:
  assumes "buddy_rep s fl"
  shows "range_ok s" "links_ok s fl" "marks_ok s (free_blocks fl) {}"
    and "free_page_count s = of_nat (free_total fl)" "unat (free_page_count s) = free_total fl"
proof -
  show *: "range_ok s" "links_ok s fl" "marks_ok s (free_blocks fl) {}"
    "free_page_count s = of_nat (free_total fl)"
    using assms by (auto simp: buddy_rep_def)
  have "free_total fl < 2 ^ 64"
    using free_total_le [OF *(2,3)] *(1) by (auto simp: range_ok_def npages_def)
  then show "unat (free_page_count s) = free_total fl"
    unfolding *(4) by (simp add: unsigned_of_nat take_bit_nat_eq_self)
qed

lemma free_list_empty:
  "links_ok s fl \<Longrightarrow> k \<le> MAX_ORDER \<Longrightarrow> fa_free_list (free_area s k) = None \<longleftrightarrow> fl k = []"
  by (cases "fl k") (auto simp: links_ok_def)

end
