(* ===== verification/BuddyAlloc.thy ===== *)
theory BuddyAlloc
  imports BuddyOps FrameSource
begin

text \<open>
  \<^verbatim>\<open>alloc_pages\<close>, \<^verbatim>\<open>free_pages\<close> and \<^verbatim>\<open>page_init\<close> keep the invariant \<open>manages\<close>; the properties
  of the page allocator.
\<close>

unbundle bit_operations_syntax

text \<open>
  \<open>manages s M\<close>: the state is well-formed and its blocks, free and allocated, make up
  exactly the pages \<open>M\<close>.
\<close>

definition manages :: "buddy \<Rightarrow> nat set \<Rightarrow> bool" where
  "manages s M \<longleftrightarrow> (\<exists>fl. buddy_rep s fl \<and> space (free_blocks fl) \<union> space (allocated s) = M)"

subsection \<open>alloc_pages and free_pages\<close>

lemma alloc_pages_rep:
  assumes "buddy_rep s fl" "0 \<le> order" "order \<le> int MAX_ORDER" "alloc_pages order s = (a, s')"
  shows "if \<forall>j \<ge> nat order. fl j = [] then a = 0 \<and> s' = s
         else \<exists>p fl'. buddy_rep s' fl' \<and> a = page_to_phys s p \<and> same_region s s'
                \<and> (p, nat order) \<notin> allocated s
                \<and> allocated s' = insert (p, nat order) (allocated s)
                \<and> free_total fl' + 2 ^ nat order = free_total fl
                \<and> space (free_blocks fl') \<union> block_pages (p, nat order) = space (free_blocks fl)"
  using assms by (intro alloc_scan_ok) (auto simp: alloc_pages_def)

lemma alloc_pages_cases:
  assumes i: "manages s M" and a: "alloc_pages order s = (a, s')"
  obtains (fail) "a = 0" "s' = s"
      "0 \<le> order \<Longrightarrow> order \<le> int MAX_ORDER \<Longrightarrow>
         \<forall>j. order \<le> int j \<and> j \<le> MAX_ORDER \<longrightarrow> fa_free_list (free_area s j) = None"
  | (ok) p where "a = page_to_phys s p" "a \<noteq> 0" "manages s' M" "same_region s s'" "0 \<le> order"
      "(p, nat order) \<notin> allocated s" "allocated s' = insert (p, nat order) (allocated s)"
      "unat (free_page_count s') + 2 ^ nat order = unat (free_page_count s)"
      "\<exists>j. order \<le> int j \<and> j \<le> MAX_ORDER \<and> fa_free_list (free_area s j) \<noteq> None"
proof -
  from i obtain fl where r: "buddy_rep s fl"
    and sp: "space (free_blocks fl) \<union> space (allocated s) = M" by (auto simp: manages_def)
  note rd = buddy_repD [OF r]
  show thesis
  proof (cases "0 \<le> order \<and> order \<le> int MAX_ORDER")
    case False
    then have "a = 0" "s' = s" using a by (auto simp: alloc_pages_def)
    then show thesis by (rule fail) (use False in auto)
  next
    case True
    note ap = alloc_pages_rep [OF r _ _ a]
    show thesis
    proof (cases "\<forall>j \<ge> nat order. fl j = []")
      case no: True
      with ap True have "a = 0" "s' = s" by auto
      moreover have "\<forall>j. order \<le> int j \<and> j \<le> MAX_ORDER \<longrightarrow> fa_free_list (free_area s j) = None"
        using no free_list_empty [OF rd(2)] by auto
      ultimately show thesis by (rule fail)
    next
      case some: False
      with ap True obtain p fl' where p: "buddy_rep s' fl'" "a = page_to_phys s p"
        "same_region s s'" "(p, nat order) \<notin> allocated s"
        "allocated s' = insert (p, nat order) (allocated s)"
        "free_total fl' + 2 ^ nat order = free_total fl"
        "space (free_blocks fl') \<union> block_pages (p, nat order) = space (free_blocks fl)"
        by (auto split: if_splits)
      have "space (free_blocks fl') \<union> space (allocated s') = M"
        unfolding p(5) sp [symmetric] p(7) [symmetric] by (simp only: space_simps Un_ac)
      with p(1) have i': "manages s' M" by (auto simp: manages_def)
      have "p < npages s'" using marks_in_range(4) [OF buddy_repD(3) [OF p(1)], of p "nat order"] p(5) by auto
      then have "p < npages s" using p(3) by (simp add: same_region_def npages_def)
      then have nz: "a \<noteq> 0" using page_addr(1) [OF rd(1)] p(2) by simp
      from some obtain j where j: "nat order \<le> j" "fl j \<noteq> []" by auto
      then have "j \<le> MAX_ORDER" using rd(2) by (meson links_ok_def not_le)
      then have ex: "\<exists>j. order \<le> int j \<and> j \<le> MAX_ORDER \<and> fa_free_list (free_area s j) \<noteq> None"
        using j True free_list_empty [OF rd(2), of j] by (intro exI [of _ j]) auto
      show thesis
        by (rule ok [OF p(2) nz i' p(3) _ p(4,5) _ ex])
          (use True p(6) buddy_repD(5) [OF p(1)] rd(5) in auto)
    qed
  qed
qed

lemma free_pages_ok:
  assumes i: "manages s M" and b: "(p, k) \<in> allocated s"
    and s': "s' = free_pages (page_to_phys s p) (int k) s"
  shows "manages s' M" "allocated s' = allocated s - {(p, k)}" "same_region s s'"
    and "unat (free_page_count s') = unat (free_page_count s) + 2 ^ k"
    and "\<exists>j. k \<le> j \<and> j \<le> MAX_ORDER \<and> fa_free_list (free_area s' j) \<noteq> None"
proof -
  from i obtain fl where r: "buddy_rep s fl"
    and sp: "space (free_blocks fl) \<union> space (allocated s) = M" by (auto simp: manages_def)
  note rd = buddy_repD [OF r]
  have b': "(p, k) \<in> free_blocks fl \<union> allocated s \<union> {}" using b by simp
  note al = marks_in_range [OF rd(3) b']
  note ad = page_addr [OF rd(1) al(4)]
  have fl: "pg_flags (mem_map s p) = PG_USED OR PG_HEAD" "pg_ref_count (mem_map s p) = 1"
    using marks_okD(7) [OF rd(3) al(4)] allocatedD [OF b] by auto
  let ?s1 = "upd_page p (\<lambda>pg. pg\<lparr>pg_flags := PG_FREE OR PG_HEAD, pg_ref_count := 0\<rparr>) s"
  let ?s3 = "?s1\<lparr>free_page_count := free_page_count s + 2 ^ k\<rparr>"
  obtain k' p' s4 where co: "coalesce k p ?s3 = (k', p', s4)" by (cases "coalesce k p ?s3")
  have com: "pg\<lparr>pg_ref_count := r, pg_flags := f\<rparr> = pg\<lparr>pg_flags := f, pg_ref_count := r\<rparr>" for pg r f
    by (cases pg) simp
  have res: "s' = list_add k' p' s4"
    unfolding s' using ad al(1) fl co
    by (simp add: free_pages_def Let_def upd_page_def com)
  note rel = marks_release [OF rd(3) b, of 0]
  have "in_hand ?s3 fl p k"
    using rel(1) rd(2) marks_cong(1) [of ?s3 ?s1] links_upd [of "\<lambda>pg. pg\<lparr>pg_flags := PG_FREE OR PG_HEAD,
      pg_ref_count := 0\<rparr>" p s fl] by (simp add: in_hand_def links_ok_def)
  moreover have "ready ?s3 p k"
    using allocatedD [OF b] by (simp add: ready_def buddy_simps)
  ultimately obtain fl' where c: "in_hand s4 fl' p' k'" "ready s4 p' k'"
    "allocated s4 = allocated ?s3" "same_frame ?s3 s4" "free_total fl' + 2 ^ k' = free_total fl + 2 ^ k"
    "k \<le> k'" "space (free_blocks fl') \<union> block_pages (p', k') = space (free_blocks fl) \<union> block_pages (p, k)"
    using coalesce_ok [OF _ _ co] by blast
  from c(1) have c': "links_ok s4 fl'" "marks_ok s4 (free_blocks fl') (insert (p', k') {})"
    by (auto simp: in_hand_def)
  note pl = put_on_list [OF c' _ c(2), simplified]
  have fc: "free_page_count s' = free_page_count s + 2 ^ k"
    using c(4) by (simp add: res same_frame_def buddy_simps)
  have rg: "range_ok s'" "same_region s s'"
    using rd(1) c(4) by (simp_all add: res range_ok_def same_frame_def same_region_def buddy_simps)
  have r': "buddy_rep s' (fl'(k' := p' # fl' k'))"
    using pl rg(1) fc rd(4) c(5) by (simp add: buddy_rep_def res)
  show a': "allocated s' = allocated s - {(p, k)}"
    using c(3) rel(2) marks_cong(2) [of ?s3 ?s1] by (simp add: res buddy_simps)
  have "space (free_blocks (fl'(k' := p' # fl' k'))) \<union> space (allocated s') = M"
    unfolding a' free_blocks_insert space_simps sp [symmetric] space_remove [OF b, symmetric]
    using c(7) by blast
  with r' show "manages s' M" by (auto simp: manages_def)
  show "same_region s s'" by (rule rg)
  show "unat (free_page_count s') = unat (free_page_count s) + 2 ^ k"
    using buddy_repD(5) [OF r'] pl(3) c(5) rd(5) by simp
  have "k' \<le> MAX_ORDER" by (rule marks_in_range(1) [OF c'(2)]) auto
  then show "\<exists>j. k \<le> j \<and> j \<le> MAX_ORDER \<and> fa_free_list (free_area s' j) \<noteq> None"
    using c(6) free_list_empty [OF buddy_repD(2) [OF r'], of k'] by (intro exI [of _ k']) auto
qed

lemma manages_allocated:
  assumes "manages s M" "(p, k) \<in> allocated s"
  shows "k \<le> MAX_ORDER" "2 ^ k dvd page_to_pfn s p" "p + 2 ^ k \<le> npages s" "p < npages s"
    and "block_pages (p, k) \<subseteq> M"
proof -
  from assms(1) obtain fl where r: "marks_ok s (free_blocks fl) {}"
    and sp: "space (free_blocks fl) \<union> space (allocated s) = M" by (auto simp: manages_def dest: buddy_repD(3))
  show "k \<le> MAX_ORDER" "2 ^ k dvd page_to_pfn s p" "p + 2 ^ k \<le> npages s" "p < npages s"
    using marks_in_range [OF r, of p k] assms(2) by simp_all
  have "block_pages (p, k) \<subseteq> space (allocated s)" using assms(2) by (auto simp: space_def)
  with sp show "block_pages (p, k) \<subseteq> M" by blast
qed

lemma manages_disjoint:
  assumes "manages s M" "b \<in> allocated s" "c \<in> allocated s" "b \<noteq> c"
  shows "block_pages b \<inter> block_pages c = {}"
proof -
  from assms(1) obtain fl where "marks_ok s (free_blocks fl) {}"
    by (auto simp: manages_def dest: buddy_repD(3))
  then show ?thesis using assms(2-4) marks_okD(1) unfolding blocks_ok_def by blast
qed

lemma manages_range: "manages s M \<Longrightarrow> range_ok s"
  by (auto simp: manages_def dest: buddy_repD(1))

text \<open>A page index, its address and its order determine each other.\<close>

lemma manages_addr:
  assumes "manages s M" "(p, k) \<in> allocated s"
  shows "page_to_phys s p \<noteq> 0" "unat (page_to_phys s p) = page_to_pfn s p * 4096"
    "unat (page_to_phys s p) mod (2 ^ k * 4096) = 0"
proof -
  note ad = page_addr [OF manages_range [OF assms(1)] manages_allocated(4) [OF assms]]
  show "page_to_phys s p \<noteq> 0" "unat (page_to_phys s p) = page_to_pfn s p * 4096"
    by (fact ad(1), fact ad(4))
  have "2 ^ k * 4096 dvd page_to_pfn s p * 4096"
    using manages_allocated(2) [OF assms] by (intro mult_dvd_mono) simp_all
  then show "unat (page_to_phys s p) mod (2 ^ k * 4096) = 0" unfolding ad(4) by (simp only: mod_eq_0_iff_dvd)
qed

lemma card_space:
  assumes "blocks_ok s B" "finite B"
  shows "card (space B) = (\<Sum>b \<in> B. 2 ^ snd b)"
proof -
  have "card (space B) = (\<Sum>b \<in> B. card (block_pages b))"
    unfolding space_def
  proof (rule card_UN_disjoint)
    show "\<forall>b \<in> B. \<forall>c \<in> B. b \<noteq> c \<longrightarrow> block_pages b \<inter> block_pages c = {}"
      using assms(1) unfolding blocks_ok_def by blast
  qed (auto simp: assms(2) block_pages_def)
  also have "\<dots> = (\<Sum>b \<in> B. 2 ^ snd b)" by (rule sum.cong) (auto simp: block_pages_def)
  finally show ?thesis .
qed

lemma finite_allocated: "finite (allocated s)"
proof -
  have "allocated s \<subseteq> (\<lambda>p. (p, nat (pg_order (mem_map s p)))) ` {..<npages s}"
    by (auto simp: allocated_def image_iff)
  then show ?thesis by (rule finite_subset) auto
qed

lemma manages_count:
  assumes "manages s M"
  shows "unat (free_page_count s) + (\<Sum>b \<in> allocated s. 2 ^ snd b) = card M"
proof -
  from assms obtain fl where r: "buddy_rep s fl"
    and sp: "space (free_blocks fl) \<union> space (allocated s) = M" by (auto simp: manages_def)
  note rd = buddy_repD [OF r]
  note ft = free_total_card [OF rd(2)]
  have bo: "blocks_ok s (free_blocks fl \<union> allocated s)" using marks_okD(1) [OF rd(3)] by simp
  have dj: "free_blocks fl \<inter> allocated s = {}"
    using marks_okD(4) [OF rd(3)] allocatedD by fastforce
  have "card M = (\<Sum>b \<in> free_blocks fl \<union> allocated s. 2 ^ snd b)"
    unfolding sp [symmetric] space_simps(3) [symmetric]
    by (rule card_space [OF bo]) (simp add: ft(1) finite_allocated)
  also have "\<dots> = (\<Sum>b \<in> free_blocks fl. 2 ^ snd b) + (\<Sum>b \<in> allocated s. 2 ^ snd b)"
    by (rule sum.union_disjoint) (simp_all add: ft(1) finite_allocated dj)
  also have "(\<Sum>b \<in> free_blocks fl. 2 ^ snd b) = free_total fl"
    unfolding ft(2) by (rule sum.cong) (auto simp: block_pages_def)
  finally show ?thesis by (simp add: rd(5))
qed

subsection \<open>page_init\<close>

lemma fitsD:
  assumes "fits e pfn k"
  shows "2 ^ k dvd pfn" "pfn + 2 ^ k \<le> e"
proof -
  let ?x = "pfn + 2 ^ k - (1::nat)"
  have x: "?x - ?x mod 2 ^ k = pfn" and "pfn + 2 ^ k \<le> e" using assms by (simp_all add: fits_def Let_def)
  have "2 ^ k dvd ?x - ?x mod 2 ^ k" by (rule dvd_minus_mod)
  then show "2 ^ k dvd pfn" unfolding x .
  show "pfn + 2 ^ k \<le> e" by fact
qed

lemma largest_order_cases:
  assumes "pfn < e"
  obtains k where "largest_order e pfn n = Some k" "k \<le> n" "fits e pfn k"
proof -
  have "\<exists>k. largest_order e pfn n = Some k \<and> k \<le> n \<and> fits e pfn k"
  proof (induction n)
    case 0
    then show ?case using assms by (simp add: fits_def Let_def)
  next
    case (Suc n)
    then obtain k where "largest_order e pfn n = Some k" "k \<le> n" "fits e pfn k" by blast
    then show ?case by (cases "fits e pfn (Suc n)") auto
  qed
  with that show thesis by blast
qed

text \<open>The loop that hands the pages over: everything below page \<open>p\<close> is done.\<close>

definition init_upto :: "buddy \<Rightarrow> (nat \<Rightarrow> nat list) \<Rightarrow> nat \<Rightarrow> nat \<Rightarrow> bool" where
  "init_upto s fl m p \<longleftrightarrow> buddy_rep s fl \<and> space (free_blocks fl) = {m..<p} \<and> m \<le> p
     \<and> (\<forall>q < npages s. pg_flags (mem_map s q) AND PG_USED = 0)"

lemma init_upto_none_allocated: "init_upto s fl m p \<Longrightarrow> allocated s = {}"
  by (auto simp: init_upto_def allocated_def)

lemma add_block_ok:
  assumes i: "init_upto s fl m p" and k: "k \<le> MAX_ORDER" "2 ^ k dvd page_to_pfn s p" "p + 2 ^ k \<le> npages s"
  shows "init_upto (add_block k p s) (fl(k := p # fl k)) m (p + 2 ^ k)" "same_region s (add_block k p s)"
proof -
  from i have r: "buddy_rep s fl" and sp: "space (free_blocks fl) = {m..<p}" "m \<le> p"
    and nu: "\<And>q. q < npages s \<Longrightarrow> pg_flags (mem_map s q) AND PG_USED = 0"
    by (auto simp: init_upto_def)
  note rd = buddy_repD [OF r]
  let ?s1 = "upd_page p (\<lambda>pg. pg\<lparr>pg_flags := PG_FREE OR PG_HEAD, pg_order := int k\<rparr>) s"
  let ?F = "free_blocks fl"
  have al: "allocated s = {}" by (rule init_upto_none_allocated [OF i])
  then have al1: "allocated ?s1 = {}" using allocated_upd_other [of p s] by simp
  have off: "q + 2 ^ j \<le> p" if "(q, j) \<in> ?F" for q j
  proof -
    have z: "0 < (2::nat) ^ j" by simp
    then have "q + (2 ^ j - 1) \<in> block_pages (q, j)" unfolding in_block_pages by linarith
    then have "q + (2 ^ j - 1) \<in> space ?F" using that unfolding space_def by blast
    with z show ?thesis unfolding sp(1) atLeastLessThan_iff by linarith
  qed
  have head: "q \<noteq> p" if "(q, j) \<in> ?F" for q j
    using off [OF that] zero_less_power [of "2::nat" j] by linarith
  have m1: "marks_ok ?s1 ?F (insert (p, k) {})"
  proof (rule marks_okI)
    have "blocks_ok s (insert (p, k) (?F \<union> allocated s))"
    proof (rule blocks_ok_insert [OF _ k])
      show "blocks_ok s (?F \<union> allocated s)" using marks_okD(1) [OF rd(3)] by simp
      show "block_pages c \<inter> block_pages (p, k) = {}" if "c \<in> ?F \<union> allocated s" for c
        using that off [of "fst c" "snd c"] al by (auto simp: block_pages_def)
    qed
    then show "blocks_ok ?s1 (?F \<union> allocated ?s1 \<union> {(p, k)})"
      using al al1 blocks_ok_cong [of ?s1 s] by (simp add: buddy_simps)
    show "?F \<inter> {(p, k)} = {}" using head by blast
    show "pg_order (mem_map ?s1 q) = int j \<and> pg_flags (mem_map ?s1 q) \<in> {0, PG_FREE OR PG_HEAD}"
      if "(q, j) \<in> ?F" for q j
      using marks_okD(3,4) [OF rd(3) that] head [OF that] by (simp add: buddy_simps)
    show "(\<exists>j. (q, j) \<in> ?F \<union> {(p, k)})
        \<or> (\<exists>q' j. (q', j) \<in> ?F \<union> allocated ?s1 \<union> {(p, k)} \<and> q' < q \<and> q < q' + 2 ^ j)"
      if "q < npages ?s1" "pg_flags (mem_map ?s1 q) AND PG_FREE \<noteq> 0" for q
    proof (cases "q = p")
      case False
      with that have "q < npages s" "pg_flags (mem_map s q) AND PG_FREE \<noteq> 0" by (simp_all add: buddy_simps)
      from marks_okD(6) [OF rd(3) this] show ?thesis using al al1 by blast
    qed blast
  qed (use nu in \<open>auto simp: buddy_simps split: if_splits\<close>)
  have l1: "links_ok ?s1 fl" using rd(2) by (simp add: links_upd)
  have r1: "ready ?s1 p k" by (simp add: ready_def buddy_simps)
  note pl = put_on_list [OF l1 m1 _ r1, simplified]
  have eq: "add_block k p s = (list_add k p ?s1)\<lparr>free_page_count := free_page_count s + 2 ^ k\<rparr>"
    by (simp add: add_block_def Let_def buddy_simps)
  show "same_region s (add_block k p s)"
    unfolding eq by (simp add: same_region_def buddy_simps)
  have "buddy_rep (add_block k p s) (fl(k := p # fl k))"
    using pl rd(1,4) marks_cong(1) [of "add_block k p s" "list_add k p ?s1"]
    unfolding eq by (simp add: buddy_rep_def range_ok_def links_ok_def buddy_simps)
  moreover have "space (free_blocks (fl(k := p # fl k))) = {m..<p + 2 ^ k}"
    using sp by (auto simp: free_blocks_insert)
  ultimately show "init_upto (add_block k p s) (fl(k := p # fl k)) m (p + 2 ^ k)"
    using sp(2) nu zero_less_power [of "2::nat" k] unfolding eq
    by (simp add: init_upto_def buddy_simps npages_def del: zero_less_power)
qed


lemma add_blocks_ok:
  assumes "init_upto s fl m (pfn - start_pfn s)" "start_pfn s \<le> pfn" "pfn \<le> end_pfn s"
  shows "\<exists>fl'. init_upto (add_blocks pfn s) fl' m (npages s) \<and> same_region s (add_blocks pfn s)"
  using assms
proof (induction pfn s arbitrary: fl rule: add_blocks.induct)
  case (1 pfn s)
  show ?case
  proof (cases "pfn < end_pfn s")
    case False
    then show ?thesis
      using "1.prems" by (subst (1 2) add_blocks.simps) (auto simp: npages_def same_region_def)
  next
    case True
    then obtain k where k: "largest_order (end_pfn s) pfn MAX_ORDER = Some k" "k \<le> MAX_ORDER"
      "fits (end_pfn s) pfn k" by (rule largest_order_cases)
    note ft = fitsD [OF k(3)]
    let ?s' = "add_block k (pfn - start_pfn s) s"
    have pn: "page_to_pfn s (pfn - start_pfn s) = pfn" using "1.prems"(2) by (simp add: page_to_pfn_def)
    have "pfn - start_pfn s + 2 ^ k \<le> npages s"
      using ft(2) "1.prems"(2) by (simp add: npages_def)
    note ab = add_block_ok [OF "1.prems"(1) k(2) _ this, unfolded pn, OF ft(1)]
    have sr: "start_pfn ?s' = start_pfn s" "end_pfn ?s' = end_pfn s" "npages ?s' = npages s"
      using ab(2) by (simp_all add: same_region_def npages_def)
    have "init_upto ?s' (fl(k := (pfn - start_pfn s) # fl k)) m (pfn + 2 ^ k - start_pfn ?s')"
      using ab(1) "1.prems"(2) sr by simp
    from "1.IH"(2) [OF True k(1) this] obtain fl' where
      "init_upto (add_blocks (pfn + 2 ^ k) ?s') fl' m (npages s)"
      "same_region ?s' (add_blocks (pfn + 2 ^ k) ?s')"
      using sr "1.prems"(2) ft(2) by auto
    then show ?thesis
      using ab(2) True k(1) by (subst (1 2) add_blocks.simps) (auto simp: same_region_def)
  qed
qed

lemma fold_upd_page:
  "fold (\<lambda>p. upd_page p f) [0..<n] s = s\<lparr>mem_map := \<lambda>p. if p < n then f (mem_map s p) else mem_map s p\<rparr>"
  by (induction n) (auto simp: upd_page_def fun_eq_iff less_Suc_eq)

lemma fold_fun_upd: "fold (\<lambda>k g. g(k := v)) [0..<n] g = (\<lambda>k. if k < n then v else g k)"
  by (induction n) (auto simp: fun_eq_iff)


lemma init_constants:
  "phys_to_pfn (PHYS_MEMORY_BASE + KERNEL_RESERVED) = 0x80400"
  "phys_to_pfn (PHYS_MEMORY_BASE + PHYS_MEMORY_SIZE) = 0x88000"
  by (simp_all add: phys_to_pfn_def PHYS_MEMORY_BASE_def KERNEL_RESERVED_def PHYS_MEMORY_SIZE_def)

lemma init_sizes:
  "(of_nat 0x88000 - of_nat 0x80400 :: u64) = 31744"
  "unat ((31744 * sizeof_page + PAGE_SIZE - 1) div PAGE_SIZE) = 310"
  by (simp_all add: sizeof_page_def)

lemma page_init_ok:
  "manages (page_init s0) {310..<31744}" "allocated (page_init s0) = {}"
  "start_pfn (page_init s0) = 0x80400" "end_pfn (page_init s0) = 0x88000"
  "total_pages (page_init s0) = 31744"
proof -
  let ?s = "s0\<lparr>start_pfn := 0x80400, end_pfn := 0x88000, total_pages := 31744, mem_map_pages := 310,
      free_area := \<lambda>k. if k < Suc MAX_ORDER then \<lparr>fa_free_list = None, fa_nr_free = 0\<rparr> else free_area s0 k,
      mem_map := \<lambda>p. if p < 310
        then (if p < 31744 then (mem_map s0 p)\<lparr>pg_flags := 0, pg_order := -1, pg_next := None, pg_prev := None,
                pg_ref_count := 0\<rparr> else mem_map s0 p)\<lparr>pg_flags := PG_RESERVED\<rparr>
        else if p < 31744 then (mem_map s0 p)\<lparr>pg_flags := 0, pg_order := -1, pg_next := None, pg_prev := None,
                pg_ref_count := 0\<rparr> else mem_map s0 p,
      free_page_count := 0\<rparr>"
  have eq: "page_init s0 = add_blocks 0x80536 ?s"
    unfolding page_init_def Let_def init_constants init_sizes fold_upd_page fold_fun_upd by (simp cong: if_cong)
  have fb: "free_blocks (\<lambda>_. []) = {}" by (simp add: free_blocks_def)
  have al: "allocated ?s = {}" by (auto simp: allocated_def npages_def)
  have "marks_ok ?s {} {}"
    by (rule marks_okI) (auto simp: al blocks_ok_def npages_def split: if_splits)
  then have "buddy_rep ?s (\<lambda>_. [])"
    by (simp add: buddy_rep_def fb range_ok_def links_ok_def free_total_def)
  then have "init_upto ?s (\<lambda>_. []) 310 (0x80536 - start_pfn ?s)"
    by (auto simp: init_upto_def fb npages_def)
  from add_blocks_ok [OF this] obtain fl where
    i: "init_upto (page_init s0) fl 310 (npages ?s)" and sr: "same_region ?s (page_init s0)"
    unfolding eq by auto
  show "start_pfn (page_init s0) = 0x80400" "end_pfn (page_init s0) = 0x88000"
    "total_pages (page_init s0) = 31744" using sr by (simp_all add: same_region_def)
  show a: "allocated (page_init s0) = {}" by (rule init_upto_none_allocated [OF i])
  show "manages (page_init s0) {310..<31744}"
    using i unfolding manages_def a by (auto simp: init_upto_def npages_def)
qed

lemma alloc_page_nonempty:
  assumes "manages s M" "0 < unat (free_page_count s)" "alloc_pages 0 s = (a, s')"
  shows "a \<noteq> 0"
proof
  assume a: "a = 0"
  from assms(1) obtain fl where r: "buddy_rep s fl" by (auto simp: manages_def)
  note rd = buddy_repD [OF r]
  have "\<forall>j \<le> MAX_ORDER. fa_free_list (free_area s j) = None"
    using assms(1,3) by (rule alloc_pages_cases) (use a in auto)
  then have "\<forall>j \<le> MAX_ORDER. fl j = []" using free_list_empty [OF rd(2)] by blast
  then have "free_total fl = 0" by (simp add: free_total_def)
  with rd(5) assms(2) show False by simp
qed

text \<open>The states the allocator can be in: every block is freed with the order it was allocated with.\<close>

inductive buddy_reach :: "buddy \<Rightarrow> bool" where
  init: "buddy_reach (page_init s0)"
| alloc: "buddy_reach s \<Longrightarrow> buddy_reach (snd (alloc_pages order s))"
| free: "buddy_reach s \<Longrightarrow> (p, k) \<in> allocated s \<Longrightarrow>
         buddy_reach (free_pages (page_to_phys s p) (int k) s)"

lemma alloc_pages_manages:
  assumes "manages s M"
  shows "manages (snd (alloc_pages order s)) M" "same_region s (snd (alloc_pages order s))"
proof -
  obtain a s' where a: "alloc_pages order s = (a, s')" by (cases "alloc_pages order s")
  from assms a have "manages s' M \<and> same_region s s'"
    by (rule alloc_pages_cases) (use assms in \<open>auto simp: same_region_def\<close>)
  with a show "manages (snd (alloc_pages order s)) M" "same_region s (snd (alloc_pages order s))" by simp_all
qed

lemma buddy_reach_manages:
  "buddy_reach s \<Longrightarrow> manages s {310..<31744} \<and> start_pfn s = 0x80400 \<and> end_pfn s = 0x88000"
proof (induction rule: buddy_reach.induct)
  case (alloc s order)
  then show ?case
    using alloc_pages_manages [of s "{310..<31744}" order] by (auto simp: same_region_def)
next
  case (free s p k)
  then show ?case
    using free_pages_ok(1,3) [OF _ free.hyps(2) refl] by (auto simp: same_region_def)
qed (simp add: page_init_ok)

subsection \<open>The zeroed image\<close>

text \<open>The globals of the file as the loader leaves them, in \<^verbatim>\<open>.bss\<close>.\<close>

definition bss_buddy :: buddy where
  "bss_buddy = \<lparr>mem_map = (\<lambda>_. \<lparr>pg_flags = 0, pg_order = 0, pg_next = None, pg_prev = None, pg_ref_count = 0\<rparr>),
     mem_map_pages = 0, start_pfn = 0, end_pfn = 0, total_pages = 0, free_page_count = 0,
     free_area = (\<lambda>_. \<lparr>fa_free_list = None, fa_nr_free = 0\<rparr>)\<rparr>"

lemma page_init_count: "unat (free_page_count (page_init s)) = 31434"
  using manages_count [OF page_init_ok(1) [of s]] by (simp add: page_init_ok(2))

lemma first_page:
  obtains p where "(p, 0) \<in> allocated (snd (alloc_page (page_init s)))" "fst (alloc_page (page_init s)) \<noteq> 0"
proof -
  obtain a s' where a: "alloc_page (page_init s) = (a, s')" by (cases "alloc_page (page_init s)")
  then have ap: "alloc_pages 0 (page_init s) = (a, s')" by (simp add: alloc_page_def)
  have nz: "a \<noteq> 0" using alloc_page_nonempty [OF page_init_ok(1) _ ap] page_init_count by simp
  show thesis
    using page_init_ok(1) ap by (rule alloc_pages_cases) (use nz a that in auto)
qed

text \<open>The block the freed block ends up in keeps its marks only if it is the same block.\<close>

lemma coalesce_head_flags:
  assumes "coalesce k p s = (k', p', s')"
  shows "p' \<le> p \<and> pg_flags (mem_map s' p') = (if p' = p then pg_flags (mem_map s p) else 0)"
  using assms
proof (induction k p s rule: coalesce.induct)
  case (1 k p s)
  show ?case
  proof (cases "k < MAX_ORDER \<and> (\<exists>b. find_buddy s p k = Some b
      \<and> pg_flags (mem_map s b) AND PG_FREE \<noteq> 0 \<and> pg_order (mem_map s b) = int k)")
    case False
    then have "coalesce k p s = (k, p, s)"
      by (subst coalesce.simps) (auto split: option.splits)
    with "1.prems" show ?thesis by auto
  next
    case True
    then obtain b where k: "k < MAX_ORDER" and b: "find_buddy s p k = Some b"
      and f: "pg_flags (mem_map s b) AND PG_FREE \<noteq> 0" "pg_order (mem_map s b) = int k" by auto
    have f': "\<not> (pg_flags (mem_map s b) AND PG_FREE = 0 \<or> pg_order (mem_map s b) \<noteq> int k)" using f by simp
    have bp: "b \<noteq> p"
    proof
      assume "b = p"
      with b have "page_to_pfn s p XOR 2 ^ k = page_to_pfn s p"
        by (auto simp: find_buddy_def Let_def pfn_to_page_def page_to_pfn_def split: if_splits)
      then have "(2::nat) ^ k = 0"
        by (metis bit.xor_self xor.assoc xor.left_neutral xor_nat_def xor_self_eq)
      then show False by simp
    qed
    obtain q where q: "q = (if b < p then b else p)" by simp
    let ?s2 = "upd_page b (\<lambda>pg. pg\<lparr>pg_flags := 0, pg_order := -1\<rparr>) (list_del k b s)"
    let ?s3 = "upd_page q (\<lambda>pg. pg\<lparr>pg_order := int (Suc k)\<rparr>) ?s2"
    have "coalesce k p s = coalesce (Suc k) q ?s3"
      using k b f q by (subst coalesce.simps) (simp add: Let_def)
    with "1.prems" have "coalesce (Suc k) q ?s3 = (k', p', s')" by simp
    from "1.IH" [OF k b f' refl refl q refl this]
    show ?thesis using bp q by (auto simp: buddy_simps split: if_splits)
  qed
qed

text \<open>Two order-0 buddies, frames 4 and 5: page 0 free, page 1 just released.\<close>

definition two_buddies :: buddy where
  "two_buddies = \<lparr>mem_map = (\<lambda>p. \<lparr>pg_flags = PG_FREE OR PG_HEAD, pg_order = 0, pg_next = None,
                                 pg_prev = None, pg_ref_count = 0\<rparr>),
     mem_map_pages = 0, start_pfn = 4, end_pfn = 6, total_pages = 2, free_page_count = 2,
     free_area = (\<lambda>_. \<lparr>fa_free_list = None, fa_nr_free = 0\<rparr>)
                   (0 := \<lparr>fa_free_list = Some 0, fa_nr_free = 1\<rparr>)\<rparr>"

subsection \<open>The allocator as a source of page frames\<close>

definition owned_frames :: "buddy \<Rightarrow> u64 set" where
  "owned_frames s = {page_to_phys s p | p. (p, 0) \<in> allocated s}"

definition frame_pool :: "buddy \<Rightarrow> u64 set" where
  "frame_pool s = page_to_phys s ` {..<npages s}"

lemma frame_pool_cong: "same_region s s' \<Longrightarrow> frame_pool s' = frame_pool s"
  by (simp add: frame_pool_def same_region_def page_to_phys_def [abs_def] page_to_pfn_def npages_def)

lemma owned_frames_cong:
  "same_region s s' \<Longrightarrow> owned_frames s' = {page_to_phys s p | p. (p, 0) \<in> allocated s'}"
  by (simp add: owned_frames_def same_region_def page_to_phys_def page_to_pfn_def)

lemma buddy_alloc_page:
  assumes "manages s M" "alloc_page s = (a, s')" "a \<noteq> 0"
  shows "manages s' M \<and> a \<notin> owned_frames s \<and> owned_frames s' = insert a (owned_frames s)
    \<and> frame_pool s' = frame_pool s"
  using assms(1) assms(2) [unfolded alloc_page_def]
proof (cases rule: alloc_pages_cases)
  case (ok p)
  note ad = page_addr_inj [OF manages_range [OF assms(1)]]
  have "p < npages s" using manages_allocated(4) [OF ok(3), of p 0] ok(4,7)
    by (simp add: same_region_def npages_def)
  then have "a \<notin> owned_frames s"
    using ok(1,6) ad [of p] manages_allocated(4) [OF assms(1)] by (auto simp: owned_frames_def)
  moreover have "owned_frames s' = insert a (owned_frames s)"
    unfolding owned_frames_cong [OF ok(4)] ok(1,7) by (auto simp: owned_frames_def)
  ultimately show ?thesis using ok(3) frame_pool_cong [OF ok(4)] by simp
qed (use assms(3) in simp)

lemma buddy_free_page:
  assumes "manages s M" "a \<in> owned_frames s"
  shows "manages (free_page a s) M \<and> owned_frames (free_page a s) = owned_frames s - {a}
    \<and> frame_pool (free_page a s) = frame_pool s"
proof -
  from assms(2) obtain p where p: "a = page_to_phys s p" "(p, 0) \<in> allocated s"
    by (auto simp: owned_frames_def)
  have f: "free_page a s = free_pages (page_to_phys s p) (int 0) s" by (simp add: free_page_def p(1))
  note fp = free_pages_ok [OF assms(1) p(2) f]
  note ad = page_addr_inj [OF manages_range [OF assms(1)]]
  have inj: "q = p" if "(q, 0) \<in> allocated s" "page_to_phys s q = page_to_phys s p" for q
    using ad [OF manages_allocated(4) [OF assms(1) that(1)] manages_allocated(4) [OF assms(1) p(2)] that(2)] .
  have "owned_frames (free_page a s) = owned_frames s - {a}"
    unfolding owned_frames_cong [OF fp(3)] fp(2) unfolding owned_frames_def p(1) by (auto dest: inj)
  with fp(1) frame_pool_cong [OF fp(3)] show ?thesis by simp
qed

interpretation buddy_frames: frame_source alloc_page free_page "\<lambda>s. \<exists>M. manages s M" owned_frames frame_pool
proof
  fix s s' :: buddy and a :: u64
  assume ok: "\<exists>M. manages s M"
  show "(\<exists>M. manages s' M) \<and> a \<notin> owned_frames s \<and> owned_frames s' = insert a (owned_frames s)
      \<and> frame_pool s' = frame_pool s"
    if "alloc_page s = (a, s')" "a \<noteq> 0" using ok buddy_alloc_page [OF _ that] by blast
  show "s' = s" if al: "alloc_page s = (0, s')"
  proof -
    from ok obtain M where "manages s M" by blast
    from this al [unfolded alloc_page_def] show ?thesis by (rule alloc_pages_cases) simp_all
  qed
  show "a \<noteq> 0 \<and> 4096 dvd unat a \<and> unat a < 2 ^ 56" if own: "a \<in> owned_frames s"
  proof -
    from own obtain p where p: "a = page_to_phys s p" "(p, 0) \<in> allocated s"
      by (auto simp: owned_frames_def)
    from ok obtain M where m: "manages s M" by blast
    note ad = manages_addr [OF m p(2)]
    have "page_to_pfn s p < 2 ^ 44"
      using manages_range [OF m] manages_allocated(4) [OF m p(2)]
      by (auto simp: range_ok_def npages_def page_to_pfn_def)
    then have "page_to_pfn s p * 4096 < 2 ^ 56" by simp
    then show ?thesis unfolding p(1) using ad(1) unfolding ad(2) by simp
  qed
  show "owned_frames s \<subseteq> frame_pool s"
    using ok manages_allocated(4) by (auto simp: owned_frames_def frame_pool_def)
  show "(\<exists>M. manages (free_page a s) M) \<and> owned_frames (free_page a s) = owned_frames s - {a}
      \<and> frame_pool (free_page a s) = frame_pool s"
    if "a \<in> owned_frames s" using ok buddy_free_page [OF _ that] by blast
qed

interpretation buddy_counted: counted_frames alloc_page free_page "\<lambda>s. \<exists>M. manages s M" owned_frames frame_pool
  "\<lambda>s. unat (free_page_count s)"
proof
  fix s s' :: buddy and a :: u64
  assume "\<exists>M. manages s M" and n: "0 < unat (free_page_count s)" and a: "alloc_page s = (a, s')"
  then obtain M where m: "manages s M" by blast
  have ap: "alloc_pages 0 s = (a, s')" using a by (simp add: alloc_page_def)
  have nz: "a \<noteq> 0" by (rule alloc_page_nonempty [OF m n ap])
  from m ap show "a \<noteq> 0 \<and> Suc (unat (free_page_count s')) = unat (free_page_count s)"
    by (rule alloc_pages_cases) (use nz in auto)
qed

subsection \<open>Properties\<close>

text \<open>
  C1: \<open>alloc_pages\<close> on a well-formed state returns 0 exactly when no free block of the
  requested order or a larger one is left, and then changes nothing.  Otherwise it
  returns the address of a block of \<open>2 ^ order\<close> pages that is aligned to its size, lies
  in the managed pages and overlaps no allocated block; that block is the one added to
  the allocated blocks, the free count drops by its size, and the state stays
  well-formed.
\<close>

theorem alloc_pages_correct:
  assumes "manages s M" "0 \<le> order" "order \<le> int MAX_ORDER" "alloc_pages order s = (a, s')"
  shows "manages s' M
    \<and> (a = 0 \<longleftrightarrow> (\<forall>j. order \<le> int j \<and> j \<le> MAX_ORDER \<longrightarrow> fa_free_list (free_area s j) = None))
    \<and> (a = 0 \<longrightarrow> s' = s)
    \<and> (a \<noteq> 0 \<longrightarrow> (\<exists>p. a = page_to_phys s p
          \<and> unat a mod (2 ^ nat order * 4096) = 0
          \<and> block_pages (p, nat order) \<subseteq> M
          \<and> (\<forall>b \<in> allocated s. block_pages b \<inter> block_pages (p, nat order) = {})
          \<and> allocated s' = insert (p, nat order) (allocated s)
          \<and> unat (free_page_count s') + 2 ^ nat order = unat (free_page_count s)))"
  using assms(1,4)
proof (cases rule: alloc_pages_cases)
  case fail
  then show ?thesis using assms by auto
next
  case (ok p)
  have b: "(p, nat order) \<in> allocated s'" using ok(7) by simp
  have "page_to_phys s' p = page_to_phys s p"
    using ok(4) by (simp add: same_region_def page_to_phys_def page_to_pfn_def)
  then have "unat a mod (2 ^ nat order * 4096) = 0" using manages_addr(3) [OF ok(3) b] ok(1) by simp
  moreover have "block_pages c \<inter> block_pages (p, nat order) = {}" if "c \<in> allocated s" for c
  proof (rule manages_disjoint [OF ok(3) _ b])
    show "c \<in> allocated s'" using that ok(7) by simp
    show "c \<noteq> (p, nat order)" using that ok(6) by auto
  qed
  moreover note manages_allocated(5) [OF ok(3) b]
  ultimately have "\<exists>p. a = page_to_phys s p \<and> unat a mod (2 ^ nat order * 4096) = 0
      \<and> block_pages (p, nat order) \<subseteq> M \<and> (\<forall>b \<in> allocated s. block_pages b \<inter> block_pages (p, nat order) = {})
      \<and> allocated s' = insert (p, nat order) (allocated s)
      \<and> unat (free_page_count s') + 2 ^ nat order = unat (free_page_count s)"
    using ok(1,7,8) by (intro exI [of _ p] conjI ballI; blast)
  then show ?thesis using ok(2,3,9) by (intro conjI impI iffI; metis)
qed

theorem alloc_pages_correct_witness:
  "manages (snd (alloc_pages 0 (page_init bss_buddy))) {310..<31744}
   \<and> fst (alloc_pages 0 (page_init bss_buddy)) \<noteq> 0
   \<and> (\<exists>p. allocated (snd (alloc_pages 0 (page_init bss_buddy))) = {(p, 0)})"
proof -
  obtain a t where a: "alloc_pages 0 (page_init bss_buddy) = (a, t)"
    by (cases "alloc_pages 0 (page_init bss_buddy)")
  have "a \<noteq> 0"
    using alloc_page_nonempty [OF page_init_ok(1) _ a] by (simp add: page_init_count)
  with alloc_pages_correct [OF page_init_ok(1) _ _ a] show ?thesis
    using a page_init_ok(2) [of bss_buddy] by auto
qed


text \<open>
  C2: freeing an allocated block with the order it was allocated with keeps the state
  well-formed, removes exactly that block from the allocated blocks, raises the free
  count by its size, and makes the next \<open>alloc_pages\<close> of that order succeed.
\<close>

theorem free_pages_correct:
  assumes "manages s M" "(p, k) \<in> allocated s" "s' = free_pages (page_to_phys s p) (int k) s"
  shows "manages s' M \<and> allocated s' = allocated s - {(p, k)}
    \<and> unat (free_page_count s') = unat (free_page_count s) + 2 ^ k
    \<and> fst (alloc_pages (int k) s') \<noteq> 0"
proof -
  note f = free_pages_ok [OF assms]
  obtain a t where a: "alloc_pages (int k) s' = (a, t)" by (cases "alloc_pages (int k) s'")
  have "k \<le> MAX_ORDER" by (rule manages_allocated(1) [OF assms(1,2)])
  then have "a \<noteq> 0" using f(1) a by (rule_tac alloc_pages_cases [OF f(1) a]) (use f(5) in auto)
  with f a show ?thesis by simp
qed

theorem free_pages_correct_witness:
  "\<exists>p. (p, 0) \<in> allocated (snd (alloc_page (page_init bss_buddy)))
     \<and> allocated (free_pages (page_to_phys (snd (alloc_page (page_init bss_buddy))) p) (int 0)
          (snd (alloc_page (page_init bss_buddy))))
        = allocated (snd (alloc_page (page_init bss_buddy))) - {(p, 0)}"
proof -
  obtain p where p: "(p, 0) \<in> allocated (snd (alloc_page (page_init bss_buddy)))" by (rule first_page)
  have m: "manages (snd (alloc_page (page_init bss_buddy))) {310..<31744}"
    unfolding alloc_page_def by (rule alloc_pages_manages [OF page_init_ok(1)])
  from free_pages_correct [OF m p refl] p show ?thesis by blast
qed


text \<open>
  C3: whatever sequence of allocations and frees follows \<open>page_init\<close>, live blocks never
  overlap, none of them touches the pages that hold the page array itself, each is
  aligned to its size, and the free count plus the live pages is the number of pages
  that \<open>page_init\<close> handed over: no page is lost and none is handed out twice.
\<close>

theorem buddy_reach_safe:
  assumes "buddy_reach s"
  shows "(\<forall>b \<in> allocated s. \<forall>c \<in> allocated s. b \<noteq> c \<longrightarrow> block_pages b \<inter> block_pages c = {})
    \<and> (\<forall>(p, k) \<in> allocated s. 310 \<le> p \<and> p + 2 ^ k \<le> 31744
          \<and> unat (page_to_phys s p) mod (2 ^ k * 4096) = 0)
    \<and> unat (free_page_count s) + (\<Sum>b \<in> allocated s. 2 ^ snd b) = 31434"
proof -
  have m: "manages s {310..<31744}" and st: "start_pfn s = 0x80400" "end_pfn s = 0x88000"
    using buddy_reach_manages [OF assms] by auto
  have "310 \<le> p \<and> p + 2 ^ k \<le> 31744 \<and> unat (page_to_phys s p) mod (2 ^ k * 4096) = 0"
    if b: "(p, k) \<in> allocated s" for p k
  proof -
    have "p \<in> {310..<31744}" using manages_allocated(5) [OF m b] by force
    moreover have "p + 2 ^ k \<le> 31744" using manages_allocated(3) [OF m b] st by (simp add: npages_def)
    ultimately show ?thesis using manages_addr(3) [OF m b] by simp
  qed
  then show ?thesis using manages_disjoint [OF m] manages_count [OF m] by auto
qed

theorem buddy_reach_safe_witness:
  "buddy_reach (snd (alloc_pages 1 (page_init bss_buddy)))
   \<and> unat (free_page_count (snd (alloc_pages 1 (page_init bss_buddy))))
     + (\<Sum>b \<in> allocated (snd (alloc_pages 1 (page_init bss_buddy))). 2 ^ snd b) = 31434"
proof -
  have r: "buddy_reach (snd (alloc_pages 1 (page_init bss_buddy)))"
    by (intro buddy_reach.intros)
  with buddy_reach_safe [OF r] show ?thesis by blast
qed

text \<open>
  C4: \<open>page_init\<close> sets up a well-formed allocator over all pages of the region but those of
  the page array, with nothing allocated, whatever the globals held before.
\<close>

theorem page_init_correct:
  "manages (page_init s) {310..<31744} \<and> allocated (page_init s) = {}
   \<and> get_mem_info (page_init s) = (31744 * 4096, 31434 * 4096)"
proof -
  have "free_page_count (page_init s) = of_nat (unat (free_page_count (page_init s)))" by simp
  also have "\<dots> = 31434" unfolding page_init_count by simp
  finally show ?thesis by (simp add: page_init_ok get_mem_info_def)
qed

text \<open>
  C5: a block that \<open>free_pages\<close> merges with its lower buddy loses the \<^verbatim>\<open>PG_FREE\<close> mark of its
  new head (the loop clears the flags of the buddy, which becomes the head), although
  the block goes on a free list.  The head of that block can no longer be recognised as
  free by the coalescing test of its own buddy.
\<close>

theorem coalesce_drops_mark:
  assumes "coalesce k p s = (k', p', s')" "p' \<noteq> p"
  shows "pg_flags (mem_map s' p') AND PG_FREE = 0"
  using coalesce_head_flags [OF assms(1)] assms(2) by simp

theorem coalesce_drops_mark_witness:
  "\<exists>s'. coalesce 0 1 two_buddies = (1, 0, s') \<and> pg_flags (mem_map s' 0) AND PG_FREE = 0"
proof -
  obtain s' where "coalesce 0 1 two_buddies = (1, 0, s')"
    by (simp add: coalesce.simps [of 0] coalesce.simps [of "Suc 0"] two_buddies_def find_buddy_def
        pfn_to_page_def page_to_pfn_def MAX_ORDER_def Let_def upd_page_def list_del_def)
  with coalesce_drops_mark [OF this] show ?thesis by auto
qed

end
