(* ===== verification/PageTableInv.thy ===== *)
theory PageTableInv
  imports PageTable BuddyAlloc
begin

text \<open>
  The tables reachable from a root form a tree whose nodes are frames of the page
  allocator, and the operations of \<^verbatim>\<open>pgtable.c\<close> change the translation only where they
  say they do.
\<close>

unbundle bit_operations_syntax

subsection \<open>Bits of entries and addresses\<close>

lemma low_mask: "(PAGE_SIZE - 1 :: u64) = mask 12" "(512 - 1 :: u64) = mask 9"
  "(push_bit n 1 - 1 :: u64) = mask n"
  by (simp_all add: mask_eq_exp_minus_1 push_bit_eq_mult)

lemma index_bound [simp]: "pgd_index va < 512" "pmd_index va < 512" "pte_index va < 512"
proof -
  have "unat (x AND mask 9 :: u64) < 512" for x
    unfolding take_bit_eq_mask [symmetric] unsigned_take_bit_eq
    using take_bit_nat_less_exp [of 9 "unat x"] by simp
  then show "pgd_index va < 512" "pmd_index va < 512" "pte_index va < 512"
    by (simp_all only: pgd_index_def pmd_index_def pte_index_def low_mask)
qed

lemma index_page_align [simp]:
  "pgd_index (page_align va) = pgd_index va" "pmd_index (page_align va) = pmd_index va"
  "pte_index (page_align va) = pte_index va"
  unfolding pgd_index_def pmd_index_def pte_index_def page_align_def low_mask
    PGDIR_SHIFT_def PMD_SHIFT_def PTE_SHIFT_def
  by (rule arg_cong [where f = unat], rule bit_word_eqI, auto simp: bit_simps)+

lemma pte_valid_iff: "pte_valid e \<longleftrightarrow> bit e 0"
  by (simp add: pte_valid_def PTE_V_def and_one_eq bit_0 odd_iff_mod_2_eq_one flip: even_iff_mod_2_eq_zero)

lemma word_zero_iff: "x = (0::u64) \<longleftrightarrow> (\<forall>n. \<not> bit x n)"
  by (auto intro: bit_word_eqI)

lemma bit_flags:
  "bit PTE_V n \<longleftrightarrow> n = 0" "bit PTE_R n \<longleftrightarrow> n = 1" "bit PTE_W n \<longleftrightarrow> n = 2" "bit PTE_X n \<longleftrightarrow> n = 3"
proof -
  have e: "bit (2 ^ k :: u64) n \<longleftrightarrow> n = k" if "k < 64" for k
    using that by (simp only: bit_exp_iff) (auto simp: possible_bit_def)
  have f: "PTE_V = 2 ^ 0" "PTE_R = 2 ^ 1" "PTE_W = 2 ^ 2" "PTE_X = 2 ^ 3"
    by (simp_all add: PTE_V_def PTE_R_def PTE_W_def PTE_X_def)
  show "bit PTE_V n \<longleftrightarrow> n = 0" unfolding f(1) by (rule e) simp
  show "bit PTE_R n \<longleftrightarrow> n = 1" unfolding f(2) by (rule e) simp
  show "bit PTE_W n \<longleftrightarrow> n = 2" unfolding f(3) by (rule e) simp
  show "bit PTE_X n \<longleftrightarrow> n = 3" unfolding f(4) by (rule e) simp
qed

lemma pte_leaf_iff: "pte_leaf e \<longleftrightarrow> bit e 1 \<or> bit e 2 \<or> bit e 3"
proof -
  have b: "bit (e AND (PTE_R OR PTE_W OR PTE_X)) n \<longleftrightarrow> bit e n \<and> (n = 1 \<or> n = 2 \<or> n = 3)" for n
    by (simp only: bit_and_iff bit_or_iff bit_flags)
  show ?thesis unfolding pte_leaf_def word_zero_iff b by auto
qed

lemma frame_bits:
  assumes a: "4096 dvd unat (a::u64)" "unat a < 2 ^ 56" and b: "bit a n"
  shows "12 \<le> n" "n < 56"
proof -
  have u: "bit (unat a) n" using b bit_imp_possible_bit [OF b] by (simp add: bit_unsigned_iff)
  have "take_bit 12 (unat a) = 0" using a(1) by (simp add: take_bit_eq_mod dvd_imp_mod_0)
  then have "\<not> bit (take_bit 12 (unat a)) n" by (simp only: bit_0_eq) simp
  with u show "12 \<le> n" by (simp add: bit_take_bit_iff)
  have "take_bit 56 (unat a) = unat a" using a(2) by (rule take_bit_nat_eq_self)
  with u have "bit (take_bit 56 (unat a)) n" by (simp only:)
  then show "n < 56" by (simp only: bit_take_bit_iff)
qed

lemma pte_phys_roundtrip:
  assumes "4096 dvd unat (a::u64)" "unat a < 2 ^ 56" "flags < 1024"
  shows "pte_to_phys (phys_to_pte a flags) = a"
proof (rule bit_word_eqI)
  fix n
  have f: "\<not> bit flags m" if "10 \<le> m" for m
  proof -
    have "take_bit 10 (unat flags) = unat flags"
      using assms(3) by (intro take_bit_nat_eq_self) (simp add: word_less_nat_alt)
    then have "bit (unat flags) m = bit (take_bit 10 (unat flags)) m" by (simp only:)
    then have "\<not> bit (unat flags) m" using that by (simp only: bit_take_bit_iff) simp
    then show ?thesis using bit_imp_possible_bit [of flags m] by (auto simp: bit_unsigned_iff)
  qed
  show "bit (pte_to_phys (phys_to_pte a flags)) n = bit a n" if "n < LENGTH(64)"
    using that frame_bits [OF assms(1,2), of n] f
    by (auto simp: pte_to_phys_def phys_to_pte_def bit_simps)
qed

lemma table_entry:
  assumes "4096 dvd unat (a::u64)" "unat a < 2 ^ 56"
  shows "pte_valid (phys_to_pte a PTE_V)" "\<not> pte_leaf (phys_to_pte a PTE_V)"
    "pte_to_phys (phys_to_pte a PTE_V) = a"
  using pte_phys_roundtrip [OF assms, of PTE_V]
  by (auto simp: pte_valid_iff pte_leaf_iff phys_to_pte_def bit_simps bit_flags PTE_V_def)

lemma pte_zero [simp]: "\<not> pte_valid 0" "\<not> pte_leaf 0"
  by (simp_all add: pte_valid_def pte_leaf_def)

lemma pte_valid_or [simp]: "pte_valid (phys_to_pte a (f OR PTE_V))"
  by (simp add: pte_valid_iff phys_to_pte_def bit_simps bit_flags)

subsection \<open>What the tables mean\<close>

text \<open>
  \<open>sv39_leaf\<close> is the page walk of the privileged architecture: the level at which the
  translation of \<open>va\<close> ends and the leaf entry.  At level 0 the entry is only required to
  be valid.
\<close>

definition sv39_leaf :: "'s ptab \<Rightarrow> u64 \<Rightarrow> u64 \<Rightarrow> (nat \<times> u64) option" where
  "sv39_leaf s pgd va =
     (let e2 = tables s pgd (pgd_index va)
      in if \<not> pte_valid e2 then None
         else if pte_leaf e2 then Some (2, e2)
         else
           (let e1 = tables s (pte_to_phys e2) (pmd_index va)
            in if \<not> pte_valid e1 then None
               else if pte_leaf e1 then Some (1, e1)
               else
                 (let e0 = tables s (pte_to_phys e1) (pte_index va)
                  in if pte_valid e0 then Some (0, e0) else None)))"

definition child :: "'s ptab \<Rightarrow> slot \<Rightarrow> u64 option" where
  "child s sl = (if pte_valid (entry s sl) \<and> \<not> pte_leaf (entry s sl)
                 then Some (pte_to_phys (entry s sl)) else None)"

definition pmd_at :: "'s ptab \<Rightarrow> u64 \<Rightarrow> nat \<Rightarrow> u64 \<Rightarrow> bool" where
  "pmd_at s pgd i m \<longleftrightarrow> i < 512 \<and> child s (pgd, i) = Some m"

definition pte_at :: "'s ptab \<Rightarrow> u64 \<Rightarrow> nat \<Rightarrow> nat \<Rightarrow> u64 \<Rightarrow> bool" where
  "pte_at s pgd i j t \<longleftrightarrow> (\<exists>m. pmd_at s pgd i m \<and> j < 512 \<and> child s (m, j) = Some t)"

definition tree_ok :: "'s ptab \<Rightarrow> u64 \<Rightarrow> u64 set \<Rightarrow> bool" where
  "tree_ok s pgd F \<longleftrightarrow>
     (\<forall>i m. pmd_at s pgd i m \<longrightarrow> m \<in> F \<and> m \<noteq> pgd)
     \<and> (\<forall>i j t. pte_at s pgd i j t \<longrightarrow> t \<in> F \<and> t \<noteq> pgd)
     \<and> (\<forall>i i' m. pmd_at s pgd i m \<and> pmd_at s pgd i' m \<longrightarrow> i = i')
     \<and> (\<forall>i j i' j' t. pte_at s pgd i j t \<and> pte_at s pgd i' j' t \<longrightarrow> i = i' \<and> j = j')
     \<and> (\<forall>i m i' j'. pmd_at s pgd i m \<longrightarrow> \<not> pte_at s pgd i' j' m)"

lemma tree_okD:
  assumes "tree_ok s pgd F"
  shows "pmd_at s pgd i m \<Longrightarrow> m \<in> F" "pmd_at s pgd i m \<Longrightarrow> m \<noteq> pgd"
    and "pte_at s pgd i j t \<Longrightarrow> t \<in> F" "pte_at s pgd i j t \<Longrightarrow> t \<noteq> pgd"
    and "pmd_at s pgd i m \<Longrightarrow> pmd_at s pgd i' m \<Longrightarrow> i = i'"
    and "pte_at s pgd i j t \<Longrightarrow> pte_at s pgd i' j' t \<Longrightarrow> i = i' \<and> j = j'"
    and "pmd_at s pgd i m \<Longrightarrow> \<not> pte_at s pgd i' j' m"
  using assms unfolding tree_ok_def by blast+

lemma pmd_at_fun: "pmd_at s pgd i m \<Longrightarrow> pmd_at s pgd i m' \<Longrightarrow> m = m'"
  by (simp add: pmd_at_def)

lemma sv39_leaf_child:
  "sv39_leaf s pgd va =
     (case child s (pgd, pgd_index va) of
        None \<Rightarrow> if pte_valid (entry s (pgd, pgd_index va)) then Some (2, entry s (pgd, pgd_index va)) else None
      | Some m \<Rightarrow>
          (case child s (m, pmd_index va) of
             None \<Rightarrow> if pte_valid (entry s (m, pmd_index va)) then Some (1, entry s (m, pmd_index va)) else None
           | Some t \<Rightarrow> if pte_valid (entry s (t, pte_index va)) then Some (0, entry s (t, pte_index va)) else None))"
  by (auto simp: sv39_leaf_def child_def entry_def Let_def)

lemma entry_set [simp]:
  "entry (set_entry sl e s) sl' = (if sl' = sl then e else entry s sl')"
  "frames (set_entry sl e s) = frames s" "entry (sfence f s) sl' = entry s sl'"
  "frames (sfence f s) = frames s" "entry (s\<lparr>frames := fr\<rparr>) sl' = entry s sl'"
  by (auto simp: entry_def set_entry_def sfence_def prod_eq_iff)

lemma tables_cong:
  assumes "\<And>sl. entry s' sl = entry s sl"
  shows "child s' = child s" "pmd_at s' = pmd_at s" "pte_at s' = pte_at s"
    "tree_ok s' = tree_ok s" "sv39_leaf s' = sv39_leaf s"
  using assms by (simp_all add: child_def pmd_at_def pte_at_def tree_ok_def sv39_leaf_child fun_eq_iff)

subsection \<open>Hanging a fresh table into an empty slot\<close>

text \<open>A slot of the root or of a second-level table.\<close>

definition inner_slot :: "'s ptab \<Rightarrow> u64 \<Rightarrow> slot \<Rightarrow> bool" where
  "inner_slot s pgd sl \<longleftrightarrow>
     (fst sl = pgd \<or> (\<exists>i. pmd_at s pgd i (fst sl))) \<and> snd sl < 512"

definition hang :: "slot \<Rightarrow> u64 \<Rightarrow> 's ptab \<Rightarrow> 's ptab \<Rightarrow> bool" where
  "hang sl a s s' \<longleftrightarrow> entry s' sl = phys_to_pte a PTE_V
     \<and> (\<forall>i < 512. entry s' (a, i) = 0)
     \<and> (\<forall>sl'. sl' \<noteq> sl \<and> fst sl' \<noteq> a \<longrightarrow> entry s' sl' = entry s sl')"

lemma hang_child:
  assumes "hang sl a s s'" "4096 dvd unat a" "unat a < 2 ^ 56"
  shows "child s' sl = Some a" "i < 512 \<Longrightarrow> child s' (a, i) = None"
    "sl' \<noteq> sl \<Longrightarrow> fst sl' \<noteq> a \<Longrightarrow> child s' sl' = child s sl'"
proof -
  from assms(1) have h: "entry s' sl = phys_to_pte a PTE_V" "i < 512 \<Longrightarrow> entry s' (a, i) = 0"
    "sl' \<noteq> sl \<Longrightarrow> fst sl' \<noteq> a \<Longrightarrow> entry s' sl' = entry s sl'" unfolding hang_def by blast+
  show "child s' sl = Some a" "i < 512 \<Longrightarrow> child s' (a, i) = None"
    "sl' \<noteq> sl \<Longrightarrow> fst sl' \<noteq> a \<Longrightarrow> child s' sl' = child s sl'"
    using h table_entry [OF assms(2,3)] by (simp_all add: child_def)
qed

lemma hang_root:
  assumes t: "tree_ok s pgd F" and h: "hang (pgd, i0) a s s'"
    and i0: "i0 < 512" "\<not> pte_valid (entry s (pgd, i0))"
    and a: "a \<notin> F" "a \<noteq> pgd" "4096 dvd unat a" "unat a < 2 ^ 56"
  shows "pmd_at s' pgd i m \<longleftrightarrow> pmd_at s pgd i m \<or> (i = i0 \<and> m = a)"
    and "pte_at s' pgd i j x \<longleftrightarrow> pte_at s pgd i j x"
    and "sv39_leaf s' pgd = sv39_leaf s pgd"
proof -
  note c = hang_child [OF h a(3,4)]
  have n: "child s (pgd, i0) = None" using i0(2) by (simp add: child_def)
  show p: "pmd_at s' pgd i m \<longleftrightarrow> pmd_at s pgd i m \<or> (i = i0 \<and> m = a)" for i m
    using c(1) c(3) [of "(pgd, i)"] a(2) i0(1) n by (cases "i = i0") (auto simp: pmd_at_def)
  have old: "child s' (m, j) = child s (m, j)" "entry s' (m, j) = entry s (m, j)"
    if "pmd_at s pgd i m" for i j m
  proof -
    have "m \<noteq> a" "m \<noteq> pgd" using tree_okD(1,2) [OF t that] a(1) by auto
    then show "child s' (m, j) = child s (m, j)" "entry s' (m, j) = entry s (m, j)"
      using c(3) h by (auto simp: hang_def)
  qed
  have na: "\<not> pmd_at s pgd i a" for i using tree_okD(1) [OF t] a(1) by blast
  show "pte_at s' pgd i j x \<longleftrightarrow> pte_at s pgd i j x" for i j x
    unfolding pte_at_def p using old c(2) na by (metis option.distinct(1))
  show "sv39_leaf s' pgd = sv39_leaf s pgd"
  proof
    fix va
    show "sv39_leaf s' pgd va = sv39_leaf s pgd va"
    proof (cases "pgd_index va = i0")
      case True
      then show ?thesis
        using c(1) c(2) [of "pmd_index va"] n i0(2) h by (simp add: sv39_leaf_child hang_def)
    next
      case ne: False
      have e: "child s' (pgd, pgd_index va) = child s (pgd, pgd_index va)"
        "entry s' (pgd, pgd_index va) = entry s (pgd, pgd_index va)"
        using ne c(3) h a(2) by (auto simp: hang_def)
      show ?thesis
      proof (cases "child s (pgd, pgd_index va)")
        case (Some m)
        then have m: "pmd_at s pgd (pgd_index va) m" by (simp add: pmd_at_def)
        have "entry s' (x, k) = entry s (x, k)" if "child s (m, pmd_index va) = Some x" for x k
        proof -
          have "pte_at s pgd (pgd_index va) (pmd_index va) x"
            using m that by (auto simp: pte_at_def)
          then have "x \<noteq> a" "x \<noteq> pgd" using tree_okD(3,4) [OF t] a(1) by auto
          then show ?thesis using h by (auto simp: hang_def)
        qed
        then show ?thesis using e Some old [OF m] by (auto simp: sv39_leaf_child split: option.split)
      qed (simp add: sv39_leaf_child e)
    qed
  qed
qed

lemma hang_pmd:
  assumes t: "tree_ok s pgd F" and h: "hang (m0, j0) a s s'" and m0: "pmd_at s pgd i0 m0"
    and j0: "j0 < 512" "\<not> pte_valid (entry s (m0, j0))"
    and a: "a \<notin> F" "a \<noteq> pgd" "4096 dvd unat a" "unat a < 2 ^ 56"
  shows "pmd_at s' pgd i m \<longleftrightarrow> pmd_at s pgd i m"
    and "pte_at s' pgd i j x \<longleftrightarrow> pte_at s pgd i j x \<or> (i = i0 \<and> j = j0 \<and> x = a)"
    and "sv39_leaf s' pgd = sv39_leaf s pgd"
proof -
  note c = hang_child [OF h a(3,4)]
  have n: "child s (m0, j0) = None" using j0(2) by (simp add: child_def)
  have mp: "m0 \<noteq> pgd" by (rule tree_okD(2) [OF t m0])
  have root: "child s' (pgd, i) = child s (pgd, i)" "entry s' (pgd, i) = entry s (pgd, i)" for i
    using c(3) h a(2) mp by (auto simp: hang_def)
  show p: "pmd_at s' pgd i m \<longleftrightarrow> pmd_at s pgd i m" for i m by (simp add: pmd_at_def root)
  have am: "m \<noteq> a" if "pmd_at s pgd i m" for i m using tree_okD(1) [OF t that] a(1) by auto
  have old: "child s' (m, j) = child s (m, j)" "entry s' (m, j) = entry s (m, j)"
    if "pmd_at s pgd i m" "(m, j) \<noteq> (m0, j0)" for i j m
    using am [OF that(1)] that(2) c(3) [of "(m, j)"] h by (auto simp: hang_def)
  show "pte_at s' pgd i j x \<longleftrightarrow> pte_at s pgd i j x \<or> (i = i0 \<and> j = j0 \<and> x = a)"
  proof (cases "i = i0 \<and> j = j0")
    case True
    then show ?thesis using m0 c(1) n j0(1) unfolding pte_at_def p by (auto dest: pmd_at_fun)
  next
    case False
    have "child s' (m, j) = child s (m, j)" if "pmd_at s pgd i m" for m
    proof (rule old [OF that])
      show "(m, j) \<noteq> (m0, j0)" using False tree_okD(5) [OF t that, of i0] m0 by auto
    qed
    then show ?thesis using False unfolding pte_at_def p by auto
  qed
  show "sv39_leaf s' pgd = sv39_leaf s pgd"
  proof
    fix va
    show "sv39_leaf s' pgd va = sv39_leaf s pgd va"
    proof (cases "child s (pgd, pgd_index va)")
      case (Some m)
      then have m: "pmd_at s pgd (pgd_index va) m" by (simp add: pmd_at_def)
      show ?thesis
      proof (cases "(m, pmd_index va) = (m0, j0)")
        case True
        then show ?thesis
          using Some root c(1,2) n j0(2) h by (simp add: sv39_leaf_child hang_def)
      next
        case False
        note o = old [OF m False]
        have "entry s' (x, k) = entry s (x, k)" if "child s (m, pmd_index va) = Some x" for x k
        proof -
          have x: "pte_at s pgd (pgd_index va) (pmd_index va) x"
            using m that by (auto simp: pte_at_def)
          have "x \<noteq> a" "x \<noteq> m0" using tree_okD(3) [OF t x] a(1) tree_okD(7) [OF t m0] x by auto
          then show ?thesis using h by (auto simp: hang_def)
        qed
        then show ?thesis using Some root o by (auto simp: sv39_leaf_child split: option.split)
      qed
    qed (simp add: sv39_leaf_child root)
  qed
qed

lemma hang_ok:
  assumes t: "tree_ok s pgd F" and h: "hang sl a s s'" and sl: "inner_slot s pgd sl" "\<not> pte_valid (entry s sl)"
    and a: "a \<notin> F" "a \<noteq> pgd" "4096 dvd unat a" "unat a < 2 ^ 56"
  shows "tree_ok s' pgd (insert a F)" "sv39_leaf s' pgd = sv39_leaf s pgd"
    "pmd_at s pgd i m \<Longrightarrow> pmd_at s' pgd i m"
proof -
  have na: "\<not> pmd_at s pgd i a" "\<not> pte_at s pgd i j a" for i j using tree_okD(1,3) [OF t] a(1) by blast+
  obtain x j0 where x: "sl = (x, j0)" by (cases sl)
  have "tree_ok s' pgd (insert a F) \<and> sv39_leaf s' pgd = sv39_leaf s pgd \<and> (pmd_at s pgd i m \<longrightarrow> pmd_at s' pgd i m)"
  proof (cases "x = pgd")
    case True
    have j: "j0 < 512" using sl(1) x by (simp add: inner_slot_def)
    note r = hang_root [OF t h [unfolded x True] j sl(2) [unfolded x True] a]
    show ?thesis unfolding tree_ok_def r using t na a(2) unfolding tree_ok_def by blast
  next
    case False
    with sl(1) x obtain i0 where i0: "pmd_at s pgd i0 x" and j: "j0 < 512" by (auto simp: inner_slot_def)
    note r = hang_pmd [OF t h [unfolded x] i0 j sl(2) [unfolded x] a]
    show ?thesis unfolding tree_ok_def r using t na a(2) unfolding tree_ok_def by blast
  qed
  then show "tree_ok s' pgd (insert a F)" "sv39_leaf s' pgd = sv39_leaf s pgd"
    "pmd_at s pgd i m \<Longrightarrow> pmd_at s' pgd i m" by blast+
qed

subsection \<open>The walk\<close>

text \<open>The slot where the walk for \<open>va\<close> ends, with its level.\<close>

definition path_slot :: "'s ptab \<Rightarrow> u64 \<Rightarrow> u64 \<Rightarrow> nat \<Rightarrow> slot \<Rightarrow> bool" where
  "path_slot s pgd va l sl \<longleftrightarrow>
     (l = 2 \<and> sl = (pgd, pgd_index va) \<and> pte_valid (entry s sl) \<and> pte_leaf (entry s sl))
     \<or> (l = 1 \<and> pmd_at s pgd (pgd_index va) (fst sl) \<and> snd sl = pmd_index va
          \<and> pte_valid (entry s sl) \<and> pte_leaf (entry s sl))
     \<or> (l = 0 \<and> pte_at s pgd (pgd_index va) (pmd_index va) (fst sl) \<and> snd sl = pte_index va)"

lemma path_slot_leaf:
  assumes "path_slot s pgd va l sl"
  shows "sv39_leaf s pgd va = (if pte_valid (entry s sl) then Some (l, entry s sl) else None)"
  using assms by (cases sl) (auto simp: path_slot_def sv39_leaf_child pmd_at_def pte_at_def child_def)

lemma path_slot_page_align [simp]: "path_slot s pgd (page_align va) l sl = path_slot s pgd va l sl"
  by (simp add: path_slot_def)

lemma sv39_leaf_page_align [simp]: "sv39_leaf s pgd (page_align va) = sv39_leaf s pgd va"
  unfolding sv39_leaf_def index_page_align ..

definition same_page :: "u64 \<Rightarrow> u64 \<Rightarrow> bool" where
  "same_page va va' \<longleftrightarrow> pgd_index va' = pgd_index va \<and> pmd_index va' = pmd_index va \<and> pte_index va' = pte_index va"

text \<open>Writing a bottom-level slot changes the translation of that page only.\<close>

lemma set_page:
  assumes t: "tree_ok s pgd F" and p: "path_slot s pgd va 0 sl"
  shows "tree_ok (set_entry sl e s) pgd F"
    and "sv39_leaf (set_entry sl e s) pgd va' =
      (if same_page va va' then (if pte_valid e then Some (0, e) else None) else sv39_leaf s pgd va')"
proof -
  obtain x k where sl: "sl = (x, k)" by (cases sl)
  from p sl have x: "pte_at s pgd (pgd_index va) (pmd_index va) x" and k: "k = pte_index va"
    by (auto simp: path_slot_def)
  have xp: "x \<noteq> pgd" by (rule tree_okD(4) [OF t x])
  have xm: "m \<noteq> x" if "pmd_at s pgd i m" for i m using tree_okD(7) [OF t that] x by auto
  have root: "child (set_entry sl e s) (pgd, i) = child s (pgd, i)"
    "entry (set_entry sl e s) (pgd, i) = entry s (pgd, i)" for i
    using xp by (auto simp: child_def sl)
  have pm: "pmd_at (set_entry sl e s) pgd i m \<longleftrightarrow> pmd_at s pgd i m" for i m by (simp add: pmd_at_def root)
  have mid: "child (set_entry sl e s) (m, j) = child s (m, j)"
    "entry (set_entry sl e s) (m, j) = entry s (m, j)" if "pmd_at s pgd i m" for i j m
    using xm [OF that] by (auto simp: child_def sl)
  have pt: "pte_at (set_entry sl e s) pgd i j y \<longleftrightarrow> pte_at s pgd i j y" for i j y
    unfolding pte_at_def pm using mid by metis
  show "tree_ok (set_entry sl e s) pgd F" using t unfolding tree_ok_def pm pt .
  show "sv39_leaf (set_entry sl e s) pgd va' =
      (if same_page va va' then (if pte_valid e then Some (0, e) else None) else sv39_leaf s pgd va')"
  proof (cases "\<exists>y. pte_at s pgd (pgd_index va') (pmd_index va') y")
    case True
    then obtain y m where m: "pmd_at s pgd (pgd_index va') m" "child s (m, pmd_index va') = Some y"
      and y: "pte_at s pgd (pgd_index va') (pmd_index va') y" by (auto simp: pte_at_def)
    have c: "child s (pgd, pgd_index va') = Some m" using m(1) by (simp add: pmd_at_def)
    have "sv39_leaf (set_entry sl e s) pgd va' =
        (if pte_valid (entry (set_entry sl e s) (y, pte_index va'))
         then Some (0, entry (set_entry sl e s) (y, pte_index va')) else None)"
      using mid(1) [OF m(1)] m(2) c by (simp add: sv39_leaf_child root)
    moreover have "sv39_leaf s pgd va' =
        (if pte_valid (entry s (y, pte_index va')) then Some (0, entry s (y, pte_index va')) else None)"
      using m(2) c by (simp add: sv39_leaf_child)
    moreover have "(y, pte_index va') = sl \<longleftrightarrow> same_page va va'"
    proof
      assume "(y, pte_index va') = sl"
      then show "same_page va va'" using tree_okD(6) [OF t x] y k sl by (auto simp: same_page_def)
    next
      assume "same_page va va'"
      moreover from this x y have "y = x" by (auto simp: same_page_def pte_at_def pmd_at_def)
      ultimately show "(y, pte_index va') = sl" using sl k by (simp add: same_page_def)
    qed
    ultimately show ?thesis by simp
  next
    case False
    have "\<not> same_page va va'" using False x by (auto simp: same_page_def)
    moreover have "sv39_leaf (set_entry sl e s) pgd va' = sv39_leaf s pgd va'"
    proof (cases "child s (pgd, pgd_index va')")
      case (Some m)
      then have m: "pmd_at s pgd (pgd_index va') m" by (simp add: pmd_at_def)
      then have "child s (m, pmd_index va') = None"
        using False by (cases "child s (m, pmd_index va')") (auto simp: pte_at_def)
      with Some mid [OF m] show ?thesis by (simp add: sv39_leaf_child root)
    next
      case None
      then show ?thesis by (simp only: sv39_leaf_child root option.case)
    qed
    ultimately show ?thesis by simp
  qed
qed

definition pt_inv :: "('s \<Rightarrow> bool) \<Rightarrow> ('s \<Rightarrow> u64 set) \<Rightarrow> ('s \<Rightarrow> u64 set) \<Rightarrow> u64 \<Rightarrow> 's ptab \<Rightarrow> bool" where
  "pt_inv fok owned pool pgd s \<longleftrightarrow> fok (frames s) \<and> tree_ok s pgd (owned (frames s))
     \<and> (pgd \<in> owned (frames s) \<or> pgd \<notin> pool (frames s))"

lemma fold_zero: "fold (\<lambda>i t. t(i := 0)) [0..<n] t i = (if i < n then 0 else t i)"
  by (induction n arbitrary: i) auto

context frame_source
begin

lemma ensure_table_ok:
  assumes i: "pt_inv fok owned pool pgd s" and sl: "inner_slot s pgd sl"
    and e: "ensure_table falloc create sl s = (ok, s')"
  shows "pt_inv fok owned pool pgd s'" "sv39_leaf s' pgd = sv39_leaf s pgd"
    and "ok \<Longrightarrow> pte_valid (entry s' sl)" "pmd_at s pgd i m \<Longrightarrow> pmd_at s' pgd i m"
    and "\<not> create \<Longrightarrow> s' = s \<and> ok = pte_valid (entry s sl)"
    and "\<not> ok \<Longrightarrow> \<not> pte_valid (entry s sl)"
    and "owned (frames s) \<subseteq> owned (frames s')"
proof -
  from i have fo: "fok (frames s)" and t: "tree_ok s pgd (owned (frames s))"
    and r: "pgd \<in> owned (frames s) \<or> pgd \<notin> pool (frames s)" by (auto simp: pt_inv_def)
  have "pt_inv fok owned pool pgd s' \<and> sv39_leaf s' pgd = sv39_leaf s pgd \<and> (ok \<longrightarrow> pte_valid (entry s' sl))
      \<and> (pmd_at s pgd i m \<longrightarrow> pmd_at s' pgd i m) \<and> (\<not> create \<longrightarrow> s' = s \<and> ok = pte_valid (entry s sl))
      \<and> (\<not> ok \<longrightarrow> \<not> pte_valid (entry s sl)) \<and> owned (frames s) \<subseteq> owned (frames s')"
  proof (cases "pte_valid (entry s sl) \<or> \<not> create")
    case True
    then show ?thesis using e i by (auto simp: ensure_table_def split: if_splits)
  next
    case False
    obtain a fr where a: "falloc (frames s) = (a, fr)" by (cases "falloc (frames s)")
    show ?thesis
      using fo a
    proof (cases rule: falloc_cases)
      case none
      then have "s' = s" "\<not> ok"
        using e a False by (auto simp: ensure_table_def pgtable_alloc_def Let_def)
      then show ?thesis using i False by auto
    next
      case some
      let ?s1 = "s\<lparr>frames := fr, tables := (tables s)(a := fold (\<lambda>i t. t(i := 0)) [0..<512] (tables s a))\<rparr>"
      have s': "s' = set_entry sl (phys_to_pte a PTE_V) ?s1" "ok"
        using e a False some(1) by (auto simp: ensure_table_def pgtable_alloc_def Let_def)
      have ap: "a \<noteq> pgd" using r some(3,6) by auto
      have "fst sl \<noteq> a" using sl ap tree_okD(1) [OF t] some(3) by (auto simp: inner_slot_def)
      then have h: "hang sl a s s'"
        unfolding s'(1) hang_def by (auto simp: entry_def set_entry_def fold_zero)
      note hg = hang_ok [OF t h sl _ some(3) ap some(7,8)]
      have "frames s' = fr" by (simp add: s')
      then show ?thesis
        using hg False some r s' table_entry(1) [OF some(7,8)] by (auto simp: pt_inv_def)
    qed
  qed
  then show "pt_inv fok owned pool pgd s'" "sv39_leaf s' pgd = sv39_leaf s pgd"
    "ok \<Longrightarrow> pte_valid (entry s' sl)" "pmd_at s pgd i m \<Longrightarrow> pmd_at s' pgd i m"
    "\<not> create \<Longrightarrow> s' = s \<and> ok = pte_valid (entry s sl)" "\<not> ok \<Longrightarrow> \<not> pte_valid (entry s sl)"
    "owned (frames s) \<subseteq> owned (frames s')" by blast+
qed

lemma walk_ok:
  assumes i: "pt_inv fok owned pool pgd s" and w: "walk_pgtable falloc pgd va create s = (r, s')"
  shows "pt_inv fok owned pool pgd s'" "sv39_leaf s' pgd = sv39_leaf s pgd"
    and "r = Some sl \<Longrightarrow> \<exists>l. path_slot s' pgd va l sl"
    and "r = None \<Longrightarrow> sv39_leaf s pgd va = None"
    and "\<not> create \<Longrightarrow> s' = s"
    and "owned (frames s) \<subseteq> owned (frames s')"
proof -
  let ?sl2 = "(pgd, pgd_index va)"
  obtain ok2 s2 where e2: "ensure_table falloc create ?sl2 s = (ok2, s2)"
    by (cases "ensure_table falloc create ?sl2 s")
  have in2: "inner_slot s pgd ?sl2" by (simp add: inner_slot_def)
  note o2 = ensure_table_ok [OF i in2 e2]
  have "pt_inv fok owned pool pgd s' \<and> sv39_leaf s' pgd = sv39_leaf s pgd
      \<and> (\<forall>sl. r = Some sl \<longrightarrow> (\<exists>l. path_slot s' pgd va l sl))
      \<and> (r = None \<longrightarrow> sv39_leaf s pgd va = None) \<and> (\<not> create \<longrightarrow> s' = s)
      \<and> owned (frames s) \<subseteq> owned (frames s')"
  proof (cases "ok2 \<and> \<not> pte_leaf (entry s2 ?sl2)")
    case False
    show ?thesis
    proof (cases ok2)
      case True
      with False w e2 have "r = Some ?sl2" "s' = s2" by (auto simp: walk_pgtable_def Let_def)
      moreover have "path_slot s2 pgd va 2 ?sl2" using True False o2(3) by (simp add: path_slot_def)
      ultimately show ?thesis using o2 by auto
    next
      case no: False
      with w e2 have "r = None" "s' = s2" by (auto simp: walk_pgtable_def)
      moreover have "sv39_leaf s pgd va = None"
        using o2(6) [OF no] by (simp add: sv39_leaf_def entry_def)
      ultimately show ?thesis using o2 by auto
    qed
  next
    case True
    let ?m = "pte_to_phys (entry s2 ?sl2)"
    let ?sl1 = "(?m, pmd_index va)"
    have m: "pmd_at s2 pgd (pgd_index va) ?m"
      using True o2(3) by (simp add: pmd_at_def child_def)
    then have in1: "inner_slot s2 pgd ?sl1" by (auto simp: inner_slot_def)
    obtain ok1 s1 where e1: "ensure_table falloc create ?sl1 s2 = (ok1, s1)"
      by (cases "ensure_table falloc create ?sl1 s2")
    note o1 = ensure_table_ok [OF o2(1) in1 e1]
    note m1 = o1(4) [OF m]
    have w1: "r = (if \<not> ok1 then None else if pte_leaf (entry s1 ?sl1) then Some ?sl1
        else Some (pte_to_phys (entry s1 ?sl1), pte_index va))" "s' = s1"
      using w e2 e1 True by (auto simp: walk_pgtable_def Let_def split: if_splits)
    have lf: "sv39_leaf s1 pgd = sv39_leaf s pgd" using o1(2) o2(2) by simp
    have "\<exists>l. path_slot s1 pgd va l sl" if "r = Some sl" for sl
    proof (cases "pte_leaf (entry s1 ?sl1)")
      case True
      with that w1 have "sl = ?sl1" "ok1" by (auto split: if_splits)
      then have "path_slot s1 pgd va 1 sl" using True m1 o1(3) by (simp add: path_slot_def)
      then show ?thesis ..
    next
      case False
      with that w1 have "sl = (pte_to_phys (entry s1 ?sl1), pte_index va)" "ok1" by (auto split: if_splits)
      then have "path_slot s1 pgd va 0 sl"
        using False m1 o1(3) by (auto simp: path_slot_def pte_at_def child_def intro!: exI [of _ ?m])
      then show ?thesis ..
    qed
    moreover have "sv39_leaf s pgd va = None" if "r = None"
    proof -
      have "\<not> pte_valid (entry s2 ?sl1)" using that w1 o1(6) by (auto split: if_splits)
      then have "sv39_leaf s2 pgd va = None"
        using m by (simp add: sv39_leaf_child pmd_at_def child_def)
      then show ?thesis using o2(2) by simp
    qed
    moreover have "s1 = s" if "\<not> create" using o1(5) o2(5) that by simp
    ultimately show ?thesis using o1(1,7) o2(7) lf w1(2) by blast
  qed
  then show "pt_inv fok owned pool pgd s'" "sv39_leaf s' pgd = sv39_leaf s pgd"
    "r = Some sl \<Longrightarrow> \<exists>l. path_slot s' pgd va l sl" "r = None \<Longrightarrow> sv39_leaf s pgd va = None"
    "\<not> create \<Longrightarrow> s' = s" "owned (frames s) \<subseteq> owned (frames s')" by blast+
qed

end

subsection \<open>The operations\<close>

definition no_superpage :: "'s ptab \<Rightarrow> u64 \<Rightarrow> u64 \<Rightarrow> bool" where
  "no_superpage s pgd va \<longleftrightarrow> (\<forall>l e. sv39_leaf s pgd va = Some (l, e) \<longrightarrow> l = 0)"

definition remap :: "u64 \<Rightarrow> u64 option \<Rightarrow> (u64 \<Rightarrow> (nat \<times> u64) option) \<Rightarrow> u64 \<Rightarrow> (nat \<times> u64) option" where
  "remap va e t va' = (if same_page va va' then map_option (Pair 0) e else t va')"

lemma path_slot_bottom:
  "path_slot s pgd va l sl \<Longrightarrow> no_superpage s pgd va \<Longrightarrow> path_slot s pgd va 0 sl"
  using path_slot_leaf [of s pgd va l sl] by (auto simp: no_superpage_def path_slot_def)

lemma pt_inv_cong:
  assumes "\<And>sl. entry s' sl = entry s sl" "frames s' = frames s"
  shows "pt_inv fok owned pool pgd s' = pt_inv fok owned pool pgd s"
  using tables_cong(4) [of s' s] assms by (simp add: pt_inv_def)

lemma pt_inv_sfence [simp]: "pt_inv fok owned pool pgd (sfence f s) = pt_inv fok owned pool pgd s"
  by (rule pt_inv_cong) simp_all

lemma leaf_sfence [simp]: "sv39_leaf (sfence f s) = sv39_leaf s"
  by (rule tables_cong(5)) simp

lemma set_page_ok:
  assumes "pt_inv fok owned pool pgd s" "path_slot s pgd va 0 sl"
  shows "pt_inv fok owned pool pgd (set_entry sl e s)"
    and "sv39_leaf (set_entry sl e s) pgd = remap va (if pte_valid e then Some e else None) (sv39_leaf s pgd)"
  using set_page [of s pgd "owned (frames s)" va sl e] assms by (auto simp: pt_inv_def remap_def fun_eq_iff)

context frame_source
begin

lemma map_4k_ok:
  assumes i: "pt_inv fok owned pool pgd s" and n: "no_superpage s pgd va"
    and m: "map_page_4k falloc pgd va pa flags s = (r, s')"
  shows "pt_inv fok owned pool pgd s'"
    and "(r = 0 \<and> sv39_leaf s' pgd = remap va (Some (phys_to_pte (page_align pa) (flags OR PTE_V))) (sv39_leaf s pgd))
      \<or> (r = -1 \<and> sv39_leaf s' pgd = sv39_leaf s pgd)"
proof -
  obtain w s1 where w: "walk_pgtable falloc pgd (page_align va) True s = (w, s1)"
    by (cases "walk_pgtable falloc pgd (page_align va) True s")
  note wk = walk_ok [OF i w]
  have "pt_inv fok owned pool pgd s' \<and>
      ((r = 0 \<and> sv39_leaf s' pgd = remap va (Some (phys_to_pte (page_align pa) (flags OR PTE_V))) (sv39_leaf s pgd))
      \<or> (r = -1 \<and> sv39_leaf s' pgd = sv39_leaf s pgd))"
  proof (cases w)
    case None
    then show ?thesis using m w wk(1,2) by (simp add: map_page_4k_def)
  next
    case (Some sl)
    then have s': "r = 0" "s' = sfence (Fence_va (page_align va))
        (set_entry sl (phys_to_pte (page_align pa) (flags OR PTE_V)) s1)"
      using m w by (auto simp: map_page_4k_def Let_def)
    from wk(3) [OF Some] obtain l where "path_slot s1 pgd va l sl" by auto
    moreover have "no_superpage s1 pgd va" using n wk(2) by (simp add: no_superpage_def)
    ultimately have "path_slot s1 pgd va 0 sl" by (rule path_slot_bottom)
    from set_page_ok [OF wk(1) this] show ?thesis using s' wk(2) by simp
  qed
  then show "pt_inv fok owned pool pgd s'"
    "(r = 0 \<and> sv39_leaf s' pgd = remap va (Some (phys_to_pte (page_align pa) (flags OR PTE_V))) (sv39_leaf s pgd))
      \<or> (r = -1 \<and> sv39_leaf s' pgd = sv39_leaf s pgd)" by blast+
qed

lemma unmap_ok:
  assumes i: "pt_inv fok owned pool pgd s" and n: "no_superpage s pgd va"
    and m: "s' = unmap_page_pte falloc pgd va s"
  shows "pt_inv fok owned pool pgd s'" "sv39_leaf s' pgd = remap va None (sv39_leaf s pgd)"
proof -
  obtain w s1 where w: "walk_pgtable falloc pgd (page_align va) False s = (w, s1)"
    by (cases "walk_pgtable falloc pgd (page_align va) False s")
  note wk = walk_ok [OF i w]
  have s1: "s1 = s" using wk(5) by simp
  have none: "sv39_leaf s pgd = remap va None (sv39_leaf s pgd)" if "sv39_leaf s pgd va = None"
  proof
    fix va'
    have "sv39_leaf s pgd va' = sv39_leaf s pgd va" if "same_page va va'"
      using that unfolding sv39_leaf_def same_page_def by (simp only:)
    then show "sv39_leaf s pgd va' = remap va None (sv39_leaf s pgd) va'" using \<open>sv39_leaf s pgd va = None\<close>
      by (simp add: remap_def)
  qed
  have "pt_inv fok owned pool pgd s' \<and> sv39_leaf s' pgd = remap va None (sv39_leaf s pgd)"
  proof (cases w)
    case None
    then have "s' = s" using m w s1 by (simp add: unmap_page_pte_def)
    then show ?thesis using none wk(4) [OF None] i by simp
  next
    case (Some sl)
    from wk(3) [OF Some] obtain l where l: "path_slot s pgd va l sl" using s1 by auto
    then have p: "path_slot s pgd va 0 sl" using n by (rule path_slot_bottom)
    show ?thesis
    proof (cases "pte_valid (entry s sl)")
      case True
      then show ?thesis
        using m w s1 Some set_page_ok [OF i p, of 0] by (simp add: unmap_page_pte_def)
    next
      case False
      then have "s' = s" using m w s1 Some by (simp add: unmap_page_pte_def)
      then show ?thesis using none path_slot_leaf [OF p] False i by simp
    qed
  qed
  then show "pt_inv fok owned pool pgd s'" "sv39_leaf s' pgd = remap va None (sv39_leaf s pgd)" by blast+
qed

lemma lookup_pa_leaf:
  assumes "pt_inv fok owned pool pgd s"
  shows "lookup_pa falloc pgd va s =
    (case sv39_leaf s pgd va of None \<Rightarrow> 0 | Some (l, e) \<Rightarrow> pte_to_phys e OR (va AND (PAGE_SIZE - 1)))"
proof -
  obtain w s1 where w: "walk_pgtable falloc pgd va False s = (w, s1)"
    by (cases "walk_pgtable falloc pgd va False s")
  note wk = walk_ok [OF assms w]
  have s1: "s1 = s" using wk(5) by simp
  show ?thesis
  proof (cases w)
    case None
    then show ?thesis using w wk(4) by (simp add: lookup_pa_def)
  next
    case (Some sl)
    then show ?thesis using w wk(3) [OF Some] s1 path_slot_leaf [of s pgd va _ sl] by (auto simp: lookup_pa_def)
  qed
qed

lemma protect_ok:
  assumes i: "pt_inv fok owned pool pgd s" and n: "no_superpage s pgd va"
    and m: "protect_page falloc pgd va flags s = (r, s')"
  shows "pt_inv fok owned pool pgd s'"
    and "(case sv39_leaf s pgd va of
           None \<Rightarrow> r = -1 \<and> s' = s
         | Some (l, e) \<Rightarrow> r = 0 \<and> sv39_leaf s' pgd
             = remap va (Some (phys_to_pte (pte_to_phys e) (flags OR PTE_V))) (sv39_leaf s pgd))"
proof -
  obtain w s1 where w: "walk_pgtable falloc pgd va False s = (w, s1)"
    by (cases "walk_pgtable falloc pgd va False s")
  note wk = walk_ok [OF i w]
  have s1: "s1 = s" using wk(5) by simp
  have "pt_inv fok owned pool pgd s' \<and> (case sv39_leaf s pgd va of
           None \<Rightarrow> r = -1 \<and> s' = s
         | Some (l, e) \<Rightarrow> r = 0 \<and> sv39_leaf s' pgd
             = remap va (Some (phys_to_pte (pte_to_phys e) (flags OR PTE_V))) (sv39_leaf s pgd))"
  proof (cases w)
    case None
    then show ?thesis using w wk(4) m i s1 by (simp add: protect_page_def)
  next
    case (Some sl)
    from wk(3) [OF Some] obtain l where l: "path_slot s pgd va l sl" using s1 by auto
    then have p: "path_slot s pgd va 0 sl" using n by (rule path_slot_bottom)
    show ?thesis
      using m w s1 Some set_page_ok [OF i p, of "phys_to_pte (pte_to_phys (entry s sl)) (flags OR PTE_V)"]
        path_slot_leaf [OF p] i by (auto simp: protect_page_def Let_def split: if_splits)
  qed
  then show "pt_inv fok owned pool pgd s'" "(case sv39_leaf s pgd va of
           None \<Rightarrow> r = -1 \<and> s' = s
         | Some (l, e) \<Rightarrow> r = 0 \<and> sv39_leaf s' pgd
             = remap va (Some (phys_to_pte (pte_to_phys e) (flags OR PTE_V))) (sv39_leaf s pgd))" by blast+
qed

end

text \<open>With two frames left the walk cannot fail: it needs a table at two levels.\<close>

context counted_frames
begin

lemma ensure_table_avail:
  assumes i: "pt_inv fok owned pool pgd s" and n: "0 < favail (frames s)"
    and e: "ensure_table falloc True sl s = (ok, s')"
  shows "ok" "favail (frames s) \<le> Suc (favail (frames s'))"
proof -
  obtain a fr where a: "falloc (frames s) = (a, fr)" by (cases "falloc (frames s)")
  have "fok (frames s)" using i by (simp add: pt_inv_def)
  note av = falloc_avail [OF this n a]
  show "ok" "favail (frames s) \<le> Suc (favail (frames s'))"
    using e a av by (auto simp: ensure_table_def pgtable_alloc_def Let_def split: if_splits)
qed

lemma map_4k_avail:
  assumes i: "pt_inv fok owned pool pgd s" and n: "2 \<le> favail (frames s)"
  shows "fst (map_page_4k falloc pgd va pa flags s) = 0"
    "favail (frames s) \<le> 2 + favail (frames (snd (map_page_4k falloc pgd va pa flags s)))"
proof -
  let ?va = "page_align va" and ?sl2 = "(pgd, pgd_index (page_align va))"
  obtain ok2 s2 where e2: "ensure_table falloc True ?sl2 s = (ok2, s2)"
    by (cases "ensure_table falloc True ?sl2 s")
  have "inner_slot s pgd ?sl2" by (simp add: inner_slot_def)
  note o2 = ensure_table_ok [OF i this e2]
  have n0: "0 < favail (frames s)" using n by simp
  note a2 = ensure_table_avail [OF i n0 e2]
  let ?sl1 = "(pte_to_phys (entry s2 ?sl2), pmd_index ?va)"
  obtain ok1 s1 where e1: "ensure_table falloc True ?sl1 s2 = (ok1, s1)"
    by (cases "ensure_table falloc True ?sl1 s2")
  have n1: "0 < favail (frames s2)" using a2(2) n by simp
  note a1 = ensure_table_avail [OF o2(1) n1 e1]
  have "fst (walk_pgtable falloc pgd ?va True s) \<noteq> None \<and> frames (snd (walk_pgtable falloc pgd ?va True s)) \<in> {frames s2, frames s1}"
    unfolding walk_pgtable_def Let_def e2 using a2(1) a1(1) e1 by simp
  moreover have "favail (frames s) \<le> 2 + favail (frames s2)" "favail (frames s) \<le> 2 + favail (frames s1)" using a2(2) a1(2) by simp_all
  ultimately show "fst (map_page_4k falloc pgd va pa flags s) = 0"
    "favail (frames s) \<le> 2 + favail (frames (snd (map_page_4k falloc pgd va pa flags s)))"
    by (cases "walk_pgtable falloc pgd ?va True s"; auto simp: map_page_4k_def Let_def sfence_def set_entry_def)+
qed

end

subsection \<open>Regions\<close>

lemma index_nat:
  "pte_index va = unat va div 4096 mod 512"
  "pmd_index va = unat va div 4096 div 512 mod 512"
  "pgd_index va = unat va div 4096 div 262144 mod 512"
proof -
  have u: "unat (drop_bit n va AND (512 - 1)) = unat va div 2 ^ n mod 512" for n
    unfolding low_mask take_bit_eq_mask [symmetric] unsigned_take_bit_eq unat_drop_bit_eq
    by (simp add: take_bit_eq_mod drop_bit_eq_div)
  show "pte_index va = unat va div 4096 mod 512"
    unfolding pte_index_def u by (simp add: PTE_SHIFT_def)
  show "pmd_index va = unat va div 4096 div 512 mod 512"
    unfolding pmd_index_def u by (simp add: PMD_SHIFT_def flip: div_mult2_eq)
  show "pgd_index va = unat va div 4096 div 262144 mod 512"
    unfolding pgd_index_def u by (simp add: PGDIR_SHIFT_def flip: div_mult2_eq)
qed

lemma split_index: "n mod 134217728 = 262144 * (n div 262144 mod 512) + 512 * (n div 512 mod 512) + n mod (512::nat)"
proof -
  have "n mod (512 * (512 * 512)) = 512 * (n div 512 mod (512 * 512)) + n mod 512"
    by (rule mod_mult2_eq)
  also have "n div 512 mod (512 * 512) = 512 * (n div 512 div 512 mod 512) + n div 512 mod 512"
    by (rule mod_mult2_eq)
  finally show ?thesis by (simp flip: div_mult2_eq)
qed

lemma same_page_nat:
  "same_page va va' \<longleftrightarrow> unat va' div 4096 mod 134217728 = unat va div 4096 mod 134217728"
proof
  assume "same_page va va'"
  then show "unat va' div 4096 mod 134217728 = unat va div 4096 mod 134217728"
    unfolding split_index by (simp add: same_page_def index_nat)
next
  assume e: "unat va' div 4096 mod 134217728 = unat va div 4096 mod 134217728"
  have m: "n mod 512 = n mod 134217728 mod 512" "n div 512 mod 512 = n mod 134217728 div 512 mod 512"
    "n div 262144 mod 512 = n mod 134217728 div 262144" for n :: nat
  proof -
    show "n mod 512 = n mod 134217728 mod 512" by (simp add: mod_mod_cancel)
    have "n mod (512 * (512 * 512)) div 512 = n div 512 mod (512 * 512)"
      unfolding mod_mult2_eq [of n 512 "512 * 512"] by simp
    then show "n div 512 mod 512 = n mod 134217728 div 512 mod 512" by (simp add: mod_mod_cancel)
    have "n mod (262144 * 512) div 262144 = n div 262144 mod 512" unfolding mod_mult2_eq [of n 262144 512] by simp
    then show "n div 262144 mod 512 = n mod 134217728 div 262144" by simp
  qed
  show "same_page va va'"
    unfolding same_page_def index_nat by (simp only: m(1) [of "_ div 4096"] m(2) [of "_ div 4096"] m(3) [of "_ div 4096"] e)
qed

lemma unat_step:
  assumes "unat (va::u64) + 4096 * k < 2 ^ 64"
  shows "unat (va + of_nat (4096 * k)) = unat va + 4096 * k"
  using assms by (rule unat_add_small)

lemma steps_differ:
  assumes "unat va + 4096 * n < 2 ^ 64" "j < n" "k < n" "j \<noteq> k" "n \<le> 2 ^ 27"
  shows "\<not> same_page (va + of_nat (4096 * j)) (va + of_nat (4096 * k))"
proof -
  have s: "unat (va + of_nat (4096 * i)) div 4096 = unat va div 4096 + i" if "i < n" for i
  proof -
    have "unat va + 4096 * i < 2 ^ 64" using assms(1) that by linarith
    then show ?thesis using unat_step [of va i] by simp
  qed
  have "\<not> (a + k) mod 134217728 = (a + j) mod 134217728" for a :: nat
  proof
    assume "(a + k) mod 134217728 = (a + j) mod 134217728"
    then have "(int a + int k) mod 134217728 = (int a + int j) mod 134217728"
      by (metis of_nat_add of_nat_numeral zmod_int)
    then have "134217728 dvd (int a + int k) - (int a + int j)" by (simp only: mod_eq_dvd_iff)
    then have d: "134217728 dvd int k - int j" by simp
    have "\<bar>int k - int j\<bar> < 134217728" using assms(2,3,5) by simp
    with zdvd_imp_le [OF d] zdvd_imp_le [of 134217728 "int j - int k"] d assms(4)
    show False by (cases "j < k") (simp_all add: dvd_diff_commute)
  qed
  then show ?thesis unfolding same_page_nat s [OF assms(2)] s [OF assms(3)] by simp
qed

lemma unat_page_align: "unat (page_align x) = unat x - unat x mod 4096"
  unfolding page_align_def low_mask clear_low_bits by simp

lemma page_align_aligned: "4096 dvd unat x \<Longrightarrow> page_align x = x"
  by (simp add: word_unat_eq_iff unat_page_align)

lemma no_superpage_remap:
  "sv39_leaf s' pgd = remap va (Some e) (sv39_leaf s pgd) \<Longrightarrow> no_superpage s pgd va' \<Longrightarrow> no_superpage s' pgd va'"
  by (auto simp: no_superpage_def remap_def split: if_splits)

context frame_source
begin

lemma map_region_loop_ok:
  assumes "pt_inv fok owned pool pgd s" "unat va + 4096 * n = unat end" "n \<le> 2 ^ 27"
    and "\<forall>k < n. no_superpage s pgd (va + of_nat (4096 * k))"
  shows "\<exists>r s'. map_region_loop falloc pgd va pa end flags s = Some (r, s')
    \<and> pt_inv fok owned pool pgd s' \<and> (r = 0 \<or> r = -1)
    \<and> (\<forall>va'. (\<forall>k < n. \<not> same_page (va + of_nat (4096 * k)) va') \<longrightarrow> sv39_leaf s' pgd va' = sv39_leaf s pgd va')
    \<and> (r = 0 \<longrightarrow> (\<forall>k < n. sv39_leaf s' pgd (va + of_nat (4096 * k))
          = Some (0, phys_to_pte (page_align (pa + of_nat (4096 * k))) (flags OR PTE_V))))"
  using assms
proof (induction n arbitrary: va pa s)
  case 0
  then have "\<not> va < end" by (simp add: word_less_nat_alt)
  then show ?case using "0.prems"(1) by (subst map_region_loop.simps) simp
next
  case (Suc n)
  have lt: "va < end" using Suc.prems(2) by (simp add: word_less_nat_alt)
  have top: "unat va + 4096 * Suc n < 2 ^ 64" using Suc.prems(2) unsigned_less [of "end"] by simp
  obtain r1 s1 where m: "map_page_4k falloc pgd va pa flags s = (r1, s1)"
    by (cases "map_page_4k falloc pgd va pa flags s")
  have n0: "no_superpage s pgd va" using Suc.prems(4) by force
  note mk = map_4k_ok [OF Suc.prems(1) n0 m]
  let ?e = "phys_to_pte (page_align pa) (flags OR PTE_V)"
  have step: "(x::u64) + PAGE_SIZE + of_nat (4096 * k) = x + of_nat (4096 * Suc k)" for x k by simp
  show ?case
  proof (cases "r1 = 0")
    case False
    with mk(2) have r: "r1 = -1" "sv39_leaf s1 pgd = sv39_leaf s pgd" by auto
    then have "map_region_loop falloc pgd va pa end flags s = Some (-1, s1)"
      using lt m by (subst map_region_loop.simps) simp
    then show ?thesis using mk(1) r(2) by auto
  next
    case True
    with mk(2) have lf: "sv39_leaf s1 pgd = remap va (Some ?e) (sv39_leaf s pgd)" by auto
    have rec: "map_region_loop falloc pgd va pa end flags s
        = map_region_loop falloc pgd (va + PAGE_SIZE) (pa + PAGE_SIZE) end flags s1"
      using lt m True by (subst map_region_loop.simps) simp
    have "unat (va + PAGE_SIZE) = unat va + 4096" using unat_step [of va 1] top by simp
    then have en: "unat (va + PAGE_SIZE) + 4096 * n = unat end" using Suc.prems(2) by simp
    have ns: "\<forall>k < n. no_superpage s1 pgd (va + PAGE_SIZE + of_nat (4096 * k))"
      unfolding step using Suc.prems(4) no_superpage_remap [OF lf] by blast
    have n27: "n \<le> 2 ^ 27" using Suc.prems(3) by simp
    from Suc.IH [OF mk(1) en n27 ns, of "pa + PAGE_SIZE", unfolded step] obtain r s' where
      ih: "map_region_loop falloc pgd (va + PAGE_SIZE) (pa + PAGE_SIZE) end flags s1 = Some (r, s')"
        "pt_inv fok owned pool pgd s'" "r = 0 \<or> r = -1"
        "\<And>va'. (\<forall>k < n. \<not> same_page (va + of_nat (4096 * Suc k)) va') \<Longrightarrow> sv39_leaf s' pgd va' = sv39_leaf s1 pgd va'"
        "r = 0 \<Longrightarrow> \<forall>k < n. sv39_leaf s' pgd (va + of_nat (4096 * Suc k))
          = Some (0, phys_to_pte (page_align (pa + of_nat (4096 * Suc k))) (flags OR PTE_V))" by blast
    have out: "sv39_leaf s' pgd va' = sv39_leaf s pgd va'"
      if "\<forall>k < Suc n. \<not> same_page (va + of_nat (4096 * k)) va'" for va'
    proof -
      have "\<forall>k < n. \<not> same_page (va + of_nat (4096 * Suc k)) va'" using that by blast
      moreover have "\<not> same_page va va'" using that by force
      ultimately show ?thesis using ih(4) lf by (simp add: remap_def)
    qed
    have first: "sv39_leaf s' pgd va = Some (0, ?e)"
    proof -
      have "\<forall>k < n. \<not> same_page (va + of_nat (4096 * Suc k)) va"
        using steps_differ [OF top _ _ _ Suc.prems(3), of "Suc _" 0] by force
      from ih(4) [OF this] show ?thesis by (simp add: lf remap_def same_page_def)
    qed
    have all: "sv39_leaf s' pgd (va + of_nat (4096 * k))
          = Some (0, phys_to_pte (page_align (pa + of_nat (4096 * k))) (flags OR PTE_V))"
      if "r = 0" "k < Suc n" for k
      using that first ih(5) by (cases k) auto
    show ?thesis unfolding rec using ih(1-3) out all by blast
  qed
qed

end

subsection \<open>Superpages and the boot mapping\<close>

text \<open>The physical address the hardware forms from a leaf entry at level \<open>l\<close>.\<close>

definition sv39_pa :: "nat \<Rightarrow> u64 \<Rightarrow> u64 \<Rightarrow> u64" where
  "sv39_pa l e va = (pte_to_phys e AND NOT (mask (12 + 9 * l))) OR (va AND mask (12 + 9 * l))"

lemma fold_set_entry:
  "entry (fold (\<lambda>i. set_entry (pgd, i) 0) [0..<n] s) sl
     = (if fst sl = pgd \<and> snd sl < n then 0 else entry s sl)"
  by (induction n) (auto simp: less_Suc_eq prod_eq_iff)

lemma boot_entry:
  "entry (snd (pgtable_init pgd s)) (pgd, i) =
     (if i = 2 then phys_to_pte KERNEL_BASE PTE_KERNEL_RWX else if i = 0 then phys_to_pte 0 PTE_KERNEL
      else if i < 512 then 0 else entry s (pgd, i))"
proof -
  have v: "PTE_KERNEL OR PTE_V = PTE_KERNEL" "PTE_KERNEL_RWX OR PTE_V = PTE_KERNEL_RWX"
    by (simp_all add: PTE_KERNEL_def PTE_KERNEL_RWX_def PTE_V_def PTE_R_def PTE_W_def PTE_X_def PTE_A_def PTE_D_def)
  have k: "pgd_index 0 = 0" "pgd_index MMIO_BASE = 0" "pgd_index KERNEL_BASE = 2"
    "KERNEL_BASE AND NOT (push_bit PGDIR_SHIFT 1 - 1) = KERNEL_BASE"
    "MMIO_BASE AND NOT (push_bit PGDIR_SHIFT 1 - 1) = 0"
    by (simp_all add: pgd_index_def MMIO_BASE_def KERNEL_BASE_def PGDIR_SHIFT_def)
  have e: "entry (t\<lparr>kernel_satp := x\<rparr>) sl = entry t sl" for t :: "'a ptab" and x sl by (simp add: entry_def)
  show ?thesis
    unfolding pgtable_init_def map_page_1g_def Let_def k v
    by (simp add: e fold_set_entry k)
qed


lemma kernel_flags:
  "pte_valid (phys_to_pte a PTE_KERNEL)" "pte_leaf (phys_to_pte a PTE_KERNEL)"
  "pte_valid (phys_to_pte a PTE_KERNEL_RWX)" "pte_leaf (phys_to_pte a PTE_KERNEL_RWX)"
  "PTE_KERNEL < 1024" "PTE_KERNEL_RWX < 1024"
proof -
  have "bit PTE_KERNEL 0" "bit PTE_KERNEL 1" "bit PTE_KERNEL_RWX 0" "bit PTE_KERNEL_RWX 1"
    unfolding PTE_KERNEL_def PTE_KERNEL_RWX_def by (simp_all only: bit_or_iff bit_flags) simp_all
  then show "pte_valid (phys_to_pte a PTE_KERNEL)" "pte_leaf (phys_to_pte a PTE_KERNEL)"
    "pte_valid (phys_to_pte a PTE_KERNEL_RWX)" "pte_leaf (phys_to_pte a PTE_KERNEL_RWX)"
    by (simp_all add: pte_valid_iff pte_leaf_iff phys_to_pte_def bit_simps)
  show "PTE_KERNEL < 1024" "PTE_KERNEL_RWX < 1024"
    by (simp_all add: PTE_KERNEL_def PTE_KERNEL_RWX_def PTE_V_def PTE_R_def PTE_W_def PTE_X_def PTE_A_def PTE_D_def)
qed

lemma boot_leaf:
  "sv39_leaf (snd (pgtable_init pgd s)) pgd va =
     (if pgd_index va = 0 then Some (2, phys_to_pte 0 PTE_KERNEL)
      else if pgd_index va = 2 then Some (2, phys_to_pte KERNEL_BASE PTE_KERNEL_RWX) else None)"
  unfolding sv39_leaf_child child_def boot_entry by (simp add: kernel_flags)

lemma boot_tree: "tree_ok (snd (pgtable_init pgd s)) pgd F"
  using kernel_flags by (auto simp: tree_ok_def pte_at_def pmd_at_def child_def boot_entry)

lemma boot_frames: "frames (snd (pgtable_init pgd s)) = frames s"
proof -
  have "frames (fold (\<lambda>i. set_entry (pgd, i) 0) xs s) = frames s" for xs
    by (induction xs arbitrary: s) auto
  then show ?thesis by (simp add: pgtable_init_def map_page_1g_def Let_def)
qed

lemma giga_identity:
  assumes "unat va < 2 ^ 39" "pgd_index va = unat b div 2 ^ 30" "2 ^ 30 dvd unat b" "f < 1024"
  shows "sv39_pa 2 (phys_to_pte b f) va = va"
proof -
  have g: "unat va div 2 ^ 30 = unat b div 2 ^ 30"
    using assms(1,2) by (simp add: index_nat flip: div_mult2_eq)
  have b: "unat b = unat va - unat va mod 2 ^ 30"
    using g assms(3) by (metis dvd_div_mult_self minus_mod_eq_div_mult)
  have "(4096::nat) dvd 2 ^ 30" by simp
  then have d: "4096 dvd unat b" using assms(3) by (rule dvd_trans)
  have "unat b < 2 ^ 56" using assms(1) unfolding b by simp
  note rt = pte_phys_roundtrip [OF d this assms(4)]
  have "unat b = unat (va AND NOT (mask 30))" unfolding clear_low_bits by (rule b)
  then have bt: "b = va AND NOT (mask 30)" by (simp only: word_unat_eq_iff)
  show ?thesis unfolding sv39_pa_def rt unfolding bt
    by (rule bit_word_eqI) (auto simp: bit_simps)
qed

lemma map_4k_clobbers:
  assumes "sv39_leaf s pgd va = Some (2, e)"
  shows "fst (map_page_4k alloc pgd va pa flags s) = 0"
    "entry (snd (map_page_4k alloc pgd va pa flags s)) (pgd, pgd_index va) = phys_to_pte (page_align pa) (flags OR PTE_V)"
proof -
  have "pte_valid (entry s (pgd, pgd_index va))" "pte_leaf (entry s (pgd, pgd_index va))"
    using assms by (auto simp: sv39_leaf_def entry_def Let_def split: if_splits)
  then have "walk_pgtable alloc pgd (page_align va) True s = (Some (pgd, pgd_index va), s)"
    by (simp add: walk_pgtable_def ensure_table_def)
  then show "fst (map_page_4k alloc pgd va pa flags s) = 0"
    "entry (snd (map_page_4k alloc pgd va pa flags s)) (pgd, pgd_index va) = phys_to_pte (page_align pa) (flags OR PTE_V)"
    by (simp_all add: map_page_4k_def Let_def)
qed

end
