(* ===== verification/Vmalloc.thy ===== *)
theory Vmalloc
  imports PageTableInv
begin

text \<open>
  The allocator of kernel virtual memory, \<^verbatim>\<open>arch/riscv64/mm/vmalloc.c\<close>.

  A \<^verbatim>\<open>struct vm_struct *\<close> is an index into the pool \<^verbatim>\<open>vm_areas\<close>, \<open>None\<close> for \<^verbatim>\<open>NULL\<close>; the address
  \<^verbatim>\<open>NULL\<close> of an area is 0.  A \<^verbatim>\<open>struct vm_struct **\<close>, as the list loops use it, is \<open>None\<close> for
  \<^verbatim>\<open>&vmlist\<close> and \<open>Some i\<close> for \<^verbatim>\<open>&vm_areas[i].next\<close>.  The array that \<^verbatim>\<open>vmap\<close> is given is a list.
  The page tables and the page allocator are those of \<open>PageTable\<close>, whose \<open>tables\<close> hold the
  physical memory as pages of 512 words.  A run that ends in a page fault, or does not
  end, has the value \<open>None\<close>; console messages are left out.
\<close>

unbundle bit_operations_syntax

subsection \<open>Data\<close>

definition VMALLOC_START :: u64 where "VMALLOC_START = 0x84000000"
definition VMALLOC_END :: u64 where "VMALLOC_END = 0x88000000"
definition MAX_VMALLOC_AREAS :: nat where "MAX_VMALLOC_AREAS = 64"

definition VM_ALLOC :: u64 where "VM_ALLOC = 1"
definition VM_MAP :: u64 where "VM_MAP = 2"
definition VM_IOREMAP :: u64 where "VM_IOREMAP = 4"

definition PTE_KERNEL_RW :: u64 where
  "PTE_KERNEL_RW = PTE_V OR PTE_R OR PTE_W OR PTE_A OR PTE_D"

record vm_struct =
  vm_addr :: u64
  vm_size :: u64
  vm_flags :: u64
  vm_nr_pages :: u64
  vm_pages :: "u64 list option"
  vm_next :: "nat option"
  vm_in_use :: bool

record 's vmall =
  vm_areas :: "nat \<Rightarrow> vm_struct"
  vmlist :: "nat option"
  vmalloc_pos :: u64
  vmalloc_initialized :: bool
  vpt :: "'s ptab"

definition upd_vm :: "nat \<Rightarrow> (vm_struct \<Rightarrow> vm_struct) \<Rightarrow> 's vmall \<Rightarrow> 's vmall" where
  "upd_vm i f s = s\<lparr>vm_areas := (vm_areas s)(i := f (vm_areas s i))\<rparr>"

definition deref :: "nat option \<Rightarrow> 's vmall \<Rightarrow> nat option" where
  "deref pprev s = (case pprev of None \<Rightarrow> vmlist s | Some i \<Rightarrow> vm_next (vm_areas s i))"

definition assign :: "nat option \<Rightarrow> nat option \<Rightarrow> 's vmall \<Rightarrow> 's vmall" where
  "assign pprev v s =
     (case pprev of None \<Rightarrow> s\<lparr>vmlist := v\<rparr> | Some i \<Rightarrow> upd_vm i (\<lambda>vm. vm\<lparr>vm_next := v\<rparr>) s)"

subsection \<open>The pool and the list of areas\<close>

definition vmalloc_init :: "'s vmall \<Rightarrow> 's vmall" where
  "vmalloc_init s =
     (fold (\<lambda>i. upd_vm i (\<lambda>vm. vm\<lparr>vm_in_use := False, vm_addr := 0, vm_size := 0, vm_pages := None, vm_next := None\<rparr>))
        [0..<MAX_VMALLOC_AREAS] s)
     \<lparr>vmlist := None, vmalloc_pos := VMALLOC_START, vmalloc_initialized := True\<rparr>"

fun alloc_vm_loop :: "nat \<Rightarrow> nat \<Rightarrow> 's vmall \<Rightarrow> nat option \<times> 's vmall" where
  "alloc_vm_loop i 0 s = (None, s)"
| "alloc_vm_loop i (Suc n) s =
     (if \<not> vm_in_use (vm_areas s i) then (Some i, upd_vm i (\<lambda>vm. vm\<lparr>vm_in_use := True\<rparr>) s)
      else alloc_vm_loop (Suc i) n s)"

definition alloc_vm_struct :: "'s vmall \<Rightarrow> nat option \<times> 's vmall" where
  "alloc_vm_struct s = alloc_vm_loop 0 MAX_VMALLOC_AREAS s"

definition free_vm_struct :: "nat \<Rightarrow> 's vmall \<Rightarrow> 's vmall" where
  "free_vm_struct vm s =
     upd_vm vm (\<lambda>x. x\<lparr>vm_in_use := False, vm_addr := 0, vm_size := 0, vm_flags := 0, vm_nr_pages := 0,
                 vm_pages := None, vm_next := None\<rparr>) s"

partial_function (option) find_area_loop :: "nat option \<Rightarrow> u64 \<Rightarrow> u64 \<Rightarrow> 's vmall \<Rightarrow> u64 option" where
  "find_area_loop vm addr sz s =
     (case vm of
        None \<Rightarrow> Some (if addr + sz \<le> VMALLOC_END then addr else 0)
      | Some i \<Rightarrow>
          (let end = vm_addr (vm_areas s i)
           in if addr + sz \<le> end then Some addr
              else find_area_loop (vm_next (vm_areas s i)) (vm_addr (vm_areas s i) + vm_size (vm_areas s i)) sz s))"

definition find_vmalloc_area :: "u64 \<Rightarrow> 's vmall \<Rightarrow> u64 option" where
  "find_vmalloc_area sz s =
     (let sz = sz + PAGE_SIZE;
          sz = page_align (sz + PAGE_SIZE - 1)
      in find_area_loop (vmlist s) VMALLOC_START sz s)"

partial_function (option) insert_loop :: "nat \<Rightarrow> nat option \<Rightarrow> 's vmall \<Rightarrow> nat option option" where
  "insert_loop vm pprev s =
     (case deref pprev s of
        None \<Rightarrow> Some pprev
      | Some q \<Rightarrow> if vm_addr (vm_areas s q) < vm_addr (vm_areas s vm) then insert_loop vm (Some q) s
                  else Some pprev)"

definition insert_vm_struct :: "nat \<Rightarrow> 's vmall \<Rightarrow> 's vmall option" where
  "insert_vm_struct vm s =
     Option.bind (insert_loop vm None s) (\<lambda>pprev.
       Some (assign pprev (Some vm) (upd_vm vm (\<lambda>x. x\<lparr>vm_next := deref pprev s\<rparr>) s)))"

partial_function (option) remove_loop :: "nat \<Rightarrow> nat option \<Rightarrow> 's vmall \<Rightarrow> nat option option" where
  "remove_loop vm pprev s =
     (case deref pprev s of
        None \<Rightarrow> Some pprev
      | Some q \<Rightarrow> if q \<noteq> vm then remove_loop vm (Some q) s else Some pprev)"

definition remove_vm_struct :: "nat \<Rightarrow> 's vmall \<Rightarrow> 's vmall option" where
  "remove_vm_struct vm s =
     Option.bind (remove_loop vm None s) (\<lambda>pprev.
       Some (if deref pprev s \<noteq> None then assign pprev (vm_next (vm_areas s vm)) s else s))"

partial_function (option) find_vm_loop :: "nat option \<Rightarrow> u64 \<Rightarrow> 's vmall \<Rightarrow> nat option option" where
  "find_vm_loop vm addr s =
     (case vm of
        None \<Rightarrow> Some None
      | Some i \<Rightarrow> if vm_addr (vm_areas s i) = addr then Some (Some i)
                  else find_vm_loop (vm_next (vm_areas s i)) addr s)"

definition find_vm_area :: "u64 \<Rightarrow> 's vmall \<Rightarrow> nat option option" where
  "find_vm_area addr s = find_vm_loop (vmlist s) addr s"

subsection \<open>Pages\<close>

text \<open>
  An access by the kernel that needs the permission \<open>p\<close>: with paging off it goes to the address itself, with
  Sv39 through the tables of \<^verbatim>\<open>satp\<close>; it faults when there is no translation with that permission or the
  leaf is a misaligned superpage.
\<close>

definition hw_translate :: "u64 \<Rightarrow> 's ptab \<Rightarrow> u64 \<Rightarrow> u64 option" where
  "hw_translate p t va =
     (if drop_bit 60 (csr_satp t) = 0 then Some va
      else
        (case sv39_leaf t (push_bit PAGE_SHIFT (csr_satp t AND mask 44)) va of
           None \<Rightarrow> None
         | Some (l, e) \<Rightarrow>
             if e AND p \<noteq> 0 \<and> pte_to_phys e AND mask (12 + 9 * l) = 0 then Some (sv39_pa l e va) else None))"

definition store_word :: "u64 \<Rightarrow> u64 \<Rightarrow> 's ptab \<Rightarrow> 's ptab option" where
  "store_word va v t =
     map_option (\<lambda>pa. set_entry (page_align pa, unat (pa AND (PAGE_SIZE - 1)) div 8) v t) (hw_translate PTE_W t va)"

fun zero_loop :: "u64 \<Rightarrow> nat \<Rightarrow> nat \<Rightarrow> 's ptab \<Rightarrow> 's ptab option" where
  "zero_loop p k 0 t = Some t"
| "zero_loop p k (Suc n) t = Option.bind (store_word (p + of_nat k * 8) 0 t) (zero_loop p (Suc k) n)"

text \<open>
  The functions below write to the tables they run on, so after every call that maps or unmaps a page the
  processor must still be able to fetch the kernel's next instruction; otherwise the run ends in a page fault.
  The kernel image starts at \<^verbatim>\<open>KERNEL_BASE\<close> and is mapped by the same entries as the region of \<^verbatim>\<open>vmalloc\<close> only
  where one entry of the root table covers the whole gigabyte; so its first address stands for all of it.
\<close>

definition kernel_runs :: "'s ptab \<Rightarrow> bool" where
  "kernel_runs t \<longleftrightarrow> hw_translate PTE_X t KERNEL_BASE = Some KERNEL_BASE"

definition go_on :: "'s ptab \<Rightarrow> 's ptab option" where
  "go_on t = (if kernel_runs t then Some t else None)"

text \<open>The loop that unmaps the pages \<open>j\<close> to \<open>j + n - 1\<close> of an area.\<close>

fun unmap_pages :: "('s \<Rightarrow> u64 \<times> 's) \<Rightarrow> u64 \<Rightarrow> u64 \<Rightarrow> nat \<Rightarrow> nat \<Rightarrow> 's ptab \<Rightarrow> 's ptab option" where
  "unmap_pages alloc pgd addr j 0 t = Some t"
| "unmap_pages alloc pgd addr j (Suc n) t =
     Option.bind (go_on (unmap_page_pte alloc pgd (addr + of_nat j * PAGE_SIZE) t)) (unmap_pages alloc pgd addr (Suc j) n)"

fun vmalloc_pages ::
  "('s \<Rightarrow> u64 \<times> 's) \<Rightarrow> (u64 \<Rightarrow> 's \<Rightarrow> 's) \<Rightarrow> u64 \<Rightarrow> u64 \<Rightarrow> nat \<Rightarrow> nat \<Rightarrow> 's ptab \<Rightarrow> (bool \<times> 's ptab) option" where
  "vmalloc_pages alloc free pgd addr i 0 t = Some (True, t)"
| "vmalloc_pages alloc free pgd addr i (Suc n) t =
     (let (page, fr) = alloc (frames t);
          t1 = t\<lparr>frames := fr\<rparr>
      in if page = 0 then map_option (Pair False) (unmap_pages alloc pgd addr 0 i t1)
         else
           (case map_page_4k alloc pgd (addr + of_nat i * PAGE_SIZE) page PTE_KERNEL_RW t1 of
              (r, t2) \<Rightarrow>
                if r < 0
                then map_option (Pair False) (unmap_pages alloc pgd addr 0 i (t2\<lparr>frames := free page (frames t2)\<rparr>))
                else Option.bind (go_on t2) (\<lambda>t3.
                       Option.bind (zero_loop (addr + of_nat i * PAGE_SIZE) 0 512 t3)
                         (vmalloc_pages alloc free pgd addr (Suc i) n))))"

fun vmap_pages ::
  "('s \<Rightarrow> u64 \<times> 's) \<Rightarrow> u64 \<Rightarrow> u64 \<Rightarrow> u64 list \<Rightarrow> nat \<Rightarrow> nat \<Rightarrow> 's ptab \<Rightarrow> (bool \<times> 's ptab) option" where
  "vmap_pages alloc pgd addr pages i 0 t = Some (True, t)"
| "vmap_pages alloc pgd addr pages i (Suc n) t =
     (if i \<ge> length pages then None
      else
        (case map_page_4k alloc pgd (addr + of_nat i * PAGE_SIZE) (pages ! i) PTE_KERNEL_RW t of
           (r, t1) \<Rightarrow> if r < 0 then map_option (Pair False) (unmap_pages alloc pgd addr 0 i t1)
                      else Option.bind (go_on t1) (vmap_pages alloc pgd addr pages (Suc i) n)))"

fun ioremap_pages ::
  "('s \<Rightarrow> u64 \<times> 's) \<Rightarrow> u64 \<Rightarrow> u64 \<Rightarrow> u64 \<Rightarrow> nat \<Rightarrow> nat \<Rightarrow> 's ptab \<Rightarrow> (bool \<times> 's ptab) option" where
  "ioremap_pages alloc pgd addr phys_addr i 0 t = Some (True, t)"
| "ioremap_pages alloc pgd addr phys_addr i (Suc n) t =
     (case map_page_4k alloc pgd (addr + of_nat i * PAGE_SIZE) (phys_addr + of_nat i * PAGE_SIZE) PTE_KERNEL_RW t of
        (r, t1) \<Rightarrow> if r < 0 then map_option (Pair False) (unmap_pages alloc pgd addr 0 i t1)
                   else Option.bind (go_on t1) (ioremap_pages alloc pgd addr phys_addr (Suc i) n))"

subsection \<open>Operations\<close>

text \<open>
  The operations take the allocator of page tables and the address \<open>kpgd\<close> that
  \<^verbatim>\<open>get_kernel_pgd\<close> returns; the address \<open>0\<close> is \<^verbatim>\<open>NULL\<close>.
\<close>

definition vmalloc_flags ::
  "('s \<Rightarrow> u64 \<times> 's) \<Rightarrow> (u64 \<Rightarrow> 's \<Rightarrow> 's) \<Rightarrow> u64 \<Rightarrow> u64 \<Rightarrow> u64 \<Rightarrow> 's vmall \<Rightarrow> (u64 \<times> 's vmall) option" where
  "vmalloc_flags alloc free kpgd sz flags s =
     (if \<not> vmalloc_initialized s \<or> sz = 0 then Some (0, s)
      else
        (let nr_pages = drop_bit PAGE_SHIFT (sz + PAGE_SIZE - 1)
         in case alloc_vm_struct s of
              (None, s1) \<Rightarrow> Some (0, s1)
            | (Some vm, s1) \<Rightarrow>
                Option.bind (find_vmalloc_area sz s1) (\<lambda>addr.
                  if addr = 0 then Some (0, free_vm_struct vm s1)
                  else
                    (let s2 = upd_vm vm (\<lambda>x. x\<lparr>vm_addr := addr, vm_size := (nr_pages + 1) * PAGE_SIZE,
                                vm_flags := flags, vm_nr_pages := nr_pages, vm_pages := None\<rparr>) s1
                     in Option.bind (vmalloc_pages alloc free kpgd addr 0 (unat nr_pages) (vpt s2)) (\<lambda>(ok, t).
                          let s3 = s2\<lparr>vpt := t\<rparr>
                          in if \<not> ok then Some (0, free_vm_struct vm s3)
                             else map_option (Pair addr) (insert_vm_struct vm s3))))))"

definition vmalloc ::
  "('s \<Rightarrow> u64 \<times> 's) \<Rightarrow> (u64 \<Rightarrow> 's \<Rightarrow> 's) \<Rightarrow> u64 \<Rightarrow> u64 \<Rightarrow> 's vmall \<Rightarrow> (u64 \<times> 's vmall) option" where
  "vmalloc alloc free kpgd sz s = vmalloc_flags alloc free kpgd sz VM_ALLOC s"

definition vzalloc ::
  "('s \<Rightarrow> u64 \<times> 's) \<Rightarrow> (u64 \<Rightarrow> 's \<Rightarrow> 's) \<Rightarrow> u64 \<Rightarrow> u64 \<Rightarrow> 's vmall \<Rightarrow> (u64 \<times> 's vmall) option" where
  "vzalloc alloc free kpgd sz s = vmalloc alloc free kpgd sz s"

text \<open>What \<^verbatim>\<open>vfree\<close>, \<^verbatim>\<open>vunmap\<close> and \<^verbatim>\<open>iounmap\<close> have in common once the area is found.\<close>

definition release_area :: "('s \<Rightarrow> u64 \<times> 's) \<Rightarrow> u64 \<Rightarrow> nat \<Rightarrow> 's vmall \<Rightarrow> 's vmall option" where
  "release_area alloc kpgd vm s =
     (let va = vm_addr (vm_areas s vm)
      in Option.bind (unmap_pages alloc kpgd va 0 (unat (vm_nr_pages (vm_areas s vm))) (vpt s)) (\<lambda>t.
           map_option (free_vm_struct vm) (remove_vm_struct vm (s\<lparr>vpt := t\<rparr>))))"

definition vfree :: "('s \<Rightarrow> u64 \<times> 's) \<Rightarrow> u64 \<Rightarrow> u64 \<Rightarrow> 's vmall \<Rightarrow> 's vmall option" where
  "vfree alloc kpgd addr s =
     (if addr = 0 \<or> \<not> vmalloc_initialized s then Some s
      else
        Option.bind (find_vm_area addr s) (\<lambda>vm.
          case vm of None \<Rightarrow> Some s | Some i \<Rightarrow> release_area alloc kpgd i s))"

definition vmap ::
  "('s \<Rightarrow> u64 \<times> 's) \<Rightarrow> u64 \<Rightarrow> u64 list option \<Rightarrow> u64 \<Rightarrow> u64 \<Rightarrow> 's vmall \<Rightarrow> (u64 \<times> 's vmall) option" where
  "vmap alloc kpgd pages nr_pages flags s =
     (case pages of
        None \<Rightarrow> Some (0, s)
      | Some ps \<Rightarrow>
          if \<not> vmalloc_initialized s \<or> nr_pages = 0 then Some (0, s)
          else
            (let sz = nr_pages * PAGE_SIZE
             in case alloc_vm_struct s of
                  (None, s1) \<Rightarrow> Some (0, s1)
                | (Some vm, s1) \<Rightarrow>
                    Option.bind (find_vmalloc_area sz s1) (\<lambda>addr.
                      if addr = 0 then Some (0, free_vm_struct vm s1)
                      else
                        (let s2 = upd_vm vm (\<lambda>x. x\<lparr>vm_addr := addr, vm_size := (nr_pages + 1) * PAGE_SIZE,
                                    vm_flags := VM_MAP OR flags, vm_nr_pages := nr_pages, vm_pages := Some ps\<rparr>) s1
                         in Option.bind (vmap_pages alloc kpgd addr ps 0 (unat nr_pages) (vpt s2)) (\<lambda>(ok, t).
                              let s3 = s2\<lparr>vpt := t\<rparr>
                              in if \<not> ok then Some (0, free_vm_struct vm s3)
                                 else map_option (Pair addr) (insert_vm_struct vm s3))))))"

definition vunmap :: "('s \<Rightarrow> u64 \<times> 's) \<Rightarrow> u64 \<Rightarrow> u64 \<Rightarrow> 's vmall \<Rightarrow> 's vmall option" where
  "vunmap alloc kpgd addr s =
     (if addr = 0 \<or> \<not> vmalloc_initialized s then Some s
      else
        Option.bind (find_vm_area addr s) (\<lambda>vm.
          case vm of
            None \<Rightarrow> Some s
          | Some i \<Rightarrow> if vm_flags (vm_areas s i) AND VM_MAP = 0 then Some s else release_area alloc kpgd i s))"

definition ioremap ::
  "('s \<Rightarrow> u64 \<times> 's) \<Rightarrow> u64 \<Rightarrow> u64 \<Rightarrow> u64 \<Rightarrow> 's vmall \<Rightarrow> (u64 \<times> 's vmall) option" where
  "ioremap alloc kpgd phys_addr sz s =
     (if \<not> vmalloc_initialized s \<or> sz = 0 then Some (0, s)
      else
        (let offset = phys_addr AND (PAGE_SIZE - 1);
             phys_addr = page_align phys_addr;
             nr_pages = drop_bit PAGE_SHIFT (sz + offset + PAGE_SIZE - 1)
         in case alloc_vm_struct s of
              (None, s1) \<Rightarrow> Some (0, s1)
            | (Some vm, s1) \<Rightarrow>
                Option.bind (find_vmalloc_area (nr_pages * PAGE_SIZE) s1) (\<lambda>addr.
                  if addr = 0 then Some (0, free_vm_struct vm s1)
                  else
                    (let s2 = upd_vm vm (\<lambda>x. x\<lparr>vm_addr := addr, vm_size := (nr_pages + 1) * PAGE_SIZE,
                                vm_flags := VM_IOREMAP, vm_nr_pages := nr_pages, vm_pages := None\<rparr>) s1
                     in Option.bind (ioremap_pages alloc kpgd addr phys_addr 0 (unat nr_pages) (vpt s2)) (\<lambda>(ok, t).
                          let s3 = s2\<lparr>vpt := t\<rparr>
                          in if \<not> ok then Some (0, free_vm_struct vm s3)
                             else map_option (Pair (addr + offset)) (insert_vm_struct vm s3))))))"

definition iounmap :: "('s \<Rightarrow> u64 \<times> 's) \<Rightarrow> u64 \<Rightarrow> u64 \<Rightarrow> 's vmall \<Rightarrow> 's vmall option" where
  "iounmap alloc kpgd addr s =
     (if addr = 0 \<or> \<not> vmalloc_initialized s then Some s
      else
        (let base_addr = page_align addr
         in Option.bind (find_vm_area base_addr s) (\<lambda>vm.
              case vm of
                None \<Rightarrow> Some s
              | Some i \<Rightarrow> if vm_flags (vm_areas s i) AND VM_IOREMAP = 0 then Some s
                          else release_area alloc kpgd i s)))"

end
