(* ===== verification/VmallocPages.thy ===== *)
theory VmallocPages
  imports Vmalloc
begin

text \<open>
  The loops of \<^verbatim>\<open>vmalloc.c\<close> over the pages of an area: on tables that map the region page by page they do not
  fault, and they change the translation of the pages of the area only.
\<close>

unbundle bit_operations_syntax

subsection \<open>The region and the kernel image\<close>

definition in_region :: "u64 \<Rightarrow> bool" where
  "in_region va \<longleftrightarrow> VMALLOC_START \<le> va \<and> va < VMALLOC_END"

text \<open>The \<open>n\<close> pages from \<open>a\<close> on are in the region.\<close>

definition pages_in :: "u64 \<Rightarrow> nat \<Rightarrow> bool" where
  "pages_in a n \<longleftrightarrow> unat VMALLOC_START \<le> unat a \<and> unat a + 4096 * n \<le> unat VMALLOC_END"

lemma pages_in_step:
  assumes "pages_in a n" "k < n"
  shows "in_region (a + of_nat (4096 * k))"
proof -
  have b: "unat a + 4096 * k < unat VMALLOC_END" "unat VMALLOC_START \<le> unat a" using assms by (auto simp: pages_in_def)
  then have "unat (a + of_nat (4096 * k)) = unat a + 4096 * k" by (intro unat_step) (simp add: VMALLOC_END_def)
  then show ?thesis unfolding in_region_def word_le_nat_alt word_less_nat_alt using b by linarith
qed

lemma pages_in_differ:
  assumes "pages_in a n" "j < n" "k < n" "j \<noteq> k"
  shows "\<not> same_page (a + of_nat (4096 * j)) (a + of_nat (4096 * k))"
proof (rule steps_differ [OF _ assms(2-4)])
  show "unat a + 4096 * n < 2 ^ 64" "n \<le> 2 ^ 27" using assms(1) by (auto simp: pages_in_def VMALLOC_START_def VMALLOC_END_def)
qed

lemma region_not_kernel:
  assumes "in_region va"
  shows "\<not> same_page va KERNEL_BASE"
proof -
  have "0x84000000 \<le> unat va" "unat va < 0x88000000"
    using assms by (simp_all add: in_region_def VMALLOC_START_def VMALLOC_END_def word_le_nat_alt word_less_nat_alt)
  then have "0x84000 \<le> unat va div 4096" "unat va div 4096 < 0x88000" by linarith+
  then show ?thesis unfolding same_page_nat by (simp add: KERNEL_BASE_def)
qed

subsection \<open>Tables the kernel runs on\<close>

text \<open>The processor uses the tables under \<open>pgd\<close>, or none.\<close>

definition runs_on :: "u64 \<Rightarrow> 's ptab \<Rightarrow> bool" where
  "runs_on pgd t \<longleftrightarrow> drop_bit 60 (csr_satp t) = 0 \<or> push_bit PAGE_SHIFT (csr_satp t AND mask 44) = pgd"

lemma kernel_runs_cong:
  assumes "csr_satp t' = csr_satp t" "runs_on pgd t" "sv39_leaf t' pgd KERNEL_BASE = sv39_leaf t pgd KERNEL_BASE"
  shows "runs_on pgd t' \<and> kernel_runs t' = kernel_runs t"
  using assms unfolding runs_on_def kernel_runs_def hw_translate_def by auto

lemma ensure_table_satp: "csr_satp (snd (ensure_table alloc c sl s)) = csr_satp s"
  by (simp add: ensure_table_def pgtable_alloc_def set_entry_def Let_def split: prod.split)

lemma walk_satp: "csr_satp (snd (walk_pgtable alloc pgd va c s)) = csr_satp s"
  unfolding walk_pgtable_def Let_def
  using ensure_table_satp [of alloc c] by (auto simp: Let_def split: prod.splits) (metis snd_conv)+

lemma map_4k_satp:
  assumes "map_page_4k alloc pgd va pa fl s = (r, s')"
  shows "csr_satp s' = csr_satp s"
  using assms walk_satp [of alloc pgd "page_align va" True s]
  by (auto simp: map_page_4k_def Let_def sfence_def set_entry_def split: prod.splits option.splits)

lemma unmap_satp: "csr_satp (unmap_page_pte alloc pgd va s) = csr_satp s"
  using walk_satp [of alloc pgd "page_align va" False s]
  by (auto simp: unmap_page_pte_def Let_def sfence_def set_entry_def split: prod.splits option.splits)

text \<open>The kernel runs on sound tables that map no part of the region by a superpage.\<close>

definition vm_tables :: "('s \<Rightarrow> bool) \<Rightarrow> ('s \<Rightarrow> u64 set) \<Rightarrow> ('s \<Rightarrow> u64 set) \<Rightarrow> u64 \<Rightarrow> 's ptab \<Rightarrow> bool" where
  "vm_tables fok owned pool pgd t \<longleftrightarrow> pt_inv fok owned pool pgd t \<and> runs_on pgd t \<and> kernel_runs t
     \<and> (\<forall>va. in_region va \<longrightarrow> no_superpage t pgd va)"

lemma vm_tables_remap:
  assumes t: "vm_tables fok owned pool pgd t" and va: "in_region va" and p: "pt_inv fok owned pool pgd t'"
    and c: "csr_satp t' = csr_satp t" and l: "sv39_leaf t' pgd = remap va e (sv39_leaf t pgd)"
  shows "vm_tables fok owned pool pgd t'"
proof -
  have "sv39_leaf t' pgd KERNEL_BASE = sv39_leaf t pgd KERNEL_BASE" using region_not_kernel [OF va] by (simp add: l remap_def)
  from kernel_runs_cong [OF c _ this] t p show ?thesis
    by (auto simp: vm_tables_def no_superpage_def l remap_def split: if_splits)
qed

context frame_source
begin

lemma map_keeps:
  assumes t: "vm_tables fok owned pool pgd t" and va: "in_region va" and m: "map_page_4k falloc pgd va pa fl t = (r, t')"
  shows "vm_tables fok owned pool pgd t'"
    and "r = -1 \<and> sv39_leaf t' pgd = sv39_leaf t pgd \<or>
         r = 0 \<and> sv39_leaf t' pgd = remap va (Some (phys_to_pte (page_align pa) (fl OR PTE_V))) (sv39_leaf t pgd)"
proof -
  have "pt_inv fok owned pool pgd t" "no_superpage t pgd va" using t va by (auto simp: vm_tables_def)
  note k = map_4k_ok [OF this m]
  show l: "r = -1 \<and> sv39_leaf t' pgd = sv39_leaf t pgd \<or>
         r = 0 \<and> sv39_leaf t' pgd = remap va (Some (phys_to_pte (page_align pa) (fl OR PTE_V))) (sv39_leaf t pgd)"
    using k(2) by auto
  from l show "vm_tables fok owned pool pgd t'"
  proof (elim disjE conjE)
    assume "sv39_leaf t' pgd = sv39_leaf t pgd"
    with kernel_runs_cong [OF map_4k_satp [OF m], of pgd] t k(1) show ?thesis by (auto simp: vm_tables_def no_superpage_def)
  qed (rule vm_tables_remap [OF t va k(1) map_4k_satp [OF m]])
qed

lemma unmap_keeps:
  assumes t: "vm_tables fok owned pool pgd t" and va: "in_region va"
  shows "vm_tables fok owned pool pgd (unmap_page_pte falloc pgd va t)"
    and "sv39_leaf (unmap_page_pte falloc pgd va t) pgd = remap va None (sv39_leaf t pgd)"
proof -
  have "pt_inv fok owned pool pgd t" "no_superpage t pgd va" using t va by (auto simp: vm_tables_def)
  note k = unmap_ok [OF this refl]
  show l: "sv39_leaf (unmap_page_pte falloc pgd va t) pgd = remap va None (sv39_leaf t pgd)" by (rule k(2))
  show "vm_tables fok owned pool pgd (unmap_page_pte falloc pgd va t)"
    by (rule vm_tables_remap [OF t va k(1) unmap_satp l])
qed

lemma unmap_pages_ok:
  assumes "vm_tables fok owned pool pgd t" "pages_in a (j + n)"
  shows "\<exists>t'. unmap_pages falloc pgd a j n t = Some t' \<and> vm_tables fok owned pool pgd t'
    \<and> (\<forall>va. sv39_leaf t' pgd va =
         (if \<exists>k. j \<le> k \<and> k < j + n \<and> same_page (a + of_nat (4096 * k)) va then None else sv39_leaf t pgd va))"
  using assms
proof (induction n arbitrary: j t)
  case 0
  have "\<not> (\<exists>k. j \<le> k \<and> k < j + 0 \<and> P k)" for P by auto
  then show ?case using "0.prems"(1) by (simp only: unmap_pages.simps if_False) blast
next
  case (Suc n)
  let ?va = "a + of_nat (4096 * j)"
  have va: "in_region ?va" using pages_in_step [OF Suc.prems(2), of j] by simp
  note u = unmap_keeps [OF Suc.prems(1) va]
  have g: "go_on (unmap_page_pte falloc pgd ?va t) = Some (unmap_page_pte falloc pgd ?va t)"
    using u(1) by (simp add: go_on_def vm_tables_def)
  have "pages_in a (Suc j + n)" using Suc.prems(2) by simp
  from Suc.IH [OF u(1) this] obtain t' where t': "unmap_pages falloc pgd a (Suc j) n (unmap_page_pte falloc pgd ?va t) = Some t'"
    "vm_tables fok owned pool pgd t'"
    "\<And>va. sv39_leaf t' pgd va = (if \<exists>k. Suc j \<le> k \<and> k < Suc j + n \<and> same_page (a + of_nat (4096 * k)) va then None
       else sv39_leaf (unmap_page_pte falloc pgd ?va t) pgd va)" by blast
  have "sv39_leaf t' pgd va = (if \<exists>k. j \<le> k \<and> k < j + Suc n \<and> same_page (a + of_nat (4096 * k)) va then None else sv39_leaf t pgd va)" for va
  proof -
    have "(\<exists>k. j \<le> k \<and> k < j + Suc n \<and> same_page (a + of_nat (4096 * k)) va) \<longleftrightarrow>
      same_page ?va va \<or> (\<exists>k. Suc j \<le> k \<and> k < Suc j + n \<and> same_page (a + of_nat (4096 * k)) va)"
      by (metis Suc_leD Suc_leI add_Suc_right add_Suc le_add1 le_neq_implies_less less_Suc_eq_le order_refl)
    then show ?thesis
      unfolding t'(3) u(2) remap_def option.map by (cases "same_page ?va va") (simp_all only: simp_thms if_True if_False if_cancel)
  qed
  moreover have "unmap_pages falloc pgd a j (Suc n) t = Some t'" using t'(1) g by (simp add: mult.commute)
  ultimately show ?case using t'(2) by blast
qed

lemma ioremap_pages_ok:
  assumes "vm_tables fok owned pool pgd t" "pages_in a (i + n)"
  shows "\<exists>ok t'. ioremap_pages falloc pgd a ph i n t = Some (ok, t') \<and> vm_tables fok owned pool pgd t'
    \<and> (\<forall>va. (\<forall>k < i + n. \<not> same_page (a + of_nat (4096 * k)) va) \<longrightarrow> sv39_leaf t' pgd va = sv39_leaf t pgd va)
    \<and> (ok \<longrightarrow> (\<forall>k < i. sv39_leaf t' pgd (a + of_nat (4096 * k)) = sv39_leaf t pgd (a + of_nat (4096 * k)))
        \<and> (\<forall>k. i \<le> k \<and> k < i + n \<longrightarrow> sv39_leaf t' pgd (a + of_nat (4096 * k))
             = Some (0, phys_to_pte (page_align (ph + of_nat (4096 * k))) (PTE_KERNEL_RW OR PTE_V))))"
  using assms
proof (induction n arbitrary: i t)
  case 0
  have "\<not> (i \<le> k \<and> k < i + 0)" for k by simp
  then show ?case using "0.prems"(1) by (simp only: ioremap_pages.simps) blast
next
  case (Suc n)
  let ?p = "\<lambda>k. a + of_nat (4096 * k)" and ?e = "\<lambda>k. phys_to_pte (page_align (ph + of_nat (4096 * k))) (PTE_KERNEL_RW OR PTE_V)"
  have va: "in_region (?p i)" using pages_in_step [OF Suc.prems(2), of i] by simp
  obtain r t1 where m: "map_page_4k falloc pgd (?p i) (ph + of_nat (4096 * i)) PTE_KERNEL_RW t = (r, t1)" by fastforce
  note k = map_keeps [OF Suc.prems(1) va m]
  have e: "ioremap_pages falloc pgd a ph i (Suc n) t =
      (if r < 0 then map_option (Pair False) (unmap_pages falloc pgd a 0 i t1) else Option.bind (go_on t1) (ioremap_pages falloc pgd a ph (Suc i) n))"
    using m by (simp add: mult.commute)
  show ?case
  proof (cases "r = 0")
    case False
    with k(2) have r: "r = -1" "sv39_leaf t1 pgd = sv39_leaf t pgd" by auto
    have "pages_in a (0 + i)" using Suc.prems(2) by (simp add: pages_in_def)
    from unmap_pages_ok [OF k(1) this] obtain t' where t': "unmap_pages falloc pgd a 0 i t1 = Some t'" "vm_tables fok owned pool pgd t'"
      "\<And>va. sv39_leaf t' pgd va = (if \<exists>k. 0 \<le> k \<and> k < 0 + i \<and> same_page (?p k) va then None else sv39_leaf t1 pgd va)" by blast
    have "sv39_leaf t' pgd va = sv39_leaf t pgd va" if "\<forall>k < i + Suc n. \<not> same_page (?p k) va" for va
      unfolding t'(3) r(2) using that by (metis add_0 trans_less_add1)
    then show ?thesis unfolding e using r(1) t'(1,2) by auto
  next
    case True
    with k(2) have l: "sv39_leaf t1 pgd = remap (?p i) (Some (?e i)) (sv39_leaf t pgd)" by auto
    have g: "go_on t1 = Some t1" using k(1) by (simp add: go_on_def vm_tables_def)
    have "pages_in a (Suc i + n)" using Suc.prems(2) by simp
    from Suc.IH [OF k(1) this] obtain ok t' where t': "ioremap_pages falloc pgd a ph (Suc i) n t1 = Some (ok, t')" "vm_tables fok owned pool pgd t'"
      "\<And>va. \<forall>k < Suc i + n. \<not> same_page (?p k) va \<Longrightarrow> sv39_leaf t' pgd va = sv39_leaf t1 pgd va"
      "\<And>k. ok \<Longrightarrow> k < Suc i \<Longrightarrow> sv39_leaf t' pgd (?p k) = sv39_leaf t1 pgd (?p k)"
      "\<And>k. ok \<Longrightarrow> Suc i \<le> k \<Longrightarrow> k < Suc i + n \<Longrightarrow> sv39_leaf t' pgd (?p k) = Some (0, ?e k)" by blast
    have out: "sv39_leaf t' pgd va = sv39_leaf t pgd va" if "\<forall>k < i + Suc n. \<not> same_page (?p k) va" for va
    proof -
      have "\<not> same_page (?p i) va" "\<forall>k < Suc i + n. \<not> same_page (?p k) va" using that by auto
      then show ?thesis using t'(3) by (simp add: l remap_def)
    qed
    have old: "sv39_leaf t' pgd (?p j) = sv39_leaf t pgd (?p j)" if "ok" "j < i" for j
    proof -
      have "\<not> same_page (?p i) (?p j)" by (rule pages_in_differ [OF Suc.prems(2)]) (use that(2) in auto)
      then show ?thesis using t'(4) [OF that(1), of j] that(2) by (simp add: l remap_def)
    qed
    have new: "sv39_leaf t' pgd (?p j) = Some (0, ?e j)" if "ok" "i \<le> j" "j < i + Suc n" for j
    proof (cases "j = i")
      case True
      then show ?thesis using t'(4) [OF that(1), of i] by (simp add: l remap_def same_page_def)
    next
      case False
      then show ?thesis using t'(5) [OF that(1)] that(2,3) by simp
    qed
    have "ioremap_pages falloc pgd a ph i (Suc n) t = Some (ok, t')" unfolding e using True g t'(1) by simp
    then show ?thesis using t'(2) out old new by blast
  qed
qed

end

end
