(* ===== verification/PageTableProps.thy ===== *)
theory PageTableProps
  imports PageTableInv
begin

text \<open>
  The properties of \<^verbatim>\<open>pgtable.c\<close>, with the buddy allocator as the source of its tables.
\<close>

unbundle bit_operations_syntax

text \<open>The tables under \<open>pgd\<close> are a tree of distinct frames of the allocator.\<close>

definition kpt_inv :: "u64 \<Rightarrow> buddy ptab \<Rightarrow> bool" where
  "kpt_inv pgd s \<longleftrightarrow> pt_inv (\<lambda>b. \<exists>M. manages b M) owned_frames frame_pool pgd s"

text \<open>The kernel after \<^verbatim>\<open>page_init\<close> and \<^verbatim>\<open>pgtable_init\<close>, its root table inside the kernel image.\<close>

definition boot_pgd :: u64 where "boot_pgd = 0x80200000"

definition boot_pt :: "buddy ptab" where
  "boot_pt = snd (pgtable_init boot_pgd
     \<lparr>tables = (\<lambda>_ _. 0), frames = page_init bss_buddy, fences = [], kernel_satp = 0, csr_satp = 0\<rparr>)"

lemma boot_pgd_outside: "boot_pgd \<notin> frame_pool (page_init s)"
proof
  assume "boot_pgd \<in> frame_pool (page_init s)"
  then obtain p where p: "p < npages (page_init s)" "boot_pgd = page_to_phys (page_init s) p"
    by (auto simp: frame_pool_def)
  have "unat boot_pgd = page_to_pfn (page_init s) p * 4096"
    unfolding p(2) by (rule page_addr(4) [OF manages_range [OF page_init_ok(1)] p(1)])
  then show False by (simp add: boot_pgd_def page_to_pfn_def page_init_ok(3))
qed

lemma boot_pt_inv: "kpt_inv boot_pgd boot_pt"
  unfolding kpt_inv_def pt_inv_def boot_pt_def boot_frames
  using boot_tree page_init_ok(1) boot_pgd_outside by (auto intro!: exI [of _ "{310..<31744}"])

lemma boot_pt_hole:
  assumes "pgd_index va = 1"
  shows "sv39_leaf boot_pt boot_pgd va = None" "no_superpage boot_pt boot_pgd va"
  using assms unfolding boot_pt_def no_superpage_def by (simp_all add: boot_leaf)

lemma boot_map_avail: "fst (map_page_4k alloc_page boot_pgd va pa flags boot_pt) = 0"
  by (rule buddy_counted.map_4k_avail(1) [OF boot_pt_inv [unfolded kpt_inv_def]]) (simp add: boot_pt_def boot_frames page_init_count)

lemma flags_or_valid: "flags < 1024 \<Longrightarrow> flags OR PTE_V < 1024"
proof -
  assume "flags < 1024"
  have small: "(x::u64) < 1024 \<longleftrightarrow> drop_bit 10 x = 0" for x
    unfolding word_less_nat_alt word_unat_eq_iff unat_drop_bit_eq by (simp add: drop_bit_eq_div div_eq_0_iff)
  then have "drop_bit 10 flags = 0" "drop_bit 10 PTE_V = 0" using \<open>flags < 1024\<close> by (auto simp: PTE_V_def)
  then show ?thesis unfolding small by (simp add: drop_bit_or)
qed

subsection \<open>Properties\<close>

text \<open>
  C6: mapping a 4 KB page, at an address no superpage covers, either fails with -1 and
  leaves every translation as it was, or returns 0 and changes the translation of that
  one page, which then goes to the given frame with the given flags; all other addresses
  translate as before.  In both cases the tables stay a tree of distinct frames.
\<close>

theorem map_page_4k_correct:
  assumes "kpt_inv pgd s" "no_superpage s pgd va" "map_page_4k alloc_page pgd va pa flags s = (r, s')"
  shows "kpt_inv pgd s'
    \<and> (r = -1 \<and> sv39_leaf s' pgd = sv39_leaf s pgd
       \<or> r = 0 \<and> (\<forall>va'. sv39_leaf s' pgd va' =
            (if same_page va va' then Some (0, phys_to_pte (page_align pa) (flags OR PTE_V))
             else sv39_leaf s pgd va')))"
  using buddy_frames.map_4k_ok [OF assms(1) [unfolded kpt_inv_def] assms(2,3)]
  by (auto simp: kpt_inv_def remap_def)

theorem map_page_4k_correct_witness:
  "kpt_inv boot_pgd (snd (map_page_4k alloc_page boot_pgd 0x40000000 0x10000000 PTE_KERNEL boot_pt))"
proof -
  have "pgd_index 0x40000000 = 1" by (simp add: pgd_index_def PGDIR_SHIFT_def)
  from map_page_4k_correct [OF boot_pt_inv boot_pt_hole(2) [OF this] surjective_pairing]
  show ?thesis by blast
qed

text \<open>
  C7: unmapping a page that no superpage covers removes the translation of that page and
  of no other, whether it was mapped or not.
\<close>

theorem unmap_page_correct:
  assumes "kpt_inv pgd s" "no_superpage s pgd va" "s' = unmap_page_pte alloc_page pgd va s"
  shows "kpt_inv pgd s' \<and> (\<forall>va'. sv39_leaf s' pgd va' = (if same_page va va' then None else sv39_leaf s pgd va'))"
  using buddy_frames.unmap_ok [OF assms(1) [unfolded kpt_inv_def] assms(2,3)]
  by (auto simp: kpt_inv_def remap_def)

theorem unmap_page_correct_witness:
  "\<exists>s e. map_page_4k alloc_page boot_pgd 0x40000000 0x10000000 PTE_KERNEL boot_pt = (0, s)
     \<and> sv39_leaf s boot_pgd 0x40000000 = Some (0, e)
     \<and> sv39_leaf (unmap_page_pte alloc_page boot_pgd 0x40000000 s) boot_pgd 0x40000000 = None"
proof -
  have i: "pgd_index 0x40000000 = 1" by (simp add: pgd_index_def PGDIR_SHIFT_def)
  obtain s where m: "map_page_4k alloc_page boot_pgd 0x40000000 0x10000000 PTE_KERNEL boot_pt = (0, s)"
    using boot_map_avail [of "0x40000000" "0x10000000" PTE_KERNEL]
    by (cases "map_page_4k alloc_page boot_pgd 0x40000000 0x10000000 PTE_KERNEL boot_pt") simp
  note k = buddy_frames.map_4k_ok [OF boot_pt_inv [unfolded kpt_inv_def] boot_pt_hole(2) [OF i] m]
  have l: "sv39_leaf s boot_pgd 0x40000000 = Some (0, phys_to_pte (page_align 0x10000000) (PTE_KERNEL OR PTE_V))"
    using k(2) by (simp add: remap_def same_page_def)
  then have n: "no_superpage s boot_pgd 0x40000000" by (simp add: no_superpage_def)
  from unmap_page_correct [OF k(1) [folded kpt_inv_def] n refl] m l show ?thesis by (auto simp: same_page_def)
qed

text \<open>
  C8: after a 4 KB page has been mapped, \<open>lookup_pa\<close> returns the address in the mapped
  frame, for every address of the page.
\<close>

theorem lookup_after_map:
  assumes "kpt_inv pgd s" "no_superpage s pgd va" "map_page_4k alloc_page pgd va pa flags s = (0, s')"
    and "unat pa < 2 ^ 56" "flags < 1024" "same_page va va'"
  shows "lookup_pa alloc_page pgd va' s' = page_align pa OR (va' AND (PAGE_SIZE - 1))"
proof -
  note m = buddy_frames.map_4k_ok [OF assms(1) [unfolded kpt_inv_def] assms(2,3)]
  have "unat (page_align pa) < 2 ^ 56" using assms(4) by (simp add: unat_page_align)
  moreover have "4096 dvd unat (page_align pa)" unfolding unat_page_align by (rule dvd_minus_mod)
  moreover have "flags OR PTE_V < 1024"
    using assms(5) by (rule flags_or_valid)
  ultimately have "pte_to_phys (phys_to_pte (page_align pa) (flags OR PTE_V)) = page_align pa"
    by (intro pte_phys_roundtrip)
  then show ?thesis
    using buddy_frames.lookup_pa_leaf [OF m(1)] m(2) assms(6) by (simp add: remap_def)
qed


theorem lookup_after_map_witness:
  "lookup_pa alloc_page boot_pgd 0x40000123
     (snd (map_page_4k alloc_page boot_pgd 0x40000000 0x10000000 PTE_KERNEL boot_pt)) = 0x10000123"
proof -
  have i: "pgd_index 0x40000000 = 1" by (simp add: pgd_index_def PGDIR_SHIFT_def)
  have sp: "same_page 0x40000000 0x40000123"
    by (simp add: same_page_def pgd_index_def pmd_index_def pte_index_def PGDIR_SHIFT_def PMD_SHIFT_def PTE_SHIFT_def)
  have m: "map_page_4k alloc_page boot_pgd 0x40000000 0x10000000 PTE_KERNEL boot_pt =
      (0, snd (map_page_4k alloc_page boot_pgd 0x40000000 0x10000000 PTE_KERNEL boot_pt))"
    using boot_map_avail by (simp add: prod_eq_iff)
  show ?thesis
    using lookup_after_map [OF boot_pt_inv boot_pt_hole(2) [OF i] m _ kernel_flags(5) sp]
    by (simp add: page_align_def)
qed

text \<open>
  C9: mapping a region that does not wrap around the end of the address space and that no superpage covers ends.  The region is what the caller asked for,
  rounded out to whole pages: from the page of its first byte to the page of its last one, and if it is empty and starts inside
  a page, that page.  It has at most 2 to the 27 pages, the pages of a 39-bit address space.  When the call reports success,
  every page of the region is mapped to the frame at the same distance from the frame of the first one, with the
  flags asked for; addresses outside the region keep their translation in any case.
\<close>

theorem map_region_correct:
  assumes "kpt_inv pgd s" "unat va + unat sz + 4095 < 2 ^ 64" "n = (unat va mod 4096 + unat sz + 4095) div 4096" "n \<le> 2 ^ 27"
    and "\<forall>k < n. no_superpage s pgd (page_align va + of_nat (4096 * k))"
  shows "\<exists>r s'. map_region alloc_page pgd va pa sz flags s = Some (r, s')
    \<and> kpt_inv pgd s' \<and> (r = 0 \<or> r = -1)
    \<and> (\<forall>va'. (\<forall>k < n. \<not> same_page (page_align va + of_nat (4096 * k)) va') \<longrightarrow> sv39_leaf s' pgd va' = sv39_leaf s pgd va')
    \<and> (r = 0 \<longrightarrow> (\<forall>k < n. sv39_leaf s' pgd (page_align va + of_nat (4096 * k))
          = Some (0, phys_to_pte (page_align (page_align pa + of_nat (4096 * k))) (flags OR PTE_V))))"
proof -
  let ?stop = "page_align (va + sz + PAGE_SIZE - 1)"
  have "unat (va + sz) = unat va + unat sz" using unat_add_small [of va "unat sz"] assms(2) by simp
  then have "unat (va + sz + of_nat 4095) = unat va + unat sz + 4095" using unat_add_small [of "va + sz" 4095] assms(2) by simp
  moreover have "va + sz + PAGE_SIZE - 1 = va + sz + of_nat 4095" by simp
  ultimately have "unat ?stop = (unat va + unat sz + 4095) div 4096 * 4096" by (simp only: unat_page_align minus_mod_eq_div_mult)
  moreover have "unat (page_align va) = unat va div 4096 * 4096" by (simp only: unat_page_align minus_mod_eq_div_mult)
  moreover have "(unat va + unat sz + 4095) div 4096 = unat va div 4096 + n"
    using div_mult_self3 [of 4096 "unat va div 4096" "unat va mod 4096 + unat sz + 4095"] by (simp add: assms(3) flip: add.assoc)
  ultimately have e: "unat (page_align va) + 4096 * n = unat ?stop" by simp
  show ?thesis
    using buddy_frames.map_region_loop_ok [OF assms(1) [unfolded kpt_inv_def] e assms(4,5), of "page_align pa" flags]
    by (simp only: kpt_inv_def map_region_def Let_def)
qed

theorem map_region_correct_witness:
  "\<exists>r s'. map_region alloc_page boot_pgd 0x40000FFF 0x10000008 2 PTE_KERNEL boot_pt = Some (r, s') \<and> kpt_inv boot_pgd s'
     \<and> (r = 0 \<longrightarrow> sv39_leaf s' boot_pgd 0x40001000 = Some (0, phys_to_pte 0x10001000 (PTE_KERNEL OR PTE_V)))"
proof -
  have p: "page_align 0x40000FFF = 0x40000000" "page_align 0x10000008 = 0x10000000" "page_align 0x10001000 = 0x10001000"
    by (simp_all add: page_align_def)
  have n: "\<forall>k < 2. no_superpage boot_pt boot_pgd (page_align 0x40000FFF + of_nat (4096 * k))"
  proof (intro allI impI boot_pt_hole(2))
    fix k :: nat assume "k < 2"
    then show "pgd_index (page_align 0x40000FFF + of_nat (4096 * k)) = 1"
      unfolding p by (auto simp: less_2_cases_iff pgd_index_def PGDIR_SHIFT_def)
  qed
  have a: "unat (0x40000FFF :: u64) + unat (2 :: u64) + 4095 < 2 ^ 64" "(2::nat) = (unat (0x40000FFF :: u64) mod 4096 + unat (2 :: u64) + 4095) div 4096"
    "(2::nat) \<le> 2 ^ 27" by simp_all
  from map_region_correct [OF boot_pt_inv a n, of "0x10000008" PTE_KERNEL, unfolded p] obtain r s' where
    "map_region alloc_page boot_pgd 0x40000FFF 0x10000008 2 PTE_KERNEL boot_pt = Some (r, s')" "kpt_inv boot_pgd s'"
    "r = 0 \<longrightarrow> (\<forall>k < 2. sv39_leaf s' boot_pgd (0x40000000 + of_nat (4096 * k))
       = Some (0, phys_to_pte (page_align (0x10000000 + of_nat (4096 * k))) (PTE_KERNEL OR PTE_V)))" by blast
  then show ?thesis using p(3) by (auto dest!: spec [of _ 1])
qed

text \<open>
  C10: \<open>pgtable_init\<close> succeeds and maps the first and the third gigabyte to themselves, as the
  hardware translates them, and nothing else; the tables it leaves are well-formed if
  the frames are and the root lies outside the pages of the allocator.
\<close>

theorem pgtable_init_correct:
  assumes "manages (frames s) M" "pgd \<notin> frame_pool (frames s)"
  shows "fst (pgtable_init pgd s) = 0 \<and> kpt_inv pgd (snd (pgtable_init pgd s))
    \<and> (\<forall>va. unat va < 2 ^ 39 \<longrightarrow>
          (if va < 0x40000000 \<or> 0x80000000 \<le> va \<and> va < 0xC0000000
           then \<exists>e. sv39_leaf (snd (pgtable_init pgd s)) pgd va = Some (2, e) \<and> sv39_pa 2 e va = va
           else sv39_leaf (snd (pgtable_init pgd s)) pgd va = None))"
proof (intro conjI allI impI)
  show "fst (pgtable_init pgd s) = 0" by (simp add: pgtable_init_def map_page_1g_def Let_def)
  show "kpt_inv pgd (snd (pgtable_init pgd s))"
    using assms boot_tree by (auto simp: kpt_inv_def pt_inv_def boot_frames)
next
  fix va :: u64
  assume va: "unat va < 2 ^ 39"
  have g: "pgd_index va = unat va div 2 ^ 30" using va by (simp add: index_nat flip: div_mult2_eq)
  have "va < 0x40000000 \<longleftrightarrow> pgd_index va = 0"
    "0x80000000 \<le> va \<and> va < 0xC0000000 \<longleftrightarrow> pgd_index va = 2"
    unfolding g word_less_nat_alt word_le_nat_alt by (auto simp: div_eq_0_iff)
  then show "if va < 0x40000000 \<or> 0x80000000 \<le> va \<and> va < 0xC0000000
      then \<exists>e. sv39_leaf (snd (pgtable_init pgd s)) pgd va = Some (2, e) \<and> sv39_pa 2 e va = va
      else sv39_leaf (snd (pgtable_init pgd s)) pgd va = None"
    using giga_identity [OF va, of 0 PTE_KERNEL] giga_identity [OF va, of KERNEL_BASE PTE_KERNEL_RWX]
    by (auto simp: boot_leaf kernel_flags KERNEL_BASE_def)
qed

theorem pgtable_init_correct_witness:
  "kpt_inv boot_pgd boot_pt \<and> (\<exists>e. sv39_leaf boot_pt boot_pgd 0x80001000 = Some (2, e)
      \<and> sv39_pa 2 e 0x80001000 = 0x80001000)"
proof -
  let ?s = "\<lparr>tables = (\<lambda>_ _. 0), frames = page_init bss_buddy, fences = [], kernel_satp = 0, csr_satp = 0\<rparr> :: buddy ptab"
  have "manages (frames ?s) {310..<31744}" "boot_pgd \<notin> frame_pool (frames ?s)"
    using page_init_ok(1) boot_pgd_outside by simp_all
  note p = pgtable_init_correct [OF this]
  have "unat (0x80001000 :: u64) < 2 ^ 39" by simp
  with p show ?thesis unfolding boot_pt_def [symmetric] by (auto dest!: spec [of _ "0x80001000"])
qed

text \<open>
  C11: \<open>lookup_pa\<close> ignores the offset inside a superpage: for an address in a gigapage it
  returns the base of the gigapage with the low 12 bits of the address, where the
  hardware keeps the low 30 bits.  Every kernel address is in a gigapage after
  \<open>pgtable_init\<close>, so the two agree on the first page of it only.
\<close>

theorem lookup_pa_superpage:
  assumes "kpt_inv pgd s" "sv39_leaf s pgd va = Some (2, e)" "pte_to_phys e AND mask 30 = 0"
  shows "lookup_pa alloc_page pgd va s = sv39_pa 2 e va \<longleftrightarrow> va AND mask 30 = va AND mask 12"
proof -
  have z: "\<not> bit (pte_to_phys e) n" if "n < 30" for n
  proof -
    have "\<not> bit (pte_to_phys e AND mask 30) n" using assms(3) by simp
    then show ?thesis using that by (simp add: bit_simps)
  qed
  have l: "lookup_pa alloc_page pgd va s = pte_to_phys e OR (va AND mask 12)"
    using buddy_frames.lookup_pa_leaf [OF assms(1) [unfolded kpt_inv_def]] assms(2) low_mask(1) by simp
  have h: "sv39_pa 2 e va = pte_to_phys e OR (va AND mask 30)"
    unfolding sv39_pa_def using z by (intro bit_word_eqI) (auto simp: bit_simps)
  show ?thesis
  proof
    assume eq: "lookup_pa alloc_page pgd va s = sv39_pa 2 e va"
    show "va AND mask 30 = va AND mask 12"
    proof (rule bit_word_eqI)
      fix n assume "n < LENGTH(64)"
      have "bit (pte_to_phys e OR (va AND mask 12)) n = bit (pte_to_phys e OR (va AND mask 30)) n"
        using eq unfolding l h by (rule arg_cong)
      then show "bit (va AND mask 30) n = bit (va AND mask 12) n" using z [of n] by (auto simp: bit_simps)
    qed
  qed (simp add: l h)
qed

theorem lookup_pa_superpage_witness:
  "lookup_pa alloc_page boot_pgd 0x80001000 boot_pt \<noteq> sv39_pa 2 (phys_to_pte KERNEL_BASE PTE_KERNEL_RWX) 0x80001000"
proof -
  have "pgd_index 0x80001000 = 2" by (simp add: pgd_index_def PGDIR_SHIFT_def)
  then have l: "sv39_leaf boot_pt boot_pgd 0x80001000 = Some (2, phys_to_pte KERNEL_BASE PTE_KERNEL_RWX)"
    by (simp add: boot_pt_def boot_leaf)
  have "pte_to_phys (phys_to_pte KERNEL_BASE PTE_KERNEL_RWX) = KERNEL_BASE"
    by (rule pte_phys_roundtrip) (simp_all add: KERNEL_BASE_def kernel_flags)
  then have "pte_to_phys (phys_to_pte KERNEL_BASE PTE_KERNEL_RWX) AND mask 30 = 0"
    by (simp add: KERNEL_BASE_def mask_eq_exp_minus_1)
  from lookup_pa_superpage [OF boot_pt_inv l this] show ?thesis by (simp add: mask_eq_exp_minus_1)
qed

text \<open>
  C12: mapping a single 4 KB page inside a gigapage reports success but overwrites the
  gigapage: with a leaf as the new entry, every address of that gigabyte is translated
  through it.
\<close>

theorem map_page_4k_overwrites_gigapage:
  assumes "sv39_leaf s pgd va = Some (2, e)" "pte_leaf (flags OR PTE_V)" "pgd_index va' = pgd_index va"
  shows "fst (map_page_4k alloc_page pgd va pa flags s) = 0
    \<and> sv39_leaf (snd (map_page_4k alloc_page pgd va pa flags s)) pgd va'
        = Some (2, phys_to_pte (page_align pa) (flags OR PTE_V))"
proof -
  note c = map_4k_clobbers [OF assms(1), of alloc_page pa flags]
  have "pte_leaf (phys_to_pte (page_align pa) (flags OR PTE_V))"
    using assms(2) by (auto simp: pte_leaf_iff phys_to_pte_def bit_simps)
  then show ?thesis using c assms(3) by (simp add: sv39_leaf_child child_def)
qed

theorem map_page_4k_overwrites_gigapage_witness:
  "sv39_leaf (snd (map_page_4k alloc_page boot_pgd 0x84000000 0x80800000 PTE_KERNEL boot_pt)) boot_pgd 0x80000000
     = Some (2, phys_to_pte 0x80800000 PTE_KERNEL)"
proof -
  have i: "pgd_index 0x84000000 = 2" "pgd_index 0x80000000 = 2" by (simp_all add: pgd_index_def PGDIR_SHIFT_def)
  then have l: "sv39_leaf boot_pt boot_pgd 0x84000000 = Some (2, phys_to_pte KERNEL_BASE PTE_KERNEL_RWX)"
    by (simp add: boot_pt_def boot_leaf)
  have f: "PTE_KERNEL OR PTE_V = PTE_KERNEL"
    by (simp add: PTE_KERNEL_def PTE_V_def PTE_R_def PTE_W_def PTE_A_def PTE_D_def)
  have "pte_leaf (PTE_KERNEL OR PTE_V)" unfolding f by (simp add: pte_leaf_def PTE_KERNEL_def PTE_V_def PTE_R_def
        PTE_W_def PTE_A_def PTE_D_def PTE_X_def)
  from map_page_4k_overwrites_gigapage [OF l this, of "0x80000000" "0x80800000"] show ?thesis
    unfolding f using i by (simp add: page_align_def)
qed

end
