(* ===== verification/VmallocProps.thy ===== *)
theory VmallocProps
  imports VmallocPages PageTableProps
begin

text \<open>
  The areas of \<^verbatim>\<open>vmalloc.c\<close> as a sorted list of disjoint ranges: the search for address space,
  insertion and removal, the operations on top of them, and what they do to the booted kernel.
\<close>

unbundle bit_operations_syntax

subsection \<open>The list of areas\<close>

definition alo :: "'s vmall \<Rightarrow> nat \<Rightarrow> nat" where "alo s i = unat (vm_addr (vm_areas s i))"
definition aend :: "'s vmall \<Rightarrow> nat \<Rightarrow> nat" where "aend s i = unat (vm_addr (vm_areas s i)) + unat (vm_size (vm_areas s i))"

definition area_ok :: "'s vmall \<Rightarrow> nat \<Rightarrow> bool" where
  "area_ok s i \<longleftrightarrow> unat VMALLOC_START \<le> alo s i \<and> aend s i \<le> unat VMALLOC_END \<and> alo s i < aend s i
     \<and> 4096 dvd alo s i \<and> unat (vm_size (vm_areas s i)) = (unat (vm_nr_pages (vm_areas s i)) + 1) * 4096"

text \<open>
  The areas \<open>xs\<close> are linked from \<open>vmlist\<close> in the order of their addresses and do not overlap;
  the structures in use are those and the ones in \<open>X\<close>, which are being set up.
\<close>

definition vm_rep :: "'s vmall \<Rightarrow> nat set \<Rightarrow> nat list \<Rightarrow> bool" where
  "vm_rep s X xs \<longleftrightarrow> chain (\<lambda>i. vm_next (vm_areas s i)) (vmlist s) xs
     \<and> sorted_wrt (\<lambda>i j. aend s i \<le> alo s j) xs \<and> (\<forall>i \<in> set xs. area_ok s i)
     \<and> set xs \<inter> X = {} \<and> set xs \<union> X = {i. i < MAX_VMALLOC_AREAS \<and> vm_in_use (vm_areas s i)}"

lemmas vm_consts = VMALLOC_START_def VMALLOC_END_def MAX_VMALLOC_AREAS_def

lemma vm_repD:
  assumes "vm_rep s X xs"
  shows "chain (\<lambda>i. vm_next (vm_areas s i)) (vmlist s) xs" "sorted_wrt (\<lambda>i j. aend s i \<le> alo s j) xs"
    "\<And>i. i \<in> set xs \<Longrightarrow> area_ok s i" "set xs \<inter> X = {}"
    "set xs \<union> X = {i. i < MAX_VMALLOC_AREAS \<and> vm_in_use (vm_areas s i)}" "distinct xs"
  using assms chain_distinct unfolding vm_rep_def by blast+

text \<open>Searching: the gaps between \<open>a\<close> and the end of the region, below and between the areas \<open>xs\<close>.\<close>

definition overlaps :: "'s vmall \<Rightarrow> nat \<Rightarrow> nat \<Rightarrow> nat \<Rightarrow> bool" where
  "overlaps s i b n \<longleftrightarrow> alo s i < b + n \<and> b < aend s i"

lemma find_area_loop_ok:
  assumes "chain (\<lambda>i. vm_next (vm_areas s i)) h xs" "sorted_wrt (\<lambda>i j. aend s i \<le> alo s j) xs"
    "\<And>i. i \<in> set xs \<Longrightarrow> area_ok s i \<and> unat a \<le> alo s i" "unat VMALLOC_START \<le> unat a" "unat a \<le> unat VMALLOC_END"
    "0 < unat sz" "unat sz < 2 ^ 63" "4096 dvd unat a"
  shows "\<exists>r. find_area_loop h a sz s = Some r
    \<and> (if r = 0 then \<forall>b. unat a \<le> b \<and> b + unat sz \<le> unat VMALLOC_END \<longrightarrow> (\<exists>i \<in> set xs. overlaps s i b (unat sz))
       else unat a \<le> unat r \<and> unat r + unat sz \<le> unat VMALLOC_END \<and> 4096 dvd unat r
         \<and> (\<forall>i \<in> set xs. \<not> overlaps s i (unat r) (unat sz)))"
  using assms
proof (induction xs arbitrary: h a)
  case Nil
  have u: "unat (a + sz) = unat a + unat sz"
    using unat_add_small [of a "unat sz"] Nil.prems(5,7) by (simp add: VMALLOC_END_def)
  have "a \<noteq> 0" using Nil.prems(4) by (auto simp: VMALLOC_START_def)
  then show ?case using Nil.prems by (auto simp: find_area_loop.simps word_le_nat_alt u)
next
  case (Cons i xs)
  let ?n = "vm_next (vm_areas s i)" and ?a = "vm_addr (vm_areas s i) + vm_size (vm_areas s i)"
  have h: "h = Some i" and c: "chain (\<lambda>i. vm_next (vm_areas s i)) ?n xs" using Cons.prems(1) by simp_all
  have u: "unat (a + sz) = unat a + unat sz"
    using unat_add_small [of a "unat sz"] Cons.prems(5,7) by (simp add: VMALLOC_END_def)
  have ok: "area_ok s i" "unat a \<le> alo s i" using Cons.prems(3) by auto
  have later: "aend s i \<le> alo s j" if "j \<in> set xs" for j using Cons.prems(2) that by simp
  show ?case
  proof (cases "unat a + unat sz \<le> alo s i")
    case True
    have "a \<noteq> 0" using Cons.prems(4) by (auto simp: VMALLOC_START_def)
    moreover have "find_area_loop h a sz s = Some a"
      using True by (subst find_area_loop.simps) (simp add: h word_le_nat_alt u alo_def)
    moreover have "\<not> overlaps s j (unat a) (unat sz)" if "j \<in> set (i # xs)" for j
    proof (cases "j = i")
      case False
      then have "aend s i \<le> alo s j" using later that by simp
      then show ?thesis using True ok(1) by (simp add: overlaps_def area_ok_def)
    qed (use True in \<open>simp add: overlaps_def\<close>)
    ultimately show ?thesis using True ok Cons.prems(5,8) by (auto simp: area_ok_def)
  next
    case False
    have e: "find_area_loop h a sz s = find_area_loop ?n ?a sz s"
      using False by (subst find_area_loop.simps) (simp add: h word_le_nat_alt u alo_def)
    have ua: "unat ?a = aend s i"
      using unat_add_small [of "vm_addr (vm_areas s i)" "unat (vm_size (vm_areas s i))"] ok(1)
      by (simp add: area_ok_def aend_def alo_def VMALLOC_END_def)
    have "4096 dvd aend s i" using ok(1) unfolding area_ok_def aend_def alo_def by (metis dvd_add dvd_triv_right)
    moreover have "unat VMALLOC_START \<le> aend s i" "aend s i \<le> unat VMALLOC_END" using ok(1) by (simp_all add: area_ok_def)
    ultimately have "\<exists>r. find_area_loop ?n ?a sz s = Some r
      \<and> (if r = 0 then \<forall>b. unat ?a \<le> b \<and> b + unat sz \<le> unat VMALLOC_END \<longrightarrow> (\<exists>i \<in> set xs. overlaps s i b (unat sz))
       else unat ?a \<le> unat r \<and> unat r + unat sz \<le> unat VMALLOC_END \<and> 4096 dvd unat r
         \<and> (\<forall>i \<in> set xs. \<not> overlaps s i (unat r) (unat sz)))"
      using Cons.prems later by (intro Cons.IH [OF c]) (simp_all add: ua)
    then obtain r where r: "find_area_loop ?n ?a sz s = Some r"
      "if r = 0 then \<forall>b. unat ?a \<le> b \<and> b + unat sz \<le> unat VMALLOC_END \<longrightarrow> (\<exists>i \<in> set xs. overlaps s i b (unat sz))
       else unat ?a \<le> unat r \<and> unat r + unat sz \<le> unat VMALLOC_END \<and> 4096 dvd unat r
         \<and> (\<forall>i \<in> set xs. \<not> overlaps s i (unat r) (unat sz))"
      by blast
    show ?thesis
    proof (cases "r = 0")
      case True
      have "\<exists>j \<in> set (i # xs). overlaps s j b (unat sz)" if b: "unat a \<le> b" "b + unat sz \<le> unat VMALLOC_END" for b
      proof (cases "aend s i \<le> b")
        case True
        then show ?thesis using r(2) b \<open>r = 0\<close> unfolding ua by auto
      next
        case lt: False
        then have "overlaps s i b (unat sz)" using False b(1) by (simp add: overlaps_def)
        then show ?thesis by simp
      qed
      then show ?thesis using e r(1) True by auto
    next
      case rz: False
      then have "\<not> overlaps s i (unat r) (unat sz)" using r(2) unfolding ua by (simp add: overlaps_def)
      moreover have "unat a \<le> unat r" using r(2) rz ok unfolding ua by (simp add: area_ok_def)
      ultimately show ?thesis using e r rz by auto
    qed
  qed
qed

lemma upd_vm_simps [simp]:
  "vm_areas (upd_vm i f s) j = (if j = i then f (vm_areas s i) else vm_areas s j)" "vmlist (upd_vm i f s) = vmlist s"
  "vpt (upd_vm i f s) = vpt s" "vmalloc_initialized (upd_vm i f s) = vmalloc_initialized s"
  by (simp_all add: upd_vm_def)

text \<open>Nothing but the links changes.\<close>

definition same_areas :: "'s vmall \<Rightarrow> 's vmall \<Rightarrow> bool" where
  "same_areas s s' \<longleftrightarrow> vpt s' = vpt s \<and> vmalloc_initialized s' = vmalloc_initialized s
     \<and> (\<forall>i. vm_addr (vm_areas s' i) = vm_addr (vm_areas s i) \<and> vm_size (vm_areas s' i) = vm_size (vm_areas s i)
        \<and> vm_flags (vm_areas s' i) = vm_flags (vm_areas s i) \<and> vm_nr_pages (vm_areas s' i) = vm_nr_pages (vm_areas s i)
        \<and> vm_in_use (vm_areas s' i) = vm_in_use (vm_areas s i))"

lemma same_areasD:
  assumes "same_areas s s'"
  shows "alo s' = alo s" "aend s' = aend s" "area_ok s' = area_ok s"
    "{i. i < MAX_VMALLOC_AREAS \<and> vm_in_use (vm_areas s' i)} = {i. i < MAX_VMALLOC_AREAS \<and> vm_in_use (vm_areas s i)}"
  using assms by (auto simp: same_areas_def alo_def aend_def area_ok_def fun_eq_iff)

lemma assign_same: "same_areas s (assign pp v (upd_vm i (\<lambda>x. x\<lparr>vm_next := n\<rparr>) s))" "same_areas s (assign pp v s)"
  by (auto simp: same_areas_def assign_def split: option.split)

lemma insert_loop_ok:
  assumes "chain (\<lambda>i. vm_next (vm_areas s i)) (deref pp s) xs"
    and ys: "ys = takeWhile (\<lambda>q. vm_addr (vm_areas s q) < vm_addr (vm_areas s v)) xs"
  shows "insert_loop v pp s = Some (if ys = [] then pp else Some (last ys))"
  using assms(1) unfolding ys
proof (induction xs arbitrary: pp)
  case Nil
  then show ?case by (subst insert_loop.simps) simp
next
  case (Cons q xs)
  have d: "deref pp s = Some q" "chain (\<lambda>i. vm_next (vm_areas s i)) (deref (Some q) s) xs"
    using Cons.prems by (simp_all add: deref_def)
  note ih = Cons.IH [OF d(2)]
  show ?case
  proof (cases "vm_addr (vm_areas s q) < vm_addr (vm_areas s v)")
    case True
    then have "insert_loop v pp s = insert_loop v (Some q) s" by (subst insert_loop.simps) (simp add: d(1))
    then show ?thesis using ih True by simp
  next
    case False
    then show ?thesis by (subst insert_loop.simps) (simp add: d(1))
  qed
qed

lemma deref_last:
  assumes "chain (\<lambda>i. vm_next (vm_areas s i)) (vmlist s) (ys @ zs)"
  shows "deref (if ys = [] then None else Some (last ys)) s = (case zs of [] \<Rightarrow> None | z # _ \<Rightarrow> Some z)"
proof (cases "ys = []")
  case True
  then show ?thesis using chain_head assms by (fastforce simp: deref_def)
next
  case False
  then have "chain (\<lambda>i. vm_next (vm_areas s i)) (vmlist s) (butlast ys @ last ys # zs)"
    using assms by (metis append_butlast_last_id append.assoc append_Cons append_Nil)
  from chain_head [OF chain_append [OF this]] show ?thesis using False by (simp add: deref_def)
qed

lemma insert_vm_ok:
  assumes r: "vm_rep s {v} xs" and ok: "area_ok s v"
    and free: "\<And>i. i \<in> set xs \<Longrightarrow> \<not> overlaps s i (alo s v) (aend s v - alo s v)"
  defines "P \<equiv> \<lambda>q. vm_addr (vm_areas s q) < vm_addr (vm_areas s v)"
  shows "\<exists>s'. insert_vm_struct v s = Some s' \<and> same_areas s s' \<and> vm_rep s' {} (takeWhile P xs @ v # dropWhile P xs)"
proof -
  note d = vm_repD [OF r]
  let ?ys = "takeWhile P xs" and ?zs = "dropWhile P xs"
  let ?pp = "if ?ys = [] then None else Some (last ?ys)"
  let ?t = "upd_vm v (\<lambda>x. x\<lparr>vm_next := deref ?pp s\<rparr>) s"
  let ?s' = "assign ?pp (Some v) ?t"
  have c: "chain (\<lambda>i. vm_next (vm_areas s i)) (vmlist s) (?ys @ ?zs)" using d(1) by simp
  have "insert_loop v None s = Some ?pp" using insert_loop_ok [of s None xs ?ys v] d(1) by (simp add: deref_def P_def)
  then have e: "insert_vm_struct v s = Some ?s'" by (simp add: insert_vm_struct_def)
  have sa: "same_areas s ?s'" by (rule assign_same)
  have v: "v \<notin> set xs" using d(4) by simp
  have "distinct (?ys @ ?zs)" using d(6) by simp
  then have dis: "distinct ?ys" "set ?ys \<inter> set ?zs = {}" unfolding distinct_append by blast+
  have c': "chain (\<lambda>i. vm_next (vm_areas ?s' i)) (vmlist ?s') (?ys @ v # ?zs)"
  proof (rule chain_insert [OF c])
    show "distinct ?ys" "set ?ys \<inter> set ?zs = {}" by (rule dis)+
    show vn: "v \<notin> set ?ys" "v \<notin> set ?zs" using v by (auto dest: set_takeWhileD set_dropWhileD)
    show "vm_next (vm_areas ?s' y) = vm_next (vm_areas s y)" if "y \<in> set ?zs" for y
    proof -
      have "y \<noteq> last ?ys" if "?ys \<noteq> []" using \<open>y \<in> set ?zs\<close> dis(2) last_in_set [OF that] by blast
      then show ?thesis using that vn(2) by (auto simp: assign_def)
    qed
    show "vm_next (vm_areas ?s' y) = vm_next (vm_areas s y)" if y: "y \<in> set (butlast ?ys)" for y
    proof -
      have "y \<noteq> v" using vn(1) in_set_butlastD [OF y] by auto
      moreover have "y \<noteq> last ?ys" if "?ys \<noteq> []"
      proof -
        have "distinct (butlast ?ys @ [last ?ys])" using dis(1) that by simp
        then show ?thesis using y by auto
      qed
      ultimately show ?thesis by (auto simp: assign_def)
    qed
    have ne: "last ?ys \<noteq> v" if "?ys \<noteq> []" using vn(1) last_in_set [OF that] by metis
    show "vm_next (vm_areas ?s' v) = (case ?zs of [] \<Rightarrow> None | z # _ \<Rightarrow> Some z)"
      using deref_last [OF c] ne by (auto simp: assign_def)
    show "vm_next (vm_areas ?s' (last ?ys)) = Some v" if "?ys \<noteq> []" using that by (simp add: assign_def)
    show "vmlist ?s' = (if ?ys = [] then Some v else vmlist s)" by (simp add: assign_def)
  qed
  have srt: "sorted_wrt (\<lambda>i j. aend s i \<le> alo s j) (?ys @ v # ?zs)"
  proof -
    have "sorted_wrt (\<lambda>i j. aend s i \<le> alo s j) (?ys @ ?zs)" using d(2) by simp
    then have sw: "sorted_wrt (\<lambda>i j. aend s i \<le> alo s j) ?ys" "sorted_wrt (\<lambda>i j. aend s i \<le> alo s j) ?zs"
      "\<And>x y. x \<in> set ?ys \<Longrightarrow> y \<in> set ?zs \<Longrightarrow> aend s x \<le> alo s y" unfolding sorted_wrt_append by blast+
    have lo: "aend s i \<le> alo s v" if "i \<in> set ?ys" for i
    proof -
      have "P i" "i \<in> set xs" using that by (auto dest: set_takeWhileD)
      then show ?thesis using free [of i] ok d(3) [of i] by (auto simp: overlaps_def P_def area_ok_def alo_def word_less_nat_alt)
    qed
    have hi: "aend s v \<le> alo s i" if i: "i \<in> set ?zs" for i
    proof -
      have ix: "i \<in> set xs" using i by (rule set_dropWhileD)
      obtain z zs where z: "?zs = z # zs" using i by (cases ?zs) auto
      have "z \<in> set xs" using z set_dropWhileD [of z P xs] by simp
      have "\<not> P z" using z by (metis hd_dropWhile list.discI list.sel(1))
      then have "alo s v \<le> alo s z" by (simp add: P_def alo_def word_less_nat_alt)
      moreover have "alo s z \<le> alo s i"
      proof (cases "i = z")
        case False
        then have "aend s z \<le> alo s i" using i sw(2) unfolding z by simp
        then show ?thesis using d(3) [OF \<open>z \<in> set xs\<close>] by (simp add: area_ok_def)
      qed simp
      ultimately show ?thesis using free [OF ix] d(3) [OF ix] by (auto simp: overlaps_def area_ok_def)
    qed
    show ?thesis unfolding sorted_wrt_append sorted_wrt.simps using sw lo hi by auto
  qed
  have st: "set (?ys @ v # ?zs) = set xs \<union> {v}"
  proof -
    have "set (?ys @ ?zs) = set xs" by (simp only: takeWhile_dropWhile_id)
    then show ?thesis unfolding set_append by auto
  qed
  have "\<forall>i \<in> set xs \<union> {v}. area_ok s i" using d(3) ok by blast
  moreover have "set xs \<union> {v} \<union> {} = {i. i < MAX_VMALLOC_AREAS \<and> vm_in_use (vm_areas s i)}" using d(5) by (simp only: Un_empty_right)
  ultimately have "vm_rep ?s' {} (?ys @ v # ?zs)"
    unfolding vm_rep_def same_areasD [OF sa] st by (intro conjI c' srt) (assumption | rule Int_empty_right)+
  with e sa show ?thesis by blast
qed

lemma remove_loop_ok:
  assumes "chain (\<lambda>i. vm_next (vm_areas s i)) (deref pp s) (ys @ v # zs)" "v \<notin> set ys"
  shows "remove_loop v pp s = Some (if ys = [] then pp else Some (last ys))"
  using assms
proof (induction ys arbitrary: pp)
  case Nil
  then show ?case by (subst remove_loop.simps) simp
next
  case (Cons q ys)
  then have "remove_loop v pp s = remove_loop v (Some q) s" by (subst remove_loop.simps) auto
  then show ?case using Cons by (simp add: deref_def)
qed

lemma remove_vm_ok:
  assumes r: "vm_rep s {} (ys @ v # zs)"
  shows "\<exists>s'. remove_vm_struct v s = Some s' \<and> same_areas s s' \<and> vm_rep s' {v} (ys @ zs)"
proof -
  note d = vm_repD [OF r]
  let ?pp = "if ys = [] then None else Some (last ys)"
  let ?s' = "assign ?pp (vm_next (vm_areas s v)) s"
  have "remove_loop v None s = Some ?pp" using remove_loop_ok [of s None ys v zs] d(1,6) by (simp add: deref_def)
  moreover have "deref ?pp s = Some v" using deref_last [OF d(1)] by simp
  ultimately have e: "remove_vm_struct v s = Some ?s'" by (simp add: remove_vm_struct_def)
  have sa: "same_areas s ?s'" by (rule assign_same)
  have "chain (\<lambda>i. vm_next (vm_areas ?s' i)) (vmlist ?s') (ys @ zs)"
  proof (rule chain_remove [OF d(1)])
    show "vm_next (vm_areas ?s' y) = vm_next (vm_areas s y)" if "y \<in> set zs" for y
    proof -
      have "y \<noteq> last ys" if "ys \<noteq> []" using \<open>y \<in> set zs\<close> d(6) last_in_set [OF that] by auto
      then show ?thesis by (auto simp: assign_def)
    qed
    show "vm_next (vm_areas ?s' y) = vm_next (vm_areas s y)" if y: "y \<in> set (butlast ys)" for y
    proof -
      have "y \<noteq> last ys" if "ys \<noteq> []"
      proof -
        have "distinct (butlast ys @ [last ys])" using d(6) that by simp
        then show ?thesis using y by auto
      qed
      then show ?thesis by (auto simp: assign_def)
    qed
    show "vm_next (vm_areas ?s' (last ys)) = vm_next (vm_areas s v)" if "ys \<noteq> []" using that by (simp add: assign_def)
    show "vmlist ?s' = (if ys = [] then vm_next (vm_areas s v) else vmlist s)" by (simp add: assign_def)
  qed
  moreover have "sorted_wrt (\<lambda>i j. aend s i \<le> alo s j) (ys @ zs)" using d(2) by (simp add: sorted_wrt_append)
  ultimately have "vm_rep ?s' {v} (ys @ zs)"
    unfolding vm_rep_def same_areasD [OF sa] using d(3,5,6) by auto
  with e sa show ?thesis by blast
qed

lemma vm_rep_cong:
  assumes r: "vm_rep s X xs" and l: "vmlist s' = vmlist s" and i: "\<And>i. i \<in> set xs \<Longrightarrow> vm_areas s' i = vm_areas s i"
    and u: "set xs \<inter> Y = {}" "set xs \<union> Y = {i. i < MAX_VMALLOC_AREAS \<and> vm_in_use (vm_areas s' i)}"
  shows "vm_rep s' Y xs"
proof -
  note d = vm_repD [OF r]
  have e: "alo s' i = alo s i" "aend s' i = aend s i" "area_ok s' i = area_ok s i" if "i \<in> set xs" for i
    using i [OF that] by (simp_all add: alo_def aend_def area_ok_def)
  have "chain (\<lambda>i. vm_next (vm_areas s' i)) (vmlist s') xs = chain (\<lambda>i. vm_next (vm_areas s i)) (vmlist s) xs"
    unfolding l by (rule chain_cong) (simp add: i)
  moreover have "sorted_wrt (\<lambda>i j. aend s' i \<le> alo s' j) xs"
    by (rule sorted_wrt_mono_rel [OF _ d(2)]) (simp add: e)
  ultimately show ?thesis unfolding vm_rep_def using d(1,3) u e by simp
qed

lemma free_vm_ok:
  assumes r: "vm_rep s {v} xs"
  shows "vm_rep (free_vm_struct v s) {} xs"
proof (rule vm_rep_cong [OF r])
  note d = vm_repD [OF r]
  show "vm_areas (free_vm_struct v s) i = vm_areas s i" if "i \<in> set xs" for i
    using that d(4) by (auto simp: free_vm_struct_def)
  show "set xs \<union> {} = {i. i < MAX_VMALLOC_AREAS \<and> vm_in_use (vm_areas (free_vm_struct v s) i)}"
    using d(4,5) by (auto simp: free_vm_struct_def)
qed (simp_all add: free_vm_struct_def)

lemma alloc_vm_loop_cases:
  "(alloc_vm_loop i n s = (None, s) \<and> (\<forall>j. i \<le> j \<and> j < i + n \<longrightarrow> vm_in_use (vm_areas s j)))
   \<or> (\<exists>v. alloc_vm_loop i n s = (Some v, upd_vm v (\<lambda>vm. vm\<lparr>vm_in_use := True\<rparr>) s) \<and> i \<le> v \<and> v < i + n
          \<and> \<not> vm_in_use (vm_areas s v))"
proof (induction n arbitrary: i)
  case (Suc n)
  show ?case
  proof (cases "vm_in_use (vm_areas s i)")
    case True
    then have e: "alloc_vm_loop i (Suc n) s = alloc_vm_loop (Suc i) n s" by simp
    from Suc [of "Suc i"] show ?thesis unfolding e using True by (metis Suc_leD Suc_leI add_Suc_shift le_neq_implies_less)
  qed auto
qed auto

lemma alloc_vm_ok:
  assumes r: "vm_rep s {} xs" and a: "alloc_vm_struct s = (w, s1)"
  shows "case w of
      None \<Rightarrow> s1 = s \<and> set xs = {..<MAX_VMALLOC_AREAS}
    | Some v \<Rightarrow> vm_rep s1 {v} xs \<and> s1 = upd_vm v (\<lambda>vm. vm\<lparr>vm_in_use := True\<rparr>) s \<and> v \<notin> set xs"
proof -
  note d = vm_repD [OF r]
  from alloc_vm_loop_cases [of 0 MAX_VMALLOC_AREAS s] a consider
    "w = None" "s1 = s" "\<forall>j < MAX_VMALLOC_AREAS. vm_in_use (vm_areas s j)"
  | v where "w = Some v" "s1 = upd_vm v (\<lambda>vm. vm\<lparr>vm_in_use := True\<rparr>) s" "v < MAX_VMALLOC_AREAS" "\<not> vm_in_use (vm_areas s v)"
    by (auto simp: alloc_vm_struct_def)
  then show ?thesis
  proof cases
    case 1
    then show ?thesis using d(5) by auto
  next
    case 2
    have v: "v \<notin> set xs" using 2(4) d(5) by auto
    have "vm_rep s1 {v} xs"
      by (rule vm_rep_cong [OF r]) (use 2 v d(5) in auto)
    then show ?thesis using 2 v by simp
  qed
qed

subsection \<open>Areas as a sorted list\<close>

text \<open>
  What the rest of the kernel sees of an area: its address, its number of pages and its
  kind.  \<open>vm_inv s as\<close> says that \<open>as\<close> are the areas, in the order of their addresses.
\<close>

definition area_of :: "'s vmall \<Rightarrow> nat \<Rightarrow> u64 \<times> u64 \<times> u64" where
  "area_of s i = (vm_addr (vm_areas s i), vm_nr_pages (vm_areas s i), vm_flags (vm_areas s i))"

definition vm_inv :: "'s vmall \<Rightarrow> (u64 \<times> u64 \<times> u64) list \<Rightarrow> bool" where
  "vm_inv s as \<longleftrightarrow> (\<exists>xs. vm_rep s {} xs \<and> as = map (area_of s) xs)"

text \<open>The bytes an area keeps to itself, the guard page included.\<close>

definition area_bytes :: "u64 \<times> u64 \<times> u64 \<Rightarrow> nat set" where
  "area_bytes a = {unat (fst a) ..< unat (fst a) + (unat (fst (snd a)) + 1) * 4096}"

lemma same_area_of: "same_areas s s' \<Longrightarrow> area_of s' = area_of s"
  by (simp add: same_areas_def area_of_def fun_eq_iff)

lemma area_bytes_of: "area_ok s i \<Longrightarrow> area_bytes (area_of s i) = {alo s i ..< aend s i}"
  by (simp add: area_bytes_def area_of_def area_ok_def alo_def aend_def)

definition vm_room :: "u64 \<Rightarrow> nat" where
  "vm_room sz = (unat sz + 8191) div 4096 * 4096"

lemma find_vmalloc_ok:
  assumes r: "vm_rep s X xs" and z: "unat sz < 2 ^ 62"
  shows "\<exists>r. find_vmalloc_area sz s = Some r
    \<and> (if r = 0 then \<forall>b. unat VMALLOC_START \<le> b \<and> b + vm_room sz \<le> unat VMALLOC_END \<longrightarrow> (\<exists>i \<in> set xs. overlaps s i b (vm_room sz))
       else unat VMALLOC_START \<le> unat r \<and> unat r + vm_room sz \<le> unat VMALLOC_END \<and> 4096 dvd unat r
         \<and> (\<forall>i \<in> set xs. \<not> overlaps s i (unat r) (vm_room sz)))"
proof -
  note d = vm_repD [OF r]
  let ?t = "page_align (sz + PAGE_SIZE + PAGE_SIZE - 1)"
  have e: "sz + PAGE_SIZE + PAGE_SIZE - 1 = sz + of_nat 8191" by simp
  have u: "unat (sz + of_nat 8191) = unat sz + 8191" using z by (intro unat_add_small) simp
  have t: "unat ?t = vm_room sz" unfolding e unat_page_align u vm_room_def by (rule minus_mod_eq_div_mult)
  have "0 < unat ?t" "unat ?t < 2 ^ 63" using z unfolding t vm_room_def by (simp_all add: div_greater_zero_iff)
  then have "\<exists>r. find_area_loop (vmlist s) VMALLOC_START ?t s = Some r
    \<and> (if r = 0 then \<forall>b. unat VMALLOC_START \<le> b \<and> b + unat ?t \<le> unat VMALLOC_END \<longrightarrow> (\<exists>i \<in> set xs. overlaps s i b (unat ?t))
       else unat VMALLOC_START \<le> unat r \<and> unat r + unat ?t \<le> unat VMALLOC_END \<and> 4096 dvd unat r
         \<and> (\<forall>i \<in> set xs. \<not> overlaps s i (unat r) (unat ?t)))"
    using d(3) by (intro find_area_loop_ok [OF d(1,2)]) (auto simp: area_ok_def vm_consts)
  then show ?thesis unfolding t by (simp add: find_vmalloc_area_def Let_def add.assoc)
qed

lemma insort_takeWhile:
  "insort_key f x xs = takeWhile (\<lambda>y. f y < f x) xs @ x # dropWhile (\<lambda>y. f y < f x) xs"
  by (induction xs) auto

text \<open>A new area: the structure \<open>v\<close>, filled in for \<open>n\<close> pages at the address that was found, is inserted.\<close>

lemma new_area_ok:
  assumes r: "vm_rep s1 {v} xs" and a: "find_vmalloc_area sz s1 = Some addr" "addr \<noteq> 0" and z: "unat sz < 2 ^ 62"
    and n: "(unat n + 1) * 4096 = vm_room sz"
    and s3: "s3 = (upd_vm v (\<lambda>x. x\<lparr>vm_addr := addr, vm_size := (n + 1) * PAGE_SIZE, vm_flags := fl,
               vm_nr_pages := n, vm_pages := pgs\<rparr>) s1)\<lparr>vpt := t\<rparr>"
  shows "\<exists>s'. insert_vm_struct v s3 = Some s' \<and> vm_inv s' (insort_key fst (addr, n, fl) (map (area_of s1) xs))
    \<and> vmalloc_initialized s' = vmalloc_initialized s1"
    and "\<And>b. b \<in> set (map (area_of s1) xs) \<Longrightarrow> area_bytes (addr, n, fl) \<inter> area_bytes b = {}"
    and "area_bytes (addr, n, fl) \<subseteq> {unat VMALLOC_START ..< unat VMALLOC_END}"
proof -
  note d = vm_repD [OF r]
  have v: "v \<notin> set xs" using d(4) by simp
  have f: "unat VMALLOC_START \<le> unat addr" "unat addr + vm_room sz \<le> unat VMALLOC_END" "4096 dvd unat addr"
    "\<And>i. i \<in> set xs \<Longrightarrow> \<not> overlaps s1 i (unat addr) (vm_room sz)"
    using find_vmalloc_ok [OF r z] a by auto
  have ai: "vm_areas s3 i = vm_areas s1 i" if "i \<in> set xs" for i using v that by (auto simp: s3)
  have r3: "vm_rep s3 {v} xs"
    by (rule vm_rep_cong [OF r _ ai]) (use d(4,5) in \<open>auto simp: s3\<close>)
  have room: "vm_room sz < 2 ^ 63" using f(2) by (simp add: VMALLOC_END_def)
  have us: "unat ((n + 1) * PAGE_SIZE) = vm_room sz"
  proof -
    have "unat n + 1 < 2 ^ 64" using n room by simp
    then have "unat (n + 1) = unat n + 1" using unat_add_small [of n 1] by simp
    moreover have "unat (n + 1) * unat PAGE_SIZE < 2 ^ LENGTH(64)" using n room calculation by simp
    then have "unat ((n + 1) * PAGE_SIZE) = unat (n + 1) * unat PAGE_SIZE" by (simp only: unat_mult_lem [THEN iffD1])
    ultimately show ?thesis using n by simp
  qed
  have lo: "alo s3 v = unat addr" "aend s3 v = unat addr + vm_room sz" "area_of s3 v = (addr, n, fl)"
    using us by (simp_all add: alo_def aend_def area_of_def s3)
  have "0 < vm_room sz" unfolding n [symmetric] by simp
  then have ok: "area_ok s3 v" unfolding area_ok_def lo using f n us by (simp add: s3)
  have ov: "overlaps s3 i = overlaps s1 i" "area_ok s3 i = area_ok s1 i" "area_of s3 i = area_of s1 i" "alo s3 i = alo s1 i"
    if "i \<in> set xs" for i
    using ai [OF that] by (simp_all add: overlaps_def alo_def aend_def area_ok_def area_of_def fun_eq_iff)
  have fr: "\<not> overlaps s3 i (alo s3 v) (aend s3 v - alo s3 v)" if "i \<in> set xs" for i
    using f(4) [OF that] ov(1) [OF that] lo by simp
  from insert_vm_ok [OF r3 ok fr] obtain s' where s': "insert_vm_struct v s3 = Some s'" "same_areas s3 s'"
    "vm_rep s' {} (takeWhile (\<lambda>q. vm_addr (vm_areas s3 q) < vm_addr (vm_areas s3 v)) xs @ v #
       dropWhile (\<lambda>q. vm_addr (vm_areas s3 q) < vm_addr (vm_areas s3 v)) xs)" by blast
  have m: "map (area_of s3) xs = map (area_of s1) xs" using ov(3) by simp
  have "map (area_of s3) (takeWhile (\<lambda>q. vm_addr (vm_areas s3 q) < vm_addr (vm_areas s3 v)) xs @ v #
       dropWhile (\<lambda>q. vm_addr (vm_areas s3 q) < vm_addr (vm_areas s3 v)) xs) = insort_key fst (area_of s3 v) (map (area_of s3) xs)"
    unfolding insort_takeWhile by (simp add: takeWhile_map dropWhile_map comp_def area_of_def)
  then show "\<exists>s'. insert_vm_struct v s3 = Some s' \<and> vm_inv s' (insort_key fst (addr, n, fl) (map (area_of s1) xs))
    \<and> vmalloc_initialized s' = vmalloc_initialized s1"
    using s' same_area_of [OF s'(2)] unfolding vm_inv_def lo(3) m by (auto simp: same_areas_def s3)
  have bv: "area_bytes (addr, n, fl) = {unat addr ..< unat addr + vm_room sz}"
    using n by (simp add: area_bytes_def)
  show "area_bytes (addr, n, fl) \<subseteq> {unat VMALLOC_START ..< unat VMALLOC_END}" unfolding bv using f by auto
  show "area_bytes (addr, n, fl) \<inter> area_bytes b = {}" if "b \<in> set (map (area_of s1) xs)" for b
  proof -
    from that obtain i where i: "i \<in> set xs" "b = area_of s1 i" by auto
    have "\<not> overlaps s1 i (unat addr) (vm_room sz)" "area_bytes b = {alo s1 i ..< aend s1 i}"
      using f(4) i(1) area_bytes_of [OF d(3) [OF i(1)]] unfolding i(2) by blast+
    then show ?thesis unfolding bv by (auto simp: overlaps_def)
  qed
qed

lemma find_vm_loop_ok:
  assumes "chain (\<lambda>i. vm_next (vm_areas s i)) h xs"
  shows "find_vm_loop h addr s = Some (find (\<lambda>i. vm_addr (vm_areas s i) = addr) xs)"
  using assms
proof (induction xs arbitrary: h)
  case Nil
  then show ?case by (subst find_vm_loop.simps) simp
next
  case (Cons i xs)
  then show ?case by (subst find_vm_loop.simps) simp
qed

lemma sorted_area_addr:
  assumes "vm_rep s X xs" "i \<in> set xs" "j \<in> set xs" "vm_addr (vm_areas s i) = vm_addr (vm_areas s j)"
  shows "i = j"
proof (rule ccontr)
  assume "i \<noteq> j"
  then obtain a b where ab: "a < length xs" "b < length xs" "xs ! a = i" "xs ! b = j" "a \<noteq> b"
    using assms(2,3) by (metis in_set_conv_nth)
  note d = vm_repD [OF assms(1)]
  have "aend s i \<le> alo s j \<or> aend s j \<le> alo s i"
    using sorted_wrt_nth_less [OF d(2)] ab by (metis linorder_neqE_nat)
  moreover have "alo s i < aend s i" "alo s j < aend s j" using d(3) assms(2,3) by (auto simp: area_ok_def)
  ultimately show False using assms(4) by (simp add: alo_def)
qed

lemma release_ok:
  assumes r: "vm_rep s {} xs" and i: "i \<in> set xs"
    and u: "unmap_pages alloc kpgd (vm_addr (vm_areas s i)) 0 (unat (vm_nr_pages (vm_areas s i))) (vpt s) = Some t"
  shows "\<exists>s'. release_area alloc kpgd i s = Some s' \<and> vpt s' = t
    \<and> vm_inv s' (filter (\<lambda>a. fst a \<noteq> vm_addr (vm_areas s i)) (map (area_of s) xs))
    \<and> vmalloc_initialized s' = vmalloc_initialized s"
proof -
  from i obtain ys zs where xs: "xs = ys @ i # zs" by (auto dest: split_list)
  let ?s = "s\<lparr>vpt := t\<rparr>"
  have "vm_rep ?s {} (ys @ i # zs)" by (rule vm_rep_cong [OF r [unfolded xs]]) (use vm_repD(5) [OF r] xs in auto)
  from remove_vm_ok [OF this] obtain s1 where s1: "remove_vm_struct i ?s = Some s1" "same_areas ?s s1" "vm_rep s1 {i} (ys @ zs)"
    by blast
  note d1 = vm_repD [OF s1(3)]
  let ?s' = "free_vm_struct i s1"
  have ni: "i \<notin> set (ys @ zs)" using d1(4) by simp
  have m: "map (area_of ?s') (ys @ zs) = map (area_of s) (ys @ zs)"
  proof (rule map_cong [OF refl])
    fix x assume "x \<in> set (ys @ zs)"
    then have "x \<noteq> i" using ni by auto
    then show "area_of ?s' x = area_of s x" using s1(2) by (simp add: area_of_def free_vm_struct_def same_areas_def)
  qed
  have "filter (\<lambda>a. fst a \<noteq> vm_addr (vm_areas s i)) (map (area_of s) xs) = map (area_of s) (ys @ zs)"
  proof -
    have "vm_addr (vm_areas s x) \<noteq> vm_addr (vm_areas s i)" if "x \<in> set (ys @ zs)" for x
      using sorted_area_addr [OF r, of x i] that ni i xs by auto
    then have "filter (\<lambda>a. fst a \<noteq> vm_addr (vm_areas s i)) (map (area_of s) (ys @ zs)) = map (area_of s) (ys @ zs)"
      by (intro filter_True) (auto simp: area_of_def)
    then show ?thesis by (simp add: xs area_of_def)
  qed
  then have "vm_inv ?s' (filter (\<lambda>a. fst a \<noteq> vm_addr (vm_areas s i)) (map (area_of s) xs))"
    unfolding vm_inv_def using free_vm_ok [OF s1(3)] m by metis
  moreover have "vmalloc_initialized ?s' = vmalloc_initialized s" "vpt ?s' = t"
    using s1(2) by (simp_all add: free_vm_struct_def same_areas_def)
  ultimately show ?thesis using s1(1) u by (simp add: release_area_def Let_def)
qed

subsection \<open>Operations on the areas\<close>

lemma room_pages:
  assumes "unat sz < 2 ^ 62"
  shows "(unat (drop_bit PAGE_SHIFT (sz + PAGE_SIZE - 1)) + 1) * 4096 = vm_room sz"
    "unat sz \<le> unat (drop_bit PAGE_SHIFT (sz + PAGE_SIZE - 1)) * 4096"
proof -
  have e: "sz + PAGE_SIZE - 1 = sz + of_nat 4095" by simp
  have v: "unat (sz + of_nat 4095) = unat sz + 4095" using assms by (intro unat_add_small) simp
  have u: "unat (drop_bit PAGE_SHIFT (sz + PAGE_SIZE - 1)) = (unat sz + 4095) div 4096"
    unfolding e unat_drop_bit_eq v by (simp add: drop_bit_eq_div)
  show "unat sz \<le> unat (drop_bit PAGE_SHIFT (sz + PAGE_SIZE - 1)) * 4096" unfolding u by linarith
  have "(unat sz + 8191) div 4096 = (unat sz + 4095) div 4096 + 1" by linarith
  then show "(unat (drop_bit PAGE_SHIFT (sz + PAGE_SIZE - 1)) + 1) * 4096 = vm_room sz" unfolding u vm_room_def by simp
qed

lemma room_exact:
  assumes "unat n < 2 ^ 50"
  shows "unat (n * PAGE_SIZE) = unat n * 4096" "(unat n + 1) * 4096 = vm_room (n * PAGE_SIZE)"
proof -
  have "unat n * unat PAGE_SIZE < 2 ^ LENGTH(64)" using assms by simp
  then have "unat (n * PAGE_SIZE) = unat n * unat PAGE_SIZE" by (simp only: unat_mult_lem [THEN iffD1])
  then show u: "unat (n * PAGE_SIZE) = unat n * 4096" by simp
  have "(unat n * 4096 + 8191) div 4096 = unat n + 1" by linarith
  then show "(unat n + 1) * 4096 = vm_room (n * PAGE_SIZE)" unfolding vm_room_def u by simp
qed

text \<open>
  The outcome of an operation that makes an area of \<open>n\<close> pages: \<^verbatim>\<open>NULL\<close> and no change to the
  areas, or the address of a new area in the free part of the region.
\<close>

definition new_area :: "u64 \<Rightarrow> u64 \<Rightarrow> (u64 \<times> u64 \<times> u64) list \<Rightarrow> u64 \<Rightarrow> 's vmall \<Rightarrow> bool" where
  "new_area n fl as addr s' \<longleftrightarrow> vmalloc_initialized s' \<and>
     (if addr = 0 then vm_inv s' as
      else vm_inv s' (insort_key fst (addr, n, fl) as)
        \<and> area_bytes (addr, n, fl) \<subseteq> {unat VMALLOC_START ..< unat VMALLOC_END}
        \<and> (\<forall>b \<in> set as. area_bytes (addr, n, fl) \<inter> area_bytes b = {}))"

lemma vm_inv_vpt [simp]: "vm_inv (s\<lparr>vpt := t\<rparr>) as = vm_inv s as"
  by (simp add: vm_inv_def vm_rep_def area_of_def [abs_def] alo_def aend_def area_ok_def)

text \<open>The part the three operations share, from the reservation of a structure on.\<close>

lemma reserve_ok:
  assumes i: "vm_inv s as" and ini: "vmalloc_initialized s" and z: "unat sz < 2 ^ 62"
    and n: "(unat n + 1) * 4096 = vm_room sz"
    and a: "alloc_vm_struct s = (w, s1)"
  obtains (full) "w = None" "s1 = s"
  | (nospace) v where "w = Some v" "find_vmalloc_area sz s1 = Some 0" "new_area n fl as 0 (free_vm_struct v s1)"
  | (found) v addr where "w = Some v" "find_vmalloc_area sz s1 = Some addr" "addr \<noteq> 0"
      "\<And>pgs t. \<exists>s'. insert_vm_struct v ((upd_vm v (\<lambda>x. x\<lparr>vm_addr := addr, vm_size := (n + 1) * PAGE_SIZE, vm_flags := fl,
               vm_nr_pages := n, vm_pages := pgs\<rparr>) s1)\<lparr>vpt := t\<rparr>) = Some s' \<and> new_area n fl as addr s'"
      "\<And>pgs t. new_area n fl as 0 (free_vm_struct v ((upd_vm v (\<lambda>x. x\<lparr>vm_addr := addr, vm_size := (n + 1) * PAGE_SIZE, vm_flags := fl,
               vm_nr_pages := n, vm_pages := pgs\<rparr>) s1)\<lparr>vpt := t\<rparr>))"
proof -
  from i obtain xs where r: "vm_rep s {} xs" and as: "as = map (area_of s) xs" by (auto simp: vm_inv_def)
  note al = alloc_vm_ok [OF r a]
  show thesis
  proof (cases w)
    case None
    then show ?thesis using al full by simp
  next
    case (Some v)
    then have r1: "vm_rep s1 {v} xs" and s1: "s1 = upd_vm v (\<lambda>vm. vm\<lparr>vm_in_use := True\<rparr>) s" and v: "v \<notin> set xs" using al by auto
    have ao: "area_of s1 = area_of s" by (simp add: s1 area_of_def fun_eq_iff)
    have in1: "vmalloc_initialized s1" using ini by (simp add: s1)
    have fr: "new_area n fl as 0 (free_vm_struct v s1)"
      using free_vm_ok [OF r1] in1 v unfolding new_area_def vm_inv_def as
      by (auto simp: free_vm_struct_def area_of_def s1 intro!: exI [of _ xs])
    obtain addr where f: "find_vmalloc_area sz s1 = Some addr" using find_vmalloc_ok [OF r1 z] by blast
    show ?thesis
    proof (cases "addr = 0")
      case True
      then show ?thesis using nospace Some f fr by simp
    next
      case False
      note na = new_area_ok [OF r1 f False z n refl]
      show ?thesis
      proof (rule found [OF Some f False])
        fix pgs t
        let ?s2 = "upd_vm v (\<lambda>x. x\<lparr>vm_addr := addr, vm_size := (n + 1) * PAGE_SIZE, vm_flags := fl, vm_nr_pages := n, vm_pages := pgs\<rparr>) s1"
        show "\<exists>s'. insert_vm_struct v (?s2\<lparr>vpt := t\<rparr>) = Some s' \<and> new_area n fl as addr s'"
          using na(1) [where fl = fl and pgs = pgs and t = t] na(2) [where fl = fl] na(3) [where fl = fl] in1 False unfolding new_area_def as ao by auto
        have "free_vm_struct v (?s2\<lparr>vpt := t\<rparr>) = (free_vm_struct v s1)\<lparr>vpt := t\<rparr>" by (simp add: free_vm_struct_def upd_vm_def)
        then show "new_area n fl as 0 (free_vm_struct v (?s2\<lparr>vpt := t\<rparr>))" using fr by (simp add: new_area_def)
      qed
    qed
  qed
qed

lemma insert_vpt: "insert_vm_struct v s = Some s' \<Longrightarrow> vpt s' = vpt s"
  by (auto simp: insert_vm_struct_def bind_eq_Some_conv assign_def split: option.splits)

lemma area_pages_in:
  assumes "area_bytes (addr, n, fl) \<subseteq> {unat VMALLOC_START ..< unat VMALLOC_END}"
  shows "pages_in addr (unat n)"
proof -
  have "unat addr \<in> area_bytes (addr, n, fl)" "unat addr + (unat n + 1) * 4096 - 1 \<in> area_bytes (addr, n, fl)"
    by (simp_all add: area_bytes_def)
  with assms have "unat addr \<in> {unat VMALLOC_START ..< unat VMALLOC_END}"
    "unat addr + (unat n + 1) * 4096 - 1 \<in> {unat VMALLOC_START ..< unat VMALLOC_END}" by blast+
  then show ?thesis by (simp add: pages_in_def)
qed

lemma vmalloc_areas:
  assumes i: "vm_inv s as" "vmalloc_initialized s" and z: "0 < sz" "unat sz < 2 ^ 62"
    and n_def: "n = drop_bit PAGE_SHIFT (sz + PAGE_SIZE - 1)"
  shows "case vmalloc_flags alloc free kpgd sz fl s of
      None \<Rightarrow> \<exists>addr. vmalloc_pages alloc free kpgd addr 0 (unat n) (vpt s) = None
    | Some (r, s') \<Rightarrow> new_area n fl as r s'"
proof -
  obtain w s1 where a: "alloc_vm_struct s = (w, s1)" by fastforce
  have z0: "sz \<noteq> 0" using z(1) by auto
  have vp: "vpt s1 = vpt s" using alloc_vm_loop_cases [of 0 MAX_VMALLOC_AREAS s] a by (auto simp: alloc_vm_struct_def)
  from i z(2) room_pages(1) [OF z(2), folded n_def] a show ?thesis
  proof (cases rule: reserve_ok [where fl = fl])
    case full
    then show ?thesis using i z0 a by (auto simp: vmalloc_flags_def new_area_def Let_def)
  next
    case (nospace v)
    then show ?thesis using i(2) z0 a by (auto simp: vmalloc_flags_def Let_def)
  next
    case (found v addr)
    let ?s2 = "\<lambda>t. (upd_vm v (\<lambda>x. x\<lparr>vm_addr := addr, vm_size := (n + 1) * PAGE_SIZE, vm_flags := fl,
               vm_nr_pages := n, vm_pages := None\<rparr>) s1)\<lparr>vpt := t\<rparr>"
    have e: "vmalloc_flags alloc free kpgd sz fl s =
      Option.bind (vmalloc_pages alloc free kpgd addr 0 (unat n) (vpt s)) (\<lambda>(ok, t).
        if \<not> ok then Some (0, free_vm_struct v (?s2 t)) else map_option (Pair addr) (insert_vm_struct v (?s2 t)))"
      using i(2) z0 a found(1-3) vp unfolding vmalloc_flags_def Let_def n_def [symmetric] by simp
    show ?thesis
    proof (cases "vmalloc_pages alloc free kpgd addr 0 (unat n) (vpt s)")
      case None
      then show ?thesis unfolding e by auto
    next
      case (Some p)
      then obtain ok t where p: "vmalloc_pages alloc free kpgd addr 0 (unat n) (vpt s) = Some (ok, t)" by (cases p) auto
      obtain s' where "insert_vm_struct v (?s2 t) = Some s'" "new_area n fl as addr s'" using found(4) by blast
      then show ?thesis using found(5) [of t None] unfolding e p by (cases ok) auto
    qed
  qed
qed

lemma ioremap_areas:
  assumes i: "vm_inv s as" "vmalloc_initialized s" and z: "0 < sz" "unat sz < 2 ^ 61"
    and n_def: "n = drop_bit PAGE_SHIFT (sz + (phys AND (PAGE_SIZE - 1)) + PAGE_SIZE - 1)"
  obtains (null) s' where "ioremap alloc kpgd phys sz s = Some (0, s')" "new_area n VM_IOREMAP as 0 s'"
      "vpt s' = vpt s \<or> (\<exists>addr. pages_in addr (unat n) \<and> ioremap_pages alloc kpgd addr (page_align phys) 0 (unat n) (vpt s) = Some (False, vpt s'))"
  | (mapped) addr s' where "ioremap alloc kpgd phys sz s = Some (addr + (phys AND (PAGE_SIZE - 1)), s')" "addr \<noteq> 0"
      "new_area n VM_IOREMAP as addr s'" "pages_in addr (unat n)"
      "ioremap_pages alloc kpgd addr (page_align phys) 0 (unat n) (vpt s) = Some (True, vpt s')"
  | (fault) addr where "ioremap alloc kpgd phys sz s = None" "pages_in addr (unat n)"
      "ioremap_pages alloc kpgd addr (page_align phys) 0 (unat n) (vpt s) = None"
proof -
  let ?o = "phys AND (PAGE_SIZE - 1)"
  have "unat ?o \<le> 4095" using word_and_le1 [of phys "PAGE_SIZE - 1"] by (simp add: word_le_nat_alt)
  then have b: "unat (sz + ?o) < 2 ^ 61 + 4096" using unat_add_small [of sz "unat ?o"] z(2) by simp
  then have "unat (sz + ?o) < 2 ^ 62" by simp
  from room_pages(1) [OF this, folded n_def] have "unat n + 1 = (unat (sz + ?o) + 8191) div 4096"
    unfolding vm_room_def by simp
  then have "unat n < 2 ^ 50" using b by simp
  note rm = room_exact [OF this]
  have z2: "unat (n * PAGE_SIZE) < 2 ^ 62" unfolding rm(1) using \<open>unat n < 2 ^ 50\<close> by simp
  obtain w s1 where a: "alloc_vm_struct s = (w, s1)" by fastforce
  have z0: "sz \<noteq> 0" using z(1) by auto
  have vp: "vpt s1 = vpt s" using alloc_vm_loop_cases [of 0 MAX_VMALLOC_AREAS s] a by (auto simp: alloc_vm_struct_def)
  from i z2 rm(2) a show ?thesis
  proof (cases rule: reserve_ok [where fl = VM_IOREMAP])
    case full
    then show ?thesis using null [of s] i z0 a by (simp add: ioremap_def new_area_def Let_def)
  next
    case (nospace v)
    moreover have "vpt (free_vm_struct v s1) = vpt s" by (simp add: free_vm_struct_def vp)
    ultimately show ?thesis using null [of "free_vm_struct v s1"] i(2) z0 a unfolding ioremap_def Let_def n_def [symmetric] by simp
  next
    case (found v addr)
    let ?s2 = "\<lambda>t. (upd_vm v (\<lambda>x. x\<lparr>vm_addr := addr, vm_size := (n + 1) * PAGE_SIZE, vm_flags := VM_IOREMAP,
               vm_nr_pages := n, vm_pages := None\<rparr>) s1)\<lparr>vpt := t\<rparr>"
    have e: "ioremap alloc kpgd phys sz s =
      Option.bind (ioremap_pages alloc kpgd addr (page_align phys) 0 (unat n) (vpt s)) (\<lambda>(ok, t).
        if \<not> ok then Some (0, free_vm_struct v (?s2 t)) else map_option (Pair (addr + ?o)) (insert_vm_struct v (?s2 t)))"
      using i(2) z0 a found(1-3) vp unfolding ioremap_def Let_def n_def [symmetric] by simp
    have pi: "pages_in addr (unat n)"
    proof -
      obtain s' where "insert_vm_struct v (?s2 (vpt s)) = Some s'" "new_area n VM_IOREMAP as addr s'" using found(4) by blast
      then have "area_bytes (addr, n, VM_IOREMAP) \<subseteq> {unat VMALLOC_START ..< unat VMALLOC_END}"
        using found(3) by (simp add: new_area_def)
      then show ?thesis by (rule area_pages_in)
    qed
    show ?thesis
    proof (cases "ioremap_pages alloc kpgd addr (page_align phys) 0 (unat n) (vpt s)")
      case None
      then show ?thesis using fault [of addr] pi unfolding e by simp
    next
      case (Some p)
      then obtain ok t where p: "ioremap_pages alloc kpgd addr (page_align phys) 0 (unat n) (vpt s) = Some (ok, t)" by (cases p) auto
      obtain s' where s': "insert_vm_struct v (?s2 t) = Some s'" "new_area n VM_IOREMAP as addr s'" using found(4) by blast
      show ?thesis
      proof (cases ok)
        case True
        have "vpt s' = t" using insert_vpt [OF s'(1)] by simp
        then show ?thesis using mapped [of addr s'] found(3) s' p pi True unfolding e by simp
      next
        case False
        have "vpt (free_vm_struct v (?s2 t)) = t" by (simp add: free_vm_struct_def)
        then show ?thesis using null [of "free_vm_struct v (?s2 t)"] found(5) [of t None] p pi False unfolding e by auto
      qed
    qed
  qed
qed

lemma vmap_areas:
  assumes i: "vm_inv s as" "vmalloc_initialized s" and z: "0 < n" "unat n < 2 ^ 50"
  shows "case vmap alloc kpgd (Some ps) n fl s of
      None \<Rightarrow> \<exists>addr. vmap_pages alloc kpgd addr ps 0 (unat n) (vpt s) = None
    | Some (r, s') \<Rightarrow> new_area n (VM_MAP OR fl) as r s'"
proof -
  note rm = room_exact [OF z(2)]
  have z2: "unat (n * PAGE_SIZE) < 2 ^ 62" unfolding rm(1) using z(2) by simp
  obtain w s1 where a: "alloc_vm_struct s = (w, s1)" by fastforce
  have z0: "n \<noteq> 0" using z(1) by auto
  have vp: "vpt s1 = vpt s" using alloc_vm_loop_cases [of 0 MAX_VMALLOC_AREAS s] a by (auto simp: alloc_vm_struct_def)
  from i z2 rm(2) a show ?thesis
  proof (cases rule: reserve_ok [where fl = "VM_MAP OR fl"])
    case full
    then show ?thesis using i z0 a by (auto simp: vmap_def new_area_def Let_def)
  next
    case (nospace v)
    then show ?thesis using i(2) z0 a by (auto simp: vmap_def Let_def)
  next
    case (found v addr)
    let ?s2 = "\<lambda>t. (upd_vm v (\<lambda>x. x\<lparr>vm_addr := addr, vm_size := (n + 1) * PAGE_SIZE, vm_flags := VM_MAP OR fl,
               vm_nr_pages := n, vm_pages := Some ps\<rparr>) s1)\<lparr>vpt := t\<rparr>"
    have e: "vmap alloc kpgd (Some ps) n fl s =
      Option.bind (vmap_pages alloc kpgd addr ps 0 (unat n) (vpt s)) (\<lambda>(ok, t).
        if \<not> ok then Some (0, free_vm_struct v (?s2 t)) else map_option (Pair addr) (insert_vm_struct v (?s2 t)))"
      using i(2) z0 a found(1-3) vp unfolding vmap_def Let_def by simp
    show ?thesis
    proof (cases "vmap_pages alloc kpgd addr ps 0 (unat n) (vpt s)")
      case None
      then show ?thesis unfolding e by auto
    next
      case (Some p)
      then obtain ok t where p: "vmap_pages alloc kpgd addr ps 0 (unat n) (vpt s) = Some (ok, t)" by (cases p) auto
      obtain s' where "insert_vm_struct v (?s2 t) = Some s'" "new_area n (VM_MAP OR fl) as addr s'" using found(4) by blast
      then show ?thesis using found(5) [of t "Some ps"] unfolding e p by (cases ok) auto
    qed
  qed
qed

lemma find_release:
  assumes i: "vm_inv s as" "vmalloc_initialized s"
  obtains (none) "find_vm_area addr s = Some None" "filter (\<lambda>a. fst a \<noteq> addr) as = as"
  | (fault) k where "find_vm_area addr s = Some (Some k)" "area_of s k \<in> set as" "fst (area_of s k) = addr" "release_area alloc kpgd k s = None"
      "unmap_pages alloc kpgd addr 0 (unat (vm_nr_pages (vm_areas s k))) (vpt s) = None"
  | (some) k s' where "find_vm_area addr s = Some (Some k)" "area_of s k \<in> set as" "fst (area_of s k) = addr" "release_area alloc kpgd k s = Some s'"
      "vmalloc_initialized s'" "vm_inv s' (filter (\<lambda>a. fst a \<noteq> addr) as)"
      "unmap_pages alloc kpgd addr 0 (unat (vm_nr_pages (vm_areas s k))) (vpt s) = Some (vpt s')"
proof -
  from i obtain xs where r: "vm_rep s {} xs" and as: "as = map (area_of s) xs" by (auto simp: vm_inv_def)
  have f: "find_vm_area addr s = Some (find (\<lambda>i. vm_addr (vm_areas s i) = addr) xs)"
    unfolding find_vm_area_def by (rule find_vm_loop_ok [OF vm_repD(1) [OF r]])
  show thesis
  proof (cases "find (\<lambda>i. vm_addr (vm_areas s i) = addr) xs")
    case None
    then have "filter (\<lambda>a. fst a \<noteq> addr) as = as" unfolding as find_None_iff by (intro filter_True) (auto simp: area_of_def)
    then show ?thesis using none f None by simp
  next
    case (Some k)
    then have k: "k \<in> set xs" "vm_addr (vm_areas s k) = addr" by (auto simp: find_Some_iff)
    then have m: "find_vm_area addr s = Some (Some k)" "area_of s k \<in> set as" "fst (area_of s k) = addr"
      using f Some as by (auto simp: area_of_def)
    show ?thesis
    proof (cases "unmap_pages alloc kpgd addr 0 (unat (vm_nr_pages (vm_areas s k))) (vpt s)")
      case None
      then show ?thesis using fault [OF m] k(2) by (simp add: release_area_def Let_def)
    next
      case (Some t)
      from release_ok [OF r k(1) this [folded k(2)]] show ?thesis using some [OF m] i(2) Some as k(2) by auto
    qed
  qed
qed

lemma vm_inv_disjoint:
  assumes "vm_inv s as"
  shows "sorted_wrt (\<lambda>a b. fst a < fst b) as" "\<forall>a \<in> set as. area_bytes a \<subseteq> {unat VMALLOC_START ..< unat VMALLOC_END}"
    "\<forall>a \<in> set as. \<forall>b \<in> set as. a \<noteq> b \<longrightarrow> area_bytes a \<inter> area_bytes b = {}"
proof -
  from assms obtain xs where r: "vm_rep s {} xs" and as: "as = map (area_of s) xs" by (auto simp: vm_inv_def)
  note d = vm_repD [OF r]
  have ab: "area_bytes (area_of s i) = {alo s i ..< aend s i}" "alo s i < aend s i" if "i \<in> set xs" for i
    using area_bytes_of d(3) [OF that] by (auto simp: area_ok_def)
  show "\<forall>a \<in> set as. area_bytes a \<subseteq> {unat VMALLOC_START ..< unat VMALLOC_END}"
    using ab d(3) by (auto simp: as area_ok_def)
  have "sorted_wrt (\<lambda>i j. fst (area_of s i) < fst (area_of s j)) xs"
    by (rule sorted_wrt_mono_rel [OF _ d(2)]) (use ab(2) in \<open>fastforce simp: area_of_def alo_def word_less_nat_alt\<close>)
  then show "sorted_wrt (\<lambda>a b. fst a < fst b) as" by (simp add: as sorted_wrt_map)
  show "\<forall>a \<in> set as. \<forall>b \<in> set as. a \<noteq> b \<longrightarrow> area_bytes a \<inter> area_bytes b = {}"
  proof (intro ballI impI)
    fix a b assume "a \<in> set as" "b \<in> set as" "a \<noteq> b"
    then obtain i j where ij: "i \<in> set xs" "j \<in> set xs" "a = area_of s i" "b = area_of s j" "i \<noteq> j" by (auto simp: as)
    then obtain m k where mk: "m < length xs" "k < length xs" "xs ! m = i" "xs ! k = j" "m \<noteq> k" by (metis in_set_conv_nth)
    have "aend s i \<le> alo s j \<or> aend s j \<le> alo s i"
      using sorted_wrt_nth_less [OF d(2)] mk by (metis linorder_neqE_nat)
    then show "area_bytes a \<inter> area_bytes b = {}" unfolding ij(3,4) ab(1) [OF ij(1)] ab(1) [OF ij(2)] by auto
  qed
qed

subsection \<open>Properties\<close>

lemma vmalloc_init_ok: "vm_inv (vmalloc_init s) []" "vmalloc_initialized (vmalloc_init s)"
proof -
  have "vm_areas (fold (\<lambda>i. upd_vm i f) [0..<n] s) j = (if j < n then f (vm_areas s j) else vm_areas s j)" for f n j
    by (induction n) (auto simp: less_Suc_eq)
  then show "vm_inv (vmalloc_init s) []" unfolding vm_inv_def
    by (intro exI [of _ "[]"]) (auto simp: vm_rep_def vmalloc_init_def)
  show "vmalloc_initialized (vmalloc_init s)" by (simp add: vmalloc_init_def)
qed

inductive vm_reach :: "('s \<Rightarrow> u64 \<times> 's) \<Rightarrow> (u64 \<Rightarrow> 's \<Rightarrow> 's) \<Rightarrow> u64 \<Rightarrow> 's vmall \<Rightarrow> bool" for alloc free kpgd where
  init: "vm_reach alloc free kpgd (vmalloc_init s)"
| vmalloc: "vm_reach alloc free kpgd s \<Longrightarrow> unat sz < 2 ^ 62 \<Longrightarrow>
     vmalloc alloc free kpgd sz s = Some (r, s') \<Longrightarrow> vm_reach alloc free kpgd s'"
| vfree: "vm_reach alloc free kpgd s \<Longrightarrow> vfree alloc kpgd addr s = Some s' \<Longrightarrow> vm_reach alloc free kpgd s'"
| vmap: "vm_reach alloc free kpgd s \<Longrightarrow> unat n < 2 ^ 50 \<Longrightarrow>
     vmap alloc kpgd ps n fl s = Some (r, s') \<Longrightarrow> vm_reach alloc free kpgd s'"
| vunmap: "vm_reach alloc free kpgd s \<Longrightarrow> vunmap alloc kpgd addr s = Some s' \<Longrightarrow> vm_reach alloc free kpgd s'"
| ioremap: "vm_reach alloc free kpgd s \<Longrightarrow> unat sz < 2 ^ 61 \<Longrightarrow>
     ioremap alloc kpgd phys sz s = Some (r, s') \<Longrightarrow> vm_reach alloc free kpgd s'"
| iounmap: "vm_reach alloc free kpgd s \<Longrightarrow> iounmap alloc kpgd addr s = Some s' \<Longrightarrow> vm_reach alloc free kpgd s'"

definition vm_good :: "'s vmall \<Rightarrow> bool" where
  "vm_good s \<longleftrightarrow> vmalloc_initialized s \<and> (\<exists>as. vm_inv s as)"

lemma new_area_good: "new_area n fl as r s' \<Longrightarrow> vm_good s'"
  by (auto simp: new_area_def vm_good_def split: if_splits)

lemma vm_reach_good:
  assumes "vm_reach alloc free kpgd s"
  shows "vm_good s"
  using assms
proof (induction rule: vm_reach.induct)
  case (init s)
  then show ?case using vmalloc_init_ok by (auto simp: vm_good_def)
next
  case (vmalloc s sz r s')
  then obtain as where i: "vm_inv s as" "vmalloc_initialized s" by (auto simp: vm_good_def)
  show ?case
  proof (cases "sz = 0")
    case True
    then show ?thesis using vmalloc by (simp add: vmalloc_def vmalloc_flags_def)
  next
    case False
    then have "0 < sz" by (simp add: word_gt_0)
    from vmalloc_areas [OF i this vmalloc.hyps(2) refl, of alloc free kpgd VM_ALLOC] vmalloc.hyps(3)
    show ?thesis by (auto simp: vmalloc_def dest: new_area_good)
  qed
next
  case (vfree s addr s')
  then obtain as where i: "vm_inv s as" "vmalloc_initialized s" by (auto simp: vm_good_def)
  then show ?case
    by (cases rule: find_release [where addr = addr and alloc = alloc and kpgd = kpgd])
      (use vfree in \<open>auto simp: vfree_def vm_good_def split: if_splits\<close>)
next
  case (vmap s n ps fl r s')
  then obtain as where i: "vm_inv s as" "vmalloc_initialized s" by (auto simp: vm_good_def)
  show ?case
  proof (cases "n = 0 \<or> ps = None")
    case True
    then show ?thesis using vmap by (auto simp: vmap_def split: option.splits)
  next
    case False
    then obtain qs where "0 < n" "ps = Some qs" by (auto simp: word_gt_0)
    then show ?thesis using vmap_areas [OF i _ vmap.hyps(2), of alloc kpgd qs fl] vmap.hyps(3) by (auto dest: new_area_good)
  qed
next
  case (vunmap s addr s')
  then obtain as where i: "vm_inv s as" "vmalloc_initialized s" by (auto simp: vm_good_def)
  then show ?case
    by (cases rule: find_release [where addr = addr and alloc = alloc and kpgd = kpgd])
      (use vunmap in \<open>auto simp: vunmap_def vm_good_def split: if_splits\<close>)
next
  case (ioremap s sz phys r s')
  then obtain as where i: "vm_inv s as" "vmalloc_initialized s" by (auto simp: vm_good_def)
  show ?case
  proof (cases "sz = 0")
    case True
    then show ?thesis using ioremap by (simp add: ioremap_def)
  next
    case False
    then have "0 < sz" by (simp add: word_gt_0)
    from i this ioremap.hyps(2) refl show ?thesis
      by (rule ioremap_areas [where alloc = alloc and kpgd = kpgd and phys = phys]) (use ioremap.hyps(3) in \<open>auto dest: new_area_good\<close>)
  qed
next
  case (iounmap s addr s')
  then obtain as where i: "vm_inv s as" "vmalloc_initialized s" by (auto simp: vm_good_def)
  then show ?case
    by (cases rule: find_release [where addr = "page_align addr" and alloc = alloc and kpgd = kpgd])
      (use iounmap in \<open>auto simp: iounmap_def vm_good_def Let_def split: if_splits\<close>)
qed

lemma find_vmalloc_areas:
  assumes "vm_inv s as" "unat sz < 2 ^ 62"
  shows "\<exists>r. find_vmalloc_area sz s = Some r
    \<and> (if r = 0
       then \<forall>b. unat VMALLOC_START \<le> b \<and> b + vm_room sz \<le> unat VMALLOC_END \<longrightarrow>
              (\<exists>a \<in> set as. area_bytes a \<inter> {b ..< b + vm_room sz} \<noteq> {})
       else unat VMALLOC_START \<le> unat r \<and> unat r + vm_room sz \<le> unat VMALLOC_END \<and> 4096 dvd unat r
         \<and> (\<forall>a \<in> set as. area_bytes a \<inter> {unat r ..< unat r + vm_room sz} = {}))"
proof -
  from assms(1) obtain xs where r: "vm_rep s {} xs" and as: "as = map (area_of s) xs" by (auto simp: vm_inv_def)
  have ov: "overlaps s i b (vm_room sz) \<longleftrightarrow> area_bytes (area_of s i) \<inter> {b ..< b + vm_room sz} \<noteq> {}" if "i \<in> set xs" for i b
  proof -
    have a: "area_ok s i" by (rule vm_repD(3) [OF r that])
    have "0 < vm_room sz" by (simp add: vm_room_def div_greater_zero_iff)
    moreover have "alo s i < aend s i" using a by (simp add: area_ok_def)
    ultimately have "{alo s i ..< aend s i} \<inter> {b ..< b + vm_room sz} \<noteq> {} \<longleftrightarrow> alo s i < b + vm_room sz \<and> b < aend s i"
      by (auto simp: Int_atLeastLessThan)
    then show ?thesis unfolding area_bytes_of [OF a] overlaps_def by blast
  qed
  from find_vmalloc_ok [OF r assms(2)] show ?thesis unfolding as using ov by (auto split: if_splits)
qed


definition boot_vm :: "buddy vmall" where
  "boot_vm = vmalloc_init \<lparr>vm_areas = (\<lambda>_. \<lparr>vm_addr = 0, vm_size = 0, vm_flags = 0, vm_nr_pages = 0, vm_pages = None,
     vm_next = None, vm_in_use = False\<rparr>), vmlist = None, vmalloc_pos = VMALLOC_START, vmalloc_initialized = False,
     vpt = enable_mmu boot_pt\<rparr>"

lemma boot_vm_inv: "vm_inv boot_vm []" "vmalloc_initialized boot_vm" "vpt boot_vm = enable_mmu boot_pt"
proof -
  show "vm_inv boot_vm []" "vmalloc_initialized boot_vm" unfolding boot_vm_def by (rule vmalloc_init_ok)+
  have "vpt (fold (\<lambda>i. upd_vm i f) xs s) = vpt s" for f xs and s :: "buddy vmall" by (induction xs arbitrary: s) auto
  then show "vpt boot_vm = enable_mmu boot_pt" by (simp add: boot_vm_def vmalloc_init_def)
qed

lemma find_first:
  assumes "vmlist s = None" "unat sz \<le> 0x3FFF000"
  shows "find_vmalloc_area sz s = Some VMALLOC_START"
proof -
  have e: "sz + PAGE_SIZE + PAGE_SIZE - 1 = sz + of_nat 8191" by simp
  have u: "unat (sz + of_nat 8191) = unat sz + 8191" using assms(2) by (intro unat_add_small) simp
  have "unat (page_align (sz + PAGE_SIZE + PAGE_SIZE - 1)) = vm_room sz"
    unfolding e unat_page_align u vm_room_def by (rule minus_mod_eq_div_mult)
  moreover have "vm_room sz \<le> 0x4000000"
    using div_le_mono [of "unat sz + 8191" "0x3FFF000 + 8191" 4096] assms(2) by (simp add: vm_room_def)
  ultimately have "unat (page_align (sz + PAGE_SIZE + PAGE_SIZE - 1)) \<le> 0x4000000" by simp
  then have "unat (VMALLOC_START + page_align (sz + PAGE_SIZE + PAGE_SIZE - 1)) \<le> unat VMALLOC_END"
    using unat_add_small [of VMALLOC_START "unat (page_align (sz + PAGE_SIZE + PAGE_SIZE - 1))"] by (simp add: vm_consts)
  then show ?thesis
    by (simp add: find_vmalloc_area_def Let_def assms(1) find_area_loop.simps word_le_nat_alt add.assoc)
qed

lemma no_areas: "set [] \<noteq> {..<MAX_VMALLOC_AREAS}"
proof -
  have "0 \<in> {..<MAX_VMALLOC_AREAS}" by (simp add: MAX_VMALLOC_AREAS_def)
  then show ?thesis by auto
qed

lemma boot_vm_leaf:
  assumes "pgd_index va = 2"
  shows "sv39_leaf (enable_mmu boot_pt) boot_pgd va = Some (2, phys_to_pte KERNEL_BASE PTE_KERNEL_RWX)"
proof -
  have "sv39_leaf (enable_mmu boot_pt) = sv39_leaf boot_pt"
    by (rule tables_cong) (simp add: enable_mmu_def sfence_def entry_def)
  then show ?thesis using assms by (simp add: boot_pt_def boot_leaf)
qed

text \<open>A kernel that maps its first page by a 4 KB page and runs with paging on.\<close>

definition empty_pt :: "buddy ptab" where
  "empty_pt = \<lparr>tables = (\<lambda>_ _. 0), frames = page_init bss_buddy, fences = [], kernel_satp = 0, csr_satp = 0\<rparr>"

definition paged_pt :: "buddy ptab" where
  "paged_pt = (snd (map_page_4k alloc_page boot_pgd KERNEL_BASE KERNEL_BASE PTE_KERNEL_RWX empty_pt))
     \<lparr>csr_satp := SATP_SV39_MODE OR drop_bit PAGE_SHIFT boot_pgd\<rparr>"

definition paged_vm :: "buddy vmall" where
  "paged_vm = vmalloc_init (boot_vm\<lparr>vpt := paged_pt\<rparr>)"

lemma empty_pt_inv: "kpt_inv boot_pgd empty_pt" "sv39_leaf empty_pt boot_pgd va = None"
proof -
  have z: "entry empty_pt sl = 0" "\<not> pte_valid 0" for sl by (simp_all add: empty_pt_def entry_def pte_valid_def)
  then have "tree_ok empty_pt boot_pgd F" for F by (auto simp: tree_ok_def pte_at_def pmd_at_def child_def)
  then show "kpt_inv boot_pgd empty_pt" unfolding kpt_inv_def pt_inv_def
    using page_init_ok(1) boot_pgd_outside by (auto simp: empty_pt_def)
  show "sv39_leaf empty_pt boot_pgd va = None" unfolding sv39_leaf_child child_def using z by simp
qed

lemma vmalloc_init_vpt: "vpt (vmalloc_init s) = vpt s"
proof -
  have "vpt (fold (\<lambda>i. upd_vm i f) xs s) = vpt s" for f xs by (induction xs arbitrary: s) auto
  then show ?thesis by (simp add: vmalloc_init_def)
qed

lemma paged_vm_inv: "vm_inv paged_vm []" "vmalloc_initialized paged_vm" "vpt paged_vm = paged_pt"
  unfolding paged_vm_def by (rule vmalloc_init_ok) (simp_all add: vmalloc_init_ok(2) vmalloc_init_vpt)

lemma paged_pt_ok:
  "vm_tables (\<lambda>b. \<exists>M. manages b M) owned_frames frame_pool boot_pgd paged_pt" "drop_bit 60 (csr_satp paged_pt) = 8"
  "frames paged_pt = frames (snd (map_page_4k alloc_page boot_pgd KERNEL_BASE KERNEL_BASE PTE_KERNEL_RWX empty_pt))"
proof -
  let ?m = "map_page_4k alloc_page boot_pgd KERNEL_BASE KERNEL_BASE PTE_KERNEL_RWX empty_pt"
  have p: "entry paged_pt sl = entry (snd ?m) sl" "frames paged_pt = frames (snd ?m)" for sl by (simp_all add: paged_pt_def entry_def)
  then show "frames paged_pt = frames (snd ?m)" by simp
  have n: "no_superpage empty_pt boot_pgd KERNEL_BASE" by (simp add: no_superpage_def empty_pt_inv)
  note k = buddy_frames.map_4k_ok [OF empty_pt_inv(1) [unfolded kpt_inv_def] n surjective_pairing, where pa = KERNEL_BASE and flags = PTE_KERNEL_RWX]
  have "fst ?m = 0"
    by (rule buddy_counted.map_4k_avail(1) [OF empty_pt_inv(1) [unfolded kpt_inv_def]]) (simp add: empty_pt_def page_init_count)
  then have "sv39_leaf (snd ?m) boot_pgd = remap KERNEL_BASE (Some (phys_to_pte (page_align KERNEL_BASE) (PTE_KERNEL_RWX OR PTE_V))) (sv39_leaf empty_pt boot_pgd)"
    using k(2) by auto
  then have l: "sv39_leaf paged_pt boot_pgd = remap KERNEL_BASE (Some (phys_to_pte (page_align KERNEL_BASE) (PTE_KERNEL_RWX OR PTE_V))) (sv39_leaf empty_pt boot_pgd)"
    using tables_cong [OF p(1)] by simp
  have f: "PTE_KERNEL_RWX OR PTE_V = PTE_KERNEL_RWX" "page_align KERNEL_BASE = KERNEL_BASE"
    by (simp_all add: PTE_KERNEL_RWX_def PTE_V_def PTE_R_def PTE_W_def PTE_X_def PTE_A_def PTE_D_def page_align_def KERNEL_BASE_def)
  have lk: "sv39_leaf paged_pt boot_pgd KERNEL_BASE = Some (0, phys_to_pte KERNEL_BASE PTE_KERNEL_RWX)"
    unfolding l f by (simp add: remap_def same_page_def)
  have s: "csr_satp paged_pt = 0x8000000000080200" by (simp add: paged_pt_def SATP_SV39_MODE_def boot_pgd_def)
  have root: "push_bit PAGE_SHIFT (csr_satp paged_pt AND mask 44) = boot_pgd" "drop_bit 60 (csr_satp paged_pt) = 8"
    by (simp_all add: s boot_pgd_def mask_eq_exp_minus_1)
  then show "drop_bit 60 (csr_satp paged_pt) = 8" by simp
  have "pt_inv (\<lambda>b. \<exists>M. manages b M) owned_frames frame_pool boot_pgd paged_pt"
    using k(1) pt_inv_cong [OF p] by simp
  moreover have "runs_on boot_pgd paged_pt" using root by (simp add: runs_on_def)
  moreover have "kernel_runs paged_pt"
    unfolding kernel_runs_def hw_translate_def root lk
    by (simp add: phys_to_pte_def sv39_pa_def pte_to_phys_def KERNEL_BASE_def PTE_KERNEL_RWX_def PTE_V_def PTE_R_def PTE_W_def PTE_X_def PTE_A_def
        PTE_D_def mask_eq_exp_minus_1)
  moreover have "no_superpage paged_pt boot_pgd va" for va by (simp add: no_superpage_def l remap_def empty_pt_inv)
  ultimately show "vm_tables (\<lambda>b. \<exists>M. manages b M) owned_frames frame_pool boot_pgd paged_pt" by (simp add: vm_tables_def)
qed

lemma paged_ioremap: "\<exists>s'. ioremap alloc_page boot_pgd 0x10000005 256 paged_vm = Some (VMALLOC_START + 5, s')"
proof -
  obtain xs where r: "vm_rep paged_vm {} []" using paged_vm_inv(1) by (auto simp: vm_inv_def)
  obtain w s1 where a: "alloc_vm_struct paged_vm = (w, s1)" by fastforce
  have "w \<noteq> None" using alloc_vm_ok [OF r a] no_areas by (cases w) auto
  then obtain v where v: "w = Some v" "vm_rep s1 {v} []" "s1 = upd_vm v (\<lambda>vm. vm\<lparr>vm_in_use := True\<rparr>) paged_vm"
    using alloc_vm_ok [OF r a] by auto
  have l: "vmlist s1 = None" using vm_repD(1) [OF v(2)] by simp
  have f: "find_vmalloc_area 4096 s1 = Some VMALLOC_START" by (rule find_first [OF l]) simp
  have z: "VMALLOC_START \<noteq> 0" by (simp add: VMALLOC_START_def)
  have rm: "(unat (1::u64) + 1) * 4096 = vm_room 4096" by (simp add: vm_room_def)
  have "unat (4096 :: u64) < 2 ^ 62" by simp
  note na = new_area_ok(1) [OF v(2) f z this rm refl, where fl = VM_IOREMAP and pgs = None]
  obtain r t where t: "map_page_4k alloc_page boot_pgd VMALLOC_START 0x10000000 PTE_KERNEL_RW paged_pt = (r, t)" by fastforce
  have "unat (free_page_count (frames empty_pt)) = 31434" by (simp add: empty_pt_def page_init_count)
  then have "2 \<le> unat (free_page_count (frames paged_pt))"
    using buddy_counted.map_4k_avail(2) [OF empty_pt_inv(1) [unfolded kpt_inv_def], of KERNEL_BASE KERNEL_BASE PTE_KERNEL_RWX] paged_pt_ok(3) by simp
  moreover have "pt_inv (\<lambda>b. \<exists>M. manages b M) owned_frames frame_pool boot_pgd paged_pt" using paged_pt_ok(1) by (simp add: vm_tables_def)
  ultimately have r0: "r = 0" using buddy_counted.map_4k_avail(1) [of boot_pgd paged_pt VMALLOC_START "0x10000000" PTE_KERNEL_RW] t by simp
  have "in_region VMALLOC_START" by (simp add: in_region_def VMALLOC_START_def VMALLOC_END_def)
  from buddy_frames.map_keeps(1) [OF paged_pt_ok(1) this t] have "go_on t = Some t" by (simp add: go_on_def vm_tables_def)
  moreover have "vpt s1 = paged_pt" using paged_vm_inv(3) by (simp add: v(3))
  ultimately have p: "ioremap_pages alloc_page boot_pgd VMALLOC_START 0x10000000 0 1 (vpt s1) = Some (True, t)" using t r0 by simp
  show ?thesis using na [where t = t] paged_vm_inv(2) a v(1) f z p
    by (auto simp: ioremap_def Let_def page_align_def)
qed

lemma map_4k_giga:
  assumes "sv39_leaf s pgd va = Some (2, e)" "va = page_align va"
  shows "map_page_4k alloc pgd va pa flags s
    = (0, sfence (Fence_va va) (set_entry (pgd, pgd_index va) (phys_to_pte (page_align pa) (flags OR PTE_V)) s))"
proof -
  have "pte_valid (entry s (pgd, pgd_index va))" "pte_leaf (entry s (pgd, pgd_index va))"
    using assms(1) by (auto simp: sv39_leaf_def entry_def Let_def split: if_splits)
  then have "walk_pgtable alloc pgd va True s = (Some (pgd, pgd_index va), s)"
    by (simp add: walk_pgtable_def ensure_table_def)
  then show ?thesis using assms(2) by (simp add: map_page_4k_def Let_def)
qed

lemma boot_satp: "csr_satp (enable_mmu boot_pt) = SATP_SV39_MODE OR drop_bit PAGE_SHIFT boot_pgd"
  by (simp add: enable_mmu_def sfence_def boot_pt_def pgtable_init_def map_page_1g_def Let_def virt_to_phys_def)

lemma rw_flags: "pte_valid (phys_to_pte a (PTE_KERNEL_RW OR PTE_V))" "pte_leaf (phys_to_pte a (PTE_KERNEL_RW OR PTE_V))"
  "phys_to_pte a (PTE_KERNEL_RW OR PTE_V) AND PTE_X = 0"
proof -
  have "bit (PTE_KERNEL_RW OR PTE_V) 0" "bit (PTE_KERNEL_RW OR PTE_V) 1" unfolding PTE_KERNEL_RW_def by (simp_all only: bit_or_iff bit_flags) simp_all
  then show "pte_valid (phys_to_pte a (PTE_KERNEL_RW OR PTE_V))" "pte_leaf (phys_to_pte a (PTE_KERNEL_RW OR PTE_V))"
    by (simp_all add: pte_valid_iff pte_leaf_iff phys_to_pte_def bit_simps)
  have "\<not> bit (PTE_KERNEL_RW OR PTE_V) 3"
    by (simp add: PTE_KERNEL_RW_def PTE_V_def PTE_R_def PTE_W_def PTE_A_def PTE_D_def)
  then show "phys_to_pte a (PTE_KERNEL_RW OR PTE_V) AND PTE_X = 0"
    unfolding word_zero_iff bit_and_iff bit_flags by (auto simp: phys_to_pte_def bit_simps)
qed

text \<open>On the tables of the booted kernel, the first page that is mapped in the region makes the kernel's code unreachable.\<close>

lemma boot_map_faults:
  assumes t: "t = (enable_mmu boot_pt)\<lparr>frames := fr\<rparr>"
  obtains t2 where "map_page_4k alloc boot_pgd VMALLOC_START pa PTE_KERNEL_RW t = (0, t2)" "go_on t2 = None"
proof
  let ?e = "phys_to_pte (page_align pa) (PTE_KERNEL_RW OR PTE_V)"
  let ?t2 = "sfence (Fence_va VMALLOC_START) (set_entry (boot_pgd, 2) ?e t)"
  have ix: "pgd_index VMALLOC_START = 2" "pgd_index KERNEL_BASE = 2"
    by (simp_all add: pgd_index_def PGDIR_SHIFT_def VMALLOC_START_def KERNEL_BASE_def)
  have "sv39_leaf t = sv39_leaf (enable_mmu boot_pt)" by (rule tables_cong) (simp add: entry_def t)
  then have lf: "sv39_leaf t boot_pgd VMALLOC_START = Some (2, phys_to_pte KERNEL_BASE PTE_KERNEL_RWX)"
    using boot_vm_leaf [OF ix(1)] by simp
  show "map_page_4k alloc boot_pgd VMALLOC_START pa PTE_KERNEL_RW t = (0, ?t2)"
    using map_4k_giga [OF lf, of alloc pa PTE_KERNEL_RW] ix by (simp add: page_align_def VMALLOC_START_def)
  have root: "push_bit PAGE_SHIFT (csr_satp ?t2 AND mask 44) = boot_pgd" "drop_bit 60 (csr_satp ?t2) \<noteq> 0"
    by (simp_all add: t sfence_def set_entry_def boot_satp SATP_SV39_MODE_def boot_pgd_def mask_eq_exp_minus_1)
  have "sv39_leaf ?t2 boot_pgd KERNEL_BASE = Some (2, ?e)"
    using rw_flags(1,2) [of "page_align pa"] by (simp add: sv39_leaf_def ix entry_def sfence_def set_entry_def)
  then have "hw_translate PTE_X ?t2 KERNEL_BASE = None" unfolding hw_translate_def root(1) using root(2) rw_flags(3) by simp
  then show "go_on ?t2 = None" by (simp add: go_on_def kernel_runs_def)
qed

text \<open>The first area of a kernel that has none is at the start of the region.\<close>

lemma first_area:
  assumes "vm_inv s []"
  obtains v s1 where "alloc_vm_struct s = (Some v, s1)" "vpt s1 = vpt s"
    "\<And>sz. unat sz \<le> 0x3FFF000 \<Longrightarrow> find_vmalloc_area sz s1 = Some VMALLOC_START"
proof -
  have r: "vm_rep s {} []" using assms by (auto simp: vm_inv_def)
  obtain w s1 where a: "alloc_vm_struct s = (w, s1)" by fastforce
  have "w \<noteq> None" using alloc_vm_ok [OF r a] no_areas by (cases w) auto
  then obtain v where v: "w = Some v" "vm_rep s1 {v} []" "s1 = upd_vm v (\<lambda>vm. vm\<lparr>vm_in_use := True\<rparr>) s"
    using alloc_vm_ok [OF r a] by auto
  have l: "vmlist s1 = None" using vm_repD(1) [OF v(2)] by simp
  have "alloc_vm_struct s = (Some v, s1)" "vpt s1 = vpt s" using a v(1,3) by simp_all
  then show thesis by (rule that) (rule find_first [OF l])
qed

text \<open>
  C19: for a request of less than 2 to the 62 bytes the search for address space is right and complete.  An address
  that \<open>find_vmalloc_area\<close> returns is page-aligned, and the request rounded up to pages, with a guard
  page, fits there, inside the region and apart from every existing area; it returns 0 only when no such place exists.
  (For sizes close to 2 to the 64 the rounding wraps around, and the place found is too small.)
\<close>

theorem find_vmalloc_area_correct:
  assumes "vm_inv s as" "unat sz < 2 ^ 62"
  shows "\<exists>r. find_vmalloc_area sz s = Some r
    \<and> (if r = 0
       then \<forall>b. unat VMALLOC_START \<le> b \<and> b + vm_room sz \<le> unat VMALLOC_END \<longrightarrow>
              (\<exists>a \<in> set as. area_bytes a \<inter> {b ..< b + vm_room sz} \<noteq> {})
       else unat VMALLOC_START \<le> unat r \<and> unat r + vm_room sz \<le> unat VMALLOC_END \<and> 4096 dvd unat r
         \<and> (\<forall>a \<in> set as. area_bytes a \<inter> {unat r ..< unat r + vm_room sz} = {}))"
  by (rule find_vmalloc_areas [OF assms])

theorem find_vmalloc_area_correct_witness:
  "find_vmalloc_area 5000 boot_vm = Some VMALLOC_START \<and> unat VMALLOC_START + vm_room 5000 \<le> unat VMALLOC_END"
proof -
  have f: "find_vmalloc_area 5000 boot_vm = Some VMALLOC_START" by (rule find_first) (simp_all add: boot_vm_def vmalloc_init_def)
  have "unat (5000 :: u64) < 2 ^ 62" by simp
  from find_vmalloc_area_correct [OF boot_vm_inv(1) this] f show ?thesis by (auto simp: VMALLOC_START_def)
qed

text \<open>
  C20: in every state that \<open>vmalloc_init\<close> and any sequence of \<open>vmalloc\<close>, \<open>vfree\<close>, \<open>vmap\<close>,
  \<open>vunmap\<close>, \<open>ioremap\<close> and \<open>iounmap\<close> with sizes below 2 to the 61 can reach, whatever the page
  allocator does, the areas are linked in the order of their addresses, lie inside the region
  and are pairwise disjoint, guard pages included.
\<close>

theorem vm_reach_safe:
  assumes "vm_reach alloc free kpgd s"
  shows "\<exists>as. vm_inv s as \<and> sorted_wrt (\<lambda>a b. fst a < fst b) as
    \<and> (\<forall>a \<in> set as. area_bytes a \<subseteq> {unat VMALLOC_START ..< unat VMALLOC_END})
    \<and> (\<forall>a \<in> set as. \<forall>b \<in> set as. a \<noteq> b \<longrightarrow> area_bytes a \<inter> area_bytes b = {})"
proof -
  from vm_reach_good [OF assms] obtain as where "vm_inv s as" by (auto simp: vm_good_def)
  with vm_inv_disjoint [OF this] show ?thesis by blast
qed

theorem vm_reach_safe_witness:
  "\<exists>s' as. ioremap alloc_page boot_pgd 0x10000005 256 paged_vm = Some (VMALLOC_START + 5, s') \<and> vm_inv s' as
     \<and> sorted_wrt (\<lambda>a b. fst a < fst b) as"
proof -
  have z: "unat (256::u64) < 2 ^ 61" by simp
  obtain s' where e: "ioremap alloc_page boot_pgd 0x10000005 256 paged_vm = Some (VMALLOC_START + 5, s')" using paged_ioremap by blast
  have "vm_reach alloc_page free_page boot_pgd paged_vm" unfolding paged_vm_def by (rule vm_reach.init)
  from vm_reach.ioremap [OF this z e] have "vm_reach alloc_page free_page boot_pgd s'" .
  from vm_reach_safe [OF this] e show ?thesis by blast
qed





text \<open>
  C22: a size close to 2 to the 64 wraps around.  \<open>vmalloc(ULONG_MAX)\<close> on an empty region succeeds and returns the
  start of the region, although it has neither allocated nor mapped a page.
\<close>

theorem vmalloc_size_wraps:
  assumes "vm_inv s []" "vmalloc_initialized s"
  shows "\<exists>s'. vmalloc alloc free kpgd (- 1) s = Some (VMALLOC_START, s') \<and> vpt s' = vpt s
    \<and> vm_inv s' [(VMALLOC_START, 0, VM_ALLOC)]"
proof -
  obtain xs where r: "vm_rep s {} []" using assms(1) by (auto simp: vm_inv_def)
  have n: "drop_bit PAGE_SHIFT (- 1 + PAGE_SIZE - 1 :: u64) = 0" by simp
  obtain w s1 where a: "alloc_vm_struct s = (w, s1)" by fastforce
  have "w \<noteq> None" using alloc_vm_ok [OF r a] no_areas by (cases w) auto
  then obtain v where v: "w = Some v" "vm_rep s1 {v} []" "s1 = upd_vm v (\<lambda>vm. vm\<lparr>vm_in_use := True\<rparr>) s"
    using alloc_vm_ok [OF r a] by auto
  have l: "vmlist s1 = None" using vm_repD(1) [OF v(2)] by simp
  have f: "find_vmalloc_area (- 1) s1 = Some VMALLOC_START"
    by (simp add: find_vmalloc_area_def page_align_def l find_area_loop.simps vm_consts)
  have f0: "find_vmalloc_area 0 s1 = Some VMALLOC_START"
    by (simp add: find_vmalloc_area_def page_align_def l find_area_loop.simps vm_consts)
  have z: "VMALLOC_START \<noteq> 0" by (simp add: VMALLOC_START_def)
  have rm: "(unat (0::u64) + 1) * 4096 = vm_room 0" by (simp add: vm_room_def)
  have "unat (0 :: u64) < 2 ^ 62" by simp
  from new_area_ok(1) [OF v(2) f0 z this rm refl, where fl = VM_ALLOC and pgs = None and t = "vpt s"] obtain s' where
    s': "insert_vm_struct v ((upd_vm v (\<lambda>x. x\<lparr>vm_addr := VMALLOC_START, vm_size := (0 + 1) * PAGE_SIZE, vm_flags := VM_ALLOC,
               vm_nr_pages := 0, vm_pages := None\<rparr>) s1)\<lparr>vpt := vpt s\<rparr>) = Some s'" "vm_inv s' [(VMALLOC_START, 0, VM_ALLOC)]"
    by auto
  have vp: "vpt s1 = vpt s" by (simp add: v(3))
  then have u: "(upd_vm v f s1)\<lparr>vpt := vpt s\<rparr> = upd_vm v f s1" for f by (simp add: upd_vm_def)
  have "vmalloc alloc free kpgd (- 1) s = Some (VMALLOC_START, s')"
    using assms(2) a f v(1) z s'(1) vp unfolding vmalloc_def vmalloc_flags_def Let_def n by (simp add: u)
  moreover have "vpt s' = vpt s" using s'(1) by (auto simp: insert_vm_struct_def bind_eq_Some_conv assign_def split: option.splits)
  ultimately show ?thesis using s'(2) by blast
qed

theorem vmalloc_size_wraps_witness:
  "\<exists>s'. vmalloc alloc_page free_page boot_pgd (- 1) boot_vm = Some (VMALLOC_START, s') \<and> vpt s' = vpt boot_vm"
  using vmalloc_size_wraps [OF boot_vm_inv(1,2), of alloc_page free_page boot_pgd] by blast

lemma some_pages:
  assumes "0 < unat x" "unat x \<le> 0x3FFF000"
  obtains m where "unat (drop_bit PAGE_SHIFT (x + PAGE_SIZE - 1)) = Suc m" "unat (drop_bit PAGE_SHIFT (x + PAGE_SIZE - 1)) * 4096 \<le> 0x3FFF000"
proof -
  have b: "unat x < 2 ^ 62" using assms(2) by simp
  from room_pages(2) [OF b] assms(1) have "unat (drop_bit PAGE_SHIFT (x + PAGE_SIZE - 1)) \<noteq> 0" by linarith
  moreover have "unat (drop_bit PAGE_SHIFT (x + PAGE_SIZE - 1)) * 4096 \<le> 0x3FFF000"
    using room_pages(1) [OF b] div_le_mono [of "unat x + 8191" "0x3FFF000 + 8191" 4096] assms(2) by (simp add: vm_room_def)
  ultimately show thesis using that not0_implies_Suc by blast
qed

lemma boot_vmalloc:
  assumes "0 < sz" "unat sz \<le> 0x3FFF000"
  shows "vmalloc alloc_page free_page boot_pgd sz boot_vm = None"
  using boot_vm_inv(1)
proof (rule first_area)
  fix v s1 assume s1: "alloc_vm_struct boot_vm = (Some v, s1)" "vpt s1 = vpt boot_vm"
    "\<And>sz. unat sz \<le> 0x3FFF000 \<Longrightarrow> find_vmalloc_area sz s1 = Some VMALLOC_START"
  have z: "sz \<noteq> 0" "VMALLOC_START \<noteq> 0" "0 < unat sz" using assms(1) by (auto simp: VMALLOC_START_def word_less_nat_alt)
  obtain m where m: "unat (drop_bit PAGE_SHIFT (sz + PAGE_SIZE - 1)) = Suc m" using some_pages [OF z(3) assms(2)] .
  obtain page fr' where al: "alloc_page (page_init bss_buddy) = (page, fr')" by fastforce
  have p0: "page \<noteq> 0" using buddy_counted.falloc_avail [OF _ _ al] page_init_ok(1) by (auto simp: page_init_count)
  obtain t2 where t2: "map_page_4k alloc_page boot_pgd VMALLOC_START page PTE_KERNEL_RW ((enable_mmu boot_pt)\<lparr>frames := fr'\<rparr>) = (0, t2)"
    "go_on t2 = None" using boot_map_faults [OF refl] by blast
  have "frames (enable_mmu boot_pt) = page_init bss_buddy" by (simp add: enable_mmu_def sfence_def boot_pt_def boot_frames)
  then have "vmalloc_pages alloc_page free_page boot_pgd VMALLOC_START 0 (Suc m) (enable_mmu boot_pt) = None"
    using al p0 t2 by simp
  then show ?thesis using boot_vm_inv(2,3) s1(1,2) s1(3) [OF assms(2)] z
    unfolding vmalloc_def vmalloc_flags_def Let_def by (simp only: m upd_vm_simps) simp
qed

lemma boot_ioremap:
  assumes "0 < sz" "unat sz + unat (phys AND (PAGE_SIZE - 1)) \<le> 0x3FFF000"
  shows "ioremap alloc_page boot_pgd phys sz boot_vm = None"
  using boot_vm_inv(1)
proof (rule first_area)
  fix v s1 assume s1: "alloc_vm_struct boot_vm = (Some v, s1)" "vpt s1 = vpt boot_vm"
    "\<And>sz. unat sz \<le> 0x3FFF000 \<Longrightarrow> find_vmalloc_area sz s1 = Some VMALLOC_START"
  let ?x = "sz + (phys AND (PAGE_SIZE - 1))"
  let ?n = "drop_bit PAGE_SHIFT (?x + PAGE_SIZE - 1)"
  have z: "sz \<noteq> 0" "VMALLOC_START \<noteq> 0" "0 < unat sz" using assms(1) by (auto simp: VMALLOC_START_def word_less_nat_alt)
  have "unat ?x = unat sz + unat (phys AND (PAGE_SIZE - 1))" using assms(2) unat_add_small [of sz "unat (phys AND (PAGE_SIZE - 1))"] by simp
  then have "0 < unat ?x" "unat ?x \<le> 0x3FFF000" using z(3) assms(2) by simp_all
  then obtain m where m: "unat ?n = Suc m" "unat ?n * 4096 \<le> 0x3FFF000" by (rule some_pages)
  then have "unat (?n * PAGE_SIZE) \<le> 0x3FFF000" using room_exact(1) [of ?n] by simp
  note f = s1(3) [OF this]
  obtain t2 where t2: "map_page_4k alloc_page boot_pgd VMALLOC_START (page_align phys) PTE_KERNEL_RW (enable_mmu boot_pt) = (0, t2)"
    "go_on t2 = None" by (rule boot_map_faults [of "enable_mmu boot_pt" "frames (enable_mmu boot_pt)"]) simp_all
  then have "ioremap_pages alloc_page boot_pgd VMALLOC_START (page_align phys) 0 (Suc m) (enable_mmu boot_pt) = None" by simp
  then show ?thesis using boot_vm_inv(2,3) s1(1,2) f z
    unfolding ioremap_def Let_def by (simp only: m upd_vm_simps) simp
qed

text \<open>
  C23: on the booted kernel \<open>vmalloc\<close> faults for every size it has room for, and so does \<open>ioremap\<close>.  The region lies in the
  gigabyte that \<open>pgtable_init\<close> maps with one entry; mapping the first page replaces that
  entry by one that is not executable, so the kernel cannot fetch its next instruction.
\<close>

theorem vmalloc_faults_after_boot:
  assumes "0 < sz" "unat sz \<le> 0x3FFF000"
  shows "vmalloc alloc_page free_page boot_pgd sz boot_vm = None
    \<and> (\<forall>phys. unat sz + unat (phys AND (PAGE_SIZE - 1)) \<le> 0x3FFF000 \<longrightarrow> ioremap alloc_page boot_pgd phys sz boot_vm = None)"
  using boot_vmalloc [OF assms] boot_ioremap [OF assms(1)] by blast

theorem vmalloc_faults_after_boot_witness:
  "vmalloc alloc_page free_page boot_pgd 100 boot_vm = None \<and> ioremap alloc_page boot_pgd 0x10000000 100 boot_vm = None"
proof -
  have "0 < (100::u64)" "unat (100::u64) \<le> 0x3FFF000" by simp_all
  from vmalloc_faults_after_boot [OF this] show ?thesis by (auto dest: spec [of _ "0x10000000"])
qed

end
