(* ===== verification/Slab.thy ===== *)
theory Slab
  imports DLink FrameSource
begin

text \<open>
  The slab allocator and \<^verbatim>\<open>kmalloc\<close>, \<^verbatim>\<open>arch/riscv64/mm/slab.c\<close>.

  A \<^verbatim>\<open>struct slab *\<close> is the address of its page and an object is its address; \<open>None\<close> is
  \<^verbatim>\<open>NULL\<close>.  \<open>hdr\<close> holds the headers at the start of the pages, \<open>link\<close> the first word of each
  object, which is the free-list pointer of a free object.  A \<^verbatim>\<open>struct slab_cache *\<close> is an
  index into \<^verbatim>\<open>all_caches\<close>; a pointer that is not into that array (\<^verbatim>\<open>NULL\<close>, or whatever a
  page that is no slab holds there) is \<open>None\<close>.  \<^verbatim>\<open>alloc_page\<close> and \<^verbatim>\<open>free_page\<close> are arguments.
  A run that follows a \<^verbatim>\<open>NULL\<close> pointer, or does not end, has the value \<open>None\<close>.
\<close>

unbundle bit_operations_syntax

subsection \<open>Data\<close>

definition MAX_SLAB_CACHES :: nat where "MAX_SLAB_CACHES = 16"
definition MIN_OBJ_SIZE :: u64 where "MIN_OBJ_SIZE = 8"

text \<open>\<^verbatim>\<open>sizeof(struct slab)\<close>: four pointers and two \<^verbatim>\<open>unsigned int\<close>.\<close>

definition sizeof_slab :: u64 where "sizeof_slab = 40"

record slab =
  sl_next :: "u64 option"
  sl_prev :: "u64 option"
  sl_cache :: "nat option"
  sl_free_list :: "u64 option"
  sl_inuse :: u32
  sl_total :: u32

record slab_cache =
  sc_name :: string
  sc_obj_size :: u64
  sc_align :: u64
  sc_objs_per_slab :: u32
  sc_slab_count :: u32
  sc_partial :: "u64 option"
  sc_full :: "u64 option"
  sc_empty :: "u64 option"
  sc_total_allocs :: u64
  sc_total_frees :: u64

record 's slabs =
  hdr :: "u64 \<Rightarrow> slab"
  link :: "u64 \<Rightarrow> u64 option"
  all_caches :: "nat \<Rightarrow> slab_cache"
  num_caches :: nat
  kmalloc_caches :: "nat \<Rightarrow> nat option"
  slab_initialized :: bool
  sframes :: 's

datatype slab_list = Partial | Full | Empty

definition upd_hdr :: "u64 \<Rightarrow> (slab \<Rightarrow> slab) \<Rightarrow> 's slabs \<Rightarrow> 's slabs" where
  "upd_hdr p f s = s\<lparr>hdr := (hdr s)(p := f (hdr s p))\<rparr>"

definition upd_cache :: "nat \<Rightarrow> (slab_cache \<Rightarrow> slab_cache) \<Rightarrow> 's slabs \<Rightarrow> 's slabs" where
  "upd_cache c f s = s\<lparr>all_caches := (all_caches s)(c := f (all_caches s c))\<rparr>"

definition set_link :: "u64 \<Rightarrow> u64 option \<Rightarrow> 's slabs \<Rightarrow> 's slabs" where
  "set_link x v s = s\<lparr>link := (link s)(x := v)\<rparr>"

fun list_head :: "slab_list \<Rightarrow> slab_cache \<Rightarrow> u64 option" where
  "list_head Partial sc = sc_partial sc"
| "list_head Full sc = sc_full sc"
| "list_head Empty sc = sc_empty sc"

fun set_list_head :: "slab_list \<Rightarrow> u64 option \<Rightarrow> slab_cache \<Rightarrow> slab_cache" where
  "set_list_head Partial v sc = sc\<lparr>sc_partial := v\<rparr>"
| "set_list_head Full v sc = sc\<lparr>sc_full := v\<rparr>"
| "set_list_head Empty v sc = sc\<lparr>sc_empty := v\<rparr>"

subsection \<open>Slabs\<close>

definition slab_base :: "u64 \<Rightarrow> slab_cache \<Rightarrow> u64" where
  "slab_base p sc = (p + sizeof_slab + sc_align sc - 1) AND NOT (sc_align sc - 1)"

text \<open>
  The loop of \<^verbatim>\<open>slab_init_objs\<close>: \<^verbatim>\<open>prev_ptr\<close> is the header's \<^verbatim>\<open>free_list\<close> (\<open>None\<close>) or the
  object written last.
\<close>

definition store_prev :: "u64 \<Rightarrow> u64 option \<Rightarrow> u64 option \<Rightarrow> 's slabs \<Rightarrow> 's slabs" where
  "store_prev p prev_ptr v s =
     (case prev_ptr of
        None \<Rightarrow> upd_hdr p (\<lambda>h. h\<lparr>sl_free_list := v\<rparr>) s
      | Some x \<Rightarrow> set_link x v s)"

fun init_objs_loop :: "u64 \<Rightarrow> u64 \<Rightarrow> u64 \<Rightarrow> nat \<Rightarrow> nat \<Rightarrow> u64 option \<Rightarrow> 's slabs \<Rightarrow> u64 option \<times> 's slabs" where
  "init_objs_loop p base obj_size i 0 prev_ptr s = (prev_ptr, s)"
| "init_objs_loop p base obj_size i (Suc n) prev_ptr s =
     (let obj_addr = base + of_nat i * obj_size
      in init_objs_loop p base obj_size (Suc i) n (Some obj_addr) (store_prev p prev_ptr (Some obj_addr) s))"

definition slab_init_objs :: "u64 \<Rightarrow> nat \<Rightarrow> 's slabs \<Rightarrow> 's slabs" where
  "slab_init_objs p c s =
     (let sc = all_caches s c;
          (prev_ptr, s1) = init_objs_loop p (slab_base p sc) (sc_obj_size sc) 0
                             (unat (sc_objs_per_slab sc)) None s;
          s2 = store_prev p prev_ptr None s1
      in upd_hdr p (\<lambda>h. h\<lparr>sl_inuse := 0, sl_total := sc_objs_per_slab sc\<rparr>) s2)"

definition slab_alloc :: "('s \<Rightarrow> u64 \<times> 's) \<Rightarrow> nat \<Rightarrow> 's slabs \<Rightarrow> u64 option \<times> 's slabs" where
  "slab_alloc alloc c s =
     (let (page, fr) = alloc (sframes s);
          s1 = s\<lparr>sframes := fr\<rparr>
      in if page = 0 then (None, s1)
         else
           (let s2 = upd_hdr page (\<lambda>h. h\<lparr>sl_next := None, sl_prev := None, sl_cache := Some c\<rparr>) s1;
                s3 = slab_init_objs page c s2;
                s4 = upd_cache c (\<lambda>sc. sc\<lparr>sc_slab_count := sc_slab_count sc + 1\<rparr>) s3
            in (Some page, s4)))"

definition slab_free :: "(u64 \<Rightarrow> 's \<Rightarrow> 's) \<Rightarrow> u64 \<Rightarrow> 's slabs \<Rightarrow> 's slabs option" where
  "slab_free free p s =
     (case sl_cache (hdr s p) of
        None \<Rightarrow> None
      | Some c \<Rightarrow>
          (let s1 = upd_cache c (\<lambda>sc. sc\<lparr>sc_slab_count := sc_slab_count sc - 1\<rparr>) s
           in Some (s1\<lparr>sframes := free p (sframes s1)\<rparr>)))"

definition slab_list_add :: "nat \<Rightarrow> slab_list \<Rightarrow> u64 \<Rightarrow> 's slabs \<Rightarrow> 's slabs" where
  "slab_list_add c l p s =
     (let h = list_head l (all_caches s c);
          s1 = upd_hdr p (\<lambda>x. x\<lparr>sl_prev := None, sl_next := h\<rparr>) s;
          s2 = (case h of None \<Rightarrow> s1 | Some q \<Rightarrow> upd_hdr q (\<lambda>x. x\<lparr>sl_prev := Some p\<rparr>) s1)
      in upd_cache c (set_list_head l (Some p)) s2)"

definition slab_list_remove :: "nat \<Rightarrow> slab_list \<Rightarrow> u64 \<Rightarrow> 's slabs \<Rightarrow> 's slabs" where
  "slab_list_remove c l p s =
     (let s1 = (case sl_prev (hdr s p) of
                  Some q \<Rightarrow> upd_hdr q (\<lambda>x. x\<lparr>sl_next := sl_next (hdr s p)\<rparr>) s
                | None \<Rightarrow> upd_cache c (set_list_head l (sl_next (hdr s p))) s);
          s2 = (case sl_next (hdr s1 p) of
                  Some q \<Rightarrow> upd_hdr q (\<lambda>x. x\<lparr>sl_prev := sl_prev (hdr s1 p)\<rparr>) s1
                | None \<Rightarrow> s1)
      in upd_hdr p (\<lambda>x. x\<lparr>sl_next := None, sl_prev := None\<rparr>) s2)"

subsection \<open>Caches\<close>

definition kmem_cache_create :: "string \<Rightarrow> u64 \<Rightarrow> 's slabs \<Rightarrow> nat option \<times> 's slabs" where
  "kmem_cache_create name sz s =
     (if num_caches s \<ge> MAX_SLAB_CACHES then (None, s)
      else
        (let c = num_caches s;
             s1 = s\<lparr>num_caches := num_caches s + 1\<rparr>;
             obj_size = (if sz < MIN_OBJ_SIZE then MIN_OBJ_SIZE else sz);
             obj_size = (obj_size + 7) AND NOT 7;
             s2 = upd_cache c (\<lambda>sc. sc\<lparr>sc_name := name, sc_obj_size := obj_size, sc_align := 8\<rparr>) s1;
             usable_space = PAGE_SIZE - sizeof_slab;
             usable_space = usable_space AND NOT (sc_align (all_caches s2 c) - 1);
             s3 = upd_cache c (\<lambda>sc. sc\<lparr>sc_objs_per_slab := ucast (usable_space div obj_size)\<rparr>) s2
         in if sc_objs_per_slab (all_caches s3 c) = 0
            then (None, s3\<lparr>num_caches := num_caches s3 - 1\<rparr>)
            else (Some c, upd_cache c (\<lambda>sc. sc\<lparr>sc_slab_count := 0, sc_partial := None, sc_full := None,
                            sc_empty := None, sc_total_allocs := 0, sc_total_frees := 0\<rparr>) s3)))"

partial_function (option) destroy_loop :: "(u64 \<Rightarrow> 's \<Rightarrow> 's) \<Rightarrow> u64 option \<Rightarrow> 's slabs \<Rightarrow> 's slabs option" where
  "destroy_loop free p s =
     (case p of
        None \<Rightarrow> Some s
      | Some q \<Rightarrow>
          Option.bind (slab_free free q s) (destroy_loop free (sl_next (hdr s q))))"

definition kmem_cache_destroy :: "(u64 \<Rightarrow> 's \<Rightarrow> 's) \<Rightarrow> nat \<Rightarrow> 's slabs \<Rightarrow> 's slabs option" where
  "kmem_cache_destroy free c s =
     do {
       s1 \<leftarrow> destroy_loop free (sc_partial (all_caches s c)) s;
       s2 \<leftarrow> destroy_loop free (sc_full (all_caches s1 c)) s1;
       s3 \<leftarrow> destroy_loop free (sc_empty (all_caches s2 c)) s2;
       Some (upd_cache c (\<lambda>sc. sc\<lparr>sc_partial := None, sc_full := None, sc_empty := None\<rparr>) s3)
     }"

text \<open>\<^verbatim>\<open>kmem_cache_alloc\<close>: first the slab to take from, then the object.\<close>

definition find_slab :: "('s \<Rightarrow> u64 \<times> 's) \<Rightarrow> nat \<Rightarrow> 's slabs \<Rightarrow> u64 option \<times> 's slabs" where
  "find_slab alloc c s =
     (case sc_partial (all_caches s c) of
        Some p \<Rightarrow> (Some p, s)
      | None \<Rightarrow>
          (case sc_empty (all_caches s c) of
             Some p \<Rightarrow> (Some p, slab_list_add c Partial p (slab_list_remove c Empty p s))
           | None \<Rightarrow>
               (case slab_alloc alloc c s of
                  (None, s1) \<Rightarrow> (None, s1)
                | (Some p, s1) \<Rightarrow> (Some p, slab_list_add c Partial p s1))))"

definition take_object :: "nat \<Rightarrow> u64 \<Rightarrow> 's slabs \<Rightarrow> (u64 option \<times> 's slabs) option" where
  "take_object c p s =
     (case sl_free_list (hdr s p) of
        None \<Rightarrow> None
      | Some x \<Rightarrow>
          (let s1 = upd_hdr p (\<lambda>h. h\<lparr>sl_free_list := link s x, sl_inuse := sl_inuse h + 1\<rparr>) s;
               s2 = (if sl_inuse (hdr s1 p) = sl_total (hdr s1 p)
                     then slab_list_add c Full p (slab_list_remove c Partial p s1) else s1)
           in Some (Some x, upd_cache c (\<lambda>sc. sc\<lparr>sc_total_allocs := sc_total_allocs sc + 1\<rparr>) s2)))"

definition kmem_cache_alloc ::
  "('s \<Rightarrow> u64 \<times> 's) \<Rightarrow> nat option \<Rightarrow> 's slabs \<Rightarrow> (u64 option \<times> 's slabs) option" where
  "kmem_cache_alloc alloc cache s =
     (case cache of
        None \<Rightarrow> Some (None, s)
      | Some c \<Rightarrow>
          (case find_slab alloc c s of
             (None, s1) \<Rightarrow> Some (None, s1)
           | (Some p, s1) \<Rightarrow> take_object c p s1))"

definition kmem_cache_free ::
  "(u64 \<Rightarrow> 's \<Rightarrow> 's) \<Rightarrow> nat option \<Rightarrow> u64 option \<Rightarrow> 's slabs \<Rightarrow> 's slabs option" where
  "kmem_cache_free free cache obj s =
     (case (cache, obj) of
        (Some c, Some x) \<Rightarrow>
          (let p = x AND NOT (PAGE_SIZE - 1)
           in if sl_cache (hdr s p) \<noteq> Some c then Some s
              else
                (let was_full = (sl_inuse (hdr s p) = sl_total (hdr s p));
                     s1 = set_link x (sl_free_list (hdr s p)) s;
                     s2 = upd_hdr p (\<lambda>h. h\<lparr>sl_free_list := Some x, sl_inuse := sl_inuse h - 1\<rparr>) s1;
                     done = upd_cache c (\<lambda>sc. sc\<lparr>sc_total_frees := sc_total_frees sc + 1\<rparr>)
                 in if was_full
                    then Some (done (slab_list_add c Partial p (slab_list_remove c Full p s2)))
                    else if sl_inuse (hdr s2 p) = 0
                    then
                      (let s3 = slab_list_remove c Partial p s2
                       in if sc_empty (all_caches s3 c) = None
                          then Some (done (slab_list_add c Empty p s3))
                          else map_option done (slab_free free p s3))
                    else Some (done s2)))
      | _ \<Rightarrow> Some s)"

subsection \<open>kmalloc\<close>

definition kmalloc_index :: "u64 \<Rightarrow> int" where
  "kmalloc_index sz =
     (if sz \<le> 32 then 0 else if sz \<le> 64 then 1 else if sz \<le> 128 then 2 else if sz \<le> 256 then 3
      else if sz \<le> 512 then 4 else if sz \<le> 1024 then 5 else if sz \<le> 2048 then 6 else if sz \<le> 4096 then 7
      else -1)"

definition page_ptr :: "('s \<Rightarrow> u64 \<times> 's) \<Rightarrow> 's slabs \<Rightarrow> u64 option \<times> 's slabs" where
  "page_ptr alloc s =
     (let (page, fr) = alloc (sframes s)
      in (if page = 0 then None else Some page, s\<lparr>sframes := fr\<rparr>))"

definition kmalloc :: "('s \<Rightarrow> u64 \<times> 's) \<Rightarrow> u64 \<Rightarrow> 's slabs \<Rightarrow> (u64 option \<times> 's slabs) option" where
  "kmalloc alloc sz s =
     (if sz = 0 then Some (None, s)
      else if \<not> slab_initialized s
      then (if sz \<le> PAGE_SIZE then Some (page_ptr alloc s) else Some (None, s))
      else
        (let index = kmalloc_index sz
         in if index < 0
            then
              (let pages_needed = (sz + PAGE_SIZE - 1) div PAGE_SIZE
               in if pages_needed = 1 then Some (page_ptr alloc s) else Some (None, s))
            else
              (case kmalloc_caches s (nat index) of
                 None \<Rightarrow> Some (None, s)
               | Some c \<Rightarrow> kmem_cache_alloc alloc (Some c) s)))"

definition kfree :: "(u64 \<Rightarrow> 's \<Rightarrow> 's) \<Rightarrow> u64 option \<Rightarrow> 's slabs \<Rightarrow> 's slabs option" where
  "kfree free ptr s =
     (case ptr of
        None \<Rightarrow> Some s
      | Some x \<Rightarrow>
          (let p = x AND NOT (PAGE_SIZE - 1)
           in if \<not> slab_initialized s then Some (s\<lparr>sframes := free p (sframes s)\<rparr>)
              else
                (case sl_cache (hdr s p) of
                   Some c \<Rightarrow> if c < MAX_SLAB_CACHES then kmem_cache_free free (Some c) (Some x) s
                             else Some (s\<lparr>sframes := free p (sframes s)\<rparr>)
                 | None \<Rightarrow> Some (s\<lparr>sframes := free p (sframes s)\<rparr>))))"

text \<open>\<^verbatim>\<open>kmalloc_verify\<close> counts the slabs that sit on the wrong list.\<close>

partial_function (option) verify_loop :: "(slab \<Rightarrow> int) \<Rightarrow> u64 option \<Rightarrow> 's slabs \<Rightarrow> int \<Rightarrow> int option" where
  "verify_loop chk p s errors =
     (case p of
        None \<Rightarrow> Some errors
      | Some q \<Rightarrow> verify_loop chk (sl_next (hdr s q)) s (errors + chk (hdr s q)))"

definition verify_cache :: "nat \<Rightarrow> 's slabs \<Rightarrow> int \<Rightarrow> int option" where
  "verify_cache c s errors =
     do {
       e1 \<leftarrow> verify_loop (\<lambda>h. (if sl_cache h \<noteq> Some c then 1 else 0) + (if sl_inuse h \<ge> sl_total h then 1 else 0)
                           + (if sl_inuse h = 0 then 1 else 0)) (sc_partial (all_caches s c)) s errors;
       e2 \<leftarrow> verify_loop (\<lambda>h. if sl_inuse h \<noteq> sl_total h then 1 else 0) (sc_full (all_caches s c)) s e1;
       verify_loop (\<lambda>h. if sl_inuse h \<noteq> 0 then 1 else 0) (sc_empty (all_caches s c)) s e2
     }"

definition kmalloc_verify :: "'s slabs \<Rightarrow> int option" where
  "kmalloc_verify s =
     fold (\<lambda>i acc. Option.bind acc (\<lambda>errors.
             case kmalloc_caches s i of None \<Rightarrow> Some errors | Some c \<Rightarrow> verify_cache c s errors))
       [0..<8] (Some 0)"

definition kmem_init :: "'s slabs \<Rightarrow> 's slabs" where
  "kmem_init s =
     (fold (\<lambda>(i, name, sz) t.
              let (c, t1) = kmem_cache_create name sz t
              in t1\<lparr>kmalloc_caches := (kmalloc_caches t1)(i := c)\<rparr>)
        [(0, ''size-32'', 32), (1, ''size-64'', 64), (2, ''size-128'', 128), (3, ''size-256'', 256),
         (4, ''size-512'', 512), (5, ''size-1024'', 1024), (6, ''size-2048'', 2048), (7, ''size-4096'', 4096)]
        s)\<lparr>slab_initialized := True\<rparr>"

end
