(* ===== verification/SlabInv.thy ===== *)
theory SlabInv
  imports Slab BuddyAlloc
begin

text \<open>
  The invariant of the slab allocator: every slab is on the list of its cache that fits
  its fill, its free objects are chained through their first words, and the pages are
  distinct frames of the page allocator.  The live objects are those of the slabs that
  are not on a free chain.
\<close>

unbundle bit_operations_syntax

subsection \<open>Where the objects of a slab are\<close>

definition geom :: "slab_cache \<Rightarrow> bool" where
  "geom sc \<longleftrightarrow> sc_align sc = 8 \<and> 8 \<le> unat (sc_obj_size sc) \<and> 0 < unat (sc_objs_per_slab sc)
     \<and> unat (sc_objs_per_slab sc) * unat (sc_obj_size sc) \<le> 4056"

definition obj_at :: "slab_cache \<Rightarrow> u64 \<Rightarrow> nat \<Rightarrow> u64" where
  "obj_at sc p i = slab_base p sc + of_nat i * sc_obj_size sc"

definition objs :: "slab_cache \<Rightarrow> u64 \<Rightarrow> u64 set" where
  "objs sc p = obj_at sc p ` {..<unat (sc_objs_per_slab sc)}"

lemma slab_base_eq:
  assumes "geom sc" "4096 dvd unat p" "unat p < 2 ^ 56"
  shows "slab_base p sc = p + 40"
proof -
  have m: "(8 - 1 :: u64) = mask 3" by (simp add: mask_eq_exp_minus_1)
  have e: "p + sizeof_slab + 8 - 1 = p + of_nat 47" by (simp add: sizeof_slab_def)
  have u: "unat (p + of_nat 47) = unat p + 47" "unat (p + of_nat 40) = unat p + 40"
    using assms(3) by (intro unat_add_small; simp)+
  obtain k where k: "unat p = 4096 * k" using assms(2) by blast
  have "(unat p + 47) mod 2 ^ 3 = 7"
  proof -
    have "unat p + 47 = 7 + (512 * k + 5) * 2 ^ 3" unfolding k by simp
    then have "(unat p + 47) mod 2 ^ 3 = (7 + (512 * k + 5) * 2 ^ 3) mod 2 ^ 3" by (simp only:)
    also have "\<dots> = 7 mod 2 ^ 3" by (rule mod_mult_self1)
    finally show ?thesis by simp
  qed
  then have x: "unat p + 47 - (unat p + 47) mod 2 ^ 3 = unat p + 40" by linarith
  have a: "sc_align sc = 8" using assms(1) by (simp add: geom_def)
  have "slab_base p sc = (p + of_nat 47) AND NOT (mask 3)"
    unfolding slab_base_def a m e ..
  then have "unat (slab_base p sc) = unat (p + of_nat 40)" by (simp only: clear_low_bits u x)
  then have "slab_base p sc = p + of_nat 40" by (simp only: word_unat_eq_iff)
  then show ?thesis by simp
qed


lemma obj_at_nat:
  assumes "geom sc" "4096 dvd unat p" "unat p < 2 ^ 56" "i < unat (sc_objs_per_slab sc)"
  shows "unat (obj_at sc p i) = unat p + 40 + i * unat (sc_obj_size sc)"
    and "40 + i * unat (sc_obj_size sc) + unat (sc_obj_size sc) \<le> 4096"
proof -
  have "Suc i * unat (sc_obj_size sc) \<le> unat (sc_objs_per_slab sc) * unat (sc_obj_size sc)"
    using assms(4) by (intro mult_le_mono1) simp
  then have b: "Suc i * unat (sc_obj_size sc) \<le> 4056" using assms(1) by (simp add: geom_def)
  then show "40 + i * unat (sc_obj_size sc) + unat (sc_obj_size sc) \<le> 4096" by simp
  have "(of_nat i * sc_obj_size sc :: u64) = of_nat (i * unat (sc_obj_size sc))" by simp
  then have "obj_at sc p i = p + of_nat (40 + i * unat (sc_obj_size sc))"
    unfolding obj_at_def slab_base_eq [OF assms(1-3)] by simp
  then show "unat (obj_at sc p i) = unat p + 40 + i * unat (sc_obj_size sc)"
    using b assms(3) unat_add_small [of p "40 + i * unat (sc_obj_size sc)"] by simp
qed

lemma obj_page:
  assumes "geom sc" "4096 dvd unat p" "unat p < 2 ^ 56" "x \<in> objs sc p"
  shows "x AND NOT (PAGE_SIZE - 1) = p"
proof -
  obtain i where i: "i < unat (sc_objs_per_slab sc)" "x = obj_at sc p i" using assms(4) by (auto simp: objs_def)
  note o = obj_at_nat [OF assms(1-3) i(1)]
  obtain k where k: "unat p = 4096 * k" using assms(2) by blast
  let ?r = "40 + i * unat (sc_obj_size sc)"
  have "?r < 4096" using o(2) assms(1) unfolding geom_def by linarith
  then have "(?r + k * 4096) mod 4096 = ?r" by simp
  then have "unat x mod 2 ^ 12 = ?r" unfolding i(2) o(1) k by (simp add: ac_simps)
  then have "unat (x AND NOT (mask 12)) = unat p" unfolding clear_low_bits i(2) o(1) by simp
  then have "x AND NOT (mask 12) = p" by (simp only: word_unat_eq_iff)
  moreover have "(PAGE_SIZE - 1 :: u64) = mask 12" by (simp add: mask_eq_exp_minus_1)
  ultimately show ?thesis by (simp only:)
qed

lemma obj_at_inj:
  assumes "geom sc" "4096 dvd unat p" "unat p < 2 ^ 56"
  shows "inj_on (obj_at sc p) {..<unat (sc_objs_per_slab sc)}"
proof (rule inj_onI)
  fix i j assume "i \<in> {..<unat (sc_objs_per_slab sc)}" "j \<in> {..<unat (sc_objs_per_slab sc)}"
    and "obj_at sc p i = obj_at sc p j"
  then have "unat p + 40 + i * unat (sc_obj_size sc) = unat p + 40 + j * unat (sc_obj_size sc)"
    using obj_at_nat(1) [OF assms, of i] obj_at_nat(1) [OF assms, of j] by (metis lessThan_iff)
  then show "i = j" using assms(1) by (simp add: geom_def)
qed

lemma objs_card: "geom sc \<Longrightarrow> 4096 dvd unat p \<Longrightarrow> unat p < 2 ^ 56 \<Longrightarrow> card (objs sc p) = unat (sc_objs_per_slab sc)"
  unfolding objs_def by (simp add: card_image obj_at_inj)

text \<open>Distinct objects of a slab occupy disjoint bytes, and all of them lie behind the header.\<close>

definition bytes :: "u64 \<Rightarrow> u64 \<Rightarrow> nat set" where
  "bytes x n = {unat x ..< unat x + unat n}"

lemma obj_bytes:
  assumes "geom sc" "4096 dvd unat p" "unat p < 2 ^ 56" "x \<in> objs sc p"
  shows "bytes x (sc_obj_size sc) \<subseteq> {unat p + 40 ..< unat p + 4096}"
    and "y \<in> objs sc p \<Longrightarrow> y \<noteq> x \<Longrightarrow> bytes x (sc_obj_size sc) \<inter> bytes y (sc_obj_size sc) = {}"
proof -
  let ?z = "unat (sc_obj_size sc)"
  obtain i where i: "i < unat (sc_objs_per_slab sc)" "x = obj_at sc p i" using assms(4) by (auto simp: objs_def)
  note o = obj_at_nat [OF assms(1-3) i(1)]
  show "bytes x (sc_obj_size sc) \<subseteq> {unat p + 40 ..< unat p + 4096}"
    using o unfolding bytes_def i(2) by auto
  assume "y \<in> objs sc p" "y \<noteq> x"
  then obtain j where j: "j < unat (sc_objs_per_slab sc)" "y = obj_at sc p j" "j \<noteq> i"
    using i(2) by (auto simp: objs_def)
  note o' = obj_at_nat [OF assms(1-3) j(1)]
  have "Suc i * ?z \<le> j * ?z \<or> Suc j * ?z \<le> i * ?z"
    using j(3) by (cases "i < j") (auto simp del: mult_Suc intro!: mult_le_mono1)
  then show "bytes x (sc_obj_size sc) \<inter> bytes y (sc_obj_size sc) = {}"
    unfolding bytes_def i(2) j(2) o(1) o'(1) by auto
qed

subsection \<open>The invariant\<close>

type_synonym slabs_of = "nat \<times> slab_list \<Rightarrow> u64 list"

definition heads :: "'s slabs \<Rightarrow> nat \<times> slab_list \<Rightarrow> u64 option" where
  "heads s k = (if fst k < num_caches s then list_head (snd k) (all_caches s (fst k)) else None)"

definition slab_lists :: "'s slabs \<Rightarrow> slabs_of \<Rightarrow> bool" where
  "slab_lists s G \<longleftrightarrow> dlls (\<lambda>p. sl_next (hdr s p)) (\<lambda>p. sl_prev (hdr s p)) (heads s) G"

definition slab_ok :: "'s slabs \<Rightarrow> nat \<Rightarrow> u64 \<Rightarrow> u64 list \<Rightarrow> bool" where
  "slab_ok s c p xs \<longleftrightarrow> sl_cache (hdr s p) = Some c
     \<and> sl_total (hdr s p) = sc_objs_per_slab (all_caches s c)
     \<and> chain (link s) (sl_free_list (hdr s p)) xs \<and> distinct xs
     \<and> set xs \<subseteq> objs (all_caches s c) p
     \<and> unat (sl_inuse (hdr s p)) + length xs = unat (sl_total (hdr s p))"

text \<open>
  The fill a list stands for.  A slab with a single object goes from full straight to
  unused and stays on the partial list.  The slabs in \<open>X\<close> are being moved.
\<close>

fun place :: "slab_list \<Rightarrow> slab \<Rightarrow> u64 list \<Rightarrow> bool" where
  "place Partial h xs \<longleftrightarrow> xs \<noteq> [] \<and> (sl_inuse h = 0 \<longrightarrow> sl_total h = 1)"
| "place Full h xs \<longleftrightarrow> xs = []"
| "place Empty h xs \<longleftrightarrow> sl_inuse h = 0"

definition slab_total :: "slabs_of \<Rightarrow> nat \<Rightarrow> nat" where
  "slab_total G c = length (G (c, Partial)) + length (G (c, Full)) + length (G (c, Empty))"

definition srep ::
  "('s \<Rightarrow> bool) \<Rightarrow> ('s \<Rightarrow> u64 set) \<Rightarrow> u64 set \<Rightarrow> 's slabs \<Rightarrow> slabs_of \<Rightarrow> (u64 \<Rightarrow> u64 list) \<Rightarrow> bool" where
  "srep fok owned X s G fs \<longleftrightarrow>
     fok (sframes s) \<and> num_caches s \<le> MAX_SLAB_CACHES \<and> slab_lists s G
     \<and> (\<forall>c < num_caches s. geom (all_caches s c) \<and> sc_slab_count (all_caches s c) = of_nat (slab_total G c))
     \<and> (\<forall>c l p. p \<in> set (G (c, l)) \<longrightarrow>
          c < num_caches s \<and> p \<in> owned (sframes s) \<and> slab_ok s c p (fs p)
          \<and> (p \<in> X \<or> place l (hdr s p) (fs p)))"

definition live_objs :: "'s slabs \<Rightarrow> slabs_of \<Rightarrow> (u64 \<Rightarrow> u64 list) \<Rightarrow> (nat \<times> u64) set" where
  "live_objs s G fs = {(c, x). \<exists>l. \<exists>p \<in> set (G (c, l)). x \<in> objs (all_caches s c) p - set (fs p)}"

definition slab_inv ::
  "('s \<Rightarrow> bool) \<Rightarrow> ('s \<Rightarrow> u64 set) \<Rightarrow> 's slabs \<Rightarrow> (nat \<times> u64) set \<Rightarrow> bool" where
  "slab_inv fok owned s L \<longleftrightarrow> (\<exists>G fs. srep fok owned {} s G fs \<and> L = live_objs s G fs)"

subsection \<open>What the list operations leave alone\<close>

named_theorems slab_simps \<open>fields after the low-level operations\<close>

lemma upd_hdr_simps [slab_simps]:
  "hdr (upd_hdr p f s) = (hdr s)(p := f (hdr s p))" "link (upd_hdr p f s) = link s"
  "all_caches (upd_hdr p f s) = all_caches s" "num_caches (upd_hdr p f s) = num_caches s"
  "kmalloc_caches (upd_hdr p f s) = kmalloc_caches s" "slab_initialized (upd_hdr p f s) = slab_initialized s"
  "sframes (upd_hdr p f s) = sframes s"
  by (simp_all add: upd_hdr_def)

lemma upd_cache_simps [slab_simps]:
  "hdr (upd_cache c g s) = hdr s" "link (upd_cache c g s) = link s"
  "all_caches (upd_cache c g s) = (all_caches s)(c := g (all_caches s c))"
  "num_caches (upd_cache c g s) = num_caches s"
  "kmalloc_caches (upd_cache c g s) = kmalloc_caches s" "slab_initialized (upd_cache c g s) = slab_initialized s"
  "sframes (upd_cache c g s) = sframes s"
  by (simp_all add: upd_cache_def)

lemma set_link_simps [slab_simps]:
  "hdr (set_link x v s) = hdr s" "link (set_link x v s) = (link s)(x := v)"
  "all_caches (set_link x v s) = all_caches s" "num_caches (set_link x v s) = num_caches s"
  "kmalloc_caches (set_link x v s) = kmalloc_caches s" "slab_initialized (set_link x v s) = slab_initialized s"
  "sframes (set_link x v s) = sframes s"
  by (simp_all add: set_link_def)

lemma set_list_head_simps [slab_simps, simp]:
  "sc_obj_size (set_list_head l v sc) = sc_obj_size sc" "sc_align (set_list_head l v sc) = sc_align sc"
  "sc_objs_per_slab (set_list_head l v sc) = sc_objs_per_slab sc"
  "sc_slab_count (set_list_head l v sc) = sc_slab_count sc"
  "list_head l' (set_list_head l v sc) = (if l' = l then v else list_head l' sc)"
  by (cases l; simp; cases l'; simp)+

text \<open>Two states that differ only in the list pointers.\<close>

definition same_body :: "'s slabs \<Rightarrow> 's slabs \<Rightarrow> bool" where
  "same_body s s' \<longleftrightarrow>
     (\<forall>p. sl_cache (hdr s' p) = sl_cache (hdr s p) \<and> sl_free_list (hdr s' p) = sl_free_list (hdr s p)
        \<and> sl_inuse (hdr s' p) = sl_inuse (hdr s p) \<and> sl_total (hdr s' p) = sl_total (hdr s p))
     \<and> link s' = link s \<and> num_caches s' = num_caches s \<and> kmalloc_caches s' = kmalloc_caches s
     \<and> slab_initialized s' = slab_initialized s \<and> sframes s' = sframes s
     \<and> (\<forall>c. sc_obj_size (all_caches s' c) = sc_obj_size (all_caches s c)
        \<and> sc_align (all_caches s' c) = sc_align (all_caches s c)
        \<and> sc_objs_per_slab (all_caches s' c) = sc_objs_per_slab (all_caches s c)
        \<and> sc_slab_count (all_caches s' c) = sc_slab_count (all_caches s c))"

lemma same_body_trans: "same_body s t \<Longrightarrow> same_body t u \<Longrightarrow> same_body s u"
  by (simp add: same_body_def)

lemma same_body_list_ops [simp]:
  "same_body s (slab_list_add c l p s)" "same_body s (slab_list_remove c l p s)"
  by (auto simp: same_body_def slab_list_add_def slab_list_remove_def Let_def slab_simps split: option.splits)

lemma objs_cong:
  "sc_obj_size sc' = sc_obj_size sc \<Longrightarrow> sc_align sc' = sc_align sc \<Longrightarrow>
   sc_objs_per_slab sc' = sc_objs_per_slab sc \<Longrightarrow> objs sc' = objs sc \<and> geom sc' = geom sc"
  by (simp add: objs_def obj_at_def [abs_def] slab_base_def geom_def fun_eq_iff)

lemma place_cong:
  "sl_inuse h' = sl_inuse h \<Longrightarrow> sl_total h' = sl_total h \<Longrightarrow> place l h' xs = place l h xs"
  by (cases l) auto

lemma slab_lists_add:
  assumes g: "slab_lists s G" and p: "\<And>k. p \<notin> set (G k)" and c: "c < num_caches s"
  shows "slab_lists (slab_list_add c l p s) (G((c, l) := p # G (c, l)))"
proof -
  let ?s = "slab_list_add c l p s"
  let ?h = "heads s (c, l)"
  have h: "?h = list_head l (all_caches s c)" using c by (simp add: heads_def)
  have hp: "?h \<noteq> Some p"
    using g p [of "(c, l)"] unfolding slab_lists_def dlls_def by (metis dll_first_in)
  have n: "sl_next (hdr ?s y) = (if y = p then ?h else sl_next (hdr s y))" for y
    unfolding h using hp [unfolded h] by (auto simp: slab_list_add_def Let_def slab_simps split: option.splits)
  have v: "sl_prev (hdr ?s y) = (if y = p then None else if Some y = ?h then Some p else sl_prev (hdr s y))" for y
    unfolding h using hp [unfolded h] by (auto simp: slab_list_add_def Let_def slab_simps split: option.splits)
  have "heads ?s = (heads s)((c, l) := Some p)"
    using c by (auto simp: heads_def fun_eq_iff slab_list_add_def Let_def slab_simps split: option.splits)
  then show ?thesis using dlls_add [OF g [unfolded slab_lists_def] p n v] by (simp add: slab_lists_def)
qed

lemma slab_lists_remove:
  assumes g: "slab_lists s G" and p: "p \<in> set (G (c, l))"
  shows "slab_lists (slab_list_remove c l p s) (G((c, l) := remove1 p (G (c, l))))"
proof -
  let ?s = "slab_list_remove c l p s"
  have d: "dll (\<lambda>p. sl_next (hdr s p)) (\<lambda>p. sl_prev (hdr s p)) None (heads s (c, l)) (G (c, l))"
    using g by (simp add: slab_lists_def dlls_def)
  have c: "c < num_caches s" using d p by (cases "c < num_caches s") (auto simp: heads_def)
  note nb = dll_neighbours [OF d p]
  have self: "sl_prev (hdr s p) \<noteq> Some p" "sl_next (hdr s p) \<noteq> Some p" using nb by auto
  have n: "sl_next (hdr ?s y) = (if sl_prev (hdr s p) = Some y then sl_next (hdr s p) else sl_next (hdr s y))"
    if "y \<noteq> p" for y
    using self that by (auto simp: slab_list_remove_def Let_def slab_simps split: option.splits)
  have v: "sl_prev (hdr ?s y) = (if sl_next (hdr s p) = Some y then sl_prev (hdr s p) else sl_prev (hdr s y))"
    if "y \<noteq> p" for y
    using self that by (auto simp: slab_list_remove_def Let_def slab_simps split: option.splits)
  have "heads ?s = (heads s)((c, l) := if sl_prev (hdr s p) = None then sl_next (hdr s p) else heads s (c, l))"
    using c by (auto simp: heads_def fun_eq_iff slab_list_remove_def Let_def slab_simps split: option.splits)
  then show ?thesis using dlls_remove [OF g [unfolded slab_lists_def] p n v] by (simp add: slab_lists_def)
qed

lemma srepD:
  assumes "srep fok owned X s G fs"
  shows "fok (sframes s)" "num_caches s \<le> MAX_SLAB_CACHES" "slab_lists s G"
    and "c < num_caches s \<Longrightarrow> geom (all_caches s c)"
    and "c < num_caches s \<Longrightarrow> sc_slab_count (all_caches s c) = of_nat (slab_total G c)"
    and "p \<in> set (G (c, l)) \<Longrightarrow> c < num_caches s"
    and "p \<in> set (G (c, l)) \<Longrightarrow> p \<in> owned (sframes s)"
    and "p \<in> set (G (c, l)) \<Longrightarrow> slab_ok s c p (fs p)"
    and "p \<in> set (G (c, l)) \<Longrightarrow> p \<notin> X \<Longrightarrow> place l (hdr s p) (fs p)"
  using assms unfolding srep_def by blast+

lemma slab_lists_disjoint:
  "slab_lists s G \<Longrightarrow> p \<in> set (G k) \<Longrightarrow> p \<in> set (G k') \<Longrightarrow> k = k'"
  unfolding slab_lists_def dlls_def by blast

lemma slab_lists_distinct: "slab_lists s G \<Longrightarrow> distinct (G k)"
  unfolding slab_lists_def dlls_def by (blast intro: dll_distinct)

lemma slab_head:
  assumes "slab_lists s G" "c < num_caches s"
  shows "list_head l (all_caches s c) = (case G (c, l) of [] \<Rightarrow> None | p # _ \<Rightarrow> Some p)"
proof -
  have "dll (\<lambda>p. sl_next (hdr s p)) (\<lambda>p. sl_prev (hdr s p)) None (heads s (c, l)) (G (c, l))"
    using assms(1) by (simp add: slab_lists_def dlls_def)
  from dll_head [OF this] show ?thesis using assms(2) by (simp add: heads_def)
qed

lemma slab_ok_body:
  assumes "same_body s s'"
  shows "slab_ok s' c p xs = slab_ok s c p xs" "objs (all_caches s' c) = objs (all_caches s c)"
    "geom (all_caches s' c) = geom (all_caches s c)" "place l (hdr s' p) xs = place l (hdr s p) xs"
proof -
  have b: "sl_cache (hdr s' p) = sl_cache (hdr s p)" "sl_free_list (hdr s' p) = sl_free_list (hdr s p)"
    "sl_inuse (hdr s' p) = sl_inuse (hdr s p)" "sl_total (hdr s' p) = sl_total (hdr s p)"
    "link s' = link s" "sc_obj_size (all_caches s' c) = sc_obj_size (all_caches s c)"
    "sc_align (all_caches s' c) = sc_align (all_caches s c)"
    "sc_objs_per_slab (all_caches s' c) = sc_objs_per_slab (all_caches s c)"
    using assms by (simp_all add: same_body_def)
  show o: "objs (all_caches s' c) = objs (all_caches s c)" "geom (all_caches s' c) = geom (all_caches s c)"
    using objs_cong [OF b(6,7,8)] by simp_all
  show "slab_ok s' c p xs = slab_ok s c p xs" unfolding slab_ok_def b o ..
  show "place l (hdr s' p) xs = place l (hdr s p) xs" by (rule place_cong [OF b(3,4)])
qed

definition move :: "slabs_of \<Rightarrow> nat \<Rightarrow> slab_list \<Rightarrow> slab_list \<Rightarrow> u64 \<Rightarrow> slabs_of" where
  "move G c l l' p = (G((c, l) := remove1 p (G (c, l))))((c, l') := p # G (c, l'))"

lemma move_set:
  assumes "p \<in> set (G (c, l))" "distinct (G (c, l))" "l \<noteq> l'"
  shows "q \<in> set (move G c l l' p k) \<longleftrightarrow> (if q = p then k = (c, l') \<or> (k \<noteq> (c, l) \<and> p \<in> set (G k)) else q \<in> set (G k))"
    "slab_total (move G c l l' p) d = slab_total G d"
proof -
  show "q \<in> set (move G c l l' p k) \<longleftrightarrow> (if q = p then k = (c, l') \<or> (k \<noteq> (c, l) \<and> p \<in> set (G k)) else q \<in> set (G k))"
    using assms by (auto simp: move_def)
  have "length (G (c, l)) = Suc (length (remove1 p (G (c, l))))"
    using assms(1) by (metis One_nat_def Suc_pred length_pos_if_in_set length_remove1)
  then show "slab_total (move G c l l' p) d = slab_total G d"
    using assms(3) by (cases l; cases l') (auto simp: move_def slab_total_def)
qed

lemma srep_move:
  assumes r: "srep fok owned X s G fs" and p: "p \<in> set (G (c, l))" "p \<in> X" and l: "l \<noteq> l'"
    and s': "s' = slab_list_add c l' p (slab_list_remove c l p s)"
  shows "srep fok owned X s' (move G c l l' p) fs" "same_body s s'"
    "live_objs s' (move G c l l' p) fs = live_objs s G fs"
proof -
  note d = srepD [OF r]
  let ?s1 = "slab_list_remove c l p s" and ?G1 = "G((c, l) := remove1 p (G (c, l)))"
  show b: "same_body s s'" unfolding s' by (rule same_body_trans [of _ ?s1]) simp_all
  have nc: "num_caches s' = num_caches s" "sframes s' = sframes s"
    "\<And>c. sc_slab_count (all_caches s' c) = sc_slab_count (all_caches s c)" using b by (simp_all add: same_body_def)
  have l1: "slab_lists ?s1 ?G1" by (rule slab_lists_remove [of s G p c l, OF d(3) p(1)])
  have "num_caches ?s1 = num_caches s" using same_body_list_ops(2) [of s c l p] by (simp add: same_body_def)
  then have c1: "c < num_caches ?s1" using d(6) [OF p(1)] by simp
  have np: "p \<notin> set (?G1 k)" for k
    using slab_lists_disjoint [OF d(3) p(1), of k] slab_lists_distinct [OF d(3), of "(c, l)"] by auto
  have l2: "slab_lists s' (move G c l l' p)"
    unfolding s' move_def using slab_lists_add [of ?s1 ?G1, OF l1 np c1, of l'] l by simp
  note ms = move_set [of p G c l, OF p(1) slab_lists_distinct [OF d(3), of "(c, l)"] l]
  have mem: "q \<in> set (move G c l l' p k) \<longleftrightarrow> (if q = p then k = (c, l') else q \<in> set (G k))" for q k
    unfolding ms(1) using slab_lists_disjoint [OF d(3) p(1), of k] by auto
  have each: "c2 < num_caches s' \<and> q \<in> owned (sframes s') \<and> slab_ok s' c2 q (fs q)
      \<and> (q \<in> X \<or> place l1 (hdr s' q) (fs q))" if q: "q \<in> set (move G c l l' p (c2, l1))" for q c2 l1
  proof (cases "q = p")
    case True
    with q have "c2 = c" by (simp add: mem)
    then show ?thesis
      unfolding nc slab_ok_body [OF b] using d(6,7,8) [OF p(1)] p(2) True by simp
  next
    case False
    with q have "q \<in> set (G (c2, l1))" by (simp add: mem)
    then show ?thesis unfolding nc slab_ok_body [OF b] using d(6,7,8,9) [of q c2 l1] by blast
  qed
  show "srep fok owned X s' (move G c l l' p) fs"
    unfolding srep_def
  proof (intro conjI allI impI)
    show "geom (all_caches s' d)" "sc_slab_count (all_caches s' d) = of_nat (slab_total (move G c l l' p) d)"
      if "d < num_caches s'" for d
      using that d(4,5) [of d] unfolding nc slab_ok_body [OF b] ms(2) by simp_all
  qed (use each l2 d(1,2) nc in simp_all)
  have ex: "(\<exists>l1. \<exists>q \<in> set (move G c l l' p (c2, l1)). P q) \<longleftrightarrow> (\<exists>l1. \<exists>q \<in> set (G (c2, l1)). P q)" for c2 P
  proof
    assume "\<exists>l1. \<exists>q \<in> set (move G c l l' p (c2, l1)). P q"
    then obtain l1 q where "q \<in> set (move G c l l' p (c2, l1))" "P q" by blast
    then show "\<exists>l1. \<exists>q \<in> set (G (c2, l1)). P q" using p(1) by (cases "q = p") (auto simp: mem)
  next
    assume "\<exists>l1. \<exists>q \<in> set (G (c2, l1)). P q"
    then obtain l1 q where q: "q \<in> set (G (c2, l1))" "P q" by blast
    then have "q = p \<Longrightarrow> c2 = c" using slab_lists_disjoint [OF d(3) p(1), of "(c2, l1)"] by simp
    then have "q \<in> set (move G c l l' p (c2, if q = p then l' else l1))" using q by (simp add: mem)
    with q(2) show "\<exists>l1. \<exists>q \<in> set (move G c l l' p (c2, l1)). P q" by blast
  qed
  show "live_objs s' (move G c l l' p) fs = live_objs s G fs"
    unfolding live_objs_def slab_ok_body(2) [OF b] ex ..
qed

lemma srep_settle:
  assumes r: "srep fok owned {p} s G fs" and p: "p \<in> set (G (c, l))" "place l (hdr s p) (fs p)"
  shows "srep fok owned {} s G fs"
proof -
  have "l2 = l" if "p \<in> set (G (c2, l2))" for c2 l2
    using slab_lists_disjoint [OF srepD(3) [OF r] p(1) that] by simp
  then show ?thesis using r p(2) unfolding srep_def by blast
qed

lemma srep_loosen: "srep fok owned {} s G fs \<Longrightarrow> srep fok owned X s G fs"
  unfolding srep_def by blast

text \<open>Counters of a cache that the invariant does not mention.\<close>

lemma srep_counters:
  assumes "\<And>sc. list_head Partial (g sc) = list_head Partial sc"
    "\<And>sc. list_head Full (g sc) = list_head Full sc" "\<And>sc. list_head Empty (g sc) = list_head Empty sc"
    "\<And>sc. sc_obj_size (g sc) = sc_obj_size sc" "\<And>sc. sc_align (g sc) = sc_align sc"
    "\<And>sc. sc_objs_per_slab (g sc) = sc_objs_per_slab sc" "\<And>sc. sc_slab_count (g sc) = sc_slab_count sc"
  shows "srep fok owned X (upd_cache c g s) G fs = srep fok owned X s G fs"
    "live_objs (upd_cache c g s) G fs = live_objs s G fs"
proof -
  let ?s = "upd_cache c g s"
  have b: "same_body s ?s" using assms(4-7) by (simp add: same_body_def slab_simps)
  have "list_head l (g sc) = list_head l sc" for l sc using assms(1-3) by (cases l) auto
  then have "heads ?s = heads s" by (auto simp: heads_def slab_simps fun_eq_iff)
  then have "slab_lists ?s G = slab_lists s G" by (simp add: slab_lists_def slab_simps)
  moreover have "\<And>d. sc_slab_count (all_caches ?s d) = sc_slab_count (all_caches s d)" "num_caches ?s = num_caches s"
    "sframes ?s = sframes s" using b by (simp_all add: same_body_def)
  ultimately show "srep fok owned X ?s G fs = srep fok owned X s G fs"
    unfolding srep_def slab_ok_body [OF b] by (simp only:)
  show "live_objs ?s G fs = live_objs s G fs" unfolding live_objs_def slab_ok_body(2) [OF b] ..
qed

text \<open>A change inside one slab: its free chain and its use count.\<close>

definition inside :: "'s slabs \<Rightarrow> 's slabs \<Rightarrow> nat \<Rightarrow> u64 \<Rightarrow> bool" where
  "inside s s' c p \<longleftrightarrow> (\<forall>q. q \<noteq> p \<longrightarrow> hdr s' q = hdr s q)
     \<and> sl_next (hdr s' p) = sl_next (hdr s p) \<and> sl_prev (hdr s' p) = sl_prev (hdr s p)
     \<and> (\<forall>y. y \<notin> objs (all_caches s c) p \<longrightarrow> link s' y = link s y)
     \<and> all_caches s' = all_caches s \<and> num_caches s' = num_caches s \<and> sframes s' = sframes s"

lemma inside_lists: "inside s s' c p \<Longrightarrow> slab_lists s' G = slab_lists s G"
proof -
  assume i: "inside s s' c p"
  then have "(\<lambda>q. sl_next (hdr s' q)) = (\<lambda>q. sl_next (hdr s q))" "(\<lambda>q. sl_prev (hdr s' q)) = (\<lambda>q. sl_prev (hdr s q))"
    "heads s' = heads s"
    by (auto simp: inside_def heads_def fun_eq_iff)
  then show ?thesis by (simp add: slab_lists_def)
qed

lemma live_objsI:
  "p \<in> set (G (c, l)) \<Longrightarrow> x \<in> objs (all_caches s c) p \<Longrightarrow> x \<notin> set (fs p) \<Longrightarrow> (c, x) \<in> live_objs s G fs"
  by (auto simp: live_objs_def)

context frame_source
begin

lemma srep_page:
  assumes r: "srep fok owned X s G fs" and p: "p \<in> set (G (c, l))"
  shows "geom (all_caches s c)" "4096 dvd unat p" "unat p < 2 ^ 56" "p \<noteq> 0"
  using srepD(1,4,6,7) [OF r] p owned_frame [of "sframes s" p] by blast+

lemma srep_obj_page:
  assumes r: "srep fok owned X s G fs" and p: "p \<in> set (G (c, l))" "x \<in> objs (all_caches s c) p"
    and q: "q \<in> set (G (d, m))" "x \<in> objs (all_caches s d) q"
  shows "q = p" "d = c" "m = l"
proof -
  show "q = p"
    using obj_page [OF srep_page(1-3) [OF r p(1)] p(2)] obj_page [OF srep_page(1-3) [OF r q(1)] q(2)] by simp
  then show "d = c" "m = l" using slab_lists_disjoint [OF srepD(3) [OF r] p(1), of "(d, m)"] q(1) by auto
qed

lemma srep_inside:
  assumes r: "srep fok owned X s G fs" and p: "p \<in> set (G (c, l))" "p \<in> X"
    and i: "inside s s' c p" and ok: "slab_ok s' c p xs"
  shows "srep fok owned X s' G (fs(p := xs))"
proof -
  note d = srepD [OF r]
  have f: "all_caches s' = all_caches s" "num_caches s' = num_caches s" "sframes s' = sframes s"
    using i by (simp_all add: inside_def)
  have other: "slab_ok s' d q (fs q)" "hdr s' q = hdr s q" if q: "q \<in> set (G (d, m))" "q \<noteq> p" for d q m
  proof -
    show h: "hdr s' q = hdr s q" using i q(2) by (simp add: inside_def)
    have sub: "set (fs q) \<subseteq> objs (all_caches s d) q" using d(8) [OF q(1)] by (simp add: slab_ok_def)
    have "link s' y = link s y" if "y \<in> set (fs q)" for y
    proof -
      have "y \<notin> objs (all_caches s c) p" using srep_obj_page(1) [OF r p(1) _ q(1)] that sub q(2) by blast
      then show ?thesis using i by (simp add: inside_def)
    qed
    then have "chain (link s') h (fs q) = chain (link s) h (fs q)" for h by (rule chain_cong)
    then show "slab_ok s' d q (fs q)" using d(8) [OF q(1)] unfolding slab_ok_def h f by simp
  qed
  have each: "e < num_caches s' \<and> q \<in> owned (sframes s') \<and> slab_ok s' e q ((fs(p := xs)) q)
      \<and> (q \<in> X \<or> place m (hdr s' q) ((fs(p := xs)) q))" if q: "q \<in> set (G (e, m))" for q e m
  proof (cases "q = p")
    case True
    then have "e = c" using slab_lists_disjoint [OF d(3) p(1), of "(e, m)"] q by simp
    then show ?thesis using d(6,7) [OF q] ok p(2) True f by simp
  next
    case False
    then show ?thesis using d(6,7,9) [OF q] other [OF q False] f by auto
  qed
  show ?thesis
    unfolding srep_def inside_lists [OF i] f(1,2) using d(1-5) each f by auto
qed

text \<open>Live objects after the free chain of one slab has lost or gained an object.\<close>

lemma live_take:
  assumes r: "srep fok owned X s G fs" and p: "p \<in> set (G (c, l))"
    and x: "fs p = x # ys" and s': "all_caches s' = all_caches s"
  shows "live_objs s' G (fs(p := ys)) = insert (c, x) (live_objs s G fs)" "(c, x) \<notin> live_objs s G fs"
proof -
  have ok: "distinct (x # ys)" "set (x # ys) \<subseteq> objs (all_caches s c) p"
    using srepD(8) [OF r p] unfolding slab_ok_def x by auto
  have xo: "x \<in> objs (all_caches s c) p" using ok(2) by simp
  show "(c, x) \<notin> live_objs s G fs"
    using srep_obj_page(1) [OF r p xo] x by (auto simp: live_objs_def)
  have "(d, y) \<in> live_objs s' G (fs(p := ys)) \<longleftrightarrow> (d, y) \<in> insert (c, x) (live_objs s G fs)" for d y
  proof
    assume "(d, y) \<in> live_objs s' G (fs(p := ys))"
    then obtain m q where q: "q \<in> set (G (d, m))" "y \<in> objs (all_caches s d) q" "y \<notin> set ((fs(p := ys)) q)"
      by (auto simp: live_objs_def s')
    show "(d, y) \<in> insert (c, x) (live_objs s G fs)"
    proof (cases "q = p \<and> y = x")
      case True
      then show ?thesis using slab_lists_disjoint [OF srepD(3) [OF r] p, of "(d, m)"] q(1) by simp
    next
      case False
      then have "y \<notin> set (fs q)" using q(3) x by (cases "q = p") auto
      then show ?thesis using q by (auto simp: live_objs_def)
    qed
  next
    assume "(d, y) \<in> insert (c, x) (live_objs s G fs)"
    then consider "d = c" "y = x" | "(d, y) \<in> live_objs s G fs" by blast
    then show "(d, y) \<in> live_objs s' G (fs(p := ys))"
    proof cases
      case 1
      then show ?thesis using p xo ok(1) by (auto simp: live_objs_def s' intro!: exI [of _ l] bexI [of _ p])
    next
      case 2
      then obtain m q where q: "q \<in> set (G (d, m))" "y \<in> objs (all_caches s d) q" "y \<notin> set (fs q)"
        by (auto simp: live_objs_def)
      then have "y \<notin> set ((fs(p := ys)) q)" using x by (cases "q = p") auto
      with q show ?thesis by (intro live_objsI) (simp_all add: s')
    qed
  qed
  then show "live_objs s' G (fs(p := ys)) = insert (c, x) (live_objs s G fs)" by auto
qed

lemma live_give:
  assumes r: "srep fok owned X s G fs" and p: "p \<in> set (G (c, l))"
    and x: "x \<in> objs (all_caches s c) p" "x \<notin> set (fs p)" and s': "all_caches s' = all_caches s"
  shows "live_objs s' G (fs(p := x # fs p)) = live_objs s G fs - {(c, x)}"
proof -
  have "(d, y) \<in> live_objs s' G (fs(p := x # fs p)) \<longleftrightarrow> (d, y) \<in> live_objs s G fs - {(c, x)}" for d y
  proof
    assume "(d, y) \<in> live_objs s' G (fs(p := x # fs p))"
    then obtain m q where q: "q \<in> set (G (d, m))" "y \<in> objs (all_caches s d) q" "y \<notin> set ((fs(p := x # fs p)) q)"
      by (auto simp: live_objs_def s')
    have "y \<notin> set (fs q)" using q(3) by (cases "q = p") auto
    moreover have "(d, y) \<noteq> (c, x)"
    proof
      assume "(d, y) = (c, x)"
      then have "q = p" using srep_obj_page(1) [OF r p x(1) q(1)] q(2) by simp
      then show False using q(3) \<open>(d, y) = (c, x)\<close> by simp
    qed
    ultimately show "(d, y) \<in> live_objs s G fs - {(c, x)}" using q by (auto simp: live_objs_def)
  next
    assume "(d, y) \<in> live_objs s G fs - {(c, x)}"
    then obtain m q where q: "q \<in> set (G (d, m))" "y \<in> objs (all_caches s d) q" "y \<notin> set (fs q)" "(d, y) \<noteq> (c, x)"
      by (auto simp: live_objs_def)
    have "y \<notin> set ((fs(p := x # fs p)) q)"
    proof (cases "q = p")
      case True
      then have "d = c" using slab_lists_disjoint [OF srepD(3) [OF r] p, of "(d, m)"] q(1) by simp
      then show ?thesis using True q by simp
    qed (use q in simp)
    with q show "(d, y) \<in> live_objs s' G (fs(p := x # fs p))" by (intro live_objsI) (simp_all add: s')
  qed
  then show ?thesis by auto
qed

end

subsection \<open>Taking an object\<close>

lemma unat_inc: "unat (a::u32) < unat (b::u32) \<Longrightarrow> unat (a + 1) = Suc (unat a)"
proof -
  assume "unat a < unat b"
  moreover have "unat b < 2 ^ LENGTH(32)" by (rule unsigned_less)
  ultimately have "unat a + 1 < 2 ^ LENGTH(32)" by linarith
  then show ?thesis by (simp only: unat_plus_if' unat_1 if_True Suc_eq_plus1)
qed

context frame_source
begin

lemma take_object_ok:
  assumes r: "srep fok owned {p} s G fs" and p: "p \<in> set (G (c, Partial))" and ne: "fs p \<noteq> []"
  shows "\<exists>x s' G' fs'. take_object c p s = Some (Some x, s') \<and> srep fok owned {} s' G' fs'
    \<and> live_objs s' G' fs' = insert (c, x) (live_objs s G fs) \<and> (c, x) \<notin> live_objs s G fs
    \<and> sframes s' = sframes s"
proof -
  obtain x ys where xs: "fs p = x # ys" using ne by (cases "fs p") auto
  note d = srepD [OF r]
  have ok: "slab_ok s c p (x # ys)" using d(8) [OF p] xs by simp
  let ?h = "hdr s p"
  let ?s1 = "upd_hdr p (\<lambda>h. h\<lparr>sl_free_list := link s x, sl_inuse := sl_inuse h + 1\<rparr>) s"
  have lt: "unat (sl_inuse ?h) < unat (sl_total ?h)" using ok unfolding slab_ok_def by (auto simp del: One_nat_def)
  note inc = unat_inc [OF lt]
  have i: "inside s ?s1 c p" by (simp add: inside_def slab_simps)
  have ok1: "slab_ok ?s1 c p ys" using ok inc by (simp add: slab_ok_def slab_simps)
  note r1 = srep_inside [OF r p _ i ok1, simplified]
  note lv = live_take [OF r p xs upd_hdr_simps(3) [of p "\<lambda>h. h\<lparr>sl_free_list := link s x, sl_inuse := sl_inuse h + 1\<rparr>" s]]
  let ?fs = "fs(p := ys)"
  have full: "sl_inuse (hdr ?s1 p) = sl_total (hdr ?s1 p) \<longleftrightarrow> ys = []"
  proof -
    have "sl_inuse (hdr ?s1 p) = sl_total (hdr ?s1 p) \<longleftrightarrow> Suc (unat (sl_inuse ?h)) = unat (sl_total ?h)"
      using inc by (simp add: slab_simps word_unat_eq_iff)
    moreover have "unat (sl_inuse ?h) + length (x # ys) = unat (sl_total ?h)" using ok unfolding slab_ok_def by blast
    then have "Suc (unat (sl_inuse ?h)) = unat (sl_total ?h) \<longleftrightarrow> length ys = 0"
      unfolding list.size by arith
    ultimately show ?thesis by simp
  qed
  let ?inc = "upd_cache c (\<lambda>sc. sc\<lparr>sc_total_allocs := sc_total_allocs sc + 1\<rparr>)"
  have cnt1: "srep fok owned X (?inc t) H gs = srep fok owned X t H gs" for X t H gs
    by (rule srep_counters(1)) simp_all
  have cnt2: "live_objs (?inc t) H gs = live_objs t H gs" for t H gs
    by (rule srep_counters(2)) simp_all
  have fl: "sl_free_list ?h = Some x" using ok by (simp add: slab_ok_def)
  show ?thesis
  proof (cases "ys = []")
    case True
    let ?s2 = "slab_list_add c Full p (slab_list_remove c Partial p ?s1)"
    note mv = srep_move [OF r1 p, of Full, simplified, OF refl]
    have "p \<in> set (move G c Partial Full p (c, Full))" by (simp add: move_def)
    moreover have "place Full (hdr ?s2 p) (?fs p)" using True by simp
    ultimately have "srep fok owned {} ?s2 (move G c Partial Full p) ?fs" by (rule srep_settle [OF mv(1)])
    moreover have "take_object c p s = Some (Some x, ?inc ?s2)"
      using fl full True by (simp add: take_object_def Let_def)
    moreover have "sframes ?s2 = sframes s" using mv(2) by (simp add: same_body_def slab_simps)
    moreover have "sframes (?inc ?s2) = sframes ?s2" by (simp add: slab_simps)
    ultimately show ?thesis using lv mv(3)
      by (intro exI [of _ x] exI [of _ "?inc ?s2"] exI [of _ "move G c Partial Full p"] exI [of _ ?fs]) (simp only: cnt1 cnt2 simp_thms)
  next
    case False
    have "sl_inuse (hdr ?s1 p) \<noteq> 0" using inc by (auto simp: slab_simps word_unat_eq_iff)
    then have "place Partial (hdr ?s1 p) (?fs p)" using False by simp
    then have "srep fok owned {} ?s1 G ?fs" by (rule srep_settle [OF r1 p])
    moreover have "take_object c p s = Some (Some x, ?inc ?s1)"
      using fl full False by (simp add: take_object_def Let_def)
    moreover have "sframes (?inc ?s1) = sframes s" by (simp add: slab_simps)
    ultimately show ?thesis using lv
      by (intro exI [of _ x] exI [of _ "?inc ?s1"] exI [of _ G] exI [of _ ?fs]) (simp only: cnt1 cnt2 simp_thms)
  qed
qed

end

subsection \<open>A fresh slab\<close>

definition hd_opt :: "'a list \<Rightarrow> 'a option" where
  "hd_opt xs = (case xs of [] \<Rightarrow> None | x # _ \<Rightarrow> Some x)"

lemma init_objs_ok:
  assumes "init_objs_loop p base sz i n prev s = (prev', t)" "s' = store_prev p prev' None t"
    and "xs = map (\<lambda>j. base + of_nat j * sz) [i..<i + n]" "distinct xs" "\<And>y. prev = Some y \<Longrightarrow> y \<notin> set xs"
  shows "chain (link s') (hd_opt xs) xs
    \<and> (case prev of None \<Rightarrow> hdr s' = (hdr s)(p := (hdr s p)\<lparr>sl_free_list := hd_opt xs\<rparr>)
                  | Some y \<Rightarrow> hdr s' = hdr s \<and> link s' y = hd_opt xs)
    \<and> (\<forall>y. y \<notin> set xs \<and> prev \<noteq> Some y \<longrightarrow> link s' y = link s y)
    \<and> all_caches s' = all_caches s \<and> num_caches s' = num_caches s \<and> kmalloc_caches s' = kmalloc_caches s
    \<and> slab_initialized s' = slab_initialized s \<and> sframes s' = sframes s"
  using assms
proof (induction n arbitrary: i prev s xs)
  case 0
  then show ?case by (cases prev) (auto simp: hd_opt_def store_prev_def slab_simps split: if_splits)
next
  case (Suc n)
  let ?x = "base + of_nat i * sz" and ?ys = "map (\<lambda>j. base + of_nat j * sz) [Suc i..<Suc i + n]"
  let ?s1 = "store_prev p prev (Some ?x) s"
  have xs: "xs = ?x # ?ys" using Suc.prems(3) by (simp add: upt_conv_Cons del: upt_Suc)
  have loop: "init_objs_loop p base sz (Suc i) n (Some ?x) ?s1 = (prev', t)" using Suc.prems(1) by (simp add: Let_def)
  have dy: "distinct ?ys" and xy: "?x \<notin> set ?ys" using Suc.prems(4) unfolding xs by auto
  from Suc.IH [OF loop Suc.prems(2) refl dy] xy have ih:
    "chain (link s') (hd_opt ?ys) ?ys" "hdr s' = hdr ?s1" "link s' ?x = hd_opt ?ys"
    "\<And>y. y \<notin> set ?ys \<Longrightarrow> y \<noteq> ?x \<Longrightarrow> link s' y = link ?s1 y"
    "all_caches s' = all_caches ?s1" "num_caches s' = num_caches ?s1" "kmalloc_caches s' = kmalloc_caches ?s1"
    "slab_initialized s' = slab_initialized ?s1" "sframes s' = sframes ?s1"
    by auto
  have ch: "chain (link s') (hd_opt xs) xs" using ih(1,3) unfolding xs by (simp add: hd_opt_def)
  have hx: "hd_opt xs = Some ?x" unfolding xs by (simp add: hd_opt_def)
  show ?case
  proof (cases prev)
    case None
    then show ?thesis using ch ih(2,4-) hx xs by (auto simp: store_prev_def slab_simps)
  next
    case (Some y)
    then have "y \<notin> set xs" using Suc.prems(5) by simp
    then show ?thesis using Some ch ih(2,4-) hx xs by (auto simp: store_prev_def slab_simps)
  qed
qed

lemma slab_lists_cong:
  assumes "slab_lists s G" "heads s' = heads s"
    and h: "\<And>k q. q \<in> set (G k) \<Longrightarrow> sl_next (hdr s' q) = sl_next (hdr s q) \<and> sl_prev (hdr s' q) = sl_prev (hdr s q)"
  shows "slab_lists s' G"
proof -
  have "dll (\<lambda>p. sl_next (hdr s' p)) (\<lambda>p. sl_prev (hdr s' p)) None (heads s k) (G k)
      = dll (\<lambda>p. sl_next (hdr s p)) (\<lambda>p. sl_prev (hdr s p)) None (heads s k) (G k)" for k
    by (rule dll_cong) (use h [of _ k] in simp_all)
  then show ?thesis using assms(1) by (simp add: slab_lists_def dlls_def assms(2))
qed

lemma slab_init_objs_ok:
  assumes g: "geom (all_caches s c)" "4096 dvd unat p" "unat p < 2 ^ 56" and s': "s' = slab_init_objs p c s"
  defines "xs \<equiv> map (obj_at (all_caches s c) p) [0..<unat (sc_objs_per_slab (all_caches s c))]"
  shows "chain (link s') (sl_free_list (hdr s' p)) xs" "distinct xs" "set xs = objs (all_caches s c) p"
    and "\<And>q. q \<noteq> p \<Longrightarrow> hdr s' q = hdr s q" "sl_cache (hdr s' p) = sl_cache (hdr s p)"
    and "sl_inuse (hdr s' p) = 0" "sl_total (hdr s' p) = sc_objs_per_slab (all_caches s c)"
    and "\<And>y. y \<notin> objs (all_caches s c) p \<Longrightarrow> link s' y = link s y"
    and "all_caches s' = all_caches s" "num_caches s' = num_caches s" "kmalloc_caches s' = kmalloc_caches s"
    and "slab_initialized s' = slab_initialized s" "sframes s' = sframes s"
proof -
  let ?sc = "all_caches s c" and ?n = "unat (sc_objs_per_slab (all_caches s c))"
  show dx: "distinct xs" unfolding xs_def distinct_map using obj_at_inj [OF g] by (simp add: lessThan_atLeast0)
  show sx: "set xs = objs ?sc p" by (auto simp: xs_def objs_def)
  obtain pv t where t: "init_objs_loop p (slab_base p ?sc) (sc_obj_size ?sc) 0 ?n None s = (pv, t)"
    by (cases "init_objs_loop p (slab_base p ?sc) (sc_obj_size ?sc) 0 ?n None s")
  let ?t = "store_prev p pv None t"
  have xs: "xs = map (\<lambda>j. slab_base p ?sc + of_nat j * sc_obj_size ?sc) [0..<0 + ?n]"
    by (simp add: xs_def obj_at_def)
  from init_objs_ok [OF t refl xs dx] have i:
    "chain (link ?t) (hd_opt xs) xs" "hdr ?t = (hdr s)(p := (hdr s p)\<lparr>sl_free_list := hd_opt xs\<rparr>)"
    "\<And>y. y \<notin> set xs \<Longrightarrow> link ?t y = link s y" "all_caches ?t = all_caches s" "num_caches ?t = num_caches s"
    "kmalloc_caches ?t = kmalloc_caches s" "slab_initialized ?t = slab_initialized s" "sframes ?t = sframes s"
    by auto
  have e: "s' = upd_hdr p (\<lambda>h. h\<lparr>sl_inuse := 0, sl_total := sc_objs_per_slab ?sc\<rparr>) ?t"
    unfolding s' slab_init_objs_def Let_def using t by simp
  show "chain (link s') (sl_free_list (hdr s' p)) xs" "\<And>q. q \<noteq> p \<Longrightarrow> hdr s' q = hdr s q"
    "sl_cache (hdr s' p) = sl_cache (hdr s p)" "sl_inuse (hdr s' p) = 0" "sl_total (hdr s' p) = sc_objs_per_slab ?sc"
    "\<And>y. y \<notin> objs ?sc p \<Longrightarrow> link s' y = link s y" "all_caches s' = all_caches s" "num_caches s' = num_caches s"
    "kmalloc_caches s' = kmalloc_caches s" "slab_initialized s' = slab_initialized s" "sframes s' = sframes s"
    using i sx by (simp_all add: e slab_simps)
qed

context frame_source
begin

lemma new_slab_ok:
  assumes r: "srep fok owned {} s G fs" and c: "c < num_caches s" and a: "slab_alloc falloc c s = (Some p, s1)"
    and s': "s' = slab_list_add c Partial p s1"
  shows "\<exists>xs. xs \<noteq> [] \<and> srep fok owned {p} s' (G((c, Partial) := p # G (c, Partial))) (fs(p := xs))
    \<and> live_objs s' (G((c, Partial) := p # G (c, Partial))) (fs(p := xs)) = live_objs s G fs"
proof -
  note d = srepD [OF r]
  obtain pg fr where al: "falloc (sframes s) = (pg, fr)" by (cases "falloc (sframes s)")
  then have pg: "pg \<noteq> 0" "pg = p" using a by (auto simp: slab_alloc_def Let_def split: if_splits)
  from d(1) al [unfolded pg(2)] obtain fs': "fok fr" "p \<notin> owned (sframes s)" "owned fr = insert p (owned (sframes s))"
    "4096 dvd unat p" "unat p < 2 ^ 56" by (rule falloc_cases) (use pg in auto)
  let ?s2 = "upd_hdr p (\<lambda>h. h\<lparr>sl_next := None, sl_prev := None, sl_cache := Some c\<rparr>) (s\<lparr>sframes := fr\<rparr>)"
  let ?s3 = "slab_init_objs p c ?s2"
  have s1: "s1 = upd_cache c (\<lambda>sc. sc\<lparr>sc_slab_count := sc_slab_count sc + 1\<rparr>) ?s3"
    using a al pg by (auto simp: slab_alloc_def Let_def)
  let ?sc = "all_caches s c" and ?G = "G((c, Partial) := p # G (c, Partial))"
  have gm: "geom (all_caches ?s2 c)" using d(4) [OF c] by (simp add: slab_simps)
  note i = slab_init_objs_ok [OF gm fs'(4,5) refl]
  have ac2: "all_caches ?s2 = all_caches s" by (simp add: slab_simps)
  define xs where "xs = map (obj_at ?sc p) [0..<unat (sc_objs_per_slab ?sc)]"
  note i' = i [unfolded ac2, folded xs_def]
  have np: "p \<notin> set (G k)" for k using d(7) fs'(2) by (cases k) auto
  have b: "same_body s1 s'" unfolding s' by simp
  have cf: "sc_obj_size (all_caches s1 e) = sc_obj_size (all_caches s e)" "sc_align (all_caches s1 e) = sc_align (all_caches s e)"
    "sc_objs_per_slab (all_caches s1 e) = sc_objs_per_slab (all_caches s e)"
    "list_head l (all_caches s1 e) = list_head l (all_caches s e)" for e l
    by (cases l; auto simp: s1 slab_simps i'(9) ac2)+
  note og = objs_cong [OF cf(1-3)]
  have nc: "num_caches s1 = num_caches s" "sframes s1 = fr" by (simp_all add: s1 slab_simps i')
  have hq: "hdr s1 q = hdr s q" if "q \<noteq> p" for q using that i'(4) [of q] by (simp add: s1 slab_simps)
  have "slab_lists s1 G"
  proof (rule slab_lists_cong [OF d(3)])
    show "heads s1 = heads s" by (simp add: heads_def fun_eq_iff nc cf(4))
    show "sl_next (hdr s1 q) = sl_next (hdr s q) \<and> sl_prev (hdr s1 q) = sl_prev (hdr s q)" if "q \<in> set (G k)" for k q
    proof -
      have "q \<noteq> p" using that np [of k] by blast
      then show ?thesis by (simp add: hq)
    qed
  qed
  then have lists: "slab_lists s' ?G" unfolding s' using np c nc by (intro slab_lists_add) simp_all
  have okp: "slab_ok s1 c p xs"
  proof -
    have h1: "hdr s1 = hdr ?s3" "link s1 = link ?s3" by (simp_all add: s1 slab_simps)
    have o1: "objs (all_caches s1 c) = objs ?sc" using og by simp
    have "sl_cache (hdr ?s3 p) = Some c" using i'(5) by (simp add: slab_simps)
    moreover have "length xs = unat (sc_objs_per_slab ?sc)" by (simp add: xs_def)
    ultimately show ?thesis unfolding slab_ok_def cf(3) o1 h1 using i'(1-3,6,7) by simp
  qed
  have okq: "slab_ok s1 e q (fs q)" if q: "q \<in> set (G (e, l))" for e q l
  proof -
    have qp: "q \<noteq> p" using q np by auto
    have sub: "set (fs q) \<subseteq> objs (all_caches s e) q" using d(8) [OF q] by (simp add: slab_ok_def)
    have "link s1 y = link s y" if "y \<in> set (fs q)" for y
    proof -
      have "y AND NOT (PAGE_SIZE - 1) = q" using obj_page [OF srep_page(1-3) [OF r q]] sub that by blast
      then have "y \<notin> objs ?sc p" using obj_page [OF d(4) [OF c] fs'(4,5), of y] qp by auto
      then show ?thesis using i'(8) by (simp add: s1 slab_simps)
    qed
    then have "chain (link s1) h (fs q) = chain (link s) h (fs q)" for h by (rule chain_cong)
    then show ?thesis using d(8) [OF q] og unfolding slab_ok_def hq [OF qp] cf(3) by simp
  qed
  have n0: "0 < unat (sc_objs_per_slab ?sc)" using d(4) [OF c] by (simp add: geom_def)
  have "srep fok owned {p} s' ?G (fs(p := xs))"
    unfolding srep_def
  proof (intro conjI allI impI)
    fix e assume e: "e < num_caches s'"
    then have e': "e < num_caches s" using b nc by (simp add: same_body_def)
    show "geom (all_caches s' e)" unfolding slab_ok_body(3) [OF b] using og d(4) [OF e'] by simp
    have "sc_slab_count (all_caches s' e) = sc_slab_count (all_caches s1 e)" using b by (simp add: same_body_def)
    also have "\<dots> = of_nat (slab_total ?G e)"
      using d(5) [OF e'] by (auto simp: s1 slab_simps i'(9) ac2 slab_total_def)
    finally show "sc_slab_count (all_caches s' e) = of_nat (slab_total ?G e)" .
  next
    fix e l q assume q: "q \<in> set (?G (e, l))"
    have hp: "place l (hdr s' q) ((fs(p := xs)) q)" if "q \<noteq> p"
      unfolding slab_ok_body(4) [OF b] hq [OF that] using d(9) [of q e l] q that by (auto split: if_splits)
    show "q \<in> {p} \<or> place l (hdr s' q) ((fs(p := xs)) q)" using hp by blast
    show "e < num_caches s'" "q \<in> owned (sframes s')"
      using b nc fs'(3) c q d(6,7) [of q e l] by (auto simp: same_body_def split: if_splits)
    show "slab_ok s' e q ((fs(p := xs)) q)"
      unfolding slab_ok_body(1) [OF b] using q okp okq [of q e l] np by (auto split: if_splits)
  qed (use lists fs'(1) d(2) b nc in \<open>auto simp: same_body_def\<close>)
  moreover have "live_objs s' ?G (fs(p := xs)) = live_objs s G fs"
  proof -
    have o: "objs (all_caches s' e) = objs (all_caches s e)" for e
      unfolding slab_ok_body(2) [OF b] using og by simp
    have "(e, y) \<in> live_objs s' ?G (fs(p := xs)) \<longleftrightarrow> (e, y) \<in> live_objs s G fs" for e y
    proof
      assume "(e, y) \<in> live_objs s' ?G (fs(p := xs))"
      then obtain l q where q: "q \<in> set (?G (e, l))" "y \<in> objs (all_caches s e) q" "y \<notin> set ((fs(p := xs)) q)"
        by (auto simp: live_objs_def o)
      have "q \<noteq> p"
      proof
        assume "q = p"
        then have "e = c" using q(1) np by (auto split: if_splits)
        then show False using q(2,3) \<open>q = p\<close> i'(3) by simp
      qed
      then have "q \<in> set (G (e, l))" "y \<notin> set (fs q)" using q by (auto split: if_splits)
      then show "(e, y) \<in> live_objs s G fs" using q(2) by (intro live_objsI)
    next
      assume "(e, y) \<in> live_objs s G fs"
      then obtain l q where q: "q \<in> set (G (e, l))" "y \<in> objs (all_caches s e) q" "y \<notin> set (fs q)"
        by (auto simp: live_objs_def)
      have "q \<noteq> p" using q(1) np by auto
      then show "(e, y) \<in> live_objs s' ?G (fs(p := xs))"
        using q by (intro live_objsI [of q _ e l]) (auto simp: o)
    qed
    then show ?thesis by auto
  qed
  moreover have "xs \<noteq> []" using n0 by (simp add: xs_def)
  ultimately show ?thesis by blast
qed

lemma find_slab_ok:
  assumes r: "srep fok owned {} s G fs" and c: "c < num_caches s" and f: "find_slab falloc c s = (w, s')"
  shows "(case w of
      None \<Rightarrow> s' = s \<and> G (c, Partial) = [] \<and> G (c, Empty) = [] \<and> fst (falloc (sframes s)) = 0
    | Some p \<Rightarrow> \<exists>G' fs'. srep fok owned {p} s' G' fs' \<and> p \<in> set (G' (c, Partial)) \<and> fs' p \<noteq> []
          \<and> live_objs s' G' fs' = live_objs s G fs)"
proof -
  note d = srepD [OF r]
  note hd = slab_head [OF d(3) c]
  show ?thesis
  proof (cases "G (c, Partial)")
    case (Cons p ps)
    then have p: "p \<in> set (G (c, Partial))" by simp
    have "w = Some p" "s' = s" using f hd [of Partial] Cons by (auto simp: find_slab_def)
    moreover have "fs p \<noteq> []" using d(9) [OF p] by simp
    ultimately show ?thesis using srep_loosen [OF r] p by auto
  next
    case nil: Nil
    show ?thesis
    proof (cases "G (c, Empty)")
      case (Cons p ps)
      then have p: "p \<in> set (G (c, Empty))" by simp
      have e: "w = Some p" "s' = slab_list_add c Partial p (slab_list_remove c Empty p s)"
        using f hd [of Partial] hd [of Empty] nil Cons by (auto simp: find_slab_def)
      note mv = srep_move [of fok owned "{p}" s G fs p c Empty Partial s', OF srep_loosen [OF r] p _ _ e(2), simplified]
      have "unat (sl_total (hdr s p)) \<noteq> 0"
        using d(4) [OF c] d(8) [OF p] by (simp add: slab_ok_def geom_def)
      then have "fs p \<noteq> []" using d(8,9) [OF p] by (auto simp: slab_ok_def)
      moreover have "p \<in> set (move G c Empty Partial p (c, Partial))" by (simp add: move_def)
      ultimately show ?thesis using mv e(1) by auto
    next
      case nil2: Nil
      obtain a fr where al: "falloc (sframes s) = (a, fr)" by (cases "falloc (sframes s)")
      show ?thesis
      proof (cases "a = 0")
        case True
        then have "fr = sframes s" using falloc_none [OF d(1)] al by simp
        then have "slab_alloc falloc c s = (None, s)" using al True by (simp add: slab_alloc_def)
        then have "w = None" "s' = s" using f hd [of Partial] hd [of Empty] nil nil2 by (auto simp: find_slab_def)
        then show ?thesis using nil nil2 al True by simp
      next
        case False
        then obtain s1 where s1: "slab_alloc falloc c s = (Some a, s1)" using al by (auto simp: slab_alloc_def Let_def)
        then have e: "w = Some a" "s' = slab_list_add c Partial a s1"
          using f hd [of Partial] hd [of Empty] nil nil2 by (auto simp: find_slab_def)
        from new_slab_ok [OF r c s1 e(2)] obtain xs where
          "xs \<noteq> []" "srep fok owned {a} s' (G((c, Partial) := a # G (c, Partial))) (fs(a := xs))"
          "live_objs s' (G((c, Partial) := a # G (c, Partial))) (fs(a := xs)) = live_objs s G fs" by blast
        then show ?thesis using e(1) by (auto intro!: exI [of _ "G((c, Partial) := a # G (c, Partial))"] exI [of _ "fs(a := xs)"])
      qed
    qed
  qed
qed

lemma cache_alloc_ok:
  assumes i: "slab_inv fok owned s L" and c: "c < num_caches s"
  shows "\<exists>w s'. kmem_cache_alloc falloc (Some c) s = Some (w, s')
    \<and> (case w of
         None \<Rightarrow> s' = s \<and> sc_partial (all_caches s c) = None \<and> sc_empty (all_caches s c) = None
                 \<and> fst (falloc (sframes s)) = 0
       | Some x \<Rightarrow> (c, x) \<notin> L \<and> slab_inv fok owned s' (insert (c, x) L))"
proof -
  from i obtain G fs where r: "srep fok owned {} s G fs" and L: "L = live_objs s G fs" by (auto simp: slab_inv_def)
  obtain w s1 where f: "find_slab falloc c s = (w, s1)" by (cases "find_slab falloc c s")
  note fd = find_slab_ok [OF r c f]
  note hd = slab_head [OF srepD(3) [OF r] c]
  show ?thesis
  proof (cases w)
    case None
    then show ?thesis using fd f hd [of Partial] hd [of Empty] by (simp add: kmem_cache_alloc_def)
  next
    case (Some p)
    from fd [unfolded Some, simplified] obtain G' fs' where
      g: "srep fok owned {p} s1 G' fs'" "p \<in> set (G' (c, Partial))" "fs' p \<noteq> []" "live_objs s1 G' fs' = live_objs s G fs"
      by blast
    from take_object_ok [OF g(1-3)] obtain x s' G2 fs2 where
      "take_object c p s1 = Some (Some x, s')" "srep fok owned {} s' G2 fs2"
      "live_objs s' G2 fs2 = insert (c, x) (live_objs s1 G' fs')" "(c, x) \<notin> live_objs s1 G' fs'" by blast
    then show ?thesis using f Some L g(4)
      by (intro exI [of _ "Some x"] exI [of _ s']) (auto simp: kmem_cache_alloc_def slab_inv_def)
  qed
qed

end

subsection \<open>Giving an object back\<close>

lemma unat_dec: "0 < unat (a::u32) \<Longrightarrow> Suc (unat (a - 1)) = unat a"
proof -
  assume "0 < unat a"
  then have "1 \<le> a" by (simp add: word_le_nat_alt)
  then have "unat (a - 1) = unat a - unat (1::u32)" by (rule unat_sub)
  with \<open>0 < unat a\<close> show ?thesis by simp
qed

context frame_source
begin

lemma srep_drop:
  assumes r: "srep fok owned {p} s G fs" and p: "p \<in> set (G (c, l))" and all: "set (fs p) = objs (all_caches s c) p"
    and s1: "s1 = slab_list_remove c l p s" and f: "slab_free ffree p s1 = Some s'"
  shows "srep fok owned {} s' (G((c, l) := remove1 p (G (c, l)))) fs"
    "live_objs s' (G((c, l) := remove1 p (G (c, l)))) fs = live_objs s G fs"
proof -
  note d = srepD [OF r]
  let ?G = "G((c, l) := remove1 p (G (c, l)))"
  have b: "same_body s s1" unfolding s1 by simp
  have l1: "slab_lists s1 ?G" unfolding s1 by (rule slab_lists_remove [of s G p c l, OF d(3) p])
  have cp: "sl_cache (hdr s1 p) = Some c" using d(8) [OF p] b by (simp add: slab_ok_def same_body_def)
  let ?s2 = "upd_cache c (\<lambda>sc. sc\<lparr>sc_slab_count := sc_slab_count sc - 1\<rparr>) s1"
  have s': "s' = ?s2\<lparr>sframes := ffree p (sframes s)\<rparr>"
    using f cp b by (simp add: slab_free_def Let_def slab_simps same_body_def)
  have h: "hdr s' = hdr s1" "link s' = link s1" "num_caches s' = num_caches s1"
    by (simp_all add: s' slab_simps)
  have cf: "sc_obj_size (all_caches s' e) = sc_obj_size (all_caches s1 e)"
    "sc_align (all_caches s' e) = sc_align (all_caches s1 e)"
    "sc_objs_per_slab (all_caches s' e) = sc_objs_per_slab (all_caches s1 e)"
    "list_head m (all_caches s' e) = list_head m (all_caches s1 e)" for e m
    by (cases m; simp add: s' slab_simps)+
  note og = objs_cong [OF cf(1-3)]
  have "slab_ok s' e q xs = slab_ok s1 e q xs" for e q xs
    unfolding slab_ok_def h cf(3) using og by simp
  then have ok: "slab_ok s' e q xs = slab_ok s e q xs" for e q xs unfolding slab_ok_body(1) [OF b] .
  have ob: "objs (all_caches s' e) = objs (all_caches s e)" "geom (all_caches s' e) = geom (all_caches s e)" for e
    using og slab_ok_body(2,3) [OF b] by simp_all
  have nc: "num_caches s' = num_caches s" using h(3) b by (simp add: same_body_def)
  have fr: "fok (sframes s') \<and> owned (sframes s') = owned (sframes s) - {p}"
    using ffree_owned [OF d(1) d(7) [OF p]] by (simp add: s')
  have lists: "slab_lists s' ?G" using slab_lists_cong [OF l1, of s'] by (simp add: heads_def fun_eq_iff h cf(4))
  have mem: "q \<in> set (?G k) \<longleftrightarrow> q \<in> set (G k) \<and> q \<noteq> p" for q k
    using slab_lists_distinct [OF d(3), of "(c, l)"] slab_lists_disjoint [OF d(3) p, of k] by auto
  show "srep fok owned {} s' ?G fs"
    unfolding srep_def
  proof (intro conjI allI impI)
    fix e assume e: "e < num_caches s'"
    show "geom (all_caches s' e)" using d(4) e by (simp add: ob nc)
    have "length (G (c, l)) = Suc (length (remove1 p (G (c, l))))"
      using p by (metis One_nat_def Suc_pred length_pos_if_in_set length_remove1)
    then have "slab_total G e = (if e = c then Suc (slab_total ?G c) else slab_total ?G e)"
      by (cases l) (auto simp: slab_total_def)
    moreover have "sc_slab_count (all_caches s1 e) = of_nat (slab_total G e)"
      using d(5) [of e] e b by (simp add: same_body_def nc)
    ultimately show "sc_slab_count (all_caches s' e) = of_nat (slab_total ?G e)"
      by (auto simp: s' slab_simps)
  next
    fix e m q assume "q \<in> set (?G (e, m))"
    then have q: "q \<in> set (G (e, m))" "q \<noteq> p" by (simp_all add: mem del: fun_upd_apply)
    show "e < num_caches s'" "q \<in> owned (sframes s')" "slab_ok s' e q (fs q)"
      using d(6,7,8) [OF q(1)] q(2) fr by (simp_all add: nc ok)
    show "q \<in> {} \<or> place m (hdr s' q) (fs q)"
      unfolding h slab_ok_body(4) [OF b] using d(9) [OF q(1)] q(2) by simp
  qed (use lists fr d(2) nc in auto)
  have "(e, y) \<in> live_objs s' ?G fs \<longleftrightarrow> (e, y) \<in> live_objs s G fs" for e y
  proof
    assume "(e, y) \<in> live_objs s' ?G fs"
    then obtain m q where q: "q \<in> set (?G (e, m))" "y \<in> objs (all_caches s e) q" "y \<notin> set (fs q)"
      unfolding live_objs_def ob by blast
    then have "q \<in> set (G (e, m))" by (simp only: mem)
    then show "(e, y) \<in> live_objs s G fs" using q(2,3) by (rule live_objsI)
  next
    assume "(e, y) \<in> live_objs s G fs"
    then obtain m q where q: "q \<in> set (G (e, m))" "y \<in> objs (all_caches s e) q" "y \<notin> set (fs q)"
      by (auto simp: live_objs_def)
    have "q \<noteq> p"
    proof
      assume "q = p"
      then have "e = c" using slab_lists_disjoint [OF d(3) p, of "(e, m)"] q(1) by simp
      then show False using q(2,3) all \<open>q = p\<close> by simp
    qed
    then have "q \<in> set (?G (e, m))" using q(1) by (simp only: mem simp_thms)
    then show "(e, y) \<in> live_objs s' ?G fs" using q(2,3) by (intro live_objsI) (simp_all add: ob)
  qed
  then show "live_objs s' ?G fs = live_objs s G fs" by auto
qed

lemma give_back_ok:
  assumes r0: "srep fok owned {} s G fs" and p: "p \<in> set (G (c, l))"
    and x: "x \<in> objs (all_caches s c) p" "x \<notin> set (fs p)"
    and s2: "s2 = upd_hdr p (\<lambda>h. h\<lparr>sl_free_list := Some x, sl_inuse := sl_inuse h - 1\<rparr>)
                    (set_link x (sl_free_list (hdr s p)) s)"
  shows "srep fok owned {p} s2 G (fs(p := x # fs p))"
    and "live_objs s2 G (fs(p := x # fs p)) = live_objs s G fs - {(c, x)}"
    and "0 < unat (sl_inuse (hdr s p))" "sl_inuse (hdr s p) = sl_total (hdr s p) \<longleftrightarrow> fs p = []"
    and "sl_inuse (hdr s p) - 1 = 0 \<Longrightarrow> set (x # fs p) = objs (all_caches s2 c) p"
proof -
  note r = srep_loosen [OF r0, of "{p}"]
  note d = srepD [OF r0] and pg = srep_page [OF r0 p]
  let ?h = "hdr s p" and ?xs = "fs p"
  have "slab_ok s c p ?xs" by (rule d(8) [OF p])
  then have ok: "sl_cache ?h = Some c" "sl_total ?h = sc_objs_per_slab (all_caches s c)"
    "chain (link s) (sl_free_list ?h) ?xs" "distinct ?xs" "set ?xs \<subseteq> objs (all_caches s c) p"
    "unat (sl_inuse ?h) + length ?xs = unat (sl_total ?h)" by (simp_all add: slab_ok_def)
  have dx: "length (x # ?xs) = card (set (x # ?xs))"
    using ok(4) x(2) by (intro distinct_card [symmetric]) simp
  have sub: "set (x # ?xs) \<subseteq> objs (all_caches s c) p" using ok(5) x(1) by simp
  have fin: "finite (objs (all_caches s c) p)" by (simp add: objs_def)
  have co: "card (objs (all_caches s c) p) = unat (sl_total ?h)" using objs_card [OF pg(1-3)] ok(2) by simp
  have len: "length ?xs < unat (sl_total ?h)" using card_mono [OF fin sub] dx co by simp
  show pos: "0 < unat (sl_inuse ?h)" using len ok(6) by linarith
  note dec = unat_dec [OF pos]
  show "sl_inuse ?h = sl_total ?h \<longleftrightarrow> ?xs = []"
    using ok(6) unfolding word_unat_eq_iff by (metis add_cancel_right_right length_0_conv)
  have ins: "inside s s2 c p" using x(1) by (auto simp: inside_def slab_simps s2)
  have ch: "chain (link s2) h ?xs = chain (link s) h ?xs" for h
    by (rule chain_cong) (use x(2) in \<open>auto simp: slab_simps s2\<close>)
  have "slab_ok s2 c p (x # ?xs)"
    unfolding slab_ok_def using ok(1-4,6) ch sub dec x(2) by (simp add: slab_simps s2)
  then show "srep fok owned {p} s2 G (fs(p := x # ?xs))" by (intro srep_inside [OF r p _ ins]) simp_all
  show "live_objs s2 G (fs(p := x # ?xs)) = live_objs s G fs - {(c, x)}"
    by (rule live_give [OF r p x]) (simp add: slab_simps s2)
  assume "sl_inuse ?h - 1 = 0"
  then have "unat (sl_inuse ?h) = 1" using dec by simp
  then have "card (set (x # ?xs)) = card (objs (all_caches s c) p)" using ok(6) dx co by simp
  then have "set (x # ?xs) = objs (all_caches s c) p" using card_subset_eq [OF fin sub] by blast
  then show "set (x # ?xs) = objs (all_caches s2 c) p" by (simp add: slab_simps s2)
qed

lemma slab_inv_free_count:
  assumes "srep fok owned {} t H gs"
  shows "slab_inv fok owned (upd_cache c (\<lambda>sc. sc\<lparr>sc_total_frees := sc_total_frees sc + 1\<rparr>) t) (live_objs t H gs)"
proof -
  let ?t = "upd_cache c (\<lambda>sc. sc\<lparr>sc_total_frees := sc_total_frees sc + 1\<rparr>) t"
  have "srep fok owned {} ?t H gs = srep fok owned {} t H gs" by (rule srep_counters(1)) simp_all
  moreover have "live_objs ?t H gs = live_objs t H gs" by (rule srep_counters(2)) simp_all
  ultimately have "srep fok owned {} ?t H gs \<and> live_objs t H gs = live_objs ?t H gs" using assms by (simp only: simp_thms)
  then show ?thesis unfolding slab_inv_def by blast
qed

text \<open>A slab that is in hand goes on another list.\<close>

lemma put_elsewhere:
  assumes r: "srep fok owned {p} s G fs" and p: "p \<in> set (G (c, l))" and l: "l \<noteq> l'" and pl: "place l' (hdr s p) (fs p)"
  shows "\<exists>H. srep fok owned {} (slab_list_add c l' p (slab_list_remove c l p s)) H fs
    \<and> live_objs (slab_list_add c l' p (slab_list_remove c l p s)) H fs = live_objs s G fs"
proof -
  let ?t = "slab_list_add c l' p (slab_list_remove c l p s)"
  have "p \<in> {p}" by simp
  note mv = srep_move [OF r p this l refl]
  have "p \<in> set (move G c l l' p (c, l'))" by (simp add: move_def)
  moreover have "place l' (hdr ?t p) (fs p)" unfolding slab_ok_body(4) [OF mv(2)] by (rule pl)
  ultimately have "srep fok owned {} ?t (move G c l l' p) fs" by (rule srep_settle [OF mv(1)])
  with mv(3) show ?thesis by blast
qed

lemma cache_free_ok:
  assumes i: "slab_inv fok owned s L" and x: "(c, x) \<in> L"
  shows "\<exists>s'. kmem_cache_free ffree (Some c) (Some x) s = Some s' \<and> slab_inv fok owned s' (L - {(c, x)})"
proof -
  from i obtain G fs where r0: "srep fok owned {} s G fs" and L: "L = live_objs s G fs" by (auto simp: slab_inv_def)
  from x L obtain l p where p: "p \<in> set (G (c, l))" and xo: "x \<in> objs (all_caches s c) p" "x \<notin> set (fs p)"
    by (auto simp: live_objs_def)
  have pa: "x AND NOT (PAGE_SIZE - 1) = p" by (rule obj_page [OF srep_page(1-3) [OF r0 p] xo(1)])
  have cache: "sl_cache (hdr s p) = Some c" using srepD(8) [OF r0 p] by (simp add: slab_ok_def)
  define s2 where "s2 = upd_hdr p (\<lambda>h. h\<lparr>sl_free_list := Some x, sl_inuse := sl_inuse h - 1\<rparr>)
                    (set_link x (sl_free_list (hdr s p)) s)"
  define gs where "gs = fs(p := x # fs p)"
  note g = give_back_ok [OF r0 p xo s2_def, folded gs_def]
  have gp: "gs p = x # fs p" by (simp add: gs_def)
  let ?done = "upd_cache c (\<lambda>sc. sc\<lparr>sc_total_frees := sc_total_frees sc + 1\<rparr>)"
  have fin: ?thesis if "kmem_cache_free ffree (Some c) (Some x) s = Some (?done t)"
      "srep fok owned {} t H gs" "live_objs t H gs = live_objs s2 G gs" for t H
    using that slab_inv_free_count [OF that(2), of c] g(2) unfolding L by auto
  have h2: "sl_inuse (hdr s2 p) = sl_inuse (hdr s p) - 1" "sl_total (hdr s2 p) = sl_total (hdr s p)"
    "sl_cache (hdr s2 p) = Some c" using cache by (simp_all add: slab_simps s2_def)
  have run: "kmem_cache_free ffree (Some c) (Some x) s =
      (if fs p = [] then Some (?done (slab_list_add c Partial p (slab_list_remove c Full p s2)))
       else if sl_inuse (hdr s p) - 1 = 0
       then (if sc_empty (all_caches (slab_list_remove c Partial p s2) c) = None
             then Some (?done (slab_list_add c Empty p (slab_list_remove c Partial p s2)))
             else map_option ?done (slab_free ffree p (slab_list_remove c Partial p s2)))
       else Some (?done s2))"
    unfolding kmem_cache_free_def Let_def using pa cache g(4) h2(1)
    by (simp add: s2_def [symmetric])
  show ?thesis
  proof (cases "fs p = []")
    case True
    have "l = Full" using srepD(9) [OF r0 p] True g(3) by (cases l) auto
    moreover have "sl_inuse (hdr s p) = sl_total (hdr s p)" using g(4) True by blast
    ultimately obtain H where "srep fok owned {} (slab_list_add c Partial p (slab_list_remove c Full p s2)) H gs"
      "live_objs (slab_list_add c Partial p (slab_list_remove c Full p s2)) H gs = live_objs s2 G gs"
      using put_elsewhere [OF g(1) p, of Partial] by (auto simp: h2 gp)
    moreover have "kmem_cache_free ffree (Some c) (Some x) s
        = Some (?done (slab_list_add c Partial p (slab_list_remove c Full p s2)))" using run True by simp
    ultimately show ?thesis using fin by blast
  next
    case False
    then have p': "p \<in> set (G (c, Partial))" using p srepD(9) [OF r0 p] g(3) by (cases l) auto
    consider (stay) "sl_inuse (hdr s p) - 1 \<noteq> 0"
      | (keep) "sl_inuse (hdr s p) - 1 = 0" "sc_empty (all_caches (slab_list_remove c Partial p s2) c) = None"
      | (drop) "sl_inuse (hdr s p) - 1 = 0" "sc_empty (all_caches (slab_list_remove c Partial p s2) c) \<noteq> None"
      by blast
    then show ?thesis
    proof cases
      case stay
      then have "place Partial (hdr s2 p) (gs p)" by (simp add: h2 gp)
      with g(1) p' have "srep fok owned {} s2 G gs" by (rule srep_settle)
      moreover have "kmem_cache_free ffree (Some c) (Some x) s = Some (?done s2)" using run False stay by simp
      ultimately show ?thesis using fin by blast
    next
      case keep
      then have "place Empty (hdr s2 p) (gs p)" by (simp add: h2)
      from put_elsewhere [OF g(1) p' _ this] obtain H where
        "srep fok owned {} (slab_list_add c Empty p (slab_list_remove c Partial p s2)) H gs"
        "live_objs (slab_list_add c Empty p (slab_list_remove c Partial p s2)) H gs = live_objs s2 G gs" by auto
      moreover have "kmem_cache_free ffree (Some c) (Some x) s
          = Some (?done (slab_list_add c Empty p (slab_list_remove c Partial p s2)))" using run False keep by simp
      ultimately show ?thesis using fin by blast
    next
      case drop
      have "same_body s2 (slab_list_remove c Partial p s2)" by simp
      then have "sl_cache (hdr (slab_list_remove c Partial p s2) p) = Some c" using h2(3) by (simp add: same_body_def)
      then obtain t where t: "slab_free ffree p (slab_list_remove c Partial p s2) = Some t"
        by (simp add: slab_free_def Let_def)
      have "set (gs p) = objs (all_caches s2 c) p" using g(5) [OF drop(1)] gp by simp
      note dr = srep_drop [OF g(1) p' this refl t]
      have "kmem_cache_free ffree (Some c) (Some x) s = Some (?done t)" using run False drop t by simp
      then show ?thesis using fin dr by blast
    qed
  qed
qed

end

subsection \<open>Live objects\<close>

context frame_source
begin

lemma live_objD:
  assumes i: "slab_inv fok owned s L" and x: "(c, x) \<in> L"
  obtains p where "c < num_caches s" "p \<in> owned (sframes s)" "geom (all_caches s c)" "x \<in> objs (all_caches s c) p"
    "sl_cache (hdr s p) = Some c" "x AND NOT (PAGE_SIZE - 1) = p" "4096 dvd unat p" "unat p < 2 ^ 56"
    "bytes x (sc_obj_size (all_caches s c)) \<subseteq> {unat p + 40 ..< unat p + 4096}"
proof -
  from i obtain G fs where r: "srep fok owned {} s G fs" and L: "L = live_objs s G fs"
    unfolding slab_inv_def by blast
  from x L obtain l p where p: "p \<in> set (G (c, l))" "x \<in> objs (all_caches s c) p"
    by (auto simp: live_objs_def)
  note d = srepD [OF r] and g = srep_page [OF r p(1)]
  show thesis
    using that [of p] d(6,7) [OF p(1)] d(8) [OF p(1)] g p(2) obj_page [OF g(1-3) p(2)] obj_bytes(1) [OF g(1-3) p(2)]
    by (simp add: slab_ok_def)
qed

lemma live_disjoint:
  assumes i: "slab_inv fok owned s L" and x: "(c, x) \<in> L" and y: "(d, y) \<in> L" and ne: "(c, x) \<noteq> (d, y)"
  shows "bytes x (sc_obj_size (all_caches s c)) \<inter> bytes y (sc_obj_size (all_caches s d)) = {}" "x \<noteq> y"
proof -
  obtain p where p: "geom (all_caches s c)" "x \<in> objs (all_caches s c) p" "sl_cache (hdr s p) = Some c"
    "4096 dvd unat p" "unat p < 2 ^ 56" "x AND NOT (PAGE_SIZE - 1) = p"
    "bytes x (sc_obj_size (all_caches s c)) \<subseteq> {unat p + 40 ..< unat p + 4096}"
    using live_objD [OF i x] by metis
  obtain q where q: "geom (all_caches s d)" "y \<in> objs (all_caches s d) q" "sl_cache (hdr s q) = Some d"
    "4096 dvd unat q" "y AND NOT (PAGE_SIZE - 1) = q"
    "bytes y (sc_obj_size (all_caches s d)) \<subseteq> {unat q + 40 ..< unat q + 4096}"
    using live_objD [OF i y] by metis
  show "x \<noteq> y" using p(3,6) q(3,5) ne by auto
  show "bytes x (sc_obj_size (all_caches s c)) \<inter> bytes y (sc_obj_size (all_caches s d)) = {}"
  proof (cases "p = q")
    case True
    then have "c = d" using p(3) q(3) by simp
    then show ?thesis using obj_bytes(2) [OF p(1,4,5,2), of y] q(2) True ne by auto
  next
    case False
    then have "unat p \<noteq> unat q" by (simp add: word_unat_eq_iff)
    then have "unat p + 4096 \<le> unat q \<or> unat q + 4096 \<le> unat p"
      using dvd_gap [OF p(4) q(4)] dvd_gap [OF q(4) p(4)] by linarith
    then show ?thesis using p(7) q(6) by fastforce
  qed
qed

text \<open>The owner of a live object may write all of it, its first word included.\<close>

lemma user_write:
  assumes i: "slab_inv fok owned s L" and x: "(c, x) \<in> L"
  shows "slab_inv fok owned (set_link x v s) L"
proof -
  from i obtain G fs where r: "srep fok owned {} s G fs" and L: "L = live_objs s G fs"
    unfolding slab_inv_def by blast
  from x L obtain l p where p: "p \<in> set (G (c, l))" "x \<in> objs (all_caches s c) p" "x \<notin> set (fs p)"
    by (auto simp: live_objs_def)
  have ok: "slab_ok (set_link x v s) d q (fs q)" if q: "q \<in> set (G (d, m))" for d m q
  proof -
    have o: "slab_ok s d q (fs q)" by (rule srepD(8) [OF r q])
    have "x \<notin> set (fs q)"
    proof
      assume "x \<in> set (fs q)"
      moreover from this have "x \<in> objs (all_caches s d) q" using o by (auto simp: slab_ok_def)
      ultimately show False using srep_obj_page(1) [OF r p(1,2) q] p(3) by simp
    qed
    then have "chain (link (set_link x v s)) h (fs q) = chain (link s) h (fs q)" for h
      by (intro chain_cong) (auto simp: set_link_def)
    then show ?thesis using o by (simp add: slab_ok_def slab_simps)
  qed
  have "srep fok owned {} (set_link x v s) G fs"
    using r ok unfolding srep_def slab_lists_def heads_def by (simp add: slab_simps cong: if_cong)
  moreover have "live_objs (set_link x v s) G fs = L" by (simp add: L live_objs_def slab_simps)
  ultimately show ?thesis unfolding slab_inv_def by blast
qed

end

subsection \<open>What the caches keep\<close>

definition same_conf :: "'s slabs \<Rightarrow> 's slabs \<Rightarrow> bool" where
  "same_conf s s' \<longleftrightarrow> num_caches s' = num_caches s \<and> kmalloc_caches s' = kmalloc_caches s
     \<and> slab_initialized s' = slab_initialized s
     \<and> (\<forall>c. sc_obj_size (all_caches s' c) = sc_obj_size (all_caches s c))"

named_theorems conf

lemma same_conf_refl [conf, simp]: "same_conf s s" by (simp add: same_conf_def)

lemma same_conf_trans: "same_conf s t \<Longrightarrow> same_conf t u \<Longrightarrow> same_conf s u" by (simp add: same_conf_def)

lemma conf_basic [conf]:
  "same_conf s (upd_hdr p f s)" "same_conf s (set_link x v s)" "same_conf s (s\<lparr>sframes := fr\<rparr>)"
  "(\<And>sc. sc_obj_size (g sc) = sc_obj_size sc) \<Longrightarrow> same_conf s (upd_cache c g s)"
  by (simp_all add: same_conf_def slab_simps)

lemma conf_list [conf]: "same_conf s (slab_list_add c l p s)" "same_conf s (slab_list_remove c l p s)"
  by (auto simp: same_conf_def slab_list_add_def slab_list_remove_def slab_simps Let_def split: option.splits)

lemma conf_store: "same_conf s (store_prev p pp v s)"
  by (auto simp: store_prev_def conf split: option.split)

lemma conf_init_loop: "same_conf s (snd (init_objs_loop p b z i n pp s))"
proof (induction n arbitrary: i pp s)
  case (Suc n)
  show ?case using same_conf_trans [OF conf_store Suc] by (simp add: Let_def)
qed simp

lemma conf_init [conf]: "same_conf s (slab_init_objs p c s)"
proof -
  obtain pp s1 where e: "init_objs_loop p (slab_base p (all_caches s c)) (sc_obj_size (all_caches s c)) 0
    (unat (sc_objs_per_slab (all_caches s c))) None s = (pp, s1)" by fastforce
  then have "same_conf s s1" using conf_init_loop by (metis snd_conv)
  then have "same_conf s (store_prev p pp None s1)" by (rule same_conf_trans) (rule conf_store)
  then show ?thesis unfolding slab_init_objs_def e Let_def by (simp add: same_conf_def slab_simps)
qed

lemma conf_slab_alloc: "slab_alloc alloc c s = (w, s') \<Longrightarrow> same_conf s s'"
proof -
  assume a: "slab_alloc alloc c s = (w, s')"
  let ?t = "\<lambda>q fr. upd_hdr q (\<lambda>h. h\<lparr>sl_next := None, sl_prev := None, sl_cache := Some c\<rparr>) (s\<lparr>sframes := fr\<rparr>)"
  have "same_conf s (?t q fr)" for q fr by (simp add: same_conf_def slab_simps)
  then have b: "same_conf s (slab_init_objs q c (?t q fr))" for q fr by (rule same_conf_trans) (rule conf_init)
  have "same_conf s (upd_cache c (\<lambda>sc. sc\<lparr>sc_slab_count := sc_slab_count sc + 1\<rparr>) (slab_init_objs q c (?t q fr)))" for q fr
    by (rule same_conf_trans [OF b]) (rule conf, simp)
  with a show ?thesis by (auto simp: slab_alloc_def Let_def conf_basic split: prod.splits if_splits)
qed

lemma conf_find: "find_slab alloc c s = (w, s') \<Longrightarrow> same_conf s s'"
  by (auto simp: find_slab_def split: option.splits prod.splits
      intro: conf conf_slab_alloc same_conf_trans [OF conf_list(2) conf_list(1)] same_conf_trans [OF conf_slab_alloc conf_list(1)])

lemma conf_take: "take_object c p s = Some (w, s') \<Longrightarrow> same_conf s s'"
  by (auto simp: take_object_def Let_def split: option.splits if_splits
      intro!: same_conf_trans [OF _ conf_basic(4)] same_conf_trans [OF _ conf_list(1)] same_conf_trans [OF _ conf_list(2)] conf)

lemma conf_alloc: "kmem_cache_alloc alloc c s = Some (w, s') \<Longrightarrow> same_conf s s'"
  by (auto simp: kmem_cache_alloc_def split: option.splits prod.splits
      intro: conf_find same_conf_trans [OF conf_find conf_take])

lemma conf_free: "kmem_cache_free free c x s = Some s' \<Longrightarrow> same_conf s s'"
  by (auto simp: kmem_cache_free_def slab_free_def Let_def split: option.splits if_splits
      intro!: same_conf_trans [OF _ conf_basic(4)] same_conf_trans [OF _ conf_basic(3)] same_conf_trans [OF _ conf_list(1)] same_conf_trans [OF _ conf_list(2)]
        same_conf_trans [OF _ conf_basic(1)] conf)

end
