(* ===== verification/Kmalloc.thy ===== *)
theory Kmalloc
  imports SlabInv
begin

text \<open>
  \<^verbatim>\<open>kmem_cache_create\<close>, \<^verbatim>\<open>kmem_init\<close>, \<^verbatim>\<open>kmalloc\<close> and \<^verbatim>\<open>kfree\<close> on top of the slab invariant, and the
  properties of \<^verbatim>\<open>slab.c\<close> with the buddy allocator as the source of its pages.
\<close>

unbundle bit_operations_syntax

subsection \<open>New caches\<close>

lemma round8:
  assumes "unat (z::u64) \<le> 2 ^ 64 - 8"
  shows "unat z \<le> unat ((z + 7) AND NOT 7)" "unat ((z + 7) AND NOT 7) \<le> unat z + 7"
    "unat z \<le> 4056 \<Longrightarrow> unat ((z + 7) AND NOT 7) \<le> 4056"
    "unat z mod 8 = 0 \<Longrightarrow> (z + 7) AND NOT 7 = z"
proof -
  have m: "(7 :: u64) = mask 3" by (simp add: mask_eq_exp_minus_1)
  have u: "unat (z + 7) = unat z + 7" using unat_add_small [of z 7] assms by simp
  have e: "unat ((z + 7) AND NOT 7) = unat z + 7 - (unat z + 7) mod 8"
    using clear_low_bits [of "z + 7" 3] unfolding u m [symmetric] by simp
  show "unat z \<le> unat ((z + 7) AND NOT 7)" "unat ((z + 7) AND NOT 7) \<le> unat z + 7" unfolding e by linarith+
  have "n + 7 - (n + 7) mod 8 \<le> 4056" if "n \<le> 4056" for n :: nat using that by presburger
  then show "unat ((z + 7) AND NOT 7) \<le> 4056" if "unat z \<le> 4056" using that unfolding e by blast
  show "(z + 7) AND NOT 7 = z" if "unat z mod 8 = 0"
  proof -
    have "(unat z + 7) mod 8 = 7" using that by presburger
    then have "unat ((z + 7) AND NOT 7) = unat z" unfolding e by simp
    then show ?thesis by (simp only: word_unat_eq_iff)
  qed
qed

lemma new_geom:
  assumes "unat z \<le> 2 ^ 64 - 8" "8 \<le> unat z" "sc_align sc = 8" "sc_obj_size sc = (z + 7) AND NOT 7"
    "sc_objs_per_slab sc = ucast (4056 div sc_obj_size sc)" "sc_objs_per_slab sc \<noteq> 0"
  shows "geom sc"
proof -
  let ?q = "4056 div sc_obj_size sc"
  have "unat ?q \<le> 4056" by (simp add: unat_div)
  then have "unat (ucast ?q :: u32) = unat ?q" by (simp add: unsigned_ucast_eq take_bit_nat_eq_self_iff)
  then have n: "unat (sc_objs_per_slab sc) = 4056 div unat (sc_obj_size sc)" using assms(5) by (simp add: unat_div)
  then have "unat (sc_objs_per_slab sc) * unat (sc_obj_size sc) \<le> 4056" by simp
  moreover have "8 \<le> unat (sc_obj_size sc)" using round8(1) [OF assms(1)] assms(2,4) by simp
  moreover have "0 < unat (sc_objs_per_slab sc)" using assms(6) by (simp add: unat_gt_0)
  ultimately show ?thesis unfolding geom_def using assms(3) by simp
qed

lemma srep_new_cache:
  assumes r: "srep fok owned {} s G fs" and o: "\<forall>d. d \<noteq> num_caches s \<longrightarrow> all_caches s' d = all_caches s d"
    and f: "hdr s' = hdr s" "link s' = link s" "sframes s' = sframes s"
    and n: "num_caches s' = num_caches s
      \<or> num_caches s' = Suc (num_caches s) \<and> Suc (num_caches s) \<le> MAX_SLAB_CACHES \<and> geom (all_caches s' (num_caches s))
        \<and> sc_slab_count (all_caches s' (num_caches s)) = 0
        \<and> (\<forall>l. list_head l (all_caches s' (num_caches s)) = None)"
  shows "srep fok owned {} s' G fs" "live_objs s' G fs = live_objs s G fs"
proof -
  note d = srepD [OF r]
  have h: "heads s' = heads s"
  proof
    fix k show "heads s' k = heads s k"
      using n o by (cases k) (auto simp: heads_def less_Suc_eq)
  qed
  have g: "G (num_caches s, l) = []" for l using d(6) [of _ "num_caches s" l] by (cases "G (num_caches s, l)") auto
  have old: "all_caches s' c = all_caches s c" if "p \<in> set (G (c, l))" for p c l
  proof -
    have "c \<noteq> num_caches s" using d(6) [OF that] by simp
    then show ?thesis using o by simp
  qed
  show "live_objs s' G fs = live_objs s G fs" using old by (fastforce simp: live_objs_def)
  have "slab_ok s' c p (fs p)" if "p \<in> set (G (c, l))" for p c l
    using d(8) [OF that] old [OF that] f by (simp add: slab_ok_def)
  moreover have "slab_lists s' G" using d(3) by (simp add: slab_lists_def h f)
  moreover have "geom (all_caches s' c) \<and> sc_slab_count (all_caches s' c) = of_nat (slab_total G c)"
    if "c < num_caches s'" for c
  proof (cases "c = num_caches s")
    case True
    then show ?thesis using n that by (simp add: slab_total_def g)
  next
    case False
    then show ?thesis using n that o d(4,5) [of c] by auto
  qed
  moreover have "num_caches s \<le> num_caches s'" "num_caches s' \<le> MAX_SLAB_CACHES" using n d(2) by auto
  ultimately show "srep fok owned {} s' G fs"
    unfolding srep_def using d(1,6,7,9) f by (simp add: f) (meson d(6) order_less_le_trans)
qed

lemma cache_create_ok:
  assumes i: "slab_inv fok owned s L" and z: "unat z \<le> 2 ^ 64 - 8" and c: "kmem_cache_create name z s = (w, s')"
  shows "slab_inv fok owned s' L" "sframes s' = sframes s" "kmalloc_caches s' = kmalloc_caches s"
    "\<forall>d. d \<noteq> num_caches s \<longrightarrow> all_caches s' d = all_caches s d"
    "w = None \<Longrightarrow> num_caches s' = num_caches s"
    "w = Some k \<Longrightarrow> k = num_caches s \<and> num_caches s' = Suc (num_caches s)
       \<and> sc_obj_size (all_caches s' k) = ((if z < MIN_OBJ_SIZE then MIN_OBJ_SIZE else z) + 7) AND NOT 7"
    "w = None \<longleftrightarrow> num_caches s \<ge> MAX_SLAB_CACHES \<or> 4056 < unat z"
proof -
  let ?z = "if z < MIN_OBJ_SIZE then MIN_OBJ_SIZE else z" and ?n = "num_caches s"
  let ?y = "(?z + 7) AND NOT 7"
  let ?q = "ucast ((4056 :: u64) div ?y) :: u32"
  have zz: "unat ?z \<le> 2 ^ 64 - 8" "8 \<le> unat ?z" "unat ?z = max 8 (unat z)"
    using z by (auto simp: MIN_OBJ_SIZE_def word_less_nat_alt)
  have us: "(PAGE_SIZE - sizeof_slab :: u64) AND NOT (8 - 1) = 4056" by (simp add: sizeof_slab_def)
  show s': "sframes s' = sframes s" "kmalloc_caches s' = kmalloc_caches s"
    "\<forall>d. d \<noteq> ?n \<longrightarrow> all_caches s' d = all_caches s d"
    "w = None \<Longrightarrow> num_caches s' = ?n"
    "w = Some k \<Longrightarrow> k = ?n \<and> num_caches s' = Suc ?n \<and> sc_obj_size (all_caches s' k) = ?y"
    using c by (auto simp: kmem_cache_create_def Let_def slab_simps split: if_splits)
  have h: "hdr s' = hdr s" "link s' = link s"
    using c by (auto simp: kmem_cache_create_def Let_def slab_simps split: if_splits)
  have wq: "w = None \<longleftrightarrow> ?n \<ge> MAX_SLAB_CACHES \<or> ?q = 0"
    using c us by (auto simp: kmem_cache_create_def Let_def slab_simps split: if_splits)
  have "unat ?q = 4056 div unat ?y"
  proof -
    have "unat ((4056 :: u64) div ?y) \<le> 4056" by (simp add: unat_div)
    then have "unat ?q = unat ((4056 :: u64) div ?y)" by (simp only: unsigned_ucast_eq) (simp add: take_bit_nat_eq_self_iff)
    then show ?thesis by (simp add: unat_div)
  qed
  moreover have "?q = 0 \<longleftrightarrow> unat ?q = 0" by (simp add: unat_eq_0)
  moreover have "unat ?y \<le> 4056 \<longleftrightarrow> unat z \<le> 4056"
  proof
    assume "unat ?y \<le> 4056"
    then show "unat z \<le> 4056" using round8(1) [OF zz(1)] zz(3) by linarith
  next
    assume a: "unat z \<le> 4056"
    then have "unat ?z \<le> 4056" using zz(3) by simp
    then show "unat ?y \<le> 4056" by (rule round8(3) [OF zz(1)])
  qed
  moreover have "unat ?y \<noteq> 0" using round8(1) [OF zz(1)] zz(2) by linarith
  ultimately have q: "?q = 0 \<longleftrightarrow> 4056 < unat z" by (auto simp: div_eq_0_iff)
  then show "w = None \<longleftrightarrow> ?n \<ge> MAX_SLAB_CACHES \<or> 4056 < unat z" using wq by simp
  have n: "num_caches s' = ?n \<or> num_caches s' = Suc ?n \<and> Suc ?n \<le> MAX_SLAB_CACHES \<and> geom (all_caches s' ?n)
        \<and> sc_slab_count (all_caches s' ?n) = 0 \<and> (\<forall>l. list_head l (all_caches s' ?n) = None)"
  proof (cases w)
    case (Some j)
    then have ne: "?q \<noteq> 0" "?n < MAX_SLAB_CACHES" using wq by auto
    have a: "sc_align (all_caches s' ?n) = 8" "sc_obj_size (all_caches s' ?n) = ?y"
      "sc_objs_per_slab (all_caches s' ?n) = ?q" "sc_slab_count (all_caches s' ?n) = 0"
      "sc_partial (all_caches s' ?n) = None" "sc_full (all_caches s' ?n) = None" "sc_empty (all_caches s' ?n) = None" "num_caches s' = Suc ?n"
      using c Some us by (auto simp: kmem_cache_create_def Let_def slab_simps split: if_splits)
    have "geom (all_caches s' ?n)" using a ne(1) by (intro new_geom [OF zz(1,2)]) simp_all
    moreover have "list_head l (all_caches s' ?n) = None" for l using a by (cases l) simp_all
    ultimately show ?thesis using ne a by simp
  qed (use s'(4) in simp)
  from i obtain G fs where r: "srep fok owned {} s G fs" and L: "L = live_objs s G fs"
    unfolding slab_inv_def by blast
  note k = srep_new_cache [OF r s'(3) h s'(1) n]
  from k show "slab_inv fok owned s' L" unfolding slab_inv_def L by metis
qed

subsection \<open>The kmalloc caches\<close>

text \<open>Index 7, for objects of 4096 bytes, has no cache: such an object does not fit in a slab.\<close>

definition kcaches_ok :: "'s slabs \<Rightarrow> bool" where
  "kcaches_ok s \<longleftrightarrow> slab_initialized s \<and> num_caches s \<ge> 7 \<and> kmalloc_caches s 7 = None
     \<and> (\<forall>i < 7. kmalloc_caches s i = Some i \<and> sc_obj_size (all_caches s i) = 32 * 2 ^ i)"

lemma kcaches_conf: "kcaches_ok s \<Longrightarrow> same_conf s s' \<Longrightarrow> kcaches_ok s'"
  by (simp add: kcaches_ok_def same_conf_def)

lemma kmalloc_index_cases:
  assumes "sz \<noteq> 0"
  obtains (small) i where "kmalloc_index sz = int i" "i < 7" "sz \<le> 32 * 2 ^ i" "i = 0 \<or> 16 * 2 ^ i < sz" "sz \<le> 2048"
  | (page) "kmalloc_index sz = 7" "2048 < sz"
  | (large) "kmalloc_index sz = -1" "4096 < sz"
proof -
  consider "sz \<le> 32" | "32 < sz" "sz \<le> 64" | "64 < sz" "sz \<le> 128" | "128 < sz" "sz \<le> 256" | "256 < sz" "sz \<le> 512"
    | "512 < sz" "sz \<le> 1024" | "1024 < sz" "sz \<le> 2048" | "2048 < sz" "sz \<le> 4096" | "4096 < sz"
    by (meson not_le)
  then show thesis
  proof cases
    case 1 then show ?thesis using small [of 0] by (force simp: kmalloc_index_def word_le_nat_alt word_less_nat_alt)
  next
    case 2 then show ?thesis using small [of 1] by (force simp: kmalloc_index_def word_le_nat_alt word_less_nat_alt)
  next
    case 3 then show ?thesis using small [of 2] by (force simp: kmalloc_index_def word_le_nat_alt word_less_nat_alt)
  next
    case 4 then show ?thesis using small [of 3] by (force simp: kmalloc_index_def word_le_nat_alt word_less_nat_alt)
  next
    case 5 then show ?thesis using small [of 4] by (force simp: kmalloc_index_def word_le_nat_alt word_less_nat_alt)
  next
    case 6 then show ?thesis using small [of 5] by (force simp: kmalloc_index_def word_le_nat_alt word_less_nat_alt)
  next
    case 7 then show ?thesis using small [of 6] by (force simp: kmalloc_index_def word_le_nat_alt word_less_nat_alt)
  next
    case 8 then show ?thesis using page by (force simp: kmalloc_index_def word_le_nat_alt word_less_nat_alt)
  next
    case 9 then show ?thesis using large by (force simp: kmalloc_index_def word_le_nat_alt word_less_nat_alt)
  qed
qed

lemma big_pages: "4096 < (sz::u64) \<Longrightarrow> (sz + PAGE_SIZE - 1) div PAGE_SIZE \<noteq> 1"
proof
  assume a: "4096 < sz" and e: "(sz + PAGE_SIZE - 1) div PAGE_SIZE = 1"
  have "sz + PAGE_SIZE - 1 = sz + 4095" by simp
  then have "unat ((sz + PAGE_SIZE - 1) div PAGE_SIZE) = unat (sz + 4095) div unat PAGE_SIZE" by (simp only: unat_div)
  then have "unat ((sz + PAGE_SIZE - 1) div PAGE_SIZE) = unat (sz + 4095) div 4096" by simp
  then have one: "unat (sz + 4095) div 4096 = 1" using e by simp
  have lt: "4096 < unat sz" using a by (simp add: word_less_nat_alt)
  show False
  proof (cases "unat sz + 4095 < 2 ^ 64")
    case True
    then have "unat (sz + 4095) = unat sz + 4095" using unat_add_small [of sz 4095] by simp
    then show ?thesis using one lt by linarith
  next
    case False
    then have "unat (sz + 4095) = unat sz + 4095 - 2 ^ 64" by (simp add: unat_plus_if')
    moreover have "unat sz < 2 ^ LENGTH(64)" by (rule unsigned_less)
    ultimately have "unat (sz + 4095) < 4096" by simp
    then show ?thesis using one by simp
  qed
qed

definition kmalloc_inv :: "('s \<Rightarrow> bool) \<Rightarrow> ('s \<Rightarrow> u64 set) \<Rightarrow> 's slabs \<Rightarrow> (nat \<times> u64) set \<Rightarrow> bool" where
  "kmalloc_inv fok owned s L \<longleftrightarrow> slab_inv fok owned s L \<and> kcaches_ok s"

text \<open>\<open>kclass sz\<close>: the objects \<^verbatim>\<open>kmalloc\<close> gives out for a request of \<open>sz\<close> bytes.\<close>

definition kclass :: "u64 \<Rightarrow> nat \<Rightarrow> bool" where
  "kclass sz c \<longleftrightarrow> c < 7 \<and> 0 < sz \<and> sz \<le> 32 * 2 ^ c \<and> (c = 0 \<or> 16 * 2 ^ c < sz)
     \<and> kmalloc_index sz = int c"

context frame_source
begin

lemma kmalloc_ok:
  assumes i: "kmalloc_inv fok owned s L"
  shows "\<exists>w s'. kmalloc falloc sz s = Some (w, s')
    \<and> (case w of
         None \<Rightarrow> s' = s \<and> (sz = 0 \<or> 2048 < sz \<or> fst (falloc (sframes s)) = 0)
       | Some x \<Rightarrow> \<exists>c. kclass sz c \<and> (c, x) \<notin> L \<and> kmalloc_inv fok owned s' (insert (c, x) L))"
proof (cases "sz = 0")
  case True
  then show ?thesis by (simp add: kmalloc_def)
next
  case False
  have k: "kcaches_ok s" "slab_initialized s" "slab_inv fok owned s L" using i by (simp_all add: kmalloc_inv_def kcaches_ok_def)
  from False show ?thesis
  proof (cases rule: kmalloc_index_cases)
    case (small c)
    then have c: "kmalloc_caches s c = Some c" "c < num_caches s" using k(1) by (auto simp: kcaches_ok_def)
    have e: "kmalloc falloc sz s = kmem_cache_alloc falloc (Some c) s"
      using False k(2) small(1) c by (simp add: kmalloc_def)
    have cl: "kclass sz c" using small False by (simp add: kclass_def word_gt_0)
    from cache_alloc_ok [OF k(3) c(2)] obtain w s' where w: "kmem_cache_alloc falloc (Some c) s = Some (w, s')"
      "case w of None \<Rightarrow> s' = s \<and> sc_partial (all_caches s c) = None \<and> sc_empty (all_caches s c) = None
                 \<and> fst (falloc (sframes s)) = 0
       | Some x \<Rightarrow> (c, x) \<notin> L \<and> slab_inv fok owned s' (insert (c, x) L)" by blast
    have "kcaches_ok s'" by (rule kcaches_conf [OF k(1) conf_alloc [OF w(1)]])
    with w cl show ?thesis unfolding e by (cases w) (auto simp: kmalloc_inv_def)
  next
    case page
    then show ?thesis using False k(1) by (simp add: kmalloc_def kcaches_ok_def)
  next
    case large
    then have "2048 < sz" by (simp add: word_less_nat_alt)
    then show ?thesis using False k(2) large big_pages [of sz] by (simp add: kmalloc_def)
  qed
qed

lemma kfree_ok:
  assumes i: "kmalloc_inv fok owned s L" and x: "(c, x) \<in> L"
  shows "\<exists>s'. kfree ffree (Some x) s = Some s' \<and> kmalloc_inv fok owned s' (L - {(c, x)})"
proof -
  have k: "kcaches_ok s" "slab_initialized s" "slab_inv fok owned s L" using i by (simp_all add: kmalloc_inv_def kcaches_ok_def)
  obtain p where p: "c < num_caches s" "sl_cache (hdr s p) = Some c" "x AND NOT (PAGE_SIZE - 1) = p"
    using live_objD [OF k(3) x] by metis
  have "num_caches s \<le> MAX_SLAB_CACHES" using k(3) unfolding slab_inv_def by (metis srepD(2))
  then have e: "kfree ffree (Some x) s = kmem_cache_free ffree (Some c) (Some x) s"
    using p k(2) by (simp add: kfree_def Let_def)
  from cache_free_ok [OF k(3) x] obtain s' where s': "kmem_cache_free ffree (Some c) (Some x) s = Some s'"
    "slab_inv fok owned s' (L - {(c, x)})" by blast
  have "kcaches_ok s'" by (rule kcaches_conf [OF k(1) conf_free [OF s'(1)]])
  with s' show ?thesis unfolding e kmalloc_inv_def by blast
qed

lemma slab_inv_start:
  assumes "fok (sframes s)" "num_caches s = 0"
  shows "slab_inv fok owned s {}"
proof -
  have "srep fok owned {} s (\<lambda>_. []) (\<lambda>_. [])"
    using assms by (simp add: srep_def slab_lists_def heads_def dlls_def)
  moreover have "live_objs s (\<lambda>_. []) (\<lambda>_. []) = {}" by (simp add: live_objs_def)
  ultimately show ?thesis unfolding slab_inv_def by blast
qed

end

text \<open>One step of the loop of \<^verbatim>\<open>kmem_init\<close>.\<close>

definition kmem_init_step :: "nat \<times> string \<times> u64 \<Rightarrow> 's slabs \<Rightarrow> 's slabs" where
  "kmem_init_step = (\<lambda>(i, name, sz) t.
     let (c, t1) = kmem_cache_create name sz t in t1\<lparr>kmalloc_caches := (kmalloc_caches t1)(i := c)\<rparr>)"

definition caches_upto :: "'s slabs \<Rightarrow> nat \<Rightarrow> bool" where
  "caches_upto s n \<longleftrightarrow> num_caches s = n
     \<and> (\<forall>i < n. kmalloc_caches s i = Some i \<and> sc_obj_size (all_caches s i) = 32 * 2 ^ i)"

lemma srep_init_field:
  "srep fok owned X (s\<lparr>kmalloc_caches := k\<rparr>) G fs = srep fok owned X s G fs"
  "srep fok owned X (s\<lparr>slab_initialized := b\<rparr>) G fs = srep fok owned X s G fs"
  unfolding srep_def slab_ok_def slab_lists_def heads_def by (simp_all cong: if_cong)

lemma slab_inv_init_field [simp]:
  "slab_inv fok owned (s\<lparr>kmalloc_caches := k\<rparr>) L = slab_inv fok owned s L"
  "slab_inv fok owned (s\<lparr>slab_initialized := b\<rparr>) L = slab_inv fok owned s L"
  by (simp_all add: slab_inv_def srep_init_field live_objs_def)

lemma init_step_ok:
  assumes i: "slab_inv fok owned s L" and u: "caches_upto s n" and n: "n < 16"
    and z: "sz = 32 * 2 ^ n" "unat sz \<le> 4056" "unat sz mod 8 = 0" "8 \<le> unat sz"
  shows "slab_inv fok owned (kmem_init_step (n, name, sz) s) L" "caches_upto (kmem_init_step (n, name, sz) s) (Suc n)"
proof -
  obtain w s' where c: "kmem_cache_create name sz s = (w, s')" by fastforce
  have z64: "unat sz \<le> 2 ^ 64 - 8" using z(2) by simp
  note k = cache_create_ok [OF i z64 c]
  have w: "w = Some n" using k(6,7) u n z(2) by (cases w) (auto simp: caches_upto_def MAX_SLAB_CACHES_def)
  have "\<not> sz < MIN_OBJ_SIZE" using z(4) by (simp add: MIN_OBJ_SIZE_def word_less_nat_alt)
  have st: "kmem_init_step (n, name, sz) s = s'\<lparr>kmalloc_caches := (kmalloc_caches s')(n := Some n)\<rparr>"
    by (simp add: kmem_init_step_def c w)
  have "sc_obj_size (all_caches s' n) = sz" using \<open>\<not> sz < MIN_OBJ_SIZE\<close> k(6) [OF w] round8(4) [OF z64 z(3)] by (simp only: if_False) blast
  then have new: "sc_obj_size (all_caches s' n) = 32 * 2 ^ n" by (simp only: z(1))
  have nc: "num_caches s = n" "num_caches s' = Suc n" using u k(6) [OF w] by (simp_all add: caches_upto_def)
  have "kmalloc_caches (kmem_init_step (n, name, sz) s) i = Some i
      \<and> sc_obj_size (all_caches (kmem_init_step (n, name, sz) s) i) = 32 * 2 ^ i" if i: "i < Suc n" for i
  proof (cases "i = n")
    case True
    then show ?thesis using new by (simp add: st)
  next
    case False
    then have "i < n" using i by simp
    then show ?thesis using u k(3,4) nc False by (simp add: st caches_upto_def)
  qed
  then show "caches_upto (kmem_init_step (n, name, sz) s) (Suc n)" using nc by (simp add: caches_upto_def st)
  show "slab_inv fok owned (kmem_init_step (n, name, sz) s) L" using k(1) unfolding st by simp
qed

lemma kmem_init_steps:
  "kmem_init s = (fold kmem_init_step [(0, ''size-32'', 32), (1, ''size-64'', 64), (2, ''size-128'', 128),
      (3, ''size-256'', 256), (4, ''size-512'', 512), (5, ''size-1024'', 1024), (6, ''size-2048'', 2048),
      (7, ''size-4096'', 4096)] s)\<lparr>slab_initialized := True\<rparr>"
  unfolding kmem_init_def kmem_init_step_def ..

lemma init_step_big:
  assumes i: "slab_inv fok owned s L" and u: "caches_upto s n" and z: "4056 < unat sz" "unat sz \<le> 2 ^ 64 - 8"
    and n: "n \<le> m"
  shows "slab_inv fok owned (kmem_init_step (m, name, sz) s) L" "caches_upto (kmem_init_step (m, name, sz) s) n"
    "kmalloc_caches (kmem_init_step (m, name, sz) s) m = None"
proof -
  obtain w s' where c: "kmem_cache_create name sz s = (w, s')" by fastforce
  note k = cache_create_ok [OF i z(2) c]
  have w: "w = None" using k(7) z(1) by simp
  show "slab_inv fok owned (kmem_init_step (m, name, sz) s) L" using k(1) by (simp add: kmem_init_step_def c)
  show "caches_upto (kmem_init_step (m, name, sz) s) n" "kmalloc_caches (kmem_init_step (m, name, sz) s) m = None"
    using k(3,4,5) u w n by (auto simp: kmem_init_step_def caches_upto_def c)
qed

context frame_source
begin

lemma kmem_init_ok:
  assumes "fok (sframes s)" "num_caches s = 0"
  shows "kmalloc_inv fok owned (kmem_init s) {}"
proof -
  have i0: "slab_inv fok owned s {}" "caches_upto s 0"
    using slab_inv_start [OF assms] assms by (simp_all add: caches_upto_def)
  note i1 = init_step_ok [OF i0, of 32 "''size-32''", simplified]
  note i2 = init_step_ok [OF i1, of 64 "''size-64''", simplified]
  note i3 = init_step_ok [OF i2, of 128 "''size-128''", simplified]
  note i4 = init_step_ok [OF i3, of 256 "''size-256''", simplified]
  note i5 = init_step_ok [OF i4, of 512 "''size-512''", simplified]
  note i6 = init_step_ok [OF i5, of 1024 "''size-1024''", simplified]
  note i7 = init_step_ok [OF i6, of 2048 "''size-2048''", simplified]
  note i8 = init_step_big [OF i7, of 4096 7 "''size-4096''", simplified]
  show ?thesis
    using i8 unfolding kmalloc_inv_def kmem_init_steps kcaches_ok_def caches_upto_def
    by (simp add: eval_nat_numeral)
qed

end

subsection \<open>kmalloc\_verify\<close>

lemma verify_loop_dll:
  "dll (\<lambda>p. sl_next (hdr s p)) pv q h ps \<Longrightarrow>
   verify_loop chk h s e = Some (e + (\<Sum>p\<leftarrow>ps. chk (hdr s p)))"
proof (induction ps arbitrary: q h e)
  case Nil
  then show ?case by (simp add: verify_loop.simps)
next
  case (Cons p ps)
  then show ?case by (subst verify_loop.simps) (auto simp: add.assoc)
qed

definition idle_slabs :: "'s slabs \<Rightarrow> u64 list \<Rightarrow> nat" where
  "idle_slabs s ps = length (filter (\<lambda>p. sl_inuse (hdr s p) = 0) ps)"

lemma sum_list_zero: "(\<And>x. x \<in> set xs \<Longrightarrow> f x = (0::int)) \<Longrightarrow> (\<Sum>x\<leftarrow>xs. f x) = 0"
  by (induction xs) auto

lemma sum_list_count: "(\<And>x. x \<in> set xs \<Longrightarrow> f x = (if P x then 1 else 0 :: int)) \<Longrightarrow> (\<Sum>x\<leftarrow>xs. f x) = int (length (filter P xs))"
  by (induction xs) auto

text \<open>The only complaint is about slabs on the partial list with no object in use.\<close>

lemma verify_cache_ok:
  assumes r: "srep fok owned {} s G fs" and c: "c < num_caches s"
  shows "verify_cache c s e = Some (e + int (idle_slabs s (G (c, Partial))))"
proof -
  note d = srepD [OF r]
  have l: "dll (\<lambda>p. sl_next (hdr s p)) (\<lambda>p. sl_prev (hdr s p)) None (list_head l (all_caches s c)) (G (c, l))" for l
  proof -
    have "dll (\<lambda>p. sl_next (hdr s p)) (\<lambda>p. sl_prev (hdr s p)) None (heads s (c, l)) (G (c, l))"
      using d(3) by (simp add: slab_lists_def dlls_def)
    then show ?thesis using c by (simp add: heads_def)
  qed
  note v = verify_loop_dll [OF l]
  have fill: "sl_cache (hdr s p) = Some c" "unat (sl_inuse (hdr s p)) + length (fs p) = unat (sl_total (hdr s p))"
    if "p \<in> set (G (c, l))" for p l using d(8) [OF that] by (simp_all add: slab_ok_def)
  have p: "(\<Sum>p\<leftarrow>G (c, Partial). (if sl_cache (hdr s p) \<noteq> Some c then 1 else 0)
      + (if sl_inuse (hdr s p) \<ge> sl_total (hdr s p) then 1 else 0) + (if sl_inuse (hdr s p) = 0 then 1 else 0))
      = int (idle_slabs s (G (c, Partial)))"
    unfolding idle_slabs_def
  proof (rule sum_list_count)
    fix p assume p: "p \<in> set (G (c, Partial))"
    have "fs p \<noteq> []" using d(9) [OF p] by simp
    then have "\<not> sl_inuse (hdr s p) \<ge> sl_total (hdr s p)"
      using fill(2) [OF p] by (cases "fs p") (auto simp: word_le_nat_alt)
    then show "(if sl_cache (hdr s p) \<noteq> Some c then 1 else 0)
      + (if sl_inuse (hdr s p) \<ge> sl_total (hdr s p) then 1 else 0) + (if sl_inuse (hdr s p) = 0 then 1 else 0)
      = (if sl_inuse (hdr s p) = 0 then 1 else 0 :: int)" using fill(1) [OF p] by simp
  qed
  have f: "(\<Sum>p\<leftarrow>G (c, Full). if sl_inuse (hdr s p) \<noteq> sl_total (hdr s p) then 1 else 0 :: int) = 0"
  proof (rule sum_list_zero)
    fix p assume p: "p \<in> set (G (c, Full))"
    have "fs p = []" using d(9) [OF p] by simp
    then have "unat (sl_inuse (hdr s p)) = unat (sl_total (hdr s p))" using fill(2) [OF p] by simp
    then show "(if sl_inuse (hdr s p) \<noteq> sl_total (hdr s p) then 1 else 0 :: int) = 0" by (simp add: word_unat_eq_iff)
  qed
  have m: "(\<Sum>p\<leftarrow>G (c, Empty). if sl_inuse (hdr s p) \<noteq> 0 then 1 else 0 :: int) = 0"
    by (rule sum_list_zero) (use d(9) [of _ c Empty] in auto)
  show ?thesis
    unfolding verify_cache_def v [of _ Partial, simplified list_head.simps] v [of _ Full, simplified list_head.simps]
      v [of _ Empty, simplified list_head.simps] Option.bind.simps f m p by simp
qed

lemma fold_bind_Some:
  "(\<And>i e. i \<in> set is \<Longrightarrow> f i e = Some (e + g i)) \<Longrightarrow>
   fold (\<lambda>i acc. Option.bind acc (f i)) is (Some (e::int)) = Some (e + (\<Sum>i\<leftarrow>is. g i))"
  by (induction "is" arbitrary: e) (auto simp: add.assoc)


lemma kmalloc_verify_ok:
  assumes "kmalloc_inv fok owned s L"
  shows "\<exists>ps. (\<forall>i < 7. dll (\<lambda>p. sl_next (hdr s p)) (\<lambda>p. sl_prev (hdr s p)) None (sc_partial (all_caches s i)) (ps i))
    \<and> kmalloc_verify s = Some (\<Sum>i\<leftarrow>[0..<7]. int (idle_slabs s (ps i)))"
proof -
  from assms obtain G fs where r: "srep fok owned {} s G fs" and k: "kcaches_ok s"
    unfolding kmalloc_inv_def slab_inv_def by blast
  have n: "i < num_caches s" if "i < 7" for i using k that by (simp add: kcaches_ok_def)
  have "dll (\<lambda>p. sl_next (hdr s p)) (\<lambda>p. sl_prev (hdr s p)) None (sc_partial (all_caches s i)) (G (i, Partial))"
    if "i < 7" for i
  proof -
    have "dll (\<lambda>p. sl_next (hdr s p)) (\<lambda>p. sl_prev (hdr s p)) None (heads s (i, Partial)) (G (i, Partial))"
      using srepD(3) [OF r] by (simp add: slab_lists_def dlls_def)
    then show ?thesis using n [OF that] by (simp add: heads_def)
  qed
  moreover have "kmalloc_verify s = Some (\<Sum>i\<leftarrow>[0..<7]. int (idle_slabs s (G (i, Partial))))"
  proof -
    have e: "[0..<8] = [0..<7] @ [7 :: nat]" by (simp add: upt_rec)
    have "fold (\<lambda>i acc. Option.bind acc (\<lambda>errors. case kmalloc_caches s i of None \<Rightarrow> Some errors
        | Some c \<Rightarrow> verify_cache c s errors)) [0..<7] (Some 0) = Some (0 + (\<Sum>i\<leftarrow>[0..<7]. int (idle_slabs s (G (i, Partial)))))"
      by (rule fold_bind_Some) (use k n verify_cache_ok [OF r] in \<open>auto simp: kcaches_ok_def\<close>)
    then show ?thesis using k unfolding kmalloc_verify_def e fold_append by (simp add: kcaches_ok_def)
  qed
  ultimately show ?thesis by (intro exI [of _ "\<lambda>i. G (i, Partial)"]) simp
qed

lemma idle_head: "dll nx pv q (Some p) ps \<Longrightarrow> sl_inuse (hdr s p) = 0 \<Longrightarrow> 0 < idle_slabs s ps"
  by (cases ps) (auto simp: idle_slabs_def)

context frame_source
begin

lemma kfree_single:
  assumes i: "kmalloc_inv fok owned s L" and x: "(6, x) \<in> L"
  shows "\<exists>s' p. kfree ffree (Some x) s = Some s' \<and> sframes s' = sframes s \<and> sc_partial (all_caches s' 6) = Some p \<and> sl_inuse (hdr s' p) = 0"
proof -
  have k: "kcaches_ok s" "slab_initialized s" "slab_inv fok owned s L" using i by (simp_all add: kmalloc_inv_def kcaches_ok_def)
  from k(3) obtain G fs where r: "srep fok owned {} s G fs" and L: "L = live_objs s G fs"
    unfolding slab_inv_def by blast
  from x L obtain l p where p: "p \<in> set (G (6, l))" "x \<in> objs (all_caches s 6) p" "x \<notin> set (fs p)"
    by (auto simp: live_objs_def)
  note d = srepD [OF r] and g = srep_page [OF r p(1)]
  have pg: "x AND NOT (PAGE_SIZE - 1) = p" by (rule obj_page [OF g(1-3) p(2)])
  have ok: "slab_ok s 6 p (fs p)" by (rule d(8) [OF p(1)])
  have "(6 :: nat) < 7" by simp
  then have "sc_obj_size (all_caches s 6) = 32 * 2 ^ 6" using k(1) unfolding kcaches_ok_def by blast
  then have sz: "sc_obj_size (all_caches s 6) = 2048" by simp
  have one: "unat (sc_objs_per_slab (all_caches s 6)) = 1" using g(1) unfolding geom_def sz by simp
  then have "sl_total (hdr s p) = 1" using ok by (simp add: slab_ok_def word_unat_eq_iff)
  moreover have "fs p = []"
  proof -
    have c: "card (objs (all_caches s 6) p) = 1" using objs_card [OF g(1-3)] one by simp
    then obtain y where "objs (all_caches s 6) p = {y}" by (auto simp: card_1_singleton_iff)
    moreover have "set (fs p) \<subseteq> objs (all_caches s 6) p" using ok by (simp add: slab_ok_def)
    ultimately show ?thesis using p(2,3) by (cases "fs p") auto
  qed
  ultimately have use: "sl_inuse (hdr s p) = 1" "sl_total (hdr s p) = 1" using ok by (auto simp: slab_ok_def word_unat_eq_iff)
  have "6 < MAX_SLAB_CACHES" by (simp add: MAX_SLAB_CACHES_def)
  moreover have "sl_cache (hdr s p) = Some 6" using ok by (simp add: slab_ok_def)
  ultimately show ?thesis using use k(2) pg
    by (simp add: kfree_def kmem_cache_free_def Let_def slab_list_add_def slab_list_remove_def slab_simps split: option.split)
qed

end


subsection \<open>Properties\<close>

text \<open>The allocator on top of the buddy allocator, with the live objects \<open>L\<close>.\<close>

definition kbuddy :: "buddy slabs \<Rightarrow> (nat \<times> u64) set \<Rightarrow> bool" where
  "kbuddy s L \<longleftrightarrow> kmalloc_inv (\<lambda>b. \<exists>M. manages b M) owned_frames s L"

definition bss_slabs :: "'s \<Rightarrow> 's slabs" where
  "bss_slabs fr = \<lparr>hdr = (\<lambda>_. \<lparr>sl_next = None, sl_prev = None, sl_cache = None, sl_free_list = None, sl_inuse = 0, sl_total = 0\<rparr>),
     link = (\<lambda>_. None),
     all_caches = (\<lambda>_. \<lparr>sc_name = [], sc_obj_size = 0, sc_align = 0, sc_objs_per_slab = 0, sc_slab_count = 0,
       sc_partial = None, sc_full = None, sc_empty = None, sc_total_allocs = 0, sc_total_frees = 0\<rparr>),
     num_caches = 0, kmalloc_caches = (\<lambda>_. None), slab_initialized = False, sframes = fr\<rparr>"

definition boot_slabs :: "buddy slabs" where
  "boot_slabs = kmem_init (bss_slabs (page_init bss_buddy))"

inductive kmalloc_reach :: "buddy slabs \<Rightarrow> (nat \<times> u64) set \<Rightarrow> bool" where
  init: "manages b M \<Longrightarrow> kmalloc_reach (kmem_init (bss_slabs b)) {}"
| alloc: "kmalloc_reach s L \<Longrightarrow> kmalloc alloc_page sz s = Some (Some x, s') \<Longrightarrow>
          kmalloc_reach s' (insert (nat (kmalloc_index sz), x) L)"
| fail: "kmalloc_reach s L \<Longrightarrow> kmalloc alloc_page sz s = Some (None, s') \<Longrightarrow> kmalloc_reach s' L"
| free: "kmalloc_reach s L \<Longrightarrow> (c, x) \<in> L \<Longrightarrow> kfree free_page (Some x) s = Some s' \<Longrightarrow>
         kmalloc_reach s' (L - {(c, x)})"
| store: "kmalloc_reach s L \<Longrightarrow> (c, x) \<in> L \<Longrightarrow> kmalloc_reach (set_link x v s) L"

lemma kbuddy_init: "manages b M \<Longrightarrow> kbuddy (kmem_init (bss_slabs b)) {}"
  unfolding kbuddy_def by (rule buddy_frames.kmem_init_ok) (auto simp: bss_slabs_def)

lemma kbuddy_boot: "kbuddy boot_slabs {}"
  unfolding boot_slabs_def by (rule kbuddy_init [OF page_init_ok(1)])

lemma kbuddy_write:
  assumes "kbuddy s L" "(c, x) \<in> L"
  shows "kbuddy (set_link x v s) L"
  using assms buddy_frames.user_write [of s L c x v] kcaches_conf [OF _ conf_basic(2)]
  unfolding kbuddy_def kmalloc_inv_def by blast

lemma kmalloc_reach_inv: "kmalloc_reach s L \<Longrightarrow> kbuddy s L"
proof (induction rule: kmalloc_reach.induct)
  case (init b M)
  then show ?case by (rule kbuddy_init)
next
  case (alloc s L sz x s')
  from buddy_frames.kmalloc_ok [OF alloc.IH [unfolded kbuddy_def], of sz] alloc.hyps(2) obtain c where
    "kclass sz c" "kmalloc_inv (\<lambda>b. \<exists>M. manages b M) owned_frames s' (insert (c, x) L)" by auto
  moreover then have "nat (kmalloc_index sz) = c" by (simp add: kclass_def)
  ultimately show ?case by (simp add: kbuddy_def)
next
  case (fail s L sz s')
  from buddy_frames.kmalloc_ok [OF fail.IH [unfolded kbuddy_def], of sz] fail.hyps(2) have "s' = s" by auto
  then show ?case using fail.IH by simp
next
  case (free s L c x s')
  from buddy_frames.kfree_ok [OF free.IH [unfolded kbuddy_def] free.hyps(2)] free.hyps(3) show ?case
    by (auto simp: kbuddy_def)
next
  case (store s L c x v)
  then show ?case by (intro kbuddy_write)
qed

lemma boot_sframes: "sframes boot_slabs = page_init bss_buddy"
  unfolding boot_slabs_def kmem_init_def bss_slabs_def
  by (simp add: kmem_cache_create_def upd_cache_def Let_def MAX_SLAB_CACHES_def MIN_OBJ_SIZE_def sizeof_slab_def)

lemma kmalloc_nonnull:
  assumes "kbuddy s L" "kmalloc_index sz = int c" "0 < sz" "sz \<le> 2048" "0 < unat (free_page_count (sframes s))"
  shows "\<exists>x s'. kmalloc alloc_page sz s = Some (Some x, s') \<and> kbuddy s' (insert (c, x) L)"
proof -
  have m: "\<exists>M. manages (sframes s) M" using assms(1) by (auto simp: kbuddy_def kmalloc_inv_def slab_inv_def srep_def)
  have "fst (alloc_page (sframes s)) \<noteq> 0"
    using buddy_counted.falloc_avail [OF m assms(5)] by (cases "alloc_page (sframes s)") auto
  with buddy_frames.kmalloc_ok [OF assms(1) [unfolded kbuddy_def], of sz] assms(2-4) show ?thesis
    unfolding kbuddy_def by (auto simp: kclass_def split: option.splits)
qed

lemma boot_kmalloc:
  assumes "kmalloc_index sz = int c" "0 < sz" "sz \<le> 2048"
  shows "\<exists>x s'. kmalloc alloc_page sz boot_slabs = Some (Some x, s') \<and> kbuddy s' {(c, x)}"
  by (rule kmalloc_nonnull [OF kbuddy_boot assms]) (simp add: boot_sframes page_init_count)

text \<open>
  C13: \<open>kmalloc\<close> never faults.  It returns \<^verbatim>\<open>NULL\<close>, and changes nothing, only for size 0, for
  more than 2048 bytes or when no page is left; otherwise the object has room for the
  request, lies behind the header of a page owned by the page allocator, and shares no byte with a
  live object.  In all cases the lists of the allocator stay consistent.  (\<^verbatim>\<open>BUGS.md\<close> records as BUG-001, not fixed, that
  \<open>kmalloc\<close> returns invalid or overlapping addresses, and \<^verbatim>\<open>docs/history\<close> that it returned 1.  From a state in which
  the invariant holds, \<^verbatim>\<open>slab.c\<close> as it is does neither: what is reported needs a cause outside it, such as a write
  past the end of an object, or an older version of the file.)
\<close>

theorem kmalloc_correct:
  assumes "kbuddy s L"
  shows "\<exists>w s'. kmalloc alloc_page sz s = Some (w, s')
    \<and> (case w of
         None \<Rightarrow> s' = s \<and> (sz = 0 \<or> 2048 < sz \<or> free_page_count (sframes s) = 0)
       | Some x \<Rightarrow> \<exists>c p. kclass sz c \<and> kbuddy s' (insert (c, x) L)
           \<and> p \<in> owned_frames (sframes s') \<and> bytes x sz \<subseteq> {unat p + 40 ..< unat p + 4096}
           \<and> (\<forall>(d, y) \<in> L. bytes x sz \<inter> bytes y (sc_obj_size (all_caches s' d)) = {}))"
proof -
  note k = assms [unfolded kbuddy_def]
  from buddy_frames.kmalloc_ok [OF k, of sz] obtain w s' where w: "kmalloc alloc_page sz s = Some (w, s')"
    "case w of None \<Rightarrow> s' = s \<and> (sz = 0 \<or> 2048 < sz \<or> fst (alloc_page (sframes s)) = 0)
     | Some x \<Rightarrow> \<exists>c. kclass sz c \<and> (c, x) \<notin> L \<and> kmalloc_inv (\<lambda>b. \<exists>M. manages b M) owned_frames s' (insert (c, x) L)"
    by blast
  have m: "\<exists>M. manages (sframes s) M" using k by (auto simp: kmalloc_inv_def slab_inv_def srep_def)
  have nomem: "free_page_count (sframes s) = 0" if "fst (alloc_page (sframes s)) = 0"
    using buddy_counted.falloc_avail [OF m, of 0 "snd (alloc_page (sframes s))"] that by (auto simp: prod_eq_iff unat_gt_0)
  show ?thesis
  proof (cases w)
    case None
    then show ?thesis using w nomem by auto
  next
    case (Some x)
    then obtain c where c: "kclass sz c" "(c, x) \<notin> L" "kmalloc_inv (\<lambda>b. \<exists>M. manages b M) owned_frames s' (insert (c, x) L)"
      using w(2) by auto
    have i: "slab_inv (\<lambda>b. \<exists>M. manages b M) owned_frames s' (insert (c, x) L)" and
      o: "sc_obj_size (all_caches s' c) = 32 * 2 ^ c"
      using c(1,3) by (auto simp: kmalloc_inv_def kcaches_ok_def kclass_def)
    have le: "bytes x sz \<subseteq> bytes x (sc_obj_size (all_caches s' c))"
      using c(1) unfolding o by (auto simp: kclass_def bytes_def word_le_nat_alt)
    obtain p where p: "p \<in> owned_frames (sframes s')"
      "bytes x (sc_obj_size (all_caches s' c)) \<subseteq> {unat p + 40 ..< unat p + 4096}"
      using buddy_frames.live_objD [OF i insertI1] by metis
    have "bytes x sz \<inter> bytes y (sc_obj_size (all_caches s' d)) = {}" if "(d, y) \<in> L" for d y
      using buddy_frames.live_disjoint(1) [OF i insertI1, of d y] that c(2) le by blast
    then have "kclass sz c \<and> kbuddy s' (insert (c, x) L) \<and> p \<in> owned_frames (sframes s')
      \<and> bytes x sz \<subseteq> {unat p + 40 ..< unat p + 4096}
      \<and> (\<forall>(d, y) \<in> L. bytes x sz \<inter> bytes y (sc_obj_size (all_caches s' d)) = {})"
      using p le c(1,3) unfolding kbuddy_def by blast
    then show ?thesis using w(1) Some by (intro exI [of _ w] exI [of _ s']) auto
  qed
qed

theorem kmalloc_correct_witness:
  "\<exists>x s'. kmalloc alloc_page 100 boot_slabs = Some (Some x, s') \<and> kbuddy s' {(2, x)}"
proof -
  have "free_page_count (page_init bss_buddy) \<noteq> 0" using page_init_count [of bss_buddy] by auto
  with kmalloc_correct [OF kbuddy_boot, of 100] boot_sframes obtain x s' c where
    "kmalloc alloc_page 100 boot_slabs = Some (Some x, s')" "kclass 100 c" "kbuddy s' (insert (c, x) {})"
    by (auto split: option.splits)
  moreover then have "c = 2" by (simp add: kclass_def kmalloc_index_def)
  ultimately show ?thesis by auto
qed

text \<open>
  C14: freeing a live object never faults, removes exactly that object from the live ones and
  keeps the allocator consistent, so the page allocator gets back only pages without
  live objects; \<open>kfree(NULL)\<close> does nothing.
\<close>

theorem kfree_correct:
  assumes "kbuddy s L" "(c, x) \<in> L"
  shows "(\<exists>s'. kfree free_page (Some x) s = Some s' \<and> kbuddy s' (L - {(c, x)})) \<and> kfree free_page None s = Some s"
  using buddy_frames.kfree_ok [OF assms(1) [unfolded kbuddy_def] assms(2)] by (simp add: kbuddy_def kfree_def)

theorem kfree_correct_witness:
  "\<exists>x s1 s2. kmalloc alloc_page 100 boot_slabs = Some (Some x, s1) \<and> kfree free_page (Some x) s1 = Some s2 \<and> kbuddy s2 {}"
proof -
  obtain x s1 where k: "kmalloc alloc_page 100 boot_slabs = Some (Some x, s1)" "kbuddy s1 {(2, x)}"
    using boot_kmalloc [of 100 2] by (auto simp: kmalloc_index_def word_le_nat_alt)
  from kfree_correct [OF k(2), of 2 x] k(1) show ?thesis by auto
qed

text \<open>
  C15: in every state that \<open>kmem_init\<close> and any sequence of \<open>kmalloc\<close>, \<open>kfree\<close> and writes to live
  objects can reach, live objects have pairwise disjoint memory, and each lies in a page that
  the page allocator has handed out and that belongs to its cache.  (Writes outside live objects are not among the
  steps.  This is at odds with the overlapping addresses that BUG-001 of \<^verbatim>\<open>BUGS.md\<close> reports of \<^verbatim>\<open>slab.c\<close>.)
\<close>

theorem kmalloc_reach_safe:
  assumes "kmalloc_reach s L"
  shows "(\<forall>(c, x) \<in> L. \<forall>(d, y) \<in> L. (c, x) \<noteq> (d, y) \<longrightarrow>
            bytes x (sc_obj_size (all_caches s c)) \<inter> bytes y (sc_obj_size (all_caches s d)) = {})
    \<and> (\<forall>(c, x) \<in> L. x AND NOT (PAGE_SIZE - 1) \<in> owned_frames (sframes s)
            \<and> sl_cache (hdr s (x AND NOT (PAGE_SIZE - 1))) = Some c)"
proof -
  have i: "slab_inv (\<lambda>b. \<exists>M. manages b M) owned_frames s L"
    using kmalloc_reach_inv [OF assms] by (simp add: kbuddy_def kmalloc_inv_def)
  have "x AND NOT (PAGE_SIZE - 1) \<in> owned_frames (sframes s) \<and> sl_cache (hdr s (x AND NOT (PAGE_SIZE - 1))) = Some c"
    if "(c, x) \<in> L" for c x using buddy_frames.live_objD [OF i that] by metis
  then show ?thesis using buddy_frames.live_disjoint(1) [OF i] by blast
qed

theorem kmalloc_reach_safe_witness:
  "\<exists>x s1. kmalloc alloc_page 100 boot_slabs = Some (Some x, s1) \<and> kmalloc_reach (set_link x None s1) {(2, x)}
     \<and> x AND NOT (PAGE_SIZE - 1) \<in> owned_frames (sframes (set_link x None s1))"
proof -
  obtain x s1 where k: "kmalloc alloc_page 100 boot_slabs = Some (Some x, s1)"
    using boot_kmalloc [of 100 2] by (auto simp: kmalloc_index_def word_le_nat_alt)
  have "kmalloc_reach boot_slabs {}" unfolding boot_slabs_def by (rule kmalloc_reach.init [OF page_init_ok(1)])
  from kmalloc_reach.alloc [OF this k] have "kmalloc_reach s1 {(2, x)}" by (simp add: kmalloc_index_def)
  then have r: "kmalloc_reach (set_link x None s1) {(2, x)}" by (rule kmalloc_reach.store) simp
  from kmalloc_reach_safe [OF this] r k show ?thesis by auto
qed

text \<open>
  C16: \<open>kmalloc_verify\<close> ends, and the number it returns is the number of slabs that are on a
  partial list with no object in use; everything else it looks for does not happen.
\<close>

theorem kmalloc_verify_correct:
  assumes "kbuddy s L"
  shows "\<exists>ps. (\<forall>i < 7. dll (\<lambda>p. sl_next (hdr s p)) (\<lambda>p. sl_prev (hdr s p)) None (sc_partial (all_caches s i)) (ps i))
    \<and> kmalloc_verify s = Some (\<Sum>i\<leftarrow>[0..<7]. int (idle_slabs s (ps i)))"
  by (rule kmalloc_verify_ok [OF assms [unfolded kbuddy_def]])

theorem kmalloc_verify_correct_witness:
  "\<exists>ps. kmalloc_verify boot_slabs = Some (\<Sum>i\<leftarrow>[0..<7]. int (idle_slabs boot_slabs (ps i)))"
  using kmalloc_verify_correct [OF kbuddy_boot] by blast

text \<open>
  C17: freeing an object of 2048 bytes (any request of 1025 to 2048 bytes) leaves its slab, which has a
  single object, unused on the partial list: \<open>kmem_cache_free\<close> sees a slab that was full and
  does not look whether it is empty now.  From then on \<open>kmalloc_verify\<close> reports an error, and
  the page is not given back.
\<close>

theorem kfree_leaves_idle_slab:
  assumes "kbuddy s L" "(6, x) \<in> L"
  shows "\<exists>s' n. kfree free_page (Some x) s = Some s' \<and> sframes s' = sframes s \<and> kmalloc_verify s' = Some n \<and> n > 0"
proof -
  from buddy_frames.kfree_single [OF assms(1) [unfolded kbuddy_def] assms(2)] obtain s' p where
    s': "kfree free_page (Some x) s = Some s'" "sframes s' = sframes s" "sc_partial (all_caches s' 6) = Some p" "sl_inuse (hdr s' p) = 0"
    by blast
  from buddy_frames.kfree_ok [OF assms(1) [unfolded kbuddy_def] assms(2)] s'(1)
  have "kmalloc_inv (\<lambda>b. \<exists>M. manages b M) owned_frames s' (L - {(6, x)})" by auto
  from kmalloc_verify_ok [OF this] obtain ps where
    ps: "\<forall>i < 7. dll (\<lambda>p. sl_next (hdr s' p)) (\<lambda>p. sl_prev (hdr s' p)) None (sc_partial (all_caches s' i)) (ps i)"
    and v: "kmalloc_verify s' = Some (\<Sum>i\<leftarrow>[0..<7]. int (idle_slabs s' (ps i)))" by blast
  have "dll (\<lambda>p. sl_next (hdr s' p)) (\<lambda>p. sl_prev (hdr s' p)) None (Some p) (ps 6)"
    using ps [rule_format, of 6] s'(3) by simp
  then have "0 < idle_slabs s' (ps 6)" using s'(4) by (rule idle_head)
  then have "0 < (\<Sum>i\<leftarrow>[0..<7]. int (idle_slabs s' (ps i)))" by (simp add: upt_rec eval_nat_numeral)
  with v s' show ?thesis by blast
qed

theorem kfree_leaves_idle_slab_witness:
  "\<exists>x s1 s2 n. kmalloc alloc_page 2000 boot_slabs = Some (Some x, s1) \<and> kfree free_page (Some x) s1 = Some s2
     \<and> kmalloc_verify s2 = Some n \<and> n > 0"
proof -
  obtain x s1 where k: "kmalloc alloc_page 2000 boot_slabs = Some (Some x, s1)" "kbuddy s1 {(6, x)}"
    using boot_kmalloc [of 2000 6] by (auto simp: kmalloc_index_def word_le_nat_alt)
  from kfree_leaves_idle_slab [OF k(2), of x] k(1) show ?thesis by auto
qed

text \<open>
  C18: a request of more than 2048 bytes always fails, however much memory is free: a slab page has no room for
  an object of 4096 bytes behind its header, so the largest cache is never created, and
  the path for more than a page never asks for exactly one.
\<close>

theorem kmalloc_page_sized_fails:
  assumes "kbuddy s L" "2048 < sz"
  shows "kmalloc alloc_page sz s = Some (None, s)"
proof -
  have "\<not> kclass sz c" for c
  proof
    assume "kclass sz c"
    then have c: "c < 7" "sz \<le> 32 * 2 ^ c" by (simp_all add: kclass_def)
    have "c = 0 \<or> c = 1 \<or> c = 2 \<or> c = 3 \<or> c = 4 \<or> c = 5 \<or> c = 6" using c(1) by arith
    then have "(32 * 2 ^ c :: u64) \<le> 2048" by (elim disjE) simp_all
    with c(2) assms(2) show False by (auto simp: word_le_nat_alt word_less_nat_alt)
  qed
  with buddy_frames.kmalloc_ok [OF assms(1) [unfolded kbuddy_def], of sz] show ?thesis by (auto split: option.splits)
qed

theorem kmalloc_page_sized_fails_witness:
  "kmalloc alloc_page 4096 boot_slabs = Some (None, boot_slabs) \<and> free_page_count (sframes boot_slabs) \<noteq> 0"
proof
  show "kmalloc alloc_page 4096 boot_slabs = Some (None, boot_slabs)"
    by (rule kmalloc_page_sized_fails [OF kbuddy_boot]) simp
  show "free_page_count (sframes boot_slabs) \<noteq> 0"
    using page_init_count [of bss_buddy] by (auto simp: boot_sframes)
qed

end
