(* ===== verification/ListHead.thy ===== *)
theory ListHead
  imports Prelude
begin

text \<open>
  The intrusive circular lists of \<^verbatim>\<open>include/minix/sched.h\<close> (\<^verbatim>\<open>struct list_head\<close>) over a type \<open>'n\<close>
  of nodes, \<open>None\<close> for \<^verbatim>\<open>NULL\<close>; following a \<^verbatim>\<open>NULL\<close> pointer is a fault, the result \<open>None\<close>.
  \<open>rings s R\<close> relates the pointers to lists: \<open>R h\<close> holds the elements of the list with
  head \<open>h\<close>, and different lists share no node.
\<close>

record 'n lists =
  lnext :: "'n \<Rightarrow> 'n option"
  lprev :: "'n \<Rightarrow> 'n option"

definition set_next :: "'n \<Rightarrow> 'n option \<Rightarrow> 'n lists \<Rightarrow> 'n lists" where
  "set_next n v s = s\<lparr>lnext := (lnext s)(n := v)\<rparr>"

definition set_prev :: "'n \<Rightarrow> 'n option \<Rightarrow> 'n lists \<Rightarrow> 'n lists" where
  "set_prev n v s = s\<lparr>lprev := (lprev s)(n := v)\<rparr>"

definition INIT_LIST_HEAD :: "'n \<Rightarrow> 'n lists \<Rightarrow> 'n lists" where
  "INIT_LIST_HEAD l s = set_prev l (Some l) (set_next l (Some l) s)"

definition list_insert :: "'n \<Rightarrow> 'n \<Rightarrow> 'n \<Rightarrow> 'n lists \<Rightarrow> 'n lists" where
  "list_insert new prv nxt s =
     set_next prv (Some new) (set_prev new (Some prv) (set_next new (Some nxt) (set_prev nxt (Some new) s)))"

definition list_add_tail :: "'n \<Rightarrow> 'n \<Rightarrow> 'n lists \<Rightarrow> 'n lists option" where
  "list_add_tail new head s = map_option (\<lambda>prv. list_insert new prv head s) (lprev s head)"

definition list_del_between :: "'n \<Rightarrow> 'n \<Rightarrow> 'n lists \<Rightarrow> 'n lists" where
  "list_del_between prv nxt s = set_next prv (Some nxt) (set_prev nxt (Some prv) s)"

definition list_del_entry :: "'n \<Rightarrow> 'n lists \<Rightarrow> 'n lists option" where
  "list_del_entry entry s =
     (case (lprev s entry, lnext s entry) of
        (Some prv, Some nxt) \<Rightarrow> Some (set_prev entry None (set_next entry None (list_del_between prv nxt s)))
      | _ \<Rightarrow> None)"

definition list_empty :: "'n \<Rightarrow> 'n lists \<Rightarrow> bool" where
  "list_empty head s \<longleftrightarrow> lnext s head = Some head"

lemma set_simps [simp]:
  "lnext (set_next n v s) m = (if m = n then v else lnext s m)" "lprev (set_next n v s) = lprev s"
  "lprev (set_prev n v s) m = (if m = n then v else lprev s m)" "lnext (set_prev n v s) = lnext s"
  by (simp_all add: set_next_def set_prev_def)

lemma init_simps [simp]:
  "lnext (INIT_LIST_HEAD l s) m = (if m = l then Some l else lnext s m)"
  "lprev (INIT_LIST_HEAD l s) m = (if m = l then Some l else lprev s m)"
  by (simp_all add: INIT_LIST_HEAD_def)

subsection \<open>Lists\<close>

primrec seg :: "'n lists \<Rightarrow> 'n \<Rightarrow> 'n list \<Rightarrow> 'n \<Rightarrow> bool" where
  "seg s a [] b \<longleftrightarrow> lnext s a = Some b \<and> lprev s b = Some a"
| "seg s a (x # xs) b \<longleftrightarrow> lnext s a = Some x \<and> lprev s x = Some a \<and> seg s x xs b"

definition ring :: "'n lists \<Rightarrow> 'n \<Rightarrow> 'n list \<Rightarrow> bool" where
  "ring s h xs \<longleftrightarrow> seg s h xs h \<and> distinct (h # xs)"

lemma seg_append: "seg s a (xs @ y # ys) b \<longleftrightarrow> seg s a xs y \<and> seg s y ys b"
  by (induction xs arbitrary: a) auto

lemma seg_cong:
  assumes "\<And>x. x \<in> set (a # xs) \<Longrightarrow> lnext s' x = lnext s x" "\<And>x. x \<in> set (b # xs) \<Longrightarrow> lprev s' x = lprev s x"
  shows "seg s' a xs b = seg s a xs b"
  using assms by (induction xs arbitrary: a) auto

lemma seg_last: "seg s a xs b \<Longrightarrow> lprev s b = Some (last (a # xs))"
  by (induction xs arbitrary: a) auto

lemma seg_first: "seg s a xs b \<Longrightarrow> lnext s a = Some (hd (xs @ [b]))"
  by (cases xs) auto

lemma seg_snoc:
  assumes "seg s a xs b" "distinct (a # xs)" "b \<notin> set xs" "n \<notin> set (a # xs)" "n \<noteq> b"
  shows "seg (list_insert n (last (a # xs)) b s) a (xs @ [n]) b"
  using assms
proof (induction xs arbitrary: a)
  case Nil
  then show ?case by (auto simp: list_insert_def)
next
  case (Cons x xs)
  let ?s = "list_insert n (last (a # x # xs)) b s"
  have "seg ?s x (xs @ [n]) b" using Cons.IH [of x] Cons.prems by simp
  moreover have "a \<noteq> last (x # xs)" using Cons.prems(2) last_in_set [of "x # xs"] by auto
  then have "lnext ?s a = Some x" "lprev ?s x = Some a" using Cons.prems by (auto simp: list_insert_def)
  ultimately show ?case by simp
qed

lemma seg_del:
  assumes "seg s a (ys @ n # zs) b" "distinct (a # ys @ n # zs)" "b \<notin> set (ys @ n # zs)"
  shows "seg (set_prev n None (set_next n None (list_del_between (last (a # ys)) (hd (zs @ [b])) s))) a (ys @ zs) b"
  using assms
proof (induction ys arbitrary: a)
  case Nil
  let ?s = "set_prev n None (set_next n None (list_del_between a (hd (zs @ [b])) s))"
  show ?case
  proof (cases zs)
    case Nil
    then show ?thesis using Nil.prems by (auto simp: list_del_between_def)
  next
    case (Cons z zs')
    have "seg ?s z zs' b = seg s z zs' b"
      by (rule seg_cong) (use Nil.prems Cons in \<open>auto simp: list_del_between_def\<close>)
    then show ?thesis using Nil.prems Cons by (auto simp: list_del_between_def)
  qed
next
  case (Cons y ys)
  let ?p = "last (y # ys)" and ?q = "hd (zs @ [b])"
  have "seg (set_prev n None (set_next n None (list_del_between ?p ?q s))) y (ys @ zs) b"
    using Cons.IH [of y] Cons.prems by simp
  moreover have "a \<noteq> ?p" using Cons.prems(2) last_in_set [of "y # ys"] by auto
  moreover have "y \<noteq> ?q" using Cons.prems(2,3) hd_in_set [of "zs @ [b]"] by auto
  ultimately show ?case using Cons.prems by (auto simp: list_del_between_def)
qed

subsection \<open>Many lists\<close>

definition nodes :: "('n \<Rightarrow> 'n list option) \<Rightarrow> 'n set" where
  "nodes R = {n. \<exists>h xs. R h = Some xs \<and> n \<in> set (h # xs)}"

definition rings :: "'n lists \<Rightarrow> ('n \<Rightarrow> 'n list option) \<Rightarrow> bool" where
  "rings s R \<longleftrightarrow> (\<forall>h xs. R h = Some xs \<longrightarrow> ring s h xs)
     \<and> (\<forall>h xs h' xs'. R h = Some xs \<and> R h' = Some xs' \<and> h \<noteq> h' \<longrightarrow> set (h # xs) \<inter> set (h' # xs') = {})"

lemma ringsD:
  assumes "rings s R"
  shows "R h = Some xs \<Longrightarrow> seg s h xs h" "R h = Some xs \<Longrightarrow> distinct (h # xs)"
    "R h = Some xs \<Longrightarrow> R h' = Some xs' \<Longrightarrow> h \<noteq> h' \<Longrightarrow> set (h # xs) \<inter> set (h' # xs') = {}"
  using assms unfolding rings_def ring_def by blast+

lemma rings_cong:
  assumes "rings s R" "\<And>n. n \<in> nodes R \<Longrightarrow> lnext s' n = lnext s n \<and> lprev s' n = lprev s n"
  shows "rings s' R"
proof -
  have "seg s' h xs h" if "R h = Some xs" for h xs
    using ringsD(1) [OF assms(1) that] assms(2) that by (subst seg_cong [where s = s]) (auto simp: nodes_def)
  then show ?thesis using ringsD(2,3) [OF assms(1)] unfolding rings_def ring_def by blast
qed

lemma rings_update:
  assumes r: "rings s R" and h: "R h = Some xs" and new: "seg s' h xs' h" "distinct (h # xs')"
    and sub: "set xs' \<subseteq> set xs \<union> N" "N \<inter> nodes R = {}"
    and other: "\<And>n. n \<in> nodes R - set (h # xs) \<Longrightarrow> lnext s' n = lnext s n \<and> lprev s' n = lprev s n"
  shows "rings s' (R(h \<mapsto> xs'))"
proof -
  have dj: "set (h # xs) \<inter> set (k # ys) = {}" if "R k = Some ys" "k \<noteq> h" for k ys
    using ringsD(3) [OF r h that(1)] that(2) by auto
  have dj': "set (h # xs') \<inter> set (k # ys) = {}" if k: "R k = Some ys" "k \<noteq> h" for k ys
  proof -
    have "set (k # ys) \<subseteq> nodes R" using k(1) by (auto simp: nodes_def)
    then show ?thesis using dj [OF k] sub by auto
  qed
  have "ring s' k ys" if k: "R k = Some ys" "k \<noteq> h" for k ys
  proof -
    have n: "set (k # ys) \<subseteq> nodes R - set (h # xs)" using k(1) dj [OF k] by (auto simp: nodes_def)
    have "seg s' k ys k = seg s k ys k" by (rule seg_cong) (use n other in auto)
    then show ?thesis using ringsD(1,2) [OF r k(1)] by (simp add: ring_def)
  qed
  then have rg: "ring s' k ys" if "(R(h \<mapsto> xs')) k = Some ys" for k ys
    using that new by (cases "k = h") (auto simp: ring_def)
  have "set (k # ys) \<inter> set (k' # ys') = {}"
    if k: "(R(h \<mapsto> xs')) k = Some ys" "(R(h \<mapsto> xs')) k' = Some ys'" "k \<noteq> k'" for k ys k' ys'
  proof -
    consider "k = h" "k' \<noteq> h" | "k \<noteq> h" "k' = h" | "k \<noteq> h" "k' \<noteq> h" using k(3) by blast
    then show ?thesis
    proof cases
      case 1
      then show ?thesis using dj' [of k' ys'] k by auto
    next
      case 2
      then show ?thesis using dj' [of k ys] k by auto
    next
      case 3
      then have "R k = Some ys" "R k' = Some ys'" using k by simp_all
      then show ?thesis using k(3) by (rule ringsD(3) [OF r])
    qed
  qed
  with rg show ?thesis unfolding rings_def by blast
qed

lemma list_add_tail_ok:
  assumes r: "rings s R" and h: "R h = Some xs" and n: "n \<notin> nodes R"
  shows "\<exists>s'. list_add_tail n h s = Some s' \<and> rings s' (R(h \<mapsto> xs @ [n]))
    \<and> (\<forall>m. m \<notin> nodes R \<and> m \<noteq> n \<longrightarrow> lnext s' m = lnext s m \<and> lprev s' m = lprev s m)"
proof -
  note d = ringsD(1,2) [OF r h]
  let ?l = "last (h # xs)" and ?s = "list_insert n (last (h # xs)) h s"
  have hn: "set (h # xs) \<subseteq> nodes R" using h by (auto simp: nodes_def)
  then have nn: "n \<notin> set (h # xs)" using n by blast
  have l: "?l \<in> set (h # xs)" by (rule last_in_set) simp
  have e: "list_add_tail n h s = Some ?s" using seg_last [OF d(1)] by (simp add: list_add_tail_def)
  have off: "lnext ?s m = lnext s m \<and> lprev ?s m = lprev s m" if "m \<notin> set (h # xs)" "m \<noteq> n" for m
  proof -
    have "m \<noteq> ?l" using l that(1) by metis
    then show ?thesis using that by (simp add: list_insert_def del: last.simps)
  qed
  have "seg ?s h (xs @ [n]) h" using d nn by (intro seg_snoc) auto
  then have "rings ?s (R(h \<mapsto> xs @ [n]))"
  proof (rule rings_update [OF r h, where N = "{n}"])
    show "distinct (h # xs @ [n])" using d(2) nn by auto
    show "lnext ?s m = lnext s m \<and> lprev ?s m = lprev s m" if "m \<in> nodes R - set (h # xs)" for m
      using off [of m] that n by blast
  qed (use n in auto)
  then show ?thesis using e off hn by (intro exI [of _ ?s]) blast
qed

lemma list_del_ok:
  assumes r: "rings s R" and h: "R h = Some (ys @ n # zs)"
  shows "\<exists>s'. list_del_entry n s = Some s' \<and> rings s' (R(h \<mapsto> ys @ zs))
    \<and> (\<forall>m. m \<notin> nodes R \<longrightarrow> lnext s' m = lnext s m \<and> lprev s' m = lprev s m)"
proof -
  note d = ringsD(1,2) [OF r h]
  let ?p = "last (h # ys)" and ?q = "hd (zs @ [h])"
  let ?s = "set_prev n None (set_next n None (list_del_between ?p ?q s))"
  have sg: "seg s h ys n" "seg s n zs h" using d(1) by (simp_all add: seg_append)
  have e: "list_del_entry n s = Some ?s"
    using seg_last [OF sg(1)] seg_first [OF sg(2)] by (simp add: list_del_entry_def del: last.simps)
  have pq: "?p \<in> set (h # ys @ n # zs)" "?q \<in> set (h # ys @ n # zs)"
    using last_in_set [of "h # ys"] hd_in_set [of "zs @ [h]"] by auto
  have off: "lnext ?s m = lnext s m \<and> lprev ?s m = lprev s m" if "m \<notin> set (h # ys @ n # zs)" for m
  proof -
    have "m \<noteq> ?p" "m \<noteq> ?q" using pq that by metis+
    then show ?thesis using that by (simp add: list_del_between_def del: last.simps)
  qed
  have "seg ?s h (ys @ zs) h" using d by (intro seg_del) auto
  then have "rings ?s (R(h \<mapsto> ys @ zs))"
    by (rule rings_update [OF r h, where N = "{}"]) (use d(2) off in auto)
  moreover have "set (h # ys @ n # zs) \<subseteq> nodes R" using h unfolding nodes_def by blast
  ultimately show ?thesis using e off by (intro exI [of _ ?s]) blast
qed

lemma init_off: "rings s R \<Longrightarrow> n \<notin> nodes R \<Longrightarrow> rings (INIT_LIST_HEAD n s) R"
  by (rule rings_cong) auto

lemma init_head:
  assumes "rings s R" "n \<notin> nodes R"
  shows "rings (INIT_LIST_HEAD n s) (R(n \<mapsto> []))"
proof -
  have r: "rings (INIT_LIST_HEAD n s) R" by (rule init_off [OF assms])
  have "n \<notin> set (h # xs)" if "R h = Some xs" for h xs using assms(2) that by (auto simp: nodes_def)
  then show ?thesis using r unfolding rings_def ring_def by (auto split: if_splits)
qed

lemma list_empty_ok: "rings s R \<Longrightarrow> R h = Some xs \<Longrightarrow> list_empty h s \<longleftrightarrow> xs = []"
  using ringsD(1,2) [of s R h xs] by (cases xs) (auto simp: list_empty_def)

lemma list_first_ok: "rings s R \<Longrightarrow> R h = Some (x # xs) \<Longrightarrow> lnext s h = Some x"
  using ringsD(1) [of s R h "x # xs"] by simp

end
