(* ===== verification/Task.thy ===== *)
theory Task
  imports ListHead Kmalloc
begin

text \<open>
  The data of the process code: \<^verbatim>\<open>include/minix/task.h\<close>, \<^verbatim>\<open>sched.h\<close>, \<^verbatim>\<open>thread_info.h\<close> and
  \<^verbatim>\<open>mm_types.h\<close>, the globals of \<^verbatim>\<open>kernel/fork.c\<close> and \<^verbatim>\<open>kernel/sched_new.c\<close>, and the constants they
  share.

  A \<^verbatim>\<open>struct task_struct *\<close> is a number: 0 is \<^verbatim>\<open>&init_task\<close> and \<open>i + 1\<close> is \<^verbatim>\<open>&task_cache[i]\<close>.
  A \<^verbatim>\<open>struct list_head\<close> is named by the structure it is part of (type \<open>lnode\<close>).  Other
  structures (\<^verbatim>\<open>mm_struct\<close>, \<^verbatim>\<open>thread_info\<close>, trap frames) are found by their addresses, 0 being
  \<^verbatim>\<open>NULL\<close>.  C's \<^verbatim>\<open>int\<close> and \<^verbatim>\<open>long\<close> are \<open>int\<close>, as the code never takes them near
  their bounds.  Fields of \<^verbatim>\<open>task_struct\<close> that the modelled code neither reads nor writes, other than by
  clearing the whole structure, are left out; so are those of \<^verbatim>\<open>mm_struct\<close>.
\<close>

unbundle bit_operations_syntax

subsection \<open>Constants\<close>

definition TASK_RUNNING :: int where "TASK_RUNNING = 0"
definition TASK_INTERRUPTIBLE :: int where "TASK_INTERRUPTIBLE = 1"
definition TASK_UNINTERRUPTIBLE :: int where "TASK_UNINTERRUPTIBLE = 2"
definition TASK_ZOMBIE :: int where "TASK_ZOMBIE = 4"

definition PF_KTHREAD :: u32 where "PF_KTHREAD = 1"
definition PF_EXITING :: u32 where "PF_EXITING = 4"
definition PF_IDLE :: u32 where "PF_IDLE = 0x100"

definition SCHED_NORMAL :: u32 where "SCHED_NORMAL = 0"

definition MAX_PRIO :: nat where "MAX_PRIO = 140"
definition DEFAULT_PRIO :: int where "DEFAULT_PRIO = 120"
definition DEF_TIMESLICE :: int where "DEF_TIMESLICE = 10"
definition MIN_TIMESLICE :: u64 where "MIN_TIMESLICE = 1"
definition MAX_TIMESLICE :: u64 where "MAX_TIMESLICE = 100"
definition BITMAP_SIZE :: nat where "BITMAP_SIZE = (MAX_PRIO + 63) div 64"

definition CLONE_VM :: u64 where "CLONE_VM = 0x100"
definition CLONE_FS :: u64 where "CLONE_FS = 0x200"
definition CLONE_FILES :: u64 where "CLONE_FILES = 0x400"
definition CLONE_THREAD :: u64 where "CLONE_THREAD = 0x10000"
definition CLONE_VFORK :: u64 where "CLONE_VFORK = 0x4000"
definition SIGCHLD :: int where "SIGCHLD = 17"

definition MAX_PROCS :: nat where "MAX_PROCS = 64"
definition MAX_OPEN_FILES :: nat where "MAX_OPEN_FILES = 16"
definition TASK_COMM_LEN :: nat where "TASK_COMM_LEN = 16"
definition PID_MAX :: int where "PID_MAX = 32768"

definition THREAD_SIZE :: u64 where "THREAD_SIZE = 8192"
definition THREAD_SIZE_ORDER :: int where "THREAD_SIZE_ORDER = 1"
definition TIF_NEED_RESCHED :: nat where "TIF_NEED_RESCHED = 1"
definition PT_REGS_SIZE :: u64 where "PT_REGS_SIZE = 36 * 8"

subsection \<open>Structures\<close>

record cpu_context =
  c_ra :: u64
  c_sp :: u64
  c_s0 :: u64
  c_s1 :: u64
  c_s2 :: u64
  c_s3 :: u64
  c_s4 :: u64
  c_s5 :: u64
  c_s6 :: u64
  c_s7 :: u64
  c_s8 :: u64
  c_s9 :: u64
  c_s10 :: u64
  c_s11 :: u64

record thread_struct =
  th_ra :: u64
  th_sp :: u64
  th_s :: "nat \<Rightarrow> u64"
  th_sepc :: u64
  th_sstatus :: u64
  th_kernel_sp :: u64
  th_user_sp :: u64
  th_kthread_fn :: u64
  th_kthread_arg :: u64

record trapframe =
  tf_ra :: u64
  tf_sp :: u64
  tf_gp :: u64
  tf_tp :: u64
  tf_t0 :: u64
  tf_t1 :: u64
  tf_t2 :: u64
  tf_s0 :: u64
  tf_s1 :: u64
  tf_a0 :: u64
  tf_a1 :: u64
  tf_a2 :: u64
  tf_a3 :: u64
  tf_a4 :: u64
  tf_a5 :: u64
  tf_a6 :: u64
  tf_a7 :: u64
  tf_s2 :: u64
  tf_s3 :: u64
  tf_s4 :: u64
  tf_s5 :: u64
  tf_s6 :: u64
  tf_s7 :: u64
  tf_s8 :: u64
  tf_s9 :: u64
  tf_s10 :: u64
  tf_s11 :: u64
  tf_t3 :: u64
  tf_t4 :: u64
  tf_t5 :: u64
  tf_t6 :: u64
  tf_sepc :: u64
  tf_sstatus :: u64
  tf_scause :: u64
  tf_stval :: u64

record thread_info =
  ti_task :: "nat option"
  ti_flags :: u64
  ti_preempt_count :: int
  ti_cpu :: int
  ti_addr_limit :: u64
  ti_kernel_sp :: u64
  ti_user_sp :: u64

record mm_struct =
  mm_pgd :: u64
  mm_start_code :: u64
  mm_end_code :: u64
  mm_start_data :: u64
  mm_end_data :: u64
  mm_start_brk :: u64
  mm_brk :: u64
  mm_start_stack :: u64
  mm_arg_start :: u64
  mm_arg_end :: u64
  mm_env_start :: u64
  mm_env_end :: u64
  mm_mmap :: u64
  mm_map_count :: int
  mm_users :: int
  mm_count :: int

datatype lnode =
    Queue nat nat
  | RunList nat
  | Children nat
  | Sibling nat
  | Tasks nat
  | Pending nat
  | WaitHead nat
  | AllTasks

datatype chan = WaitChldexit nat | Chan u64

record task_struct =
  t_state :: int
  t_flags :: u32
  t_on_rq :: bool
  t_prio :: int
  t_static_prio :: int
  t_normal_prio :: int
  t_policy :: u32
  t_time_slice :: u64
  t_utime :: u64
  t_stime :: u64
  t_nvcsw :: u64
  t_nivcsw :: u64
  t_pid :: int
  t_tgid :: int
  t_ppid :: int
  t_uid :: u32
  t_euid :: u32
  t_gid :: u32
  t_egid :: u32
  t_mm :: u64
  t_active_mm :: u64
  t_stack :: u64
  t_trapframe :: u64
  t_context :: cpu_context
  t_thread :: thread_struct
  t_fs :: u64
  t_files :: u64
  t_cwd :: u64
  t_ofile :: "nat \<Rightarrow> u64"
  t_blocked :: u64
  t_pending :: u64
  t_parent :: "nat option"
  t_real_parent :: "nat option"
  t_pgrp :: int
  t_session :: int
  t_group_leader :: "nat option"
  t_chan :: "chan option"
  t_killed :: int
  t_exit_code :: int
  t_exit_signal :: int
  t_comm :: "nat \<Rightarrow> char"

record prio_array =
  pa_nr_active :: u32
  pa_bitmap :: "nat \<Rightarrow> u64"

record rq =
  rq_lock :: bool
  rq_nr_running :: u64
  rq_nr_switches :: u64
  rq_curr :: "nat option"
  rq_idle :: "nat option"
  rq_active :: nat
  rq_expired :: nat
  rq_arrays :: "nat \<Rightarrow> prio_array"
  rq_clock :: u64
  rq_clock_task :: u64

record kern =
  tasks :: "nat \<Rightarrow> task_struct"
  lists_of :: "lnode lists"
  task_table :: "nat \<Rightarrow> nat option"
  pid_bitmap :: "nat \<Rightarrow> u64"
  pid_lock :: bool
  last_pid :: int
  task_cache_bitmap :: u64
  current_task_ptr :: "nat option"
  runqueue :: rq
  mms :: "u64 \<Rightarrow> mm_struct"
  tinfos :: "u64 \<Rightarrow> thread_info"
  tframes :: "u64 \<Rightarrow> trapframe"
  files_count :: "u64 \<Rightarrow> int"
  fs_count :: "u64 \<Rightarrow> int"
  kmem :: "buddy slabs"
  cpu :: cpu_context
  satp :: u64
  fence_count :: nat

subsection \<open>Static data\<close>

text \<open>Structures all bytes of which are 0, the initialiser of \<^verbatim>\<open>init_task\<close>, and the memory image at start.\<close>

definition zero_context :: cpu_context where
  "zero_context = \<lparr>c_ra = 0, c_sp = 0, c_s0 = 0, c_s1 = 0, c_s2 = 0, c_s3 = 0, c_s4 = 0, c_s5 = 0, c_s6 = 0,
     c_s7 = 0, c_s8 = 0, c_s9 = 0, c_s10 = 0, c_s11 = 0\<rparr>"

definition zero_thread :: thread_struct where
  "zero_thread = \<lparr>th_ra = 0, th_sp = 0, th_s = (\<lambda>_. 0), th_sepc = 0, th_sstatus = 0, th_kernel_sp = 0,
     th_user_sp = 0, th_kthread_fn = 0, th_kthread_arg = 0\<rparr>"

definition zero_trapframe :: trapframe where
  "zero_trapframe = \<lparr>tf_ra = 0, tf_sp = 0, tf_gp = 0, tf_tp = 0, tf_t0 = 0, tf_t1 = 0, tf_t2 = 0, tf_s0 = 0,
     tf_s1 = 0, tf_a0 = 0, tf_a1 = 0, tf_a2 = 0, tf_a3 = 0, tf_a4 = 0, tf_a5 = 0, tf_a6 = 0,
     tf_a7 = 0, tf_s2 = 0, tf_s3 = 0, tf_s4 = 0, tf_s5 = 0, tf_s6 = 0, tf_s7 = 0, tf_s8 = 0,
     tf_s9 = 0, tf_s10 = 0, tf_s11 = 0, tf_t3 = 0, tf_t4 = 0, tf_t5 = 0, tf_t6 = 0, tf_sepc = 0,
     tf_sstatus = 0, tf_scause = 0, tf_stval = 0\<rparr>"

definition zero_info :: thread_info where
  "zero_info = \<lparr>ti_task = None, ti_flags = 0, ti_preempt_count = 0, ti_cpu = 0, ti_addr_limit = 0,
     ti_kernel_sp = 0, ti_user_sp = 0\<rparr>"

definition zero_mm :: mm_struct where
  "zero_mm = \<lparr>mm_pgd = 0, mm_start_code = 0, mm_end_code = 0, mm_start_data = 0, mm_end_data = 0,
     mm_start_brk = 0, mm_brk = 0, mm_start_stack = 0, mm_arg_start = 0, mm_arg_end = 0,
     mm_env_start = 0, mm_env_end = 0, mm_mmap = 0, mm_map_count = 0, mm_users = 0, mm_count = 0\<rparr>"

definition zero_task :: task_struct where
  "zero_task = \<lparr>t_state = 0, t_flags = 0, t_on_rq = False, t_prio = 0, t_static_prio = 0, t_normal_prio = 0,
     t_policy = 0, t_time_slice = 0, t_utime = 0, t_stime = 0, t_nvcsw = 0, t_nivcsw = 0,
     t_pid = 0, t_tgid = 0, t_ppid = 0, t_uid = 0, t_euid = 0, t_gid = 0, t_egid = 0, t_mm = 0,
     t_active_mm = 0, t_stack = 0, t_trapframe = 0, t_context = zero_context,
     t_thread = zero_thread, t_fs = 0, t_files = 0, t_cwd = 0, t_ofile = (\<lambda>_. 0),
     t_blocked = 0, t_pending = 0, t_parent = None, t_real_parent = None, t_pgrp = 0,
     t_session = 0, t_group_leader = None, t_chan = None, t_killed = 0, t_exit_code = 0,
     t_exit_signal = 0, t_comm = (\<lambda>_. CHR 0x00)\<rparr>"

definition chars_of :: "string \<Rightarrow> nat \<Rightarrow> char" where
  "chars_of s i = (if i < length s then s ! i else CHR 0x00)"

definition init_task :: task_struct where
  "init_task = zero_task\<lparr>t_state := TASK_RUNNING, t_flags := PF_KTHREAD OR PF_IDLE, t_on_rq := False,
     t_prio := int MAX_PRIO - 1, t_static_prio := int MAX_PRIO - 1, t_normal_prio := int MAX_PRIO - 1,
     t_policy := SCHED_NORMAL, t_time_slice := of_int DEF_TIMESLICE, t_pid := 0, t_tgid := 0, t_ppid := 0,
     t_uid := 0, t_euid := 0, t_gid := 0, t_egid := 0, t_mm := 0, t_active_mm := 0, t_stack := 0,
     t_parent := None, t_real_parent := None, t_pgrp := 0, t_session := 0, t_group_leader := None,
     t_exit_code := 0, t_exit_signal := 0, t_comm := chars_of ''swapper''\<rparr>"

definition static_lists :: "lnode lists" where
  "static_lists = fold INIT_LIST_HEAD [AllTasks, Tasks 0, Children 0, Sibling 0, RunList 0]
     \<lparr>lnext = (\<lambda>_. None), lprev = (\<lambda>_. None)\<rparr>"

definition zero_rq :: rq where
  "zero_rq = \<lparr>rq_lock = False, rq_nr_running = 0, rq_nr_switches = 0, rq_curr = None, rq_idle = None, rq_active = 0,
     rq_expired = 0, rq_arrays = (\<lambda>_. \<lparr>pa_nr_active = 0, pa_bitmap = (\<lambda>_. 0)\<rparr>), rq_clock = 0, rq_clock_task = 0\<rparr>"

definition static_kern :: "buddy slabs \<Rightarrow> kern" where
  "static_kern m = \<lparr>tasks = (\<lambda>_. zero_task)(0 := init_task), lists_of = static_lists, task_table = (\<lambda>_. None),
     pid_bitmap = (\<lambda>_. 0), pid_lock = False, last_pid = 0, task_cache_bitmap = 0, current_task_ptr = None,
     runqueue = zero_rq, mms = (\<lambda>_. zero_mm), tinfos = (\<lambda>_. zero_info), tframes = (\<lambda>_. zero_trapframe),
     files_count = (\<lambda>_. 0), fs_count = (\<lambda>_. 0), kmem = m, cpu = zero_context, satp = 0, fence_count = 0\<rparr>"

subsection \<open>Access\<close>

definition upd_task :: "nat \<Rightarrow> (task_struct \<Rightarrow> task_struct) \<Rightarrow> kern \<Rightarrow> kern" where
  "upd_task t f k = k\<lparr>tasks := (tasks k)(t := f (tasks k t))\<rparr>"

definition upd_rq :: "(rq \<Rightarrow> rq) \<Rightarrow> kern \<Rightarrow> kern" where
  "upd_rq f k = k\<lparr>runqueue := f (runqueue k)\<rparr>"

definition upd_array :: "nat \<Rightarrow> (prio_array \<Rightarrow> prio_array) \<Rightarrow> kern \<Rightarrow> kern" where
  "upd_array a f = upd_rq (\<lambda>r. r\<lparr>rq_arrays := (rq_arrays r)(a := f (rq_arrays r a))\<rparr>)"

definition upd_mm :: "u64 \<Rightarrow> (mm_struct \<Rightarrow> mm_struct) \<Rightarrow> kern \<Rightarrow> kern" where
  "upd_mm m f k = k\<lparr>mms := (mms k)(m := f (mms k m))\<rparr>"

definition upd_ti :: "u64 \<Rightarrow> (thread_info \<Rightarrow> thread_info) \<Rightarrow> kern \<Rightarrow> kern" where
  "upd_ti a f k = k\<lparr>tinfos := (tinfos k)(a := f (tinfos k a))\<rparr>"

definition on_lists :: "(lnode lists \<Rightarrow> lnode lists option) \<Rightarrow> kern \<Rightarrow> kern option" where
  "on_lists f k = map_option (\<lambda>l. k\<lparr>lists_of := l\<rparr>) (f (lists_of k))"

definition init_list :: "lnode \<Rightarrow> kern \<Rightarrow> kern" where
  "init_list n k = k\<lparr>lists_of := INIT_LIST_HEAD n (lists_of k)\<rparr>"

text \<open>\<^verbatim>\<open>get_current\<close> and \<^verbatim>\<open>set_current\<close>: the idle task stands in for \<^verbatim>\<open>NULL\<close>.\<close>

definition get_current :: "kern \<Rightarrow> nat" where
  "get_current k = (case current_task_ptr k of Some t \<Rightarrow> t | None \<Rightarrow> 0)"

definition set_current :: "nat option \<Rightarrow> kern \<Rightarrow> kern" where
  "set_current p k = k\<lparr>current_task_ptr := p\<rparr>"

end
