(* ===== verification/Sched.thy ===== *)
theory Sched
  imports Task
begin

text \<open>
  The scheduler, \<^verbatim>\<open>kernel/sched_new.c\<close>: two arrays of run queues, one per priority, with a bitmap
  of the queues in use.  The value \<open>None\<close> stands for a run that follows a \<^verbatim>\<open>NULL\<close> pointer or
  spins for ever on a lock that is held (there is one CPU, so nobody else releases it).
\<close>

unbundle bit_operations_syntax

subsection \<open>Bitmaps\<close>

fun first_bit_in :: "u64 \<Rightarrow> nat \<Rightarrow> nat \<Rightarrow> nat option" where
  "first_bit_in w b 0 = None"
| "first_bit_in w b (Suc n) = (if w AND push_bit b 1 \<noteq> 0 then Some b else first_bit_in w (Suc b) n)"

fun first_bit_loop :: "(nat \<Rightarrow> u64) \<Rightarrow> nat \<Rightarrow> nat \<Rightarrow> nat \<Rightarrow> nat" where
  "first_bit_loop bitmap sz i 0 = sz"
| "first_bit_loop bitmap sz i (Suc n) =
     (if bitmap i \<noteq> 0
      then (case first_bit_in (bitmap i) 0 64 of
              Some b \<Rightarrow> (let result = i * 64 + b in if result < sz then result else sz)
            | None \<Rightarrow> first_bit_loop bitmap sz (Suc i) n)
      else first_bit_loop bitmap sz (Suc i) n)"

definition find_first_bit :: "(nat \<Rightarrow> u64) \<Rightarrow> nat \<Rightarrow> nat" where
  "find_first_bit bitmap sz = first_bit_loop bitmap sz 0 ((sz + 63) div 64)"

definition set_bit_at :: "nat \<Rightarrow> (nat \<Rightarrow> u64) \<Rightarrow> nat \<Rightarrow> u64" where
  "set_bit_at nr addr = addr(nr div 64 := addr (nr div 64) OR push_bit (nr mod 64) 1)"

definition clear_bit_at :: "nat \<Rightarrow> (nat \<Rightarrow> u64) \<Rightarrow> nat \<Rightarrow> u64" where
  "clear_bit_at nr addr = addr(nr div 64 := addr (nr div 64) AND NOT (push_bit (nr mod 64) 1))"

definition test_bit :: "nat \<Rightarrow> (nat \<Rightarrow> u64) \<Rightarrow> bool" where
  "test_bit nr addr \<longleftrightarrow> addr (nr div 64) AND push_bit (nr mod 64) 1 \<noteq> 0"

subsection \<open>Locks and initialisation\<close>

definition rq_spin_lock :: "kern \<Rightarrow> kern option" where
  "rq_spin_lock k = (if rq_lock (runqueue k) then None else Some (upd_rq (\<lambda>r. r\<lparr>rq_lock := True\<rparr>) k))"

definition rq_spin_unlock :: "kern \<Rightarrow> kern" where
  "rq_spin_unlock = upd_rq (\<lambda>r. r\<lparr>rq_lock := False\<rparr>)"

definition init_array :: "nat \<Rightarrow> kern \<Rightarrow> kern" where
  "init_array a k =
     (let k1 = upd_array a (\<lambda>p. p\<lparr>pa_nr_active := 0\<rparr>) k;
          k2 = fold (\<lambda>j. upd_array a (\<lambda>p. p\<lparr>pa_bitmap := (pa_bitmap p)(j := 0)\<rparr>)) [0..<BITMAP_SIZE] k1
      in fold (\<lambda>j. init_list (Queue a j)) [0..<MAX_PRIO] k2)"

definition sched_init :: "kern \<Rightarrow> kern" where
  "sched_init k =
     (let k1 = upd_rq (\<lambda>r. r\<lparr>rq_lock := False, rq_nr_running := 0, rq_nr_switches := 0, rq_clock := 0,
                         rq_clock_task := 0\<rparr>) k;
          k2 = init_array 1 (init_array 0 k1)
      in upd_rq (\<lambda>r. r\<lparr>rq_active := 0, rq_expired := 1, rq_idle := Some 0, rq_curr := Some 0\<rparr>) k2)"

subsection \<open>Queues\<close>

text \<open>The clamping of a priority to the index of a queue.\<close>

definition queue_index :: "int \<Rightarrow> nat" where
  "queue_index prio = (if prio < 0 then 0 else if prio \<ge> int MAX_PRIO then MAX_PRIO - 1 else nat prio)"

text \<open>
  Adding a task to an array: the body of \<^verbatim>\<open>enqueue_task\<close>, with the array as an argument, as
  \<^verbatim>\<open>scheduler_tick\<close> has the same statements for the expired array.
\<close>

definition add_to_array :: "nat \<Rightarrow> nat \<Rightarrow> kern \<Rightarrow> kern option" where
  "add_to_array a p k =
     (let prio = queue_index (t_prio (tasks k p))
      in do {
        k1 \<leftarrow> on_lists (list_add_tail (RunList p) (Queue a prio)) k;
        let k2 = upd_array a (\<lambda>x. x\<lparr>pa_bitmap := set_bit_at prio (pa_bitmap x), pa_nr_active := pa_nr_active x + 1\<rparr>) k1;
        let k3 = upd_rq (\<lambda>r. r\<lparr>rq_nr_running := rq_nr_running r + 1\<rparr>) k2;
        Some (upd_task p (\<lambda>t. t\<lparr>t_on_rq := True\<rparr>) k3)
      })"

definition enqueue_task :: "nat \<Rightarrow> kern \<Rightarrow> kern option" where
  "enqueue_task p k = add_to_array (rq_active (runqueue k)) p k"

definition dequeue_task :: "nat \<Rightarrow> kern \<Rightarrow> kern option" where
  "dequeue_task p k =
     (if \<not> t_on_rq (tasks k p) then Some k
      else
        (let prio = queue_index (t_prio (tasks k p));
             a = rq_active (runqueue k)
         in do {
           k1 \<leftarrow> on_lists (list_del_entry (RunList p)) k;
           let k2 = init_list (RunList p) k1;
           let k3 = (if list_empty (Queue a prio) (lists_of k2)
                     then upd_array a (\<lambda>x. x\<lparr>pa_bitmap := clear_bit_at prio (pa_bitmap x)\<rparr>) k2 else k2);
           let k4 = upd_array a (\<lambda>x. if pa_nr_active x > 0 then x\<lparr>pa_nr_active := pa_nr_active x - 1\<rparr> else x) k3;
           let k5 = upd_rq (\<lambda>r. if rq_nr_running r > 0 then r\<lparr>rq_nr_running := rq_nr_running r - 1\<rparr> else r) k4;
           Some (upd_task p (\<lambda>t. t\<lparr>t_on_rq := False\<rparr>) k5)
         }))"

text \<open>
  \<^verbatim>\<open>list_first_entry\<close> turns the node after the head into the task that contains it; a node
  that is no \<^verbatim>\<open>run_list\<close> would give a pointer to nowhere.
\<close>

definition first_task :: "lnode \<Rightarrow> kern \<Rightarrow> nat option" where
  "first_task h k = (case lnext (lists_of k) h of Some (RunList t) \<Rightarrow> Some t | _ \<Rightarrow> None)"

definition pick_next_task :: "kern \<Rightarrow> (nat option \<times> kern) option" where
  "pick_next_task k =
     (let r = runqueue k;
          k1 = (if pa_nr_active (rq_arrays r (rq_active r)) = 0
                then upd_rq (\<lambda>r. r\<lparr>rq_active := rq_expired r, rq_expired := rq_active r\<rparr>) k else k);
          a = rq_active (runqueue k1);
          arr = rq_arrays (runqueue k1) a
      in if pa_nr_active arr = 0 then Some (rq_idle (runqueue k1), k1)
         else
           (let idx = find_first_bit (pa_bitmap arr) MAX_PRIO
            in if idx \<ge> MAX_PRIO then Some (rq_idle (runqueue k1), k1)
               else if list_empty (Queue a idx) (lists_of k1) then Some (rq_idle (runqueue k1), k1)
               else map_option (\<lambda>t. (Some t, k1)) (first_task (Queue a idx) k1)))"

subsection \<open>Time slices\<close>

definition task_timeslice :: "task_struct \<Rightarrow> u64" where
  "task_timeslice p =
     (if t_prio p < 100 then MAX_TIMESLICE
      else
        (let nice = t_prio p - DEFAULT_PRIO;
             timeslice = (of_int (DEF_TIMESLICE - nice) :: u64);
             timeslice = (if timeslice < MIN_TIMESLICE then MIN_TIMESLICE else timeslice)
         in if timeslice > MAX_TIMESLICE then MAX_TIMESLICE else timeslice))"

definition set_tsk_need_resched :: "nat option \<Rightarrow> kern \<Rightarrow> kern" where
  "set_tsk_need_resched tsk k =
     (case tsk of
        None \<Rightarrow> k
      | Some t \<Rightarrow>
          if t_stack (tasks k t) = 0 then k
          else upd_ti (t_stack (tasks k t)) (\<lambda>ti. ti\<lparr>ti_flags := ti_flags ti OR push_bit TIF_NEED_RESCHED 1\<rparr>) k)"

definition clear_tsk_need_resched :: "nat option \<Rightarrow> kern \<Rightarrow> kern" where
  "clear_tsk_need_resched tsk k =
     (case tsk of
        None \<Rightarrow> k
      | Some t \<Rightarrow>
          if t_stack (tasks k t) = 0 then k
          else upd_ti (t_stack (tasks k t)) (\<lambda>ti. ti\<lparr>ti_flags := ti_flags ti AND NOT (push_bit TIF_NEED_RESCHED 1)\<rparr>) k)"

definition need_resched :: "kern \<Rightarrow> bool" where
  "need_resched k =
     (let cur = tasks k (get_current k)
      in t_stack cur \<noteq> 0 \<and> ti_flags (tinfos k (t_stack cur)) AND push_bit TIF_NEED_RESCHED 1 \<noteq> 0)"

text \<open>The case of \<^verbatim>\<open>scheduler_tick\<close> in which the time slice is used up.\<close>

definition tick_expire :: "nat \<Rightarrow> kern \<Rightarrow> kern option" where
  "tick_expire cur k =
     (let k1 = upd_task cur (\<lambda>t. t\<lparr>t_time_slice := task_timeslice t\<rparr>) k
      in do {
        k2 \<leftarrow> (if t_on_rq (tasks k1 cur)
               then Option.bind (dequeue_task cur k1) (\<lambda>k'. add_to_array (rq_expired (runqueue k')) cur k')
               else Some k1);
        Some (set_tsk_need_resched (Some cur) k2)
      })"

definition scheduler_tick :: "kern \<Rightarrow> kern option" where
  "scheduler_tick k =
     do {
       k1 \<leftarrow> rq_spin_lock k;
       let k2 = upd_rq (\<lambda>r. r\<lparr>rq_clock := rq_clock r + 1\<rparr>) k1;
       k3 \<leftarrow> (case rq_curr (runqueue k2) of
                None \<Rightarrow> Some k2
              | Some cur \<Rightarrow>
                  if rq_idle (runqueue k2) = Some cur then Some k2
                  else
                    (let k' = upd_task cur (\<lambda>t. t\<lparr>t_stime := t_stime t + 1,
                                t_time_slice := (if t_time_slice t > 0 then t_time_slice t - 1 else t_time_slice t)\<rparr>) k2
                     in if t_time_slice (tasks k' cur) = 0 then tick_expire cur k' else Some k'));
       Some (rq_spin_unlock k3)
     }"

subsection \<open>Switching\<close>

definition switch_mm :: "u64 \<Rightarrow> u64 \<Rightarrow> kern \<Rightarrow> kern" where
  "switch_mm prev_mm next_mm k =
     (if next_mm \<noteq> 0 \<and> mm_pgd (mms k next_mm) \<noteq> 0
      then k\<lparr>satp := push_bit 60 8 OR drop_bit 12 (mm_pgd (mms k next_mm)), fence_count := fence_count k + 1\<rparr>
      else k)"

text \<open>\<^verbatim>\<open>swtch\<close> (\<^verbatim>\<open>arch/riscv64/kernel/swtch.S\<close>) saves the registers of one context and loads the other.\<close>

definition swtch :: "nat \<Rightarrow> nat \<Rightarrow> kern \<Rightarrow> kern" where
  "swtch prev next k =
     (let k1 = upd_task prev (\<lambda>t. t\<lparr>t_context := cpu k\<rparr>) k
      in k1\<lparr>cpu := t_context (tasks k1 next)\<rparr>)"

definition context_switch :: "nat \<Rightarrow> nat \<Rightarrow> kern \<Rightarrow> kern" where
  "context_switch prev next k =
     (let mm = t_mm (tasks k next);
          oldmm = t_active_mm (tasks k prev);
          k1 = (if mm = 0
                then (let k' = upd_task next (\<lambda>t. t\<lparr>t_active_mm := oldmm\<rparr>) k
                      in if oldmm \<noteq> 0 then upd_mm oldmm (\<lambda>m. m\<lparr>mm_count := mm_count m + 1\<rparr>) k' else k')
                else switch_mm oldmm mm k);
          k2 = (if t_mm (tasks k1 prev) = 0
                then (let k' = upd_task prev (\<lambda>t. t\<lparr>t_active_mm := 0\<rparr>) k1
                      in if oldmm \<noteq> 0 then upd_mm oldmm (\<lambda>m. m\<lparr>mm_count := mm_count m - 1\<rparr>) k' else k')
                else k1)
      in swtch prev next k2)"

text \<open>
  \<^verbatim>\<open>schedule\<close>: the result is the state in which the next task goes on.  A task that comes
  back from \<^verbatim>\<open>swtch\<close> takes the lock and releases it again; a new one starts with the lock free.
\<close>

definition schedule :: "kern \<Rightarrow> kern option" where
  "schedule k =
     do {
       k1 \<leftarrow> rq_spin_lock k;
       let prev = rq_curr (runqueue k1);
       k2 \<leftarrow> (case prev of
                None \<Rightarrow> Some k1
              | Some p \<Rightarrow> if t_state (tasks k1 p) \<noteq> TASK_RUNNING \<and> t_on_rq (tasks k1 p)
                          then dequeue_task p k1 else Some k1);
       (next, k3) \<leftarrow> pick_next_task k2;
       let k4 = clear_tsk_need_resched prev k3;
       if prev = next then Some (rq_spin_unlock k4)
       else
         (let k5 = upd_rq (\<lambda>r. r\<lparr>rq_nr_switches := rq_nr_switches r + 1, rq_curr := next\<rparr>) k4;
              k6 = rq_spin_unlock (set_current next k5)
          in case (prev, next) of
               (Some p, Some n) \<Rightarrow> Some (context_switch p n k6)
             | _ \<Rightarrow> None)
     }"

definition yield :: "kern \<Rightarrow> kern option" where
  "yield k =
     (let cur = get_current k
      in do {
        k1 \<leftarrow> (if t_state (tasks k cur) = TASK_RUNNING
               then do {
                 k' \<leftarrow> rq_spin_lock k;
                 k'' \<leftarrow> (if t_on_rq (tasks k' cur)
                         then Option.bind (dequeue_task cur k') (enqueue_task cur) else Some k');
                 Some (rq_spin_unlock k'')
               }
               else Some k);
        schedule k1
      })"

subsection \<open>Sleeping and waking\<close>

definition wake_up_process :: "nat option \<Rightarrow> kern \<Rightarrow> (int \<times> kern) option" where
  "wake_up_process p k =
     (case p of
        None \<Rightarrow> Some (0, k)
      | Some t \<Rightarrow>
          do {
            k1 \<leftarrow> rq_spin_lock k;
            if t_state (tasks k1 t) = TASK_RUNNING then Some (0, rq_spin_unlock k1)
            else do {
              let k2 = upd_task t (\<lambda>x. x\<lparr>t_state := TASK_RUNNING\<rparr>) k1;
              k3 \<leftarrow> (if \<not> t_on_rq (tasks k2 t) then enqueue_task t k2 else Some k2);
              let k4 = (case rq_curr (runqueue k3) of
                          None \<Rightarrow> k3
                        | Some c \<Rightarrow> if t_prio (tasks k3 t) < t_prio (tasks k3 c)
                                    then set_tsk_need_resched (Some c) k3 else k3);
              Some (1, rq_spin_unlock k4)
            }
          })"

definition wake_up_new_task :: "nat option \<Rightarrow> kern \<Rightarrow> kern option" where
  "wake_up_new_task p k =
     (case p of
        None \<Rightarrow> Some k
      | Some t \<Rightarrow>
          do {
            k1 \<leftarrow> rq_spin_lock k;
            let k2 = upd_task t (\<lambda>x. x\<lparr>t_state := TASK_RUNNING, t_time_slice := task_timeslice x\<rparr>) k1;
            k3 \<leftarrow> enqueue_task t k2;
            Some (rq_spin_unlock k3)
          })"

definition sleep :: "chan option \<Rightarrow> kern \<Rightarrow> kern option" where
  "sleep chan k = schedule (upd_task (get_current k) (\<lambda>t. t\<lparr>t_chan := chan, t_state := TASK_INTERRUPTIBLE\<rparr>) k)"

definition wakeup_one :: "chan option \<Rightarrow> nat \<Rightarrow> kern \<Rightarrow> kern option" where
  "wakeup_one chan i k =
     (case task_table k i of
        None \<Rightarrow> Some k
      | Some p \<Rightarrow>
          if (t_state (tasks k p) = TASK_INTERRUPTIBLE \<or> t_state (tasks k p) = TASK_UNINTERRUPTIBLE)
             \<and> t_chan (tasks k p) = chan
          then map_option snd (wake_up_process (Some p) (upd_task p (\<lambda>t. t\<lparr>t_chan := None\<rparr>) k))
          else Some k)"

definition wakeup :: "chan option \<Rightarrow> kern \<Rightarrow> kern option" where
  "wakeup chan k = fold (\<lambda>i acc. Option.bind acc (wakeup_one chan i)) [0..<MAX_PROCS] (Some k)"

end
