(* ===== verification/SchedInv.thy ===== *)
theory SchedInv
  imports Sched
begin

text \<open>
  The invariant of the scheduler and the lemmas on its operations.  The run queues are seen as lists
  of tasks (\<open>queues\<close>); \<open>sched_rep\<close> ties them to the circular lists, the bitmaps and the counters
  of the state, \<open>exact\<close> says that counters and bitmaps of the two arrays agree with the lists, and
  \<open>sched_inv\<close> is the invariant between two calls.  For every operation there is a lemma that it
  returns, what it does to the queues, and when it keeps \<open>exact\<close>.
\<close>

unbundle bit_operations_syntax

subsection \<open>Bitmaps\<close>

lemma test_bit_iff: "test_bit j bm \<longleftrightarrow> bit (bm (j div 64)) (j mod 64)"
  by (simp add: test_bit_def and_exp_eq_0_iff_not_bit)

lemma first_bit_in_Some:
  "b + n \<le> 64 \<Longrightarrow> first_bit_in w b n = Some r \<Longrightarrow> b \<le> r \<and> r < b + n \<and> bit w r \<and> (\<forall>i. b \<le> i \<and> i < r \<longrightarrow> \<not> bit w i)"
proof (induction n arbitrary: b)
  case (Suc n)
  show ?case
  proof (cases "bit w b")
    case True
    then have "r = b" using Suc.prems by (simp add: and_exp_eq_0_iff_not_bit)
    then show ?thesis using True by auto
  next
    case False
    then have "first_bit_in w (Suc b) n = Some r" using Suc.prems by (simp add: and_exp_eq_0_iff_not_bit)
    with Suc.IH [of "Suc b"] Suc.prems(1) have "Suc b \<le> r \<and> r < Suc b + n \<and> bit w r \<and> (\<forall>i. Suc b \<le> i \<and> i < r \<longrightarrow> \<not> bit w i)" by simp
    then show ?thesis using False by (metis Suc_leD Suc_leI add_Suc_shift le_neq_implies_less)
  qed
qed simp

lemma first_bit_in_None:
  "b + n \<le> 64 \<Longrightarrow> first_bit_in w b n = None \<Longrightarrow> \<forall>i. b \<le> i \<and> i < b + n \<longrightarrow> \<not> bit w i"
proof (induction n arbitrary: b)
  case (Suc n)
  then have b: "\<not> bit w b" "first_bit_in w (Suc b) n = None" by (simp_all add: and_exp_eq_0_iff_not_bit split: if_splits)
  with Suc.IH [of "Suc b"] Suc.prems(1) have "\<forall>i. Suc b \<le> i \<and> i < Suc b + n \<longrightarrow> \<not> bit w i" by simp
  then show ?case using b(1) by (metis Suc_leI add_Suc_shift le_neq_implies_less)
qed auto

lemma word64_zero: "(w::u64) = 0 \<longleftrightarrow> (\<forall>i < 64. \<not> bit w i)"
  by (auto simp: bit_eq_iff dest: bit_imp_le_length)

lemma div_mod_bit: "j div 64 = i \<longleftrightarrow> i * 64 \<le> j \<and> j < i * 64 + (64::nat)" by linarith

lemma first_bit_loop_ok:
  "(\<forall>j < i * 64. \<not> test_bit j bm) \<Longrightarrow> sz \<le> (i + n) * 64 \<Longrightarrow>
   (case first_bit_loop bm sz i n of r \<Rightarrow> r \<le> sz \<and> (r < sz \<longrightarrow> test_bit r bm) \<and> (\<forall>j < r. \<not> test_bit j bm))"
proof (induction n arbitrary: i)
  case 0
  then show ?case by auto
next
  case (Suc n)
  show ?case
  proof (cases "bm i = 0")
    case True
    have "\<not> test_bit j bm" if "j < Suc i * 64" for j
    proof (cases "j < i * 64")
      case False
      then have "j div 64 = i" using that by (simp add: div_mod_bit)
      then show ?thesis using True by (simp add: test_bit_iff)
    qed (use Suc.prems in simp)
    with Suc.IH [of "Suc i"] Suc.prems(2) True show ?thesis by simp
  next
    case False
    then obtain c where "c < 64" "bit (bm i) c" using word64_zero by blast
    then obtain b where b: "first_bit_in (bm i) 0 64 = Some b"
      using first_bit_in_None [of 0 64 "bm i"] by (cases "first_bit_in (bm i) 0 64") auto
    from first_bit_in_Some [OF _ b] have b': "b < 64" "bit (bm i) b" "\<forall>j < b. \<not> bit (bm i) j" by auto
    have t: "test_bit (i * 64 + b) bm" using b' by (simp add: test_bit_iff)
    have "\<not> test_bit j bm" if "j < i * 64 + b" for j
    proof (cases "j < i * 64")
      case False
      then have d: "j div 64 = i" using that b'(1) by (simp add: div_mod_bit)
      moreover have "j = j div 64 * 64 + j mod 64" by simp
      ultimately have "j mod 64 < b" using that by linarith
      then have "j div 64 = i" "j mod 64 < b" using d by simp_all
      then show ?thesis using b'(3) by (simp add: test_bit_iff)
    qed (use Suc.prems in simp)
    then show ?thesis using False b t by (auto simp: Let_def)
  qed
qed

lemma find_first_bit_ok:
  "find_first_bit bm sz \<le> sz \<and> (find_first_bit bm sz < sz \<longrightarrow> test_bit (find_first_bit bm sz) bm)
    \<and> (\<forall>j < find_first_bit bm sz. \<not> test_bit j bm)"
proof -
  have "sz \<le> (0 + (sz + 63) div 64) * 64" by simp
  from first_bit_loop_ok [OF _ this, of bm] show ?thesis by (simp add: find_first_bit_def)
qed

lemma div_mod_eq: "i div 64 = j div 64 \<and> i mod 64 = j mod (64::nat) \<longleftrightarrow> i = j"
  by (metis div_mod_decomp)

lemma test_set_bit: "test_bit i (set_bit_at j bm) \<longleftrightarrow> i = j \<or> test_bit i bm"
proof (cases "i div 64 = j div 64")
  case True
  have "i mod 64 = j mod 64 \<longleftrightarrow> i = j" using True div_mod_eq [of i j] by simp
  then show ?thesis using True by (auto simp: test_bit_iff set_bit_at_def bit_or_iff bit_exp_iff)
next
  case False
  then show ?thesis by (auto simp: test_bit_iff set_bit_at_def)
qed

lemma test_clear_bit: "test_bit i (clear_bit_at j bm) \<longleftrightarrow> i \<noteq> j \<and> test_bit i bm"
proof (cases "i div 64 = j div 64")
  case True
  have "i mod 64 = j mod 64 \<longleftrightarrow> i = j" using True div_mod_eq [of i j] by simp
  then show ?thesis using True by (auto simp: test_bit_iff clear_bit_at_def bit_and_iff bit_not_iff bit_exp_iff)
next
  case False
  then show ?thesis by (auto simp: test_bit_iff clear_bit_at_def)
qed

subsection \<open>The run queues as lists\<close>

text \<open>
  \<open>qs a j\<close> are the tasks queued in array \<open>a\<close> at priority \<open>j\<close>.  The predicate \<open>sched_rep\<close> is
  what every operation of the scheduler keeps: a task is marked as queued exactly when it is on one
  of the queues, the one of its priority; a queue that is not empty has its bit set; and the
  counter \<open>nr_running\<close> is the number of queued tasks.  \<open>R\<close> holds all circular lists of the kernel.
\<close>

type_synonym queues = "nat \<Rightarrow> nat \<Rightarrow> nat list"

definition qarr :: "queues \<Rightarrow> nat \<Rightarrow> nat set" where
  "qarr qs a = (\<Union>j < MAX_PRIO. set (qs a j))"

definition qall :: "queues \<Rightarrow> nat set" where
  "qall qs = qarr qs 0 \<union> qarr qs 1"

definition sched_rep :: "kern \<Rightarrow> (lnode \<Rightarrow> lnode list option) \<Rightarrow> queues \<Rightarrow> bool" where
  "sched_rep k R qs \<longleftrightarrow>
     rings (lists_of k) R \<and> (\<forall>a < 2. \<forall>j < MAX_PRIO. R (Queue a j) = Some (map RunList (qs a j)))
     \<and> (\<forall>t. RunList t \<in> nodes R \<longleftrightarrow> t \<in> qall qs)
     \<and> (\<forall>t. t_on_rq (tasks k t) \<longleftrightarrow> t \<in> qall qs) \<and> qall qs \<subseteq> {..64}
     \<and> (\<forall>a < 2. \<forall>j < MAX_PRIO. \<forall>t \<in> set (qs a j). queue_index (t_prio (tasks k t)) = j)
     \<and> rq_active (runqueue k) < 2 \<and> rq_expired (runqueue k) = 1 - rq_active (runqueue k)
     \<and> (\<forall>a < 2. \<forall>j < MAX_PRIO. qs a j \<noteq> [] \<longrightarrow> test_bit j (pa_bitmap (rq_arrays (runqueue k) a)))
     \<and> rq_nr_running (runqueue k) = of_nat (card (qall qs))"

text \<open>
  The counters and bitmaps of the two arrays agree with the queues, up to a surplus \<open>sp a\<close> of the
  counter of array \<open>a\<close>: \<^verbatim>\<open>dequeue_task\<close> counts down the active array even when the task is on the expired one.
\<close>

definition counted :: "(nat \<Rightarrow> nat) \<Rightarrow> kern \<Rightarrow> queues \<Rightarrow> bool" where
  "counted sp k qs \<longleftrightarrow> (\<forall>a < 2. sp a \<le> 64 \<and> pa_nr_active (rq_arrays (runqueue k) a) = of_nat (card (qarr qs a) + sp a)
     \<and> (\<forall>j < MAX_PRIO. test_bit j (pa_bitmap (rq_arrays (runqueue k) a)) \<longrightarrow> qs a j \<noteq> []))"

abbreviation exact :: "kern \<Rightarrow> queues \<Rightarrow> bool" where
  "exact \<equiv> counted (\<lambda>_. 0)"

lemma sched_repD:
  assumes "sched_rep k R qs"
  shows "rings (lists_of k) R" "\<And>a j. a < 2 \<Longrightarrow> j < MAX_PRIO \<Longrightarrow> R (Queue a j) = Some (map RunList (qs a j))"
    "\<And>t. RunList t \<in> nodes R \<longleftrightarrow> t \<in> qall qs" "\<And>t. t_on_rq (tasks k t) \<longleftrightarrow> t \<in> qall qs" "qall qs \<subseteq> {..64}"
    "\<And>a j t. a < 2 \<Longrightarrow> j < MAX_PRIO \<Longrightarrow> t \<in> set (qs a j) \<Longrightarrow> queue_index (t_prio (tasks k t)) = j"
    "rq_active (runqueue k) < 2" "rq_expired (runqueue k) = 1 - rq_active (runqueue k)"
    "\<And>a j. a < 2 \<Longrightarrow> j < MAX_PRIO \<Longrightarrow> qs a j \<noteq> [] \<Longrightarrow> test_bit j (pa_bitmap (rq_arrays (runqueue k) a))"
    "rq_nr_running (runqueue k) = of_nat (card (qall qs))"
  using assms unfolding sched_rep_def by blast+

lemma queue_index_bound [simp]: "queue_index p < MAX_PRIO"
  by (auto simp: queue_index_def MAX_PRIO_def)

lemma qarr_mem: "t \<in> qarr qs a \<longleftrightarrow> (\<exists>j < MAX_PRIO. t \<in> set (qs a j))" by (auto simp: qarr_def)

lemma qarr_sub: "a < 2 \<Longrightarrow> qarr qs a \<subseteq> qall qs" by (auto simp: qall_def less_2_cases_iff)

lemma qall_mem: "t \<in> qall qs \<longleftrightarrow> (\<exists>a < 2. \<exists>j < MAX_PRIO. t \<in> set (qs a j))"
proof -
  have "(\<exists>a < 2. t \<in> qarr qs a) \<longleftrightarrow> t \<in> qall qs" by (auto simp: qall_def less_2_cases_iff)
  then show ?thesis by (auto simp: qarr_mem)
qed

lemma queued_once:
  assumes r: "sched_rep k R qs" and t: "t \<in> set (qs a j)" "t \<in> set (qs b i)" and ab: "a < 2" "b < 2" "j < MAX_PRIO" "i < MAX_PRIO"
  shows "a = b" "j = i"
proof -
  note d = sched_repD [OF r]
  have "Queue a j = Queue b i"
  proof (rule ccontr)
    assume "Queue a j \<noteq> Queue b i"
    from ringsD(3) [OF d(1) d(2) [OF ab(1,3)] d(2) [OF ab(2,4)] this] show False using t by auto
  qed
  then show "a = b" "j = i" by auto
qed

lemma queue_distinct:
  assumes r: "sched_rep k R qs" and a: "a < 2" "j < MAX_PRIO"
  shows "distinct (qs a j)"
  using ringsD(2) [OF sched_repD(1) [OF r] sched_repD(2) [OF r a]] by (simp add: distinct_map)

lemma qall_finite: "sched_rep k R qs \<Longrightarrow> finite (qall qs)" "sched_rep k R qs \<Longrightarrow> card (qall qs) \<le> 65"
proof -
  assume "sched_rep k R qs"
  then have s: "qall qs \<subseteq> {..64}" by (rule sched_repD)
  then show "finite (qall qs)" by (rule finite_subset) simp
  from card_mono [OF _ s] show "card (qall qs) \<le> 65" by simp
qed

text \<open>Changing one queue.\<close>

definition set_queue :: "nat \<Rightarrow> nat \<Rightarrow> nat list \<Rightarrow> queues \<Rightarrow> queues" where
  "set_queue a j xs qs = qs(a := (qs a)(j := xs))"

lemma set_queue_simps [simp]:
  "set_queue a j xs qs b i = (if b = a \<and> i = j then xs else qs b i)"
  by (simp add: set_queue_def)

lemma qarr_set: "j < MAX_PRIO \<Longrightarrow> qarr (set_queue a j xs qs) b =
    (if b = a then set xs \<union> (\<Union>i \<in> {..<MAX_PRIO} - {j}. set (qs a i)) else qarr qs b)"
  unfolding qarr_def by (auto split: if_splits)

lemma set_queue_add:
  assumes "a < 2" "j < MAX_PRIO"
  shows "qarr (set_queue a j (qs a j @ [t]) qs) b = (if b = a then insert t (qarr qs a) else qarr qs b)"
    "qall (set_queue a j (qs a j @ [t]) qs) = insert t (qall qs)"
proof -
  show e: "qarr (set_queue a j (qs a j @ [t]) qs) b = (if b = a then insert t (qarr qs a) else qarr qs b)" for b
    using assms(2) unfolding qarr_def by (auto split: if_splits)
  show "qall (set_queue a j (qs a j @ [t]) qs) = insert t (qall qs)"
    using assms(1) unfolding qall_def e by (auto simp: less_2_cases_iff)
qed

lemma set_queue_del:
  assumes r: "sched_rep k R qs" and a: "a < 2" "j < MAX_PRIO" and q: "qs a j = ys @ t # zs"
  shows "qarr (set_queue a j (ys @ zs) qs) b = (if b = a then qarr qs a - {t} else qarr qs b)"
    "qall (set_queue a j (ys @ zs) qs) = qall qs - {t}" "t \<in> qarr qs a" "t \<in> qall qs"
proof -
  have t: "t \<in> set (qs a j)" "t \<notin> set (ys @ zs)" using queue_distinct [OF r a] q by auto
  have other: "t \<notin> set (qs b i)" if "b < 2" "i < MAX_PRIO" "(b, i) \<noteq> (a, j)" for b i
    using queued_once [OF r t(1) _ a(1) that(1) a(2) that(2)] that(3) by auto
  show e: "qarr (set_queue a j (ys @ zs) qs) b = (if b = a then qarr qs a - {t} else qarr qs b)" for b
  proof (cases "b = a")
    case True
    have "qarr qs a - {t} = (\<Union>i < MAX_PRIO. set (qs a i) - {t})" by (auto simp: qarr_def)
    also have "\<dots> = (\<Union>i < MAX_PRIO. set (set_queue a j (ys @ zs) qs a i))"
    proof (rule SUP_cong [OF refl])
      fix i assume "i \<in> {..<MAX_PRIO}"
      then have i: "i < MAX_PRIO" by simp
      show "set (qs a i) - {t} = set (set_queue a j (ys @ zs) qs a i)"
        using t(2) q other [OF a(1) i] by (cases "i = j") auto
    qed
    finally show ?thesis using True by (simp add: qarr_def)
  qed (simp add: qarr_def)
  show "t \<in> qarr qs a" using t(1) a(2) by (auto simp: qarr_mem)
  then show "t \<in> qall qs" using qarr_sub [OF a(1)] by blast
  have "t \<notin> qarr qs b" if "b < 2" "b \<noteq> a" for b using other [OF that(1)] that(2) by (auto simp: qarr_mem)
  then show "qall (set_queue a j (ys @ zs) qs) = qall qs - {t}"
    using a(1) unfolding qall_def e by (auto simp: less_2_cases_iff)
qed

lemma upd_simps [simp]:
  "lists_of (upd_task t f k) = lists_of k" "lists_of (upd_rq g k) = lists_of k" "lists_of (upd_array a h k) = lists_of k"
  "tasks (upd_task t f k) = (tasks k)(t := f (tasks k t))" "tasks (upd_rq g k) = tasks k" "tasks (upd_array a h k) = tasks k"
  "runqueue (upd_task t f k) = runqueue k" "runqueue (upd_rq g k) = g (runqueue k)"
  "runqueue (upd_array a h k) = (runqueue k)\<lparr>rq_arrays := (rq_arrays (runqueue k))(a := h (rq_arrays (runqueue k) a))\<rparr>"
  "runqueue (init_list n k) = runqueue k" "tasks (init_list n k) = tasks k"
  "lists_of (init_list n k) = INIT_LIST_HEAD n (lists_of k)"
  "runqueue (upd_ti s i k) = runqueue k" "tasks (upd_ti s i k) = tasks k" "lists_of (upd_ti s i k) = lists_of k"
  "runqueue (upd_mm m e k) = runqueue k" "tasks (upd_mm m e k) = tasks k" "lists_of (upd_mm m e k) = lists_of k"
  by (simp_all add: upd_task_def upd_rq_def upd_array_def init_list_def upd_ti_def upd_mm_def)

lemma upd_task_table [simp]:
  "task_table (upd_task t f k) = task_table k" "task_table (upd_rq g k) = task_table k"
  "task_table (upd_array a h k) = task_table k" "task_table (init_list n k) = task_table k"
  "task_table (upd_ti s i k) = task_table k" "task_table (upd_mm m e k) = task_table k"
  by (simp_all add: upd_task_def upd_rq_def upd_array_def init_list_def upd_ti_def upd_mm_def)

definition others :: "('n \<Rightarrow> 'n list option) \<Rightarrow> 'n \<Rightarrow> 'n set" where
  "others R h = {n. \<exists>h' xs. h' \<noteq> h \<and> R h' = Some xs \<and> n \<in> set (h' # xs)}"

lemma nodes_others:
  assumes "R h = Some xs"
  shows "nodes R = set (h # xs) \<union> others R h"
proof -
  have "(\<exists>h' ys. R h' = Some ys \<and> n \<in> set (h' # ys)) \<longleftrightarrow>
      n \<in> set (h # xs) \<or> (\<exists>h' ys. h' \<noteq> h \<and> R h' = Some ys \<and> n \<in> set (h' # ys))" for n
    using assms by (metis option.inject)
  then show ?thesis unfolding nodes_def others_def by auto
qed

lemma others_upd: "others (R(h := v)) h = others R h" unfolding others_def by (auto; metis)

lemma nodes_upd: "nodes (R(h \<mapsto> ys)) = set (h # ys) \<union> others R h"
  by (subst nodes_others [where h = h and xs = ys]) (simp_all add: others_upd)

lemma nodes_add: "R h = Some xs \<Longrightarrow> nodes (R(h \<mapsto> xs @ [n])) = insert n (nodes R)"
  unfolding nodes_upd by (simp add: nodes_others) blast

lemma nodes_del:
  assumes r: "rings s R" and h: "R h = Some (ys @ n # zs)"
  shows "nodes (R(h \<mapsto> ys @ zs)) = nodes R - {n}"
proof -
  note d = ringsD(2,3) [OF r]
  have "n \<notin> others R h" using d(2) [OF h] unfolding others_def by fastforce
  then show ?thesis using d(1) [OF h] unfolding nodes_upd nodes_others [where R = R and h = h, OF h] by auto
qed

text \<open>The state of a run of \<open>add_to_array\<close>: everything but the list nodes.\<close>

definition added :: "nat \<Rightarrow> nat \<Rightarrow> kern \<Rightarrow> lnode lists \<Rightarrow> kern" where
  "added a p k l =
     (let j = queue_index (t_prio (tasks k p))
      in upd_task p (\<lambda>t. t\<lparr>t_on_rq := True\<rparr>)
          (upd_rq (\<lambda>r. r\<lparr>rq_nr_running := rq_nr_running r + 1\<rparr>)
            (upd_array a (\<lambda>x. x\<lparr>pa_bitmap := set_bit_at j (pa_bitmap x), pa_nr_active := pa_nr_active x + 1\<rparr>)
              (k\<lparr>lists_of := l\<rparr>))))"

lemma add_to_array_ok:
  assumes r: "sched_rep k R qs" and t: "t \<notin> qall qs" "t \<le> 64" and a: "a < 2"
    and j: "j = queue_index (t_prio (tasks k t))" and qs': "qs' = set_queue a j (qs a j @ [t]) qs"
  shows "\<exists>l. add_to_array a t k = Some (added a t k l) \<and> sched_rep (added a t k l) (R(Queue a j \<mapsto> map RunList (qs' a j))) qs'
    \<and> (\<forall>m. m \<notin> nodes R \<and> m \<noteq> RunList t \<longrightarrow> lnext l m = lnext (lists_of k) m \<and> lprev l m = lprev (lists_of k) m)"
proof -
  note d = sched_repD [OF r]
  have jb: "j < MAX_PRIO" by (simp add: j)
  have tn: "RunList t \<notin> nodes R" using d(3) t(1) by blast
  from list_add_tail_ok [OF d(1) d(2) [OF a jb] tn] obtain l where
    l: "list_add_tail (RunList t) (Queue a j) (lists_of k) = Some l"
      "rings l (R(Queue a j \<mapsto> map RunList (qs a j) @ [RunList t]))"
      "\<And>m. m \<notin> nodes R \<and> m \<noteq> RunList t \<Longrightarrow> lnext l m = lnext (lists_of k) m \<and> lprev l m = lprev (lists_of k) m" by blast
  let ?k = "added a t k l" and ?R = "R(Queue a j \<mapsto> map RunList (qs' a j))"
  have run: "add_to_array a t k = Some ?k"
    using l(1) by (simp add: add_to_array_def added_def on_lists_def j)
  have Rq: "map RunList (qs' a j) = map RunList (qs a j) @ [RunList t]" by (simp add: qs')
  have nR: "RunList u \<in> nodes ?R \<longleftrightarrow> RunList u \<in> nodes R \<or> u = t" for u
    unfolding Rq nodes_add [where R = R, OF d(2) [OF a jb]] by auto
  have q': "qarr qs' b = (if b = a then insert t (qarr qs a) else qarr qs b)" "qall qs' = insert t (qall qs)" for b
    unfolding qs' by (rule set_queue_add [OF a jb])+
  have lk: "lists_of ?k = l" "tasks ?k = (tasks k)(t := (tasks k t)\<lparr>t_on_rq := True\<rparr>)"
    "rq_active (runqueue ?k) = rq_active (runqueue k)" "rq_expired (runqueue ?k) = rq_expired (runqueue k)"
    "rq_nr_running (runqueue ?k) = rq_nr_running (runqueue k) + 1"
    "pa_bitmap (rq_arrays (runqueue ?k) b) = (if b = a then set_bit_at j (pa_bitmap (rq_arrays (runqueue k) a)) else pa_bitmap (rq_arrays (runqueue k) b))"
    for b by (simp_all add: added_def Let_def j)
  have "sched_rep ?k ?R qs'"
    unfolding sched_rep_def
  proof (intro conjI allI impI ballI)
    show "rings (lists_of ?k) ?R" using l(2) unfolding lk Rq .
    fix b i assume b: "b < (2 :: nat)" "i < MAX_PRIO"
    show "?R (Queue b i) = Some (map RunList (qs' b i))" using d(2) [OF b] by (auto simp: qs')
    show "queue_index (t_prio (tasks ?k u)) = i" if "u \<in> set (qs' b i)" for u
      using that d(6) [OF b, of u] by (auto simp: qs' lk j split: if_splits)
    show "test_bit i (pa_bitmap (rq_arrays (runqueue ?k) b))" if "qs' b i \<noteq> []"
      using that d(9) [OF b] by (auto simp: qs' lk test_set_bit split: if_splits)
  next
    fix u
    show "(RunList u \<in> nodes ?R) = (u \<in> qall qs')" unfolding nR q' using d(3) by auto
    show "t_on_rq (tasks ?k u) = (u \<in> qall qs')" unfolding q' lk using d(4) by auto
  next
    show "qall qs' \<subseteq> {..64}" using d(5) t(2) unfolding q' by auto
    show "rq_active (runqueue ?k) < 2" "rq_expired (runqueue ?k) = 1 - rq_active (runqueue ?k)"
      unfolding lk by (fact d(7), fact d(8))
    show "rq_nr_running (runqueue ?k) = of_nat (card (qall qs'))"
      using qall_finite(1) [OF r] t(1) unfolding lk d(10) q' by (simp add: add.commute)
  qed
  with run l(3) show ?thesis by blast
qed

lemma added_counted:
  assumes r: "sched_rep k R qs" and e: "counted sp k qs" and t: "t \<notin> qall qs" and a: "a < 2"
    and j: "j = queue_index (t_prio (tasks k t))" and qs': "qs' = set_queue a j (qs a j @ [t]) qs"
  shows "counted sp (added a t k l) qs'"
proof -
  have jb: "j < MAX_PRIO" by (simp add: j)
  have q': "qarr qs' b = (if b = a then insert t (qarr qs a) else qarr qs b)" for b
    unfolding qs' by (rule set_queue_add [OF a jb])
  have ta: "t \<notin> qarr qs a" "finite (qarr qs a)"
    using t qarr_sub [OF a] finite_subset [OF qarr_sub [OF a] qall_finite(1) [OF r]] by auto
  have n: "pa_nr_active (rq_arrays (runqueue (added a t k l)) b) = pa_nr_active (rq_arrays (runqueue k) b) + (if b = a then 1 else 0)"
    "pa_bitmap (rq_arrays (runqueue (added a t k l)) b) = (if b = a then set_bit_at j (pa_bitmap (rq_arrays (runqueue k) a)) else pa_bitmap (rq_arrays (runqueue k) b))"
    for b by (simp_all add: added_def Let_def j)
  show ?thesis using e ta unfolding counted_def q' n
    by (auto simp: qs' test_set_bit add.commute split: if_splits)
qed

definition removed :: "nat \<Rightarrow> kern \<Rightarrow> lnode lists \<Rightarrow> bool \<Rightarrow> kern" where
  "removed p k l e =
     (let j = queue_index (t_prio (tasks k p)); a = rq_active (runqueue k)
      in upd_task p (\<lambda>t. t\<lparr>t_on_rq := False\<rparr>)
          (upd_rq (\<lambda>r. if rq_nr_running r > 0 then r\<lparr>rq_nr_running := rq_nr_running r - 1\<rparr> else r)
            (upd_array a (\<lambda>x. if pa_nr_active x > 0 then x\<lparr>pa_nr_active := pa_nr_active x - 1\<rparr> else x)
              (upd_array a (\<lambda>x. x\<lparr>pa_bitmap := (if e then clear_bit_at j (pa_bitmap x) else pa_bitmap x)\<rparr>)
                (k\<lparr>lists_of := l\<rparr>)))))"

lemma removed_simps:
  "lists_of (removed p k l e) = l" "tasks (removed p k l e) = (tasks k)(p := (tasks k p)\<lparr>t_on_rq := False\<rparr>)"
  "rq_active (runqueue (removed p k l e)) = rq_active (runqueue k)"
  "rq_expired (runqueue (removed p k l e)) = rq_expired (runqueue k)"
  "rq_curr (runqueue (removed p k l e)) = rq_curr (runqueue k)" "rq_idle (runqueue (removed p k l e)) = rq_idle (runqueue k)"
  "rq_lock (runqueue (removed p k l e)) = rq_lock (runqueue k)" "task_table (removed p k l e) = task_table k"
  "rq_nr_running (runqueue (removed p k l e)) = (if rq_nr_running (runqueue k) > 0 then rq_nr_running (runqueue k) - 1 else rq_nr_running (runqueue k))"
  "pa_bitmap (rq_arrays (runqueue (removed p k l e)) b) =
     (if b = rq_active (runqueue k) \<and> e then clear_bit_at (queue_index (t_prio (tasks k p))) (pa_bitmap (rq_arrays (runqueue k) b))
      else pa_bitmap (rq_arrays (runqueue k) b))"
  "pa_nr_active (rq_arrays (runqueue (removed p k l e)) b) =
     (if b = rq_active (runqueue k) \<and> pa_nr_active (rq_arrays (runqueue k) b) > 0 then pa_nr_active (rq_arrays (runqueue k) b) - 1
      else pa_nr_active (rq_arrays (runqueue k) b))"
  by (simp_all add: removed_def Let_def)

lemma added_simps:
  "lists_of (added a p k l) = l" "tasks (added a p k l) = (tasks k)(p := (tasks k p)\<lparr>t_on_rq := True\<rparr>)"
  "rq_active (runqueue (added a p k l)) = rq_active (runqueue k)"
  "rq_expired (runqueue (added a p k l)) = rq_expired (runqueue k)"
  "rq_curr (runqueue (added a p k l)) = rq_curr (runqueue k)" "rq_idle (runqueue (added a p k l)) = rq_idle (runqueue k)"
  "rq_lock (runqueue (added a p k l)) = rq_lock (runqueue k)" "task_table (added a p k l) = task_table k"
  "rq_nr_running (runqueue (added a p k l)) = rq_nr_running (runqueue k) + 1"
  by (simp_all add: added_def Let_def)

lemma dequeue_run:
  assumes "t_on_rq (tasks k p)" "list_del_entry (RunList p) (lists_of k) = Some l"
  shows "dequeue_task p k = Some (removed p k (INIT_LIST_HEAD (RunList p) l)
    (list_empty (Queue (rq_active (runqueue k)) (queue_index (t_prio (tasks k p)))) (INIT_LIST_HEAD (RunList p) l)))"
  using assms by (simp add: dequeue_task_def removed_def on_lists_def Let_def init_list_def upd_array_def upd_rq_def upd_task_def)

lemma small_word: "0 < n \<Longrightarrow> n \<le> 129 \<Longrightarrow> (0 :: 'a :: len word) < of_nat n" if "LENGTH('a) \<ge> 8"
proof -
  assume n: "0 < n" "n \<le> 129"
  have "(2 :: nat) ^ 8 \<le> 2 ^ LENGTH('a)" using that by (intro power_increasing) auto
  then have "n < 2 ^ LENGTH('a)" using n(2) by simp
  then have "unat (of_nat n :: 'a word) = n" by (simp add: unat_of_nat)
  then show ?thesis using n(1) by (metis unat_0 word_gt_0 less_irrefl)
qed

lemma dequeue_ok:
  assumes r: "sched_rep k R qs" and b: "b < 2" "j < MAX_PRIO" and q: "qs b j = ys @ t # zs"
    and qs': "qs' = set_queue b j (ys @ zs) qs"
  shows "\<exists>l e. dequeue_task t k = Some (removed t k l e) \<and> sched_rep (removed t k l e) (R(Queue b j \<mapsto> map RunList (ys @ zs))) qs'
    \<and> (e \<longleftrightarrow> qs' (rq_active (runqueue k)) j = [])
    \<and> (\<forall>m. m \<notin> nodes R \<and> m \<noteq> RunList t \<longrightarrow> lnext l m = lnext (lists_of k) m \<and> lprev l m = lprev (lists_of k) m)"
proof -
  note d = sched_repD [OF r]
  let ?a = "rq_active (runqueue k)" and ?R = "R(Queue b j \<mapsto> map RunList (ys @ zs))"
  have tj: "t \<in> set (qs b j)" using q by simp
  have j: "j = queue_index (t_prio (tasks k t))" using d(6) [OF b tj] by simp
  note q' = set_queue_del [OF r b q, folded qs']
  have RQ: "R (Queue b j) = Some (map RunList ys @ RunList t # map RunList zs)" using d(2) [OF b] q by simp
  from list_del_ok [OF d(1) RQ] obtain l0 where
    l0: "list_del_entry (RunList t) (lists_of k) = Some l0" "rings l0 ?R"
      "\<And>m. m \<notin> nodes R \<Longrightarrow> lnext l0 m = lnext (lists_of k) m \<and> lprev l0 m = lprev (lists_of k) m" by auto
  have nR: "nodes ?R = nodes R - {RunList t}" using nodes_del [OF d(1) RQ] by simp
  let ?l = "INIT_LIST_HEAD (RunList t) l0"
  have rl: "rings ?l ?R" using init_off [OF l0(2)] unfolding nR by blast
  have Rq': "?R (Queue c i) = Some (map RunList (qs' c i))" if "c < 2" "i < MAX_PRIO" for c i
    using d(2) [OF that] by (auto simp: qs')
  let ?e = "list_empty (Queue ?a (queue_index (t_prio (tasks k t)))) ?l"
  let ?k = "removed t k ?l ?e"
  have e: "?e \<longleftrightarrow> qs' ?a j = []"
    using list_empty_ok [OF rl Rq' [OF d(7) b(2)]] unfolding j [symmetric] by simp
  have onrq: "t_on_rq (tasks k t)" using d(4) q'(4) by blast
  have pos: "0 < card (qall qs)" using q'(4) qall_finite(1) [OF r] by (auto simp: card_gt_0_iff)
  have "sched_rep ?k ?R qs'"
    unfolding sched_rep_def
  proof (intro conjI allI impI ballI)
    show "rings (lists_of ?k) ?R" using rl unfolding removed_simps .
    fix c i assume c: "c < (2 :: nat)" "i < MAX_PRIO"
    show "?R (Queue c i) = Some (map RunList (qs' c i))" by (rule Rq' [OF c])
    show "queue_index (t_prio (tasks ?k u)) = i" if "u \<in> set (qs' c i)" for u
      using that d(6) [OF c, of u] d(6) [OF b, of u] q by (auto simp: qs' removed_simps split: if_splits)
    show "test_bit i (pa_bitmap (rq_arrays (runqueue ?k) c))" if ne: "qs' c i \<noteq> []"
    proof -
      have "qs c i \<noteq> []" using ne q by (auto simp: qs' split: if_splits)
      moreover have "\<not> (c = ?a \<and> ?e \<and> i = j)" using e ne by blast
      ultimately show ?thesis using d(9) [OF c] unfolding removed_simps j [symmetric] by (auto simp: test_clear_bit)
    qed
  next
    fix u
    show "(RunList u \<in> nodes ?R) = (u \<in> qall qs')" unfolding nR q' using d(3) by auto
    show "t_on_rq (tasks ?k u) = (u \<in> qall qs')" unfolding q' removed_simps using d(4) by auto
  next
    show "qall qs' \<subseteq> {..64}" using d(5) unfolding q' by auto
    show "rq_active (runqueue ?k) < 2" "rq_expired (runqueue ?k) = 1 - rq_active (runqueue ?k)"
      unfolding removed_simps by (fact d(7), fact d(8))
    have "(of_nat (card (qall qs)) :: u64) - 1 = of_nat (card (qall qs) - 1)"
      using pos by (simp add: of_nat_diff)
    then show "rq_nr_running (runqueue ?k) = of_nat (card (qall qs'))"
      using small_word [where ?'a = 64, OF _ pos order_trans [OF qall_finite(2) [OF r]]] q'(4)
      unfolding removed_simps d(10) q'(2) by simp
  qed
  moreover have "\<forall>m. m \<notin> nodes R \<and> m \<noteq> RunList t \<longrightarrow> lnext ?l m = lnext (lists_of k) m \<and> lprev ?l m = lprev (lists_of k) m"
    using l0(3) by auto
  ultimately show ?thesis using dequeue_run [OF onrq l0(1)] e by blast
qed

lemma card_qarr:
  assumes "sched_rep k R qs" "a < 2"
  shows "finite (qarr qs a)" "card (qarr qs a) \<le> 65"
  using finite_subset [OF qarr_sub [OF assms(2)] qall_finite(1) [OF assms(1)]]
    card_mono [OF qall_finite(1) [OF assms(1)] qarr_sub [OF assms(2)]] qall_finite(2) [OF assms(1)] by auto

lemma countedD:
  assumes "counted sp k qs" "a < 2"
  shows "sp a \<le> 64" "pa_nr_active (rq_arrays (runqueue k) a) = of_nat (card (qarr qs a) + sp a)"
    "\<And>j. j < MAX_PRIO \<Longrightarrow> test_bit j (pa_bitmap (rq_arrays (runqueue k) a)) \<Longrightarrow> qs a j \<noteq> []"
  using assms unfolding counted_def by blast+

lemma removed_counted:
  assumes r: "sched_rep k R qs" and x: "counted sp k qs" and b: "b = rq_active (runqueue k)" "j < MAX_PRIO"
    and q: "qs b j = ys @ t # zs" and qs': "qs' = set_queue b j (ys @ zs) qs" and e: "e \<longleftrightarrow> qs' b j = []"
  shows "counted sp (removed t k l e) qs'"
proof -
  note d = sched_repD [OF r]
  have b2: "b < 2" using d(7) b(1) by simp
  have j: "j = queue_index (t_prio (tasks k t))" using d(6) [OF b2 b(2)] q by simp
  note q' = set_queue_del [OF r b2 b(2) q, folded qs'] and xs = countedD [OF x]
  have pos: "0 < card (qarr qs b)" using q'(3) card_qarr(1) [OF r b2] by (auto simp: card_gt_0_iff)
  have gt: "(0 :: u32) < of_nat (card (qarr qs b) + sp b)"
    using pos card_qarr(2) [OF r b2] xs(1) [OF b2] by (intro small_word) auto
  have "(of_nat (card (qarr qs b) + sp b) :: u32) - 1 = of_nat (card (qarr qs b) + sp b - 1)" using pos by (simp add: of_nat_diff)
  moreover have "card (qarr qs b) + sp b - 1 = card (qarr qs b - {t}) + sp b" using pos q'(3) card_qarr(1) [OF r b2] by simp
  ultimately have "pa_nr_active (rq_arrays (runqueue (removed t k l e)) c) = of_nat (card (qarr qs' c) + sp c)" if "c < 2" for c
    using xs(2) [OF that] gt unfolding removed_simps b(1) [symmetric] q'(1) by (cases "c = b") simp_all
  moreover have "qs' c i \<noteq> []" if "c < 2" "i < MAX_PRIO" "test_bit i (pa_bitmap (rq_arrays (runqueue (removed t k l e)) c))" for c i
    using that(3) xs(3) [OF that(1,2)] e unfolding removed_simps b(1) [symmetric] j [symmetric]
    by (auto simp: qs' test_clear_bit split: if_splits)
  ultimately show ?thesis using xs(1) unfolding counted_def by blast
qed

text \<open>
  A task that leaves the expired array while the active one is empty: the counter of the expired
  array stays one too high.
\<close>

lemma removed_expired_counted:
  assumes r: "sched_rep k R qs" and x: "counted sp k qs" and b: "b = rq_expired (runqueue k)" "j < MAX_PRIO"
    and q: "qs b j = ys @ t # zs" "ys @ zs \<noteq> []" and qs': "qs' = set_queue b j (ys @ zs) qs"
    and a: "qarr qs (rq_active (runqueue k)) = {}" "sp (rq_active (runqueue k)) = 0" "sp b < 64"
  shows "counted (sp(b := sp b + 1)) (removed t k l e) qs'"
proof -
  note d = sched_repD [OF r]
  have b2: "b < 2" "b \<noteq> rq_active (runqueue k)" using d(7,8) b(1) by (auto simp: less_2_cases_iff)
  note q' = set_queue_del [OF r b2(1) b(2) q(1), folded qs'] and xs = countedD [OF x]
  have pos: "0 < card (qarr qs b)" using q'(3) card_qarr(1) [OF r b2(1)] by (auto simp: card_gt_0_iff)
  have "card (qarr qs b) + sp b = card (qarr qs b - {t}) + (sp b + 1)" using pos q'(3) card_qarr(1) [OF r b2(1)] by simp
  then have "pa_nr_active (rq_arrays (runqueue (removed t k l e)) c) = of_nat (card (qarr qs' c) + (sp(b := sp b + 1)) c)" if "c < 2" for c
    using xs(2) [OF that] xs(2) [OF d(7)] a b2(2) unfolding removed_simps q'(1) by (cases "c = b") (auto simp: add.assoc)
  moreover have "qs' c i \<noteq> []" if "c < 2" "i < MAX_PRIO" "test_bit i (pa_bitmap (rq_arrays (runqueue (removed t k l e)) c))" for c i
    using that(3) xs(3) [OF that(1,2)] q(2) unfolding removed_simps by (auto simp: qs' test_clear_bit split: if_splits)
  ultimately show ?thesis using xs(1) a(3) unfolding counted_def by auto
qed

subsection \<open>Choosing the next task\<close>

text \<open>
  What \<^verbatim>\<open>pick_next_task\<close> is to choose: the first task of the best queue of the active array, of the
  expired array if the active one is empty, and the idle task if both are.
\<close>

definition best :: "queues \<Rightarrow> nat \<Rightarrow> nat option" where
  "best qs a = find (\<lambda>j. qs a j \<noteq> []) [0..<MAX_PRIO]"

definition choose_array :: "(nat \<Rightarrow> nat) \<Rightarrow> queues \<Rightarrow> nat \<Rightarrow> nat" where
  "choose_array sp qs a = (if best qs a = None \<and> sp a = 0 then 1 - a else a)"

definition next_task :: "(nat \<Rightarrow> nat) \<Rightarrow> queues \<Rightarrow> nat \<Rightarrow> nat option \<Rightarrow> nat option" where
  "next_task sp qs a idle = (case best qs (choose_array sp qs a) of Some j \<Rightarrow> Some (hd (qs (choose_array sp qs a) j)) | None \<Rightarrow> idle)"

lemma best_None: "best qs a = None \<longleftrightarrow> qarr qs a = {}"
  unfolding best_def find_None_iff qarr_def by auto

lemma best_Some: "best qs a = Some j \<longleftrightarrow> j < MAX_PRIO \<and> qs a j \<noteq> [] \<and> (\<forall>i < j. qs a i = [])"
  unfolding best_def find_Some_iff by (auto simp: less_trans)

definition swapped :: "kern \<Rightarrow> kern" where
  "swapped = upd_rq (\<lambda>r. r\<lparr>rq_active := rq_expired r, rq_expired := rq_active r\<rparr>)"

lemma swapped_rep:
  assumes "sched_rep k R qs"
  shows "sched_rep (swapped k) R qs" "counted sp (swapped k) qs = counted sp k qs"
  using assms unfolding sched_rep_def counted_def swapped_def by auto

lemma first_task_ok:
  assumes r: "sched_rep k R qs" and a: "a < 2" "j < MAX_PRIO" and q: "qs a j = t # ts"
  shows "first_task (Queue a j) k = Some t" "\<not> list_empty (Queue a j) (lists_of k)"
  using list_first_ok [OF sched_repD(1) [OF r], of "Queue a j" "RunList t"]
    list_empty_ok [OF sched_repD(1) [OF r] sched_repD(2) [OF r a]] sched_repD(2) [OF r a] q
  by (simp_all add: first_task_def)

lemma find_first_bit_find: "find_first_bit bm sz = (case find (\<lambda>j. test_bit j bm) [0..<sz] of Some j \<Rightarrow> j | None \<Rightarrow> sz)"
proof -
  let ?f = "find_first_bit bm sz"
  have ok: "?f \<le> sz" "?f < sz \<Longrightarrow> test_bit ?f bm" "\<forall>j < ?f. \<not> test_bit j bm" using find_first_bit_ok by auto
  show ?thesis
  proof (cases "?f < sz")
    case True
    have "find (\<lambda>j. test_bit j bm) [0..<sz] = Some ?f"
      unfolding find_Some_iff using ok True by (intro exI [of _ ?f]) auto
    then show ?thesis by simp
  next
    case False
    then have "find (\<lambda>j. test_bit j bm) [0..<sz] = None" using ok by (auto simp: find_None_iff)
    then show ?thesis using False ok(1) by simp
  qed
qed

lemma find_first_best:
  assumes r: "sched_rep k R qs" and x: "counted sp k qs" and a: "a < 2"
  shows "find_first_bit (pa_bitmap (rq_arrays (runqueue k) a)) MAX_PRIO = (case best qs a of Some j \<Rightarrow> j | None \<Rightarrow> MAX_PRIO)"
proof -
  have "test_bit j (pa_bitmap (rq_arrays (runqueue k) a)) \<longleftrightarrow> qs a j \<noteq> []" if "j < MAX_PRIO" for j
    using sched_repD(9) [OF r a that] x a that unfolding counted_def by blast
  then have "find (\<lambda>j. test_bit j (pa_bitmap (rq_arrays (runqueue k) a))) [0..<MAX_PRIO] = best qs a"
    unfolding best_def by (intro find_cong) auto
  then show ?thesis by (simp add: find_first_bit_find)
qed


lemma nr_active_zero:
  assumes r: "sched_rep k R qs" and x: "counted sp k qs" and a: "a < 2"
  shows "pa_nr_active (rq_arrays (runqueue k) a) = 0 \<longleftrightarrow> best qs a = None \<and> sp a = 0"
proof (cases "card (qarr qs a) + sp a = 0")
  case True
  then show ?thesis using countedD(2) [OF x a] card_qarr(1) [OF r a] by (simp add: best_None)
next
  case False
  then have "(0 :: u32) < of_nat (card (qarr qs a) + sp a)"
    using card_qarr(2) [OF r a] countedD(1) [OF x a] by (intro small_word) auto
  then show ?thesis using False countedD(2) [OF x a] by (auto simp: best_None)
qed

text \<open>What follows the swap of the arrays in \<^verbatim>\<open>pick_next_task\<close>.\<close>

definition pick_active :: "kern \<Rightarrow> (nat option \<times> kern) option" where
  "pick_active k1 =
     (let a = rq_active (runqueue k1);
          arr = rq_arrays (runqueue k1) a
      in if pa_nr_active arr = 0 then Some (rq_idle (runqueue k1), k1)
         else
           (let idx = find_first_bit (pa_bitmap arr) MAX_PRIO
            in if idx \<ge> MAX_PRIO then Some (rq_idle (runqueue k1), k1)
               else if list_empty (Queue a idx) (lists_of k1) then Some (rq_idle (runqueue k1), k1)
               else map_option (\<lambda>t. (Some t, k1)) (first_task (Queue a idx) k1)))"

lemma pick_split:
  "pick_next_task k = pick_active (if pa_nr_active (rq_arrays (runqueue k) (rq_active (runqueue k))) = 0 then swapped k else k)"
  by (simp add: pick_next_task_def pick_active_def swapped_def Let_def)

lemma pick_active_safe:
  assumes r: "sched_rep k R qs"
  shows "\<exists>p. pick_active k = Some (p, k) \<and> (p = rq_idle (runqueue k) \<or> (\<exists>t \<in> qall qs. p = Some t))"
proof -
  let ?a = "rq_active (runqueue k)" let ?i = "find_first_bit (pa_bitmap (rq_arrays (runqueue k) ?a)) MAX_PRIO"
  note d = sched_repD [OF r]
  have "first_task (Queue ?a ?i) k \<in> Some ` qall qs" if i: "?i < MAX_PRIO" and n: "\<not> list_empty (Queue ?a ?i) (lists_of k)"
  proof -
    obtain t ts where q: "qs ?a ?i = t # ts"
      using list_empty_ok [OF d(1) d(2) [OF d(7) i]] n by (cases "qs ?a ?i") auto
    have "t \<in> qall qs" using d(7) i q by (fastforce simp: qall_mem)
    with first_task_ok(1) [OF r d(7) i q] show ?thesis by simp
  qed
  then show ?thesis unfolding pick_active_def Let_def by fastforce
qed

lemma pick_next_task_safe:
  assumes r: "sched_rep k R qs"
  shows "\<exists>p k1. pick_next_task k = Some (p, k1) \<and> (k1 = k \<or> k1 = swapped k) \<and> sched_rep k1 R qs
    \<and> (p = rq_idle (runqueue k) \<or> (\<exists>t \<in> qall qs. p = Some t))"
proof -
  let ?k = "if pa_nr_active (rq_arrays (runqueue k) (rq_active (runqueue k))) = 0 then swapped k else k"
  have "rq_idle (runqueue ?k) = rq_idle (runqueue k)" by (simp add: swapped_def)
  moreover have "sched_rep ?k R qs" using r swapped_rep(1) [OF r] by simp
  ultimately show ?thesis using pick_active_safe [of ?k R qs] unfolding pick_split by auto
qed

lemma pick_next_task_ok:
  assumes r: "sched_rep k R qs" and x: "counted sp k qs"
  shows "pick_next_task k = Some (next_task sp qs (rq_active (runqueue k)) (rq_idle (runqueue k)),
    if choose_array sp qs (rq_active (runqueue k)) = rq_active (runqueue k) then k else swapped k)"
proof -
  have act: "pick_active k' = Some (case best qs a of Some j \<Rightarrow> Some (hd (qs a j)) | None \<Rightarrow> rq_idle (runqueue k'), k')"
    if k': "sched_rep k' R qs" "counted sp k' qs" "a = rq_active (runqueue k')" for k' a
  proof (cases "best qs a")
    case None
    then show ?thesis using find_first_best [OF k'(1,2)] sched_repD(7) [OF k'(1)] k'(3) by (simp add: pick_active_def Let_def)
  next
    case (Some j)
    have a: "a < 2" using sched_repD(7) [OF k'(1)] k'(3) by simp
    from Some have j: "j < MAX_PRIO" "qs a j \<noteq> []" by (auto simp: best_Some)
    then obtain t ts where q: "qs a j = t # ts" by (cases "qs a j") auto
    show ?thesis using nr_active_zero [OF k'(1,2) a] find_first_best [OF k'(1,2) a] Some j(1) q
        first_task_ok [OF k'(1) a j(1) q] k'(3) by (simp add: pick_active_def Let_def)
  qed
  note d = sched_repD [OF r]
  have e: "rq_active (runqueue (swapped k)) = 1 - rq_active (runqueue k)" "rq_idle (runqueue (swapped k)) = rq_idle (runqueue k)"
    using d(8) by (simp_all add: swapped_def)
  have "1 - rq_active (runqueue k) \<noteq> rq_active (runqueue k)" by presburger
  then show ?thesis
    using act [OF r x refl] act [of "swapped k", OF swapped_rep(1) [OF r] _ refl] swapped_rep(2) [OF r] x
      nr_active_zero [OF r x d(7)]
    unfolding pick_split next_task_def choose_array_def e by (cases "best qs (rq_active (runqueue k)) = None \<and> sp (rq_active (runqueue k)) = 0") auto
qed

subsection \<open>Operations keep the invariant\<close>

definition unqueue :: "nat \<Rightarrow> queues \<Rightarrow> queues" where
  "unqueue t qs = (\<lambda>a j. removeAll t (qs a j))"

definition queue_in :: "nat \<Rightarrow> nat \<Rightarrow> nat \<Rightarrow> queues \<Rightarrow> queues" where
  "queue_in a j t qs = set_queue a j (qs a j @ [t]) qs"

lemma qarr_cong: "(\<And>j. j < MAX_PRIO \<Longrightarrow> qs' a j = qs a j) \<Longrightarrow> qarr qs' a = qarr qs a"
  unfolding qarr_def by auto

lemma sched_rep_cong:
  assumes "\<And>a j. a < 2 \<Longrightarrow> j < MAX_PRIO \<Longrightarrow> qs' a j = qs a j"
  shows "sched_rep k R qs' = sched_rep k R qs" "counted sp k qs' = counted sp k qs"
proof -
  have a: "qarr qs' a = qarr qs a" if "a < 2" for a by (rule qarr_cong) (use assms that in auto)
  then have q: "qall qs' = qall qs" unfolding qall_def by simp
  show "sched_rep k R qs' = sched_rep k R qs" unfolding sched_rep_def q using assms by simp
  show "counted sp k qs' = counted sp k qs" unfolding counted_def using assms a by simp
qed

text \<open>What the run queue depends on in the state, and what its operations leave alone.\<close>

definition same_queues :: "kern \<Rightarrow> kern \<Rightarrow> bool" where
  "same_queues k k' \<longleftrightarrow> lists_of k' = lists_of k \<and> rq_active (runqueue k') = rq_active (runqueue k)
     \<and> rq_expired (runqueue k') = rq_expired (runqueue k) \<and> rq_arrays (runqueue k') = rq_arrays (runqueue k)
     \<and> rq_nr_running (runqueue k') = rq_nr_running (runqueue k)
     \<and> (\<forall>t. t_on_rq (tasks k' t) = t_on_rq (tasks k t) \<and> t_prio (tasks k' t) = t_prio (tasks k t))"

lemma same_queues_rep:
  assumes "same_queues k k'"
  shows "sched_rep k' R qs = sched_rep k R qs" "counted sp k' qs = counted sp k qs"
  using assms unfolding same_queues_def sched_rep_def counted_def by simp_all

definition same_rest :: "kern \<Rightarrow> kern \<Rightarrow> bool" where
  "same_rest k k' \<longleftrightarrow> task_table k' = task_table k \<and> current_task_ptr k' = current_task_ptr k
     \<and> rq_curr (runqueue k') = rq_curr (runqueue k) \<and> rq_idle (runqueue k') = rq_idle (runqueue k)
     \<and> rq_lock (runqueue k') = rq_lock (runqueue k)
     \<and> (\<forall>t. (tasks k' t)\<lparr>t_on_rq := False\<rparr> = (tasks k t)\<lparr>t_on_rq := False\<rparr>)"

lemma same_rest_refl [simp]: "same_rest k k" by (simp add: same_rest_def)

lemma same_rest_trans: "same_rest k k' \<Longrightarrow> same_rest k' k'' \<Longrightarrow> same_rest k k''" by (simp add: same_rest_def)

lemma on_rq_fields:
  assumes "(x :: task_struct)\<lparr>t_on_rq := b\<rparr> = y\<lparr>t_on_rq := b\<rparr>"
  shows "t_state x = t_state y" "t_prio x = t_prio y" "t_time_slice x = t_time_slice y" "t_chan x = t_chan y" "t_stack x = t_stack y"
  using assms by (cases x, cases y, simp)+

lemma same_restD:
  assumes "same_rest k k'"
  shows "task_table k' = task_table k" "get_current k' = get_current k" "rq_curr (runqueue k') = rq_curr (runqueue k)"
    "rq_idle (runqueue k') = rq_idle (runqueue k)" "rq_lock (runqueue k') = rq_lock (runqueue k)"
    "t_state (tasks k' t) = t_state (tasks k t)" "t_prio (tasks k' t) = t_prio (tasks k t)"
    "t_time_slice (tasks k' t) = t_time_slice (tasks k t)" "t_chan (tasks k' t) = t_chan (tasks k t)"
    "t_stack (tasks k' t) = t_stack (tasks k t)"
  using assms on_rq_fields [where x = "tasks k' t" and b = False and y = "tasks k t"] unfolding same_rest_def get_current_def by simp_all

text \<open>The lists that are no run queues.\<close>

definition same_lists :: "(lnode \<Rightarrow> lnode list option) \<Rightarrow> (lnode \<Rightarrow> lnode list option) \<Rightarrow> bool" where
  "same_lists R R' \<longleftrightarrow> (\<forall>h. (\<forall>a < 2. \<forall>j < MAX_PRIO. h \<noteq> Queue a j) \<longrightarrow> R' h = R h)"

lemma same_lists_refl [simp]: "same_lists R R" by (simp add: same_lists_def)
lemma same_lists_trans: "same_lists R R' \<Longrightarrow> same_lists R' R'' \<Longrightarrow> same_lists R R''" by (simp add: same_lists_def)
lemma same_lists_upd: "a < 2 \<Longrightarrow> j < MAX_PRIO \<Longrightarrow> same_lists R (R(Queue a j := v))" by (auto simp: same_lists_def)

lemma add_to_array_keeps:
  assumes r: "sched_rep k R qs" and t: "t \<notin> qall qs" "t \<le> 64" and a: "a < 2"
    and j: "j = queue_index (t_prio (tasks k t))"
  shows "\<exists>k' R'. add_to_array a t k = Some k' \<and> sched_rep k' R' (queue_in a j t qs) \<and> same_rest k k' \<and> same_lists R R'
    \<and> (counted sp k qs \<longrightarrow> counted sp k' (queue_in a j t qs)) \<and> rq_active (runqueue k') = rq_active (runqueue k)
    \<and> rq_expired (runqueue k') = rq_expired (runqueue k)"
proof -
  from add_to_array_ok [OF r t a j queue_in_def] obtain l where
    l: "add_to_array a t k = Some (added a t k l)" "sched_rep (added a t k l) (R(Queue a j \<mapsto> map RunList (queue_in a j t qs a j))) (queue_in a j t qs)" by blast
  have "same_rest k (added a t k l)" unfolding same_rest_def added_simps by (simp add: added_def Let_def upd_task_def upd_rq_def upd_array_def)
  then show ?thesis
    using l added_counted [OF r _ t(1) a j queue_in_def] same_lists_upd [OF a, of j R] added_simps(3,4) j by (metis queue_index_bound)
qed

lemma unqueue_del:
  assumes r: "sched_rep k R qs" and b: "b < 2" "j < MAX_PRIO" and q: "qs b j = ys @ t # zs"
    and c: "c < 2" "i < MAX_PRIO"
  shows "unqueue t qs c i = set_queue b j (ys @ zs) qs c i"
proof (cases "c = b \<and> i = j")
  case True
  then show ?thesis using queue_distinct [OF r b] q by (simp add: unqueue_def removeAll_filter_not_eq filter_id_conv)
      (metis (mono_tags, lifting) filter_True)
next
  case False
  have "t \<in> set (qs b j)" using q by simp
  then have "t \<notin> set (qs c i)" using queued_once [OF r _ _ b(1) c(1) b(2) c(2)] False by blast
  then show ?thesis using False by (auto simp: unqueue_def)
qed

lemma unqueue_absent: "t \<notin> qall qs \<Longrightarrow> c < 2 \<Longrightarrow> i < MAX_PRIO \<Longrightarrow> unqueue t qs c i = qs c i"
  unfolding qall_mem unqueue_def by (simp add: removeAll_id)

lemma qall_unqueue [simp]: "qall (unqueue t qs) = qall qs - {t}" "qarr (unqueue t qs) a = qarr qs a - {t}"
  unfolding qall_def qarr_def unqueue_def by auto

lemma one_array:
  assumes r: "sched_rep k R qs" and t: "t \<in> qarr qs (rq_active (runqueue k))"
  shows "t \<notin> qarr qs (rq_expired (runqueue k))"
proof
  note d = sched_repD(7,8) [OF r]
  assume "t \<in> qarr qs (rq_expired (runqueue k))"
  then obtain i j where "t \<in> set (qs (rq_active (runqueue k)) i)" "t \<in> set (qs (rq_expired (runqueue k)) j)" "i < MAX_PRIO" "j < MAX_PRIO"
    using t by (auto simp: qarr_mem)
  then have "rq_active (runqueue k) = rq_expired (runqueue k)" using queued_once(1) [OF r] d by simp
  then show False using d(2) by presburger
qed

text \<open>How the surplus changes when a task is dequeued, in the cases in which the bitmaps stay exact.\<close>

definition deq_surplus :: "(nat \<Rightarrow> nat) \<Rightarrow> kern \<Rightarrow> queues \<Rightarrow> nat \<Rightarrow> (nat \<Rightarrow> nat) \<Rightarrow> bool" where
  "deq_surplus sp k qs t sp' \<longleftrightarrow>
     (let a = rq_active (runqueue k); e = rq_expired (runqueue k)
      in if t \<notin> qarr qs e then sp' = sp
         else qarr qs a = {} \<and> sp a = 0 \<and> sp e < 64 \<and> qs e (queue_index (t_prio (tasks k t))) \<noteq> [t] \<and> sp' = sp(e := sp e + 1))"

lemma dequeue_keeps:
  assumes r: "sched_rep k R qs"
  shows "\<exists>k' R'. dequeue_task t k = Some k' \<and> sched_rep k' R' (unqueue t qs) \<and> same_rest k k' \<and> same_lists R R'
    \<and> (counted sp k qs \<and> deq_surplus sp k qs t sp' \<longrightarrow> counted sp' k' (unqueue t qs))
    \<and> rq_active (runqueue k') = rq_active (runqueue k) \<and> rq_expired (runqueue k') = rq_expired (runqueue k)"
proof (cases "t \<in> qall qs")
  case False
  have "\<not> t_on_rq (tasks k t)" using sched_repD(4) [OF r] False by blast
  moreover have "sched_rep k R (unqueue t qs) = sched_rep k R qs" "counted sp k (unqueue t qs) = counted sp k qs"
    by (rule sched_rep_cong; rule unqueue_absent [OF False]; assumption)+
  moreover have "rq_expired (runqueue k) < 2" using sched_repD(8) [OF r] by simp
  then have "t \<notin> qarr qs (rq_expired (runqueue k))" using False qarr_sub by blast
  ultimately show ?thesis using r by (intro exI [of _ k] exI [of _ R]) (auto simp: dequeue_task_def deq_surplus_def)
next
  case True
  then obtain b j ys zs where b: "b < 2" "j < MAX_PRIO" and q: "qs b j = ys @ t # zs"
    unfolding qall_mem by (metis split_list)
  let ?q = "set_queue b j (ys @ zs) qs"
  from dequeue_ok [OF r b q refl] obtain l e where
    l: "dequeue_task t k = Some (removed t k l e)" "sched_rep (removed t k l e) (R(Queue b j \<mapsto> map RunList (ys @ zs))) ?q"
      "e \<longleftrightarrow> ?q (rq_active (runqueue k)) j = []" by blast
  have c: "sched_rep x y (unqueue t qs) = sched_rep x y ?q" "counted sq x (unqueue t qs) = counted sq x ?q" for x y sq
    by (rule sched_rep_cong; rule unqueue_del [OF r b q]; assumption)+
  have "same_rest k (removed t k l e)" unfolding same_rest_def removed_simps by (simp add: removed_def Let_def upd_task_def upd_rq_def upd_array_def)
  moreover have "counted sp' (removed t k l e) ?q" if "counted sp k qs" "deq_surplus sp k qs t sp'"
  proof (cases "b = rq_expired (runqueue k)")
    case True
    have j: "queue_index (t_prio (tasks k t)) = j" using sched_repD(6) [OF r b] q by simp
    have "t \<in> qarr qs b" using b(2) q by (auto simp: qarr_mem)
    then have h: "qarr qs (rq_active (runqueue k)) = {}" "sp (rq_active (runqueue k)) = 0" "sp b < 64" "ys @ zs \<noteq> []" "sp' = sp(b := sp b + 1)"
      using that(2) True j q unfolding deq_surplus_def Let_def by auto
    show ?thesis unfolding h(5) by (rule removed_expired_counted [OF r that(1) True b(2) q h(4) refl h(1-3)])
  next
    case False
    then have ba: "b = rq_active (runqueue k)" using b(1) sched_repD(7,8) [OF r] by auto
    have "t \<in> qarr qs b" using b(2) q by (auto simp: qarr_mem)
    then have "sp' = sp" using that(2) one_array [OF r] ba unfolding deq_surplus_def by auto
    then show ?thesis using removed_counted [OF r that(1) ba b(2) q refl] l(3) ba by simp
  qed
  ultimately show ?thesis using l(1,2) same_lists_upd [OF b]
    by (intro exI [of _ "removed t k l e"] exI [of _ "R(Queue b j \<mapsto> map RunList (ys @ zs))"]) (simp add: c removed_simps(3,4))
qed

text \<open>The invariant between two calls into the scheduler.\<close>

definition sched_inv :: "kern \<Rightarrow> (lnode \<Rightarrow> lnode list option) \<Rightarrow> queues \<Rightarrow> bool" where
  "sched_inv k R qs \<longleftrightarrow> sched_rep k R qs \<and> \<not> rq_lock (runqueue k) \<and> rq_idle (runqueue k) = Some 0
     \<and> rq_curr (runqueue k) = Some (get_current k) \<and> get_current k \<le> 64
     \<and> (\<forall>i t. task_table k i = Some t \<longrightarrow> t \<le> 64)"

lemma sched_invD:
  assumes "sched_inv k R qs"
  shows "sched_rep k R qs" "\<not> rq_lock (runqueue k)" "rq_idle (runqueue k) = Some 0"
    "rq_curr (runqueue k) = Some (get_current k)" "get_current k \<le> 64" "\<And>i t. task_table k i = Some t \<Longrightarrow> t \<le> 64"
  using assms unfolding sched_inv_def by blast+

lemma get_current_upd [simp]:
  "get_current (upd_task t f k) = get_current k" "get_current (upd_rq g k) = get_current k" "get_current (upd_ti s i k) = get_current k"
  "get_current (upd_mm m e k) = get_current k"
  by (simp_all add: get_current_def upd_task_def upd_rq_def upd_ti_def upd_mm_def)

lemma same_queues_trans: "same_queues k k' \<Longrightarrow> same_queues k' k'' \<Longrightarrow> same_queues k k''" by (simp add: same_queues_def)

lemma same_queues_refl [simp]: "same_queues k k" by (simp add: same_queues_def)

lemma same_queues_upd:
  "(\<And>x. t_on_rq (f x) = t_on_rq x \<and> t_prio (f x) = t_prio x) \<Longrightarrow> same_queues k (upd_task t f k)"
  "(\<And>r. rq_active (g r) = rq_active r \<and> rq_expired (g r) = rq_expired r \<and> rq_arrays (g r) = rq_arrays r
      \<and> rq_nr_running (g r) = rq_nr_running r) \<Longrightarrow> same_queues k (upd_rq g k)"
  "same_queues k (upd_ti s i k)" "same_queues k (upd_mm m e k)"
  "same_queues k (set_current p k)" "same_queues k (k\<lparr>satp := w, fence_count := n\<rparr>)" "same_queues k (k\<lparr>cpu := c\<rparr>)"
  by (simp_all add: same_queues_def set_current_def)

lemma same_queues_lock: "same_queues k (rq_spin_unlock k)" "rq_spin_lock k = Some k' \<Longrightarrow> same_queues k k'"
  by (auto simp: rq_spin_unlock_def rq_spin_lock_def same_queues_def split: if_splits)

lemma same_queues_resched: "same_queues k (set_tsk_need_resched p k)" "same_queues k (clear_tsk_need_resched p k)"
  by (auto simp: set_tsk_need_resched_def clear_tsk_need_resched_def same_queues_upd split: option.splits)

lemma context_switch_keeps:
  "same_queues k (context_switch p n k)" "runqueue (context_switch p n k) = runqueue k"
  "task_table (context_switch p n k) = task_table k" "current_task_ptr (context_switch p n k) = current_task_ptr k"
  "t_state (tasks (context_switch p n k) t) = t_state (tasks k t)"
  "t_time_slice (tasks (context_switch p n k) t) = t_time_slice (tasks k t)"
  by (simp_all add: context_switch_def switch_mm_def swtch_def Let_def same_queues_def upd_task_def upd_mm_def)

lemma resched_rest [simp]:
  "runqueue (set_tsk_need_resched p k) = runqueue k" "runqueue (clear_tsk_need_resched p k) = runqueue k"
  "tasks (set_tsk_need_resched p k) = tasks k" "tasks (clear_tsk_need_resched p k) = tasks k"
  "task_table (set_tsk_need_resched p k) = task_table k" "task_table (clear_tsk_need_resched p k) = task_table k"
  "get_current (set_tsk_need_resched p k) = get_current k" "get_current (clear_tsk_need_resched p k) = get_current k"
  by (simp_all add: set_tsk_need_resched_def clear_tsk_need_resched_def split: option.splits)

text \<open>The tasks a call of \<^verbatim>\<open>schedule\<close> leaves queued.\<close>

definition after_block :: "kern \<Rightarrow> queues \<Rightarrow> queues" where
  "after_block k qs = (if t_state (tasks k (get_current k)) \<noteq> TASK_RUNNING then unqueue (get_current k) qs else qs)"

definition block_surplus :: "(nat \<Rightarrow> nat) \<Rightarrow> kern \<Rightarrow> queues \<Rightarrow> (nat \<Rightarrow> nat) \<Rightarrow> bool" where
  "block_surplus sp k qs sp' \<longleftrightarrow>
     (if t_state (tasks k (get_current k)) \<noteq> TASK_RUNNING then deq_surplus sp k qs (get_current k) sp' else sp' = sp)"

lemma block_current:
  assumes r: "sched_rep k R qs" and c: "c = get_current k"
  shows "\<exists>k' R'. (if t_state (tasks k c) \<noteq> TASK_RUNNING \<and> t_on_rq (tasks k c) then dequeue_task c k else Some k) = Some k'
    \<and> sched_rep k' R' (after_block k qs) \<and> same_rest k k' \<and> same_lists R R'
    \<and> (counted sp k qs \<and> block_surplus sp k qs sp' \<longrightarrow> counted sp' k' (after_block k qs))
    \<and> rq_active (runqueue k') = rq_active (runqueue k)"
proof (cases "t_state (tasks k c) \<noteq> TASK_RUNNING")
  case True
  have "\<not> t_on_rq (tasks k c) \<Longrightarrow> dequeue_task c k = Some k" by (simp add: dequeue_task_def)
  then have "(if t_state (tasks k c) \<noteq> TASK_RUNNING \<and> t_on_rq (tasks k c) then dequeue_task c k else Some k) = dequeue_task c k"
    using True by simp
  then show ?thesis using dequeue_keeps [OF r, where t = c and sp = sp and sp' = sp'] True unfolding after_block_def block_surplus_def c by auto
next
  case False
  then show ?thesis using r unfolding after_block_def block_surplus_def c by auto
qed

text \<open>The end of \<^verbatim>\<open>schedule\<close>, after the next task is chosen.\<close>

definition switch_to :: "nat \<Rightarrow> nat \<Rightarrow> kern \<Rightarrow> kern" where
  "switch_to p n k3 =
     (let k4 = clear_tsk_need_resched (Some p) k3
      in if p = n then rq_spin_unlock k4
         else context_switch p n (rq_spin_unlock (set_current (Some n)
               (upd_rq (\<lambda>r. r\<lparr>rq_nr_switches := rq_nr_switches r + 1, rq_curr := Some n\<rparr>) k4))))"

lemma schedule_run:
  assumes "\<not> rq_lock (runqueue k)" "k1 = upd_rq (\<lambda>r. r\<lparr>rq_lock := True\<rparr>) k" "rq_curr (runqueue k) = Some p"
    "(if t_state (tasks k1 p) \<noteq> TASK_RUNNING \<and> t_on_rq (tasks k1 p) then dequeue_task p k1 else Some k1) = Some k2"
    "pick_next_task k2 = Some (Some n, k3)"
  shows "schedule k = Some (switch_to p n k3)"
proof -
  have l: "rq_spin_lock k = Some k1" and c: "rq_curr (runqueue k1) = Some p"
    using assms(1-3) by (simp_all add: rq_spin_lock_def)
  show ?thesis by (simp add: schedule_def l c assms(4) assms(5) switch_to_def Let_def)
qed

lemma switch_to_keeps:
  assumes "rq_curr (runqueue k) = Some p" "get_current k = p"
  shows "same_queues k (switch_to p n k)" "rq_curr (runqueue (switch_to p n k)) = Some n" "get_current (switch_to p n k) = n"
    "\<not> rq_lock (runqueue (switch_to p n k))" "rq_idle (runqueue (switch_to p n k)) = rq_idle (runqueue k)"
    "task_table (switch_to p n k) = task_table k" "t_state (tasks (switch_to p n k) t) = t_state (tasks k t)"
    "t_time_slice (tasks (switch_to p n k) t) = t_time_slice (tasks k t)"
proof -
  let ?k = "rq_spin_unlock (set_current (Some n)
               (upd_rq (\<lambda>r. r\<lparr>rq_nr_switches := rq_nr_switches r + 1, rq_curr := Some n\<rparr>) (clear_tsk_need_resched (Some p) k)))"
  have "same_queues k ?k"
    by (intro same_queues_trans [OF _ same_queues_lock(1)] same_queues_trans [OF _ same_queues_upd(5)]
        same_queues_trans [OF _ same_queues_upd(2)] same_queues_resched) simp
  then show "same_queues k (switch_to p n k)"
    using same_queues_trans [OF _ context_switch_keeps(1)] same_queues_trans [OF same_queues_resched(2) same_queues_lock(1)]
    unfolding switch_to_def Let_def by (simp split: if_split)
  show "rq_curr (runqueue (switch_to p n k)) = Some n" "get_current (switch_to p n k) = n"
    "\<not> rq_lock (runqueue (switch_to p n k))" "rq_idle (runqueue (switch_to p n k)) = rq_idle (runqueue k)"
    "task_table (switch_to p n k) = task_table k" "t_state (tasks (switch_to p n k) t) = t_state (tasks k t)"
    "t_time_slice (tasks (switch_to p n k) t) = t_time_slice (tasks k t)"
    using assms by (simp_all add: switch_to_def Let_def context_switch_keeps rq_spin_unlock_def set_current_def get_current_def
        split: option.splits)
      (auto simp: clear_tsk_need_resched_def upd_ti_def upd_rq_def)
qed

lemma locked:
  "sched_rep (upd_rq (\<lambda>r. r\<lparr>rq_lock := b\<rparr>) k) R qs = sched_rep k R qs" "counted sp (upd_rq (\<lambda>r. r\<lparr>rq_lock := b\<rparr>) k) qs = counted sp k qs"
  by (rule same_queues_rep, rule same_queues_upd(2), simp)+

lemma swapped_simps [simp]:
  "rq_curr (runqueue (swapped k)) = rq_curr (runqueue k)" "rq_idle (runqueue (swapped k)) = rq_idle (runqueue k)"
  "rq_lock (runqueue (swapped k)) = rq_lock (runqueue k)" "tasks (swapped k) = tasks k" "task_table (swapped k) = task_table k"
  "get_current (swapped k) = get_current k"
  by (simp_all add: swapped_def)

lemma schedule_ok:
  assumes i: "sched_inv k R qs" and c: "c = get_current k" and b: "qs' = after_block k qs"
  shows "\<exists>k' R'. schedule k = Some k' \<and> sched_inv k' R' qs' \<and> same_lists R R'
    \<and> (\<forall>t. t_state (tasks k' t) = t_state (tasks k t) \<and> t_time_slice (tasks k' t) = t_time_slice (tasks k t)
          \<and> t_prio (tasks k' t) = t_prio (tasks k t))
    \<and> (counted sp k qs \<and> block_surplus sp k qs sp' \<longrightarrow>
        counted sp' k' qs' \<and> rq_curr (runqueue k') = next_task sp' qs' (rq_active (runqueue k)) (Some 0)
        \<and> rq_active (runqueue k') = choose_array sp' qs' (rq_active (runqueue k)))"
proof -
  note d = sched_invD [OF i]
  let ?k1 = "upd_rq (\<lambda>r. r\<lparr>rq_lock := True\<rparr>) k" and ?a = "rq_active (runqueue k)"
  let ?x = "counted sp k qs \<and> block_surplus sp k qs sp'"
  have r1: "sched_rep ?k1 R qs" using d(1) by (simp only: locked)
  have ab: "after_block ?k1 qs = qs'" "block_surplus sp ?k1 qs sp' = block_surplus sp k qs sp'"
    by (simp_all add: after_block_def b block_surplus_def deq_surplus_def)
  from block_current [OF r1, where c = c and sp = sp and sp' = sp'] obtain k2 R' where
    k2: "(if t_state (tasks ?k1 c) \<noteq> TASK_RUNNING \<and> t_on_rq (tasks ?k1 c) then dequeue_task c ?k1 else Some ?k1) = Some k2"
      "sched_rep k2 R' qs'" "same_rest ?k1 k2" "same_lists R R'" "?x \<longrightarrow> counted sp' k2 qs'" "rq_active (runqueue k2) = ?a"
    by (auto simp: locked ab c)
  note s = same_restD [OF k2(3), simplified]
  from pick_next_task_safe [OF k2(2)] obtain p k3 where
    k3: "pick_next_task k2 = Some (p, k3)" "k3 = k2 \<or> k3 = swapped k2" "sched_rep k3 R' qs'"
      "p = Some 0 \<or> (\<exists>t \<in> qall qs'. p = Some t)" using s(4) d(3) by auto
  obtain n where n: "p = Some n" "n \<le> 64" using k3(4) sched_repD(5) [OF k3(3)] by auto
  have s3: "rq_curr (runqueue k3) = Some c" "get_current k3 = c" "task_table k3 = task_table k" "rq_idle (runqueue k3) = Some 0"
    "t_state (tasks k3 t) = t_state (tasks k t)" "t_time_slice (tasks k3 t) = t_time_slice (tasks k t)" "t_prio (tasks k3 t) = t_prio (tasks k t)" for t
    using k3(2) s d c by auto
  have run: "schedule k = Some (switch_to c n k3)"
    using schedule_run [OF d(2) refl, of c k2 n k3] d(4) k2(1) k3(1) n(1) c by simp
  note w = switch_to_keeps [OF s3(1,2), of n]
  have inv: "sched_inv (switch_to c n k3) R' qs'"
    unfolding sched_inv_def w s3 same_queues_rep [OF w(1)] using k3(3) n(2) d(6) w(4) by simp
  have ex: "counted sp' (switch_to c n k3) qs' \<and> rq_curr (runqueue (switch_to c n k3)) = next_task sp' qs' ?a (Some 0)
        \<and> rq_active (runqueue (switch_to c n k3)) = choose_array sp' qs' ?a" if x: ?x
  proof -
    have e2: "counted sp' k2 qs'" using k2(5) x by blast
    note p = pick_next_task_ok [OF k2(2) e2]
    have "counted sp' k3 qs'" using e2 k3(2) swapped_rep(2) [OF k2(2)] by auto
    moreover have "Some n = next_task sp' qs' ?a (Some 0)" "k3 = (if choose_array sp' qs' ?a = ?a then k2 else swapped k2)"
      using p k3(1) n(1) k2(6) s(4) d(3) by simp_all
    moreover have "rq_active (runqueue (swapped k2)) = 1 - ?a" using sched_repD(8) [OF k2(2)] k2(6) by (simp add: swapped_def)
    ultimately show ?thesis using w(1) same_queues_rep(2) [OF w(1)] k2(6) w(2)
      unfolding same_queues_def choose_array_def by auto
  qed
  have tk: "t_state (tasks (switch_to c n k3) t) = t_state (tasks k t) \<and> t_time_slice (tasks (switch_to c n k3) t) = t_time_slice (tasks k t)
          \<and> t_prio (tasks (switch_to c n k3) t) = t_prio (tasks k t)" for t
    using w(1) s3(5-7) switch_to_keeps(7,8) [OF s3(1,2)] unfolding same_queues_def by simp
  show ?thesis using run inv k2(4) ex tk by blast
qed

lemma wake_up_process_ok:
  assumes i: "sched_inv k R qs" and t: "t \<le> 64"
  shows "\<exists>n k' R' qs'. wake_up_process (Some t) k = Some (n, k') \<and> sched_inv k' R' qs' \<and> same_lists R R'
    \<and> t_state (tasks k' t) = TASK_RUNNING \<and> (t_state (tasks k t) \<noteq> TASK_RUNNING \<longrightarrow> t \<in> qall qs') \<and> (counted sp k qs \<longrightarrow> counted sp k' qs')"
proof -
  note d = sched_invD [OF i]
  let ?k1 = "upd_rq (\<lambda>r. r\<lparr>rq_lock := True\<rparr>) k"
  have r1: "sched_rep ?k1 R qs" using d(1) by (simp only: locked)
  have l: "rq_spin_lock k = Some ?k1" using d(2) by (simp add: rq_spin_lock_def)
  show ?thesis
  proof (cases "t_state (tasks k t) = TASK_RUNNING")
    case True
    have "sched_inv (rq_spin_unlock ?k1) R qs" "counted sp k qs \<longrightarrow> counted sp (rq_spin_unlock ?k1) qs"
      using d by (simp_all add: sched_inv_def locked rq_spin_unlock_def)
    moreover have "wake_up_process (Some t) k = Some (0, rq_spin_unlock ?k1)" using True l by (simp add: wake_up_process_def)
    moreover have "t_state (tasks (rq_spin_unlock ?k1) t) = TASK_RUNNING" using True by (simp add: rq_spin_unlock_def)
    ultimately show ?thesis using True same_lists_refl by blast
  next
    case False
    let ?k2 = "upd_task t (\<lambda>x. x\<lparr>t_state := TASK_RUNNING\<rparr>) ?k1"
    have sq2: "same_queues ?k1 ?k2" by (rule same_queues_upd(1)) simp
    have r2: "sched_rep ?k2 R qs" using r1 same_queues_rep(1) [OF sq2] by simp
    have x2: "counted sp ?k2 qs = counted sp k qs" using same_queues_rep(2) [OF sq2] by (simp add: locked)
    have "\<exists>k3 R' qs'. (if \<not> t_on_rq (tasks ?k2 t) then enqueue_task t ?k2 else Some ?k2) = Some k3 \<and> sched_rep k3 R' qs'
        \<and> same_rest ?k2 k3 \<and> same_lists R R' \<and> (counted sp k qs \<longrightarrow> counted sp k3 qs') \<and> t \<in> qall qs'"
    proof (cases "t \<in> qall qs")
      case True
      then show ?thesis using sched_repD(4) [OF r2, of t] r2 x2 by (intro exI [of _ ?k2] exI [of _ R] exI [of _ qs]) simp
    next
      case False
      let ?a = "rq_active (runqueue ?k2)" and ?q = "queue_in (rq_active (runqueue ?k2)) (queue_index (t_prio (tasks ?k2 t))) t qs"
      have "t \<in> qall ?q" unfolding queue_in_def by (subst set_queue_add) (use sched_repD(7) [OF r2] in auto)
      then show ?thesis using add_to_array_keeps [OF r2 False t sched_repD(7) [OF r2] refl, where sp = sp] x2 sched_repD(4) [OF r2, of t] False
        unfolding enqueue_task_def by auto
    qed
    then obtain k3 R' qs' where k3: "(if \<not> t_on_rq (tasks ?k2 t) then enqueue_task t ?k2 else Some ?k2) = Some k3"
      "sched_rep k3 R' qs'" "same_rest ?k2 k3" "same_lists R R'" "counted sp k qs \<longrightarrow> counted sp k3 qs'" "t \<in> qall qs'" by blast
    note s = same_restD [OF k3(3)]
    let ?k4 = "case rq_curr (runqueue k3) of None \<Rightarrow> k3
        | Some c \<Rightarrow> if t_prio (tasks k3 t) < t_prio (tasks k3 c) then set_tsk_need_resched (Some c) k3 else k3"
    obtain k4 where k4_def: "?k4 = k4" by blast
    have k4: "same_queues k3 k4" "runqueue k4 = runqueue k3" "tasks k4 = tasks k3" "task_table k4 = task_table k3" "get_current k4 = get_current k3"
      unfolding k4_def [symmetric] by (simp_all add: same_queues_resched split: option.splits)
    have run: "wake_up_process (Some t) k = Some (1, rq_spin_unlock k4)"
      using False k3(1) by (simp add: wake_up_process_def l k4_def)
    have u: "sched_inv (rq_spin_unlock k4) R' qs'"
      using k3(2) s(1-4) d unfolding sched_inv_def rq_spin_unlock_def by (simp add: locked same_queues_rep(1) [OF k4(1)] k4)
    moreover have "counted sp (rq_spin_unlock k4) qs' = counted sp k3 qs'" unfolding rq_spin_unlock_def by (simp add: locked same_queues_rep(2) [OF k4(1)])
    moreover have "t_state (tasks (rq_spin_unlock k4) t) = TASK_RUNNING" using s(6) [of t] by (simp add: rq_spin_unlock_def k4)
    ultimately show ?thesis using run k3(4-6) by blast
  qed
qed

lemma lock_step:
  assumes "sched_inv k R qs" "k1 = upd_rq (\<lambda>r. r\<lparr>rq_lock := True\<rparr>) k"
  shows "rq_spin_lock k = Some k1" "sched_rep k1 R qs" "counted sp k1 qs = counted sp k qs"
  using sched_invD(1,2) [OF assms(1)] unfolding assms(2) by (simp_all add: rq_spin_lock_def locked)

lemma unlock_step:
  assumes "sched_rep k R qs" "rq_idle (runqueue k) = Some 0" "rq_curr (runqueue k) = Some (get_current k)" "get_current k \<le> 64"
    "\<And>i t. task_table k i = Some t \<Longrightarrow> t \<le> 64"
  shows "sched_inv (rq_spin_unlock k) R qs" "counted sp (rq_spin_unlock k) qs = counted sp k qs"
    "tasks (rq_spin_unlock k) = tasks k" "rq_active (runqueue (rq_spin_unlock k)) = rq_active (runqueue k)"
    "rq_expired (runqueue (rq_spin_unlock k)) = rq_expired (runqueue k)"
  using assms unfolding sched_inv_def rq_spin_unlock_def by (simp_all add: locked)

text \<open>A tick that uses up the time slice moves the current task to the expired array.\<close>

definition expires :: "kern \<Rightarrow> bool" where
  "expires k \<longleftrightarrow> get_current k \<noteq> 0 \<and> t_time_slice (tasks k (get_current k)) \<le> 1"

definition after_tick :: "kern \<Rightarrow> queues \<Rightarrow> queues" where
  "after_tick k qs =
     (let c = get_current k
      in if expires k \<and> c \<in> qall qs
         then queue_in (rq_expired (runqueue k)) (queue_index (t_prio (tasks k c))) c (unqueue c qs) else qs)"

definition tick_slice :: "kern \<Rightarrow> u64" where
  "tick_slice k =
     (let t = tasks k (get_current k)
      in if get_current k = 0 then t_time_slice t else if expires k then task_timeslice t else t_time_slice t - 1)"

lemma expire_move:
  assumes r: "sched_rep k R qs" and c: "c \<le> 64"
  shows "\<exists>k' R'. (if t_on_rq (tasks k c)
               then Option.bind (dequeue_task c k) (\<lambda>k'. add_to_array (rq_expired (runqueue k')) c k')
               else Some k) = Some k' \<and> same_rest k k' \<and> same_lists R R'
    \<and> sched_rep k' R' (if c \<in> qall qs then queue_in (rq_expired (runqueue k)) (queue_index (t_prio (tasks k c))) c (unqueue c qs) else qs)
    \<and> (counted sp k qs \<and> c \<notin> qarr qs (rq_expired (runqueue k)) \<longrightarrow>
        counted sp k' (if c \<in> qall qs then queue_in (rq_expired (runqueue k)) (queue_index (t_prio (tasks k c))) c (unqueue c qs) else qs))
    \<and> rq_active (runqueue k') = rq_active (runqueue k) \<and> rq_expired (runqueue k') = rq_expired (runqueue k)"
proof (cases "c \<in> qall qs")
  case False
  then show ?thesis using sched_repD(4) [OF r, of c] r by (intro exI [of _ k] exI [of _ R]) simp
next
  case True
  note d = sched_repD [OF r]
  from dequeue_keeps [OF r, where t = c and sp = sp and sp' = sp] obtain k1 R1 where
    k1: "dequeue_task c k = Some k1" "sched_rep k1 R1 (unqueue c qs)" "same_rest k k1" "same_lists R R1"
      "counted sp k qs \<and> deq_surplus sp k qs c sp \<longrightarrow> counted sp k1 (unqueue c qs)"
      "rq_active (runqueue k1) = rq_active (runqueue k)" "rq_expired (runqueue k1) = rq_expired (runqueue k)" by blast
  have e: "rq_expired (runqueue k1) < 2" using d(7,8) k1(7) by simp
  from add_to_array_keeps [OF k1(2) _ c e refl, where sp = sp] obtain k2 R2 where
    k2: "add_to_array (rq_expired (runqueue k1)) c k1 = Some k2"
      "sched_rep k2 R2 (queue_in (rq_expired (runqueue k1)) (queue_index (t_prio (tasks k1 c))) c (unqueue c qs))"
      "same_rest k1 k2" "same_lists R1 R2"
      "counted sp k1 (unqueue c qs) \<longrightarrow> counted sp k2 (queue_in (rq_expired (runqueue k1)) (queue_index (t_prio (tasks k1 c))) c (unqueue c qs))"
      "rq_active (runqueue k2) = rq_active (runqueue k1)" "rq_expired (runqueue k2) = rq_expired (runqueue k1)" by auto
  have "c \<notin> qarr qs (rq_expired (runqueue k)) \<Longrightarrow> deq_surplus sp k qs c sp" by (simp add: deq_surplus_def)
  moreover have "t_on_rq (tasks k c)" using d(4) True by blast
  ultimately show ?thesis using k1 k2 True same_restD(7) [OF k1(3)] same_rest_trans [OF k1(3) k2(3)] same_lists_trans [OF k1(4) k2(4)]
    by (intro exI [of _ k2] exI [of _ R2]) simp
qed

lemma tick_expire_ok:
  assumes r: "sched_rep k R qs" and c: "c \<le> 64"
    and q: "qs' = (if c \<in> qall qs then queue_in (rq_expired (runqueue k)) (queue_index (t_prio (tasks k c))) c (unqueue c qs) else qs)"
  shows "\<exists>k' R'. tick_expire c k = Some k' \<and> sched_rep k' R' qs' \<and> same_lists R R'
    \<and> (counted sp k qs \<and> c \<notin> qarr qs (rq_expired (runqueue k)) \<longrightarrow> counted sp k' qs')
    \<and> same_rest (upd_task c (\<lambda>t. t\<lparr>t_time_slice := task_timeslice t\<rparr>) k) k'
    \<and> rq_active (runqueue k') = rq_active (runqueue k) \<and> rq_expired (runqueue k') = rq_expired (runqueue k)"
proof -
  obtain k1 where k1_def: "k1 = upd_task c (\<lambda>t. t\<lparr>t_time_slice := task_timeslice t\<rparr>) k" by blast
  have sq: "same_queues k k1" unfolding k1_def by (rule same_queues_upd(1)) simp
  note r1 = same_queues_rep [OF sq]
  have f: "rq_expired (runqueue k1) = rq_expired (runqueue k)" "t_prio (tasks k1 c) = t_prio (tasks k c)" "rq_active (runqueue k1) = rq_active (runqueue k)"
    unfolding k1_def by simp_all
  from expire_move [of k1 R qs c, unfolded r1 f, folded q, OF r c] obtain k2 R' where
    k2: "(if t_on_rq (tasks k1 c) then Option.bind (dequeue_task c k1) (\<lambda>k'. add_to_array (rq_expired (runqueue k')) c k') else Some k1) = Some k2"
      "same_rest k1 k2" "same_lists R R'" "sched_rep k2 R' qs'" "counted sp k qs \<and> c \<notin> qarr qs (rq_expired (runqueue k)) \<longrightarrow> counted sp k2 qs'"
      "rq_active (runqueue k2) = rq_active (runqueue k)" "rq_expired (runqueue k2) = rq_expired (runqueue k)" by blast
  have run: "tick_expire c k = Some (set_tsk_need_resched (Some c) k2)"
    using k2(1) unfolding tick_expire_def Let_def k1_def by simp
  have "current_task_ptr (set_tsk_need_resched (Some c) k2) = current_task_ptr k2"
    by (simp add: set_tsk_need_resched_def upd_ti_def)
  then have "same_rest k1 (set_tsk_need_resched (Some c) k2)" using k2(2) unfolding same_rest_def by simp
  then show ?thesis using run k2(3-7) same_queues_rep [OF same_queues_resched(1) [where p = "Some c" and k = k2]] unfolding k1_def
    by (intro exI [of _ "set_tsk_need_resched (Some c) k2"] exI [of _ R']) simp
qed

text \<open>The accounting of a tick, before the time slice is looked at.\<close>

definition charge :: "nat \<Rightarrow> kern \<Rightarrow> kern" where
  "charge c = upd_task c (\<lambda>t. t\<lparr>t_stime := t_stime t + 1,
     t_time_slice := (if t_time_slice t > 0 then t_time_slice t - 1 else t_time_slice t)\<rparr>)"

definition tick_start :: "kern \<Rightarrow> kern" where
  "tick_start k = upd_rq (\<lambda>r. r\<lparr>rq_clock := rq_clock r + 1\<rparr>) (upd_rq (\<lambda>r. r\<lparr>rq_lock := True\<rparr>) k)"

lemma tick_run:
  assumes i: "sched_inv k R qs" and c: "c = get_current k"
  shows "scheduler_tick k = (if c = 0 then Some (rq_spin_unlock (tick_start k))
    else map_option rq_spin_unlock (let k' = charge c (tick_start k) in if t_time_slice (tasks k' c) = 0 then tick_expire c k' else Some k'))"
proof -
  note d = sched_invD [OF i]
  have "rq_curr (runqueue (tick_start k)) = Some c" "rq_idle (runqueue (tick_start k)) = Some 0"
    using d c by (simp_all add: tick_start_def)
  then show ?thesis
    unfolding scheduler_tick_def lock_step(1) [OF i refl] Let_def bind.bind_lunit tick_start_def [symmetric] charge_def [symmetric]
    by (auto simp: map_conv_bind_option comp_def)
qed

lemma task_timeslice_cong: "t_prio x = t_prio y \<Longrightarrow> task_timeslice x = task_timeslice y"
  by (simp add: task_timeslice_def)

lemma tick_state:
  assumes i: "sched_inv k R qs" and c: "c = get_current k" and k': "k' = tick_start k \<or> k' = charge c (tick_start k)"
  shows "sched_rep k' R qs" "counted sp k' qs = counted sp k qs" "rq_curr (runqueue k') = Some c" "rq_idle (runqueue k') = Some 0"
    "task_table k' = task_table k" "get_current k' = c" "rq_active (runqueue k') = rq_active (runqueue k)"
    "rq_expired (runqueue k') = rq_expired (runqueue k)" "t_state (tasks k' t) = t_state (tasks k t)"
    "t_prio (tasks k' t) = t_prio (tasks k t)" "task_timeslice (tasks k' t) = task_timeslice (tasks k t)"
    "t \<noteq> c \<Longrightarrow> t_time_slice (tasks k' t) = t_time_slice (tasks k t)"
proof -
  note d = sched_invD [OF i]
  have "same_queues k (tick_start k)" unfolding tick_start_def same_queues_def by simp
  moreover have "same_queues (tick_start k) (charge c (tick_start k))" unfolding charge_def by (rule same_queues_upd(1)) simp
  ultimately have "same_queues k k'" using k' same_queues_trans by auto
  from same_queues_rep [OF this] show "sched_rep k' R qs" "counted sp k' qs = counted sp k qs" using d(1) by simp_all
  show "rq_curr (runqueue k') = Some c" "rq_idle (runqueue k') = Some 0"
    "task_table k' = task_table k" "get_current k' = c" "rq_active (runqueue k') = rq_active (runqueue k)"
    "rq_expired (runqueue k') = rq_expired (runqueue k)" "t_state (tasks k' t) = t_state (tasks k t)"
    "t_prio (tasks k' t) = t_prio (tasks k t)"
    "t \<noteq> c \<Longrightarrow> t_time_slice (tasks k' t) = t_time_slice (tasks k t)"
    using d c k' by (auto simp: tick_start_def charge_def)
  then show "task_timeslice (tasks k' t) = task_timeslice (tasks k t)" by (intro task_timeslice_cong)
qed

lemma charge_slice:
  assumes "c = get_current k" "c \<noteq> 0"
  shows "t_time_slice (tasks (charge c (tick_start k)) c) = 0 \<longleftrightarrow> expires k"
    "\<not> expires k \<Longrightarrow> t_time_slice (tasks (charge c (tick_start k)) c) = tick_slice k"
proof -
  let ?s = "t_time_slice (tasks k c)"
  have s: "t_time_slice (tasks (charge c (tick_start k)) c) = (if ?s > 0 then ?s - 1 else ?s)" by (simp add: charge_def tick_start_def)
  have "?s \<le> 1 \<longleftrightarrow> ?s = 0 \<or> ?s = 1" by unat_arith
  then show "t_time_slice (tasks (charge c (tick_start k)) c) = 0 \<longleftrightarrow> expires k"
    "\<not> expires k \<Longrightarrow> t_time_slice (tasks (charge c (tick_start k)) c) = tick_slice k"
    using assms unfolding s expires_def tick_slice_def Let_def by (auto simp: word_gt_0)
qed

lemma scheduler_tick_ok:
  assumes i: "sched_inv k R qs" and c: "c = get_current k"
  shows "\<exists>k' R'. scheduler_tick k = Some k' \<and> sched_inv k' R' (after_tick k qs) \<and> same_lists R R'
    \<and> (\<forall>t. t_state (tasks k' t) = t_state (tasks k t) \<and> t_prio (tasks k' t) = t_prio (tasks k t)
          \<and> t_time_slice (tasks k' t) = (if t = c then tick_slice k else t_time_slice (tasks k t)))
    \<and> (counted sp k qs \<and> (expires k \<longrightarrow> c \<notin> qarr qs (rq_expired (runqueue k))) \<longrightarrow> counted sp k' (after_tick k qs))
    \<and> get_current k' = c \<and> rq_active (runqueue k') = rq_active (runqueue k) \<and> rq_expired (runqueue k') = rq_expired (runqueue k)"
proof -
  note d = sched_invD [OF i]
  have fin: ?thesis
    if "scheduler_tick k = Some (rq_spin_unlock k5)" "sched_rep k5 R' (after_tick k qs)" "same_lists R R'"
      "counted sp k qs \<and> (expires k \<longrightarrow> c \<notin> qarr qs (rq_expired (runqueue k))) \<longrightarrow> counted sp k5 (after_tick k qs)"
      "task_table k5 = task_table k" "get_current k5 = c" "rq_curr (runqueue k5) = Some c" "rq_idle (runqueue k5) = Some 0"
      "rq_active (runqueue k5) = rq_active (runqueue k)" "rq_expired (runqueue k5) = rq_expired (runqueue k)"
      "\<And>t. t_state (tasks k5 t) = t_state (tasks k t) \<and> t_prio (tasks k5 t) = t_prio (tasks k t)
          \<and> t_time_slice (tasks k5 t) = (if t = c then tick_slice k else t_time_slice (tasks k t))" for k5 R'
    using unlock_step [OF that(2,8)] that d(5,6) c
    by (intro exI [of _ "rq_spin_unlock k5"] exI [of _ R']) (simp add: rq_spin_unlock_def)
  note run = tick_run [OF i c]
  consider (idle) "c = 0" | (run) "c \<noteq> 0" "\<not> expires k" | (expire) "c \<noteq> 0" "expires k" by blast
  then show ?thesis
  proof cases
    case idle
    note t = tick_state [OF i c disjI1 [OF refl]]
    have "after_tick k qs = qs" "tick_slice k = t_time_slice (tasks k c)" "t_time_slice (tasks (tick_start k) c) = t_time_slice (tasks k c)"
      using idle c by (simp_all add: after_tick_def tick_slice_def expires_def tick_start_def)
    then show ?thesis using run t idle by (intro fin [of "tick_start k" R]) auto
  next
    case run': run
    note t = tick_state [OF i c disjI2 [OF refl]]
    have "after_tick k qs = qs" using run' by (simp add: after_tick_def)
    then show ?thesis using run t run' charge_slice [OF c run'(1)] by (intro fin [of "charge c (tick_start k)" R]) auto
  next
    case expire
    note t = tick_state [OF i c disjI2 [OF refl]]
    let ?k = "charge c (tick_start k)"
    have c64: "c \<le> 64" using d(5) c by simp
    have at: "after_tick k qs = (if c \<in> qall qs then queue_in (rq_expired (runqueue ?k)) (queue_index (t_prio (tasks ?k c))) c (unqueue c qs) else qs)"
      using expire(2) c unfolding t(8,10) by (simp add: after_tick_def Let_def)
    from tick_expire_ok [OF t(1) c64 at] obtain k5 R' where
      k5: "tick_expire c ?k = Some k5" "sched_rep k5 R' (after_tick k qs)" "same_lists R R'"
        "counted sp k qs \<and> c \<notin> qarr qs (rq_expired (runqueue k)) \<longrightarrow> counted sp k5 (after_tick k qs)"
        "same_rest (upd_task c (\<lambda>t. t\<lparr>t_time_slice := task_timeslice t\<rparr>) ?k) k5"
        "rq_active (runqueue k5) = rq_active (runqueue k)" "rq_expired (runqueue k5) = rq_expired (runqueue k)"
      unfolding t(2,7,8) by blast
    note s = same_restD [OF k5(5)]
    have ts: "tick_slice k = task_timeslice (tasks k c)" using expire c by (simp add: tick_slice_def)
    show ?thesis
    proof (rule fin [of k5 R'])
      show "scheduler_tick k = Some (rq_spin_unlock k5)" using run expire k5(1) charge_slice(1) [OF c expire(1)] by simp
      show "t_state (tasks k5 x) = t_state (tasks k x) \<and> t_prio (tasks k5 x) = t_prio (tasks k x)
          \<and> t_time_slice (tasks k5 x) = (if x = c then tick_slice k else t_time_slice (tasks k x))" for x
        using t(9-12) [of x] by (cases "x = c") (simp_all add: s ts)
    qed (use k5 s(1-4) t(3-6) expire(2) in auto)
  qed
qed

subsection \<open>Initialisation\<close>

lemma init_heads:
  "rings s R \<Longrightarrow> distinct ns \<Longrightarrow> set ns \<inter> nodes R = {} \<Longrightarrow>
   rings (fold INIT_LIST_HEAD ns s) (\<lambda>h. if h \<in> set ns then Some [] else R h)"
proof (induction ns arbitrary: s R)
  case (Cons n ns)
  have "nodes (R(n \<mapsto> [])) \<subseteq> insert n (nodes R)" by (auto simp: nodes_def split: if_splits)
  then have "set ns \<inter> nodes (R(n \<mapsto> [])) = {}" using Cons.prems by auto
  from Cons.IH [OF init_head [OF Cons.prems(1)] _ this] Cons.prems(2,3)
  have "rings (fold INIT_LIST_HEAD ns (INIT_LIST_HEAD n s)) (\<lambda>h. if h \<in> set ns then Some [] else (R(n \<mapsto> [])) h)" by simp
  moreover have "(\<lambda>h. if h \<in> set ns then Some [] else (R(n \<mapsto> [])) h) = (\<lambda>h. if h \<in> set (n # ns) then Some [] else R h)" by auto
  ultimately show ?case by simp
qed simp

lemma fold_init_list:
  "lists_of (fold (\<lambda>j. init_list (Queue a j)) js k) = fold INIT_LIST_HEAD (map (Queue a) js) (lists_of k)"
  "runqueue (fold (\<lambda>j. init_list (Queue a j)) js k) = runqueue k" "tasks (fold (\<lambda>j. init_list (Queue a j)) js k) = tasks k"
  "task_table (fold (\<lambda>j. init_list (Queue a j)) js k) = task_table k"
  "current_task_ptr (fold (\<lambda>j. init_list (Queue a j)) js k) = current_task_ptr k"
  by (induction js arbitrary: k) (simp_all add: init_list_def)

lemma bitmap_size: "[0..<BITMAP_SIZE] = [0, 1, 2]" by (simp add: BITMAP_SIZE_def MAX_PRIO_def upt_rec)

lemma init_array_simps:
  "lists_of (init_array a k) = fold INIT_LIST_HEAD (map (Queue a) [0..<MAX_PRIO]) (lists_of k)"
  "tasks (init_array a k) = tasks k" "task_table (init_array a k) = task_table k" "current_task_ptr (init_array a k) = current_task_ptr k"
  "pa_nr_active (rq_arrays (runqueue (init_array a k)) b) = (if b = a then 0 else pa_nr_active (rq_arrays (runqueue k) b))"
  "pa_bitmap (rq_arrays (runqueue (init_array a k)) b) i = (if b = a \<and> i < 3 then 0 else pa_bitmap (rq_arrays (runqueue k) b) i)"
  "rq_lock (runqueue (init_array a k)) = rq_lock (runqueue k)" "rq_nr_running (runqueue (init_array a k)) = rq_nr_running (runqueue k)"
  unfolding init_array_def Let_def fold_init_list bitmap_size
  by (auto simp: upd_array_def upd_rq_def)

definition all_queues :: "lnode list" where
  "all_queues = map (Queue 0) [0..<MAX_PRIO] @ map (Queue 1) [0..<MAX_PRIO]"

definition with_queues :: "(lnode \<Rightarrow> lnode list option) \<Rightarrow> lnode \<Rightarrow> lnode list option" where
  "with_queues R = (\<lambda>h. if h \<in> set all_queues then Some [] else R h)"

lemma sched_init_ok:
  assumes r: "rings (lists_of k) R" and q: "\<And>a j. Queue a j \<notin> nodes R" "\<And>t. RunList t \<notin> nodes R"
    and t: "\<And>t. \<not> t_on_rq (tasks k t)" and c: "get_current k = 0" and tt: "\<And>i t. task_table k i = Some t \<Longrightarrow> t \<le> 64"
  shows "sched_inv (sched_init k) (with_queues R) (\<lambda>a j. [])" "exact (sched_init k) (\<lambda>a j. [])"
    "tasks (sched_init k) = tasks k" "task_table (sched_init k) = task_table k" "get_current (sched_init k) = 0"
    "rq_active (runqueue (sched_init k)) = 0"
proof -
  let ?k = "sched_init k"
  have e: "qarr (\<lambda>a j. []) a = {}" "qall (\<lambda>a j. []) = {}" for a by (simp_all add: qarr_def qall_def)
  have l: "lists_of ?k = fold INIT_LIST_HEAD all_queues (lists_of k)" by (simp add: sched_init_def init_array_simps all_queues_def)
  have "distinct all_queues" by (auto simp: all_queues_def distinct_map inj_on_def)
  moreover have "set all_queues \<inter> nodes R = {}" using q(1) by (auto simp: all_queues_def)
  ultimately have rr: "rings (lists_of ?k) (with_queues R)" unfolding l with_queues_def by (rule init_heads [OF r])
  have qn: "Queue a j \<in> set all_queues \<longleftrightarrow> a < 2 \<and> j < MAX_PRIO" for a j by (auto simp: all_queues_def less_2_cases_iff)
  have rn: "RunList u \<notin> nodes (with_queues R)" for u
    using q(2) [of u] by (auto simp: nodes_def with_queues_def all_queues_def split: if_splits)
  show f: "tasks ?k = tasks k" "task_table ?k = task_table k" "get_current ?k = 0" "rq_active (runqueue ?k) = 0"
    using c by (simp_all add: sched_init_def init_array_simps get_current_def upd_rq_def Let_def)
  have g: "rq_nr_running (runqueue ?k) = 0" "rq_expired (runqueue ?k) = 1" "\<not> rq_lock (runqueue ?k)"
    "rq_idle (runqueue ?k) = Some 0" "rq_curr (runqueue ?k) = Some 0"
    by (simp_all add: sched_init_def init_array_simps)
  have z: "pa_nr_active (rq_arrays (runqueue ?k) a) = 0" "i < 3 \<Longrightarrow> pa_bitmap (rq_arrays (runqueue ?k) a) i = 0" if "a < 2" for a i
    using that by (auto simp: sched_init_def init_array_simps less_2_cases_iff)
  have tb: "\<not> test_bit j (pa_bitmap (rq_arrays (runqueue ?k) a))" if "a < 2" "j < MAX_PRIO" for a j
    using z(2) [OF that(1), of "j div 64"] that(2) by (simp add: test_bit_def MAX_PRIO_def)
  show "sched_inv ?k (with_queues R) (\<lambda>a j. [])"
    unfolding sched_inv_def sched_rep_def f g e using rr rn t tt qn g(3) by (simp add: with_queues_def)
  show "exact ?k (\<lambda>a j. [])" unfolding counted_def e using z(1) tb by simp
qed

subsection \<open>The other entry points\<close>

lemma inv_upd_task:
  assumes "\<And>x. t_on_rq (f x) = t_on_rq x \<and> t_prio (f x) = t_prio x"
  shows "sched_inv (upd_task t f k) R qs = sched_inv k R qs" "counted sp (upd_task t f k) qs = counted sp k qs"
  using same_queues_rep [OF same_queues_upd(1) [where f = f and t = t and k = k, OF assms]] unfolding sched_inv_def by simp_all

lemma wake_up_new_task_ok:
  assumes i: "sched_inv k R qs" and t: "t \<notin> qall qs" "t \<le> 64"
    and q: "qs' = queue_in (rq_active (runqueue k)) (queue_index (t_prio (tasks k t))) t qs"
  shows "\<exists>k' R'. wake_up_new_task (Some t) k = Some k' \<and> sched_inv k' R' qs' \<and> same_lists R R'
    \<and> (counted sp k qs \<longrightarrow> counted sp k' qs') \<and> get_current k' = get_current k \<and> task_table k' = task_table k
    \<and> rq_active (runqueue k') = rq_active (runqueue k)
    \<and> (\<forall>u. t_state (tasks k' u) = (if u = t then TASK_RUNNING else t_state (tasks k u)) \<and> t_prio (tasks k' u) = t_prio (tasks k u)
        \<and> t_time_slice (tasks k' u) = (if u = t then task_timeslice (tasks k t) else t_time_slice (tasks k u)))"
proof -
  obtain k1 where k1_def: "k1 = upd_rq (\<lambda>r. r\<lparr>rq_lock := True\<rparr>) k" by blast
  note l = lock_step [OF i k1_def]
  obtain k2 where k2_def: "k2 = upd_task t (\<lambda>x. x\<lparr>t_state := TASK_RUNNING, t_time_slice := task_timeslice x\<rparr>) k1" by blast
  have sq: "same_queues k1 k2" unfolding k2_def by (rule same_queues_upd(1)) simp
  note r = same_queues_rep [OF sq]
  have r2: "sched_rep k2 R qs" using r(1) l(2) by simp
  have f: "rq_active (runqueue k2) = rq_active (runqueue k)" "t_prio (tasks k2 u) = t_prio (tasks k u)" "get_current k2 = get_current k"
    "rq_curr (runqueue k2) = rq_curr (runqueue k)" "rq_idle (runqueue k2) = rq_idle (runqueue k)" "task_table k2 = task_table k"
    "t_state (tasks k2 u) = (if u = t then TASK_RUNNING else t_state (tasks k u))"
    "t_time_slice (tasks k2 u) = (if u = t then task_timeslice (tasks k t) else t_time_slice (tasks k u))" for u
    by (simp_all add: k2_def k1_def)
  note a = sched_repD(7) [OF r2]
  from add_to_array_keeps [OF r2 t a refl, where sp = sp] obtain k3 R' where
    k3: "enqueue_task t k2 = Some k3" "sched_rep k3 R' qs'" "same_rest k2 k3" "same_lists R R'" "counted sp k2 qs \<longrightarrow> counted sp k3 qs'"
      "rq_active (runqueue k3) = rq_active (runqueue k2)"
    unfolding q enqueue_task_def f by blast
  note s = same_restD [OF k3(3)] and d = sched_invD [OF i]
  have run: "wake_up_new_task (Some t) k = Some (rq_spin_unlock k3)"
    using k3(1) by (simp add: wake_up_new_task_def l(1) k2_def [symmetric])
  have c: "rq_idle (runqueue k3) = Some 0" "rq_curr (runqueue k3) = Some (get_current k3)" "get_current k3 \<le> 64"
    "\<And>i t. task_table k3 i = Some t \<Longrightarrow> t \<le> 64" using s f d by auto
  have u: "sched_inv (rq_spin_unlock k3) R' qs'" "counted sp (rq_spin_unlock k3) qs' = counted sp k3 qs'"
    "tasks (rq_spin_unlock k3) = tasks k3" "rq_active (runqueue (rq_spin_unlock k3)) = rq_active (runqueue k3)"
    using unlock_step [OF k3(2) c(1-3)] c(4) by blast+
  have g: "get_current (rq_spin_unlock k3) = get_current k" "task_table (rq_spin_unlock k3) = task_table k" using s f by (simp_all add: rq_spin_unlock_def)
  show ?thesis
    using run u(1,2) g k3(4-6) r(2) l(3) unfolding u(3)
    by (intro exI [of _ "rq_spin_unlock k3"] exI [of _ R']) (simp add: u(3,4) s f)
qed

lemma sleep_ok:
  assumes i: "sched_inv k R qs"
  shows "\<exists>k' R' qs'. sleep ch k = Some k' \<and> sched_inv k' R' qs' \<and> same_lists R R'"
proof -
  have "sched_inv (upd_task (get_current k) (\<lambda>t. t\<lparr>t_chan := ch, t_state := TASK_INTERRUPTIBLE\<rparr>) k) R qs"
    using i by (simp add: inv_upd_task)
  from schedule_ok [OF this refl refl] show ?thesis unfolding sleep_def by blast
qed

lemma requeue:
  assumes r: "sched_rep k R qs" and c: "c \<le> 64"
  shows "\<exists>k' R' qs'. Option.bind (dequeue_task c k) (enqueue_task c) = Some k' \<and> same_rest k k' \<and> same_lists R R' \<and> sched_rep k' R' qs'"
proof -
  from dequeue_keeps [OF r, of c] obtain k1 R1 where
    k1: "dequeue_task c k = Some k1" "sched_rep k1 R1 (unqueue c qs)" "same_rest k k1" "same_lists R R1" by blast
  have "c \<notin> qall (unqueue c qs)" by simp
  from add_to_array_keeps [OF k1(2) this c sched_repD(7) [OF k1(2)] refl] obtain k2 R2 qs2 where
    k2: "enqueue_task c k1 = Some k2" "sched_rep k2 R2 qs2" "same_rest k1 k2" "same_lists R1 R2" unfolding enqueue_task_def by blast
  show ?thesis using k2(2) same_rest_trans [OF k1(3) k2(3)] same_lists_trans [OF k1(4) k2(4)]
    by (intro exI [of _ k2] exI [of _ R2] exI [of _ qs2]) (simp add: k1(1) k2(1))
qed

lemma yield_ok:
  assumes i: "sched_inv k R qs"
  shows "\<exists>k' R' qs'. yield k = Some k' \<and> sched_inv k' R' qs' \<and> same_lists R R'"
proof -
  note d = sched_invD [OF i]
  let ?c = "get_current k"
  have "\<exists>k1 R1 qs1. (if t_state (tasks k ?c) = TASK_RUNNING
               then do {
                 k' \<leftarrow> rq_spin_lock k;
                 k'' \<leftarrow> (if t_on_rq (tasks k' ?c)
                         then Option.bind (dequeue_task ?c k') (enqueue_task ?c) else Some k');
                 Some (rq_spin_unlock k'')
               }
               else Some k) = Some k1 \<and> sched_inv k1 R1 qs1 \<and> same_lists R R1"
  proof (cases "t_state (tasks k ?c) = TASK_RUNNING")
    case True
    obtain k1 where k1_def: "k1 = upd_rq (\<lambda>r. r\<lparr>rq_lock := True\<rparr>) k" by blast
    note l = lock_step [OF i k1_def]
    have f: "rq_idle (runqueue k1) = Some 0" "rq_curr (runqueue k1) = Some ?c" "get_current k1 = ?c" "task_table k1 = task_table k"
      using d by (simp_all add: k1_def)
    have "\<exists>k2 R2 qs2. (if t_on_rq (tasks k1 ?c) then Option.bind (dequeue_task ?c k1) (enqueue_task ?c) else Some k1) = Some k2
        \<and> same_rest k1 k2 \<and> same_lists R R2 \<and> sched_rep k2 R2 qs2"
    proof (cases "t_on_rq (tasks k1 ?c)")
      case True
      then show ?thesis using requeue [OF l(2) d(5)] by simp
    next
      case False
      then show ?thesis using l(2) by (intro exI [of _ k1] exI [of _ R] exI [of _ qs]) simp
    qed
    then obtain k2 R2 qs2 where
      k2: "(if t_on_rq (tasks k1 ?c) then Option.bind (dequeue_task ?c k1) (enqueue_task ?c) else Some k1) = Some k2"
        "same_rest k1 k2" "same_lists R R2" "sched_rep k2 R2 qs2" by blast
    note s = same_restD [OF k2(2)]
    have "sched_inv (rq_spin_unlock k2) R2 qs2" by (rule unlock_step(1) [OF k2(4)]) (use s f d in auto)
    then show ?thesis using True k2(1,3) by (intro exI [of _ "rq_spin_unlock k2"] exI [of _ R2] exI [of _ qs2]) (simp add: l(1))
  qed (use i in auto)
  then obtain k1 R1 qs1 where k1: "yield k = schedule k1" "sched_inv k1 R1 qs1" "same_lists R R1"
    unfolding yield_def Let_def by auto
  from schedule_ok [OF k1(2) refl refl] show ?thesis unfolding k1(1) using same_lists_trans [OF k1(3)] by blast
qed

lemma wakeup_one_ok:
  assumes i: "sched_inv k R qs"
  shows "\<exists>k' R' qs'. wakeup_one ch n k = Some k' \<and> sched_inv k' R' qs' \<and> same_lists R R'"
proof (cases "task_table k n")
  case None
  then show ?thesis using i by (auto simp: wakeup_one_def)
next
  case (Some p)
  have "sched_inv (upd_task p (\<lambda>t. t\<lparr>t_chan := None\<rparr>) k) R qs" using i by (simp add: inv_upd_task)
  from wake_up_process_ok [OF this sched_invD(6) [OF i Some]]
  obtain m k' R' qs' where "wake_up_process (Some p) (upd_task p (\<lambda>t. t\<lparr>t_chan := None\<rparr>) k) = Some (m, k')"
    "sched_inv k' R' qs'" "same_lists R R'" by blast
  then show ?thesis using i Some by (auto simp: wakeup_one_def)
qed

lemma wakeup_ok:
  assumes i: "sched_inv k R qs"
  shows "\<exists>k' R' qs'. wakeup ch k = Some k' \<and> sched_inv k' R' qs' \<and> same_lists R R'"
proof -
  have "\<exists>k' R' qs'. fold (\<lambda>i acc. Option.bind acc (wakeup_one ch i)) is (Some k) = Some k' \<and> sched_inv k' R' qs' \<and> same_lists R R'" for "is"
    using i
  proof (induction "is" arbitrary: k R qs)
    case Nil
    then show ?case by auto
  next
    case (Cons n ns)
    from wakeup_one_ok [OF Cons.prems] obtain k1 R1 qs1 where
      k1: "wakeup_one ch n k = Some k1" "sched_inv k1 R1 qs1" "same_lists R R1" by blast
    from Cons.IH [OF k1(2)] obtain k' R' qs' where "fold (\<lambda>i acc. Option.bind acc (wakeup_one ch i)) ns (Some k1) = Some k'"
      "sched_inv k' R' qs'" "same_lists R1 R'" by blast
    then show ?case using same_lists_trans [OF k1(3)] by (intro exI [of _ k'] exI [of _ R'] exI [of _ qs']) (simp add: k1(1))
  qed
  then show ?thesis unfolding wakeup_def .
qed

end
