(* ===== verification/SchedProps.thy ===== *)
theory SchedProps
  imports SchedInv
begin

text \<open>
  Runs of the scheduler and its properties: every entry point returns in every reachable state,
  \<^verbatim>\<open>schedule\<close> makes the choice of the specification \<open>next_task\<close>, tasks of the active array run in turns, and
  the counter that \<^verbatim>\<open>dequeue_task\<close> leaves too high starves a ready task.
\<close>

unbundle bit_operations_syntax

subsection \<open>Runs of the scheduler\<close>

text \<open>
  A run: \<^verbatim>\<open>sched_init\<close>, then calls of its entry points in any order; in between, tasks may change
  their own state as \<^verbatim>\<open>do_exit\<close> and \<^verbatim>\<open>do_wait\<close> do.  \<^verbatim>\<open>wake_up_new_task\<close> is called for tasks that are not queued.
\<close>

inductive sched_run :: "kern \<Rightarrow> kern \<Rightarrow> bool" for k0 where
  init: "sched_run k0 (sched_init k0)"
| tick: "sched_run k0 k \<Longrightarrow> scheduler_tick k = Some k' \<Longrightarrow> sched_run k0 k'"
| sched: "sched_run k0 k \<Longrightarrow> schedule k = Some k' \<Longrightarrow> sched_run k0 k'"
| give_up: "sched_run k0 k \<Longrightarrow> yield k = Some k' \<Longrightarrow> sched_run k0 k'"
| wait: "sched_run k0 k \<Longrightarrow> sleep ch k = Some k' \<Longrightarrow> sched_run k0 k'"
| wake: "sched_run k0 k \<Longrightarrow> wakeup ch k = Some k' \<Longrightarrow> sched_run k0 k'"
| wake_one: "sched_run k0 k \<Longrightarrow> t \<le> 64 \<Longrightarrow> wake_up_process (Some t) k = Some (n, k') \<Longrightarrow> sched_run k0 k'"
| new: "sched_run k0 k \<Longrightarrow> t \<le> 64 \<Longrightarrow> \<not> t_on_rq (tasks k t) \<Longrightarrow> wake_up_new_task (Some t) k = Some k' \<Longrightarrow> sched_run k0 k'"
| state: "sched_run k0 k \<Longrightarrow> sched_run k0 (upd_task t (\<lambda>x. x\<lparr>t_state := st, t_chan := ch\<rparr>) k)"

definition unstarted :: "kern \<Rightarrow> bool" where
  "unstarted k \<longleftrightarrow> (\<forall>t. \<not> t_on_rq (tasks k t)) \<and> get_current k = 0 \<and> (\<forall>i t. task_table k i = Some t \<longrightarrow> t \<le> 64)"

lemma sched_run_inv:
  assumes "sched_run k0 k" "unstarted k0"
  shows "\<exists>R qs. sched_inv k R qs"
  using assms
proof (induction)
  case init
  have "rings (lists_of k0) Map.empty" "nodes Map.empty = ({} :: lnode set)" by (simp_all add: rings_def nodes_def)
  then show ?case using sched_init_ok(1) [of k0 Map.empty] init unfolding unstarted_def by auto
next
  case (tick k k')
  then show ?case using scheduler_tick_ok [OF _ refl] by (metis option.inject)
next
  case (sched k k')
  then show ?case using schedule_ok [OF _ refl refl] by (metis option.inject)
next
  case (give_up k k')
  then show ?case using yield_ok by (metis option.inject)
next
  case (wait k ch k')
  then show ?case using sleep_ok by (metis option.inject)
next
  case (wake k ch k')
  then show ?case using wakeup_ok by (metis option.inject)
next
  case (wake_one k t n k')
  then show ?case using wake_up_process_ok by (metis option.inject prod.inject)
next
  case (new k t k')
  then obtain R qs where i: "sched_inv k R qs" by blast
  have "t \<notin> qall qs" using new(3) sched_repD(4) [OF sched_invD(1) [OF i]] by blast
  from wake_up_new_task_ok [OF i this new(2) refl] show ?case using new(4) by (metis option.inject)
next
  case (state k t st ch)
  then show ?case by (simp add: inv_upd_task)
qed

text \<open>C25: In every state a run of the scheduler reaches, every entry point returns: no list node is
  missing and no lock is taken twice.  The task flags, the run queues and the counter of running
  tasks agree, and a task is queued at most once.\<close>

theorem sched_run_safe:
  assumes "unstarted k0" "sched_run k0 k"
  shows "(\<exists>R qs. sched_inv k R qs) \<and> scheduler_tick k \<noteq> None \<and> schedule k \<noteq> None \<and> yield k \<noteq> None
    \<and> sleep ch k \<noteq> None \<and> wakeup ch k \<noteq> None \<and> (t \<le> 64 \<longrightarrow> wake_up_process (Some t) k \<noteq> None)"
proof -
  from sched_run_inv [OF assms(2,1)] obtain R qs where i: "sched_inv k R qs" by blast
  have "scheduler_tick k \<noteq> None" "schedule k \<noteq> None" "t \<le> 64 \<longrightarrow> wake_up_process (Some t) k \<noteq> None"
    using scheduler_tick_ok [OF i refl, where sp = "\<lambda>_. 0"] schedule_ok [OF i refl refl, where sp = "\<lambda>_. 0" and sp' = "\<lambda>_. 0"]
      wake_up_process_ok [OF i, where sp = "\<lambda>_. 0"] by blast+
  then show ?thesis using i yield_ok [OF i] sleep_ok [OF i, of ch] wakeup_ok [OF i, of ch] by auto
qed

lemma unstarted_static: "unstarted (static_kern m)"
  by (simp add: unstarted_def static_kern_def get_current_def zero_task_def init_task_def)

text \<open>The state after \<^verbatim>\<open>sched_init\<close> on the memory image at start.\<close>

definition sched_boot :: kern where
  "sched_boot = sched_init (static_kern boot_slabs)"

lemma sched_boot_ok:
  "sched_inv sched_boot (with_queues Map.empty) (\<lambda>a j. [])" "exact sched_boot (\<lambda>a j. [])" "tasks sched_boot = (\<lambda>_. zero_task)(0 := init_task)"
  "get_current sched_boot = 0" "rq_active (runqueue sched_boot) = 0" "rq_expired (runqueue sched_boot) = 1"
proof -
  have r: "rings (lists_of (static_kern boot_slabs)) Map.empty" "nodes Map.empty = ({} :: lnode set)" by (simp_all add: rings_def nodes_def)
  note u = unstarted_static [of boot_slabs, unfolded unstarted_def]
  have i: "sched_inv sched_boot (with_queues Map.empty) (\<lambda>a j. [])" "exact sched_boot (\<lambda>a j. [])" "tasks sched_boot = tasks (static_kern boot_slabs)"
    "get_current sched_boot = 0" "rq_active (runqueue sched_boot) = 0"
    unfolding sched_boot_def by (rule sched_init_ok [OF r(1)]; use u r(2) in simp)+
  then show "sched_inv sched_boot (with_queues Map.empty) (\<lambda>a j. [])" "exact sched_boot (\<lambda>a j. [])"
    "tasks sched_boot = (\<lambda>_. zero_task)(0 := init_task)" "get_current sched_boot = 0" "rq_active (runqueue sched_boot) = 0"
    by (simp_all add: static_kern_def)
  show "rq_expired (runqueue sched_boot) = 1" using sched_repD(8) [OF sched_invD(1) [OF i(1)]] i(5) by simp
qed

theorem sched_run_safe_witness:
  "unstarted (static_kern boot_slabs)
    \<and> (\<exists>k. wake_up_new_task (Some 1) sched_boot = Some k \<and> sched_run (static_kern boot_slabs) k \<and> schedule k \<noteq> None)"
proof -
  have "1 \<notin> qall (\<lambda>a j. [])" by (simp add: qall_mem)
  from wake_up_new_task_ok [OF sched_boot_ok(1) this _ refl] obtain k where k: "wake_up_new_task (Some 1) sched_boot = Some k" by auto
  have "sched_run (static_kern boot_slabs) k"
    by (rule sched_run.new [OF sched_run.init, where t = 1]) (use k sched_boot_ok(3) in \<open>simp_all add: sched_boot_def zero_task_def\<close>)
  with sched_run_safe [OF unstarted_static this] unstarted_static k show ?thesis by blast
qed

subsection \<open>Turns\<close>

text \<open>The tasks of an array in the order in which they are to run.\<close>

definition run_order :: "queues \<Rightarrow> nat \<Rightarrow> nat list" where
  "run_order qs a = concat (map (qs a) [0..<MAX_PRIO])"

lemma set_run_order: "set (run_order qs a) = qarr qs a" by (auto simp: run_order_def qarr_def)

lemma concat_split: "j < n \<Longrightarrow> concat (map f [0..<n]) = concat (map f [0..<j]) @ f j @ concat (map f [Suc j..<n])"
  by (metis append.simps(1) concat.simps(2) concat_append less_imp_le_nat list.map(2) map_append upt_add_eq_append upt_conv_Cons
      le_add_diff_inverse zero_le)

lemma next_task_order:
  assumes "run_order qs a = x # xs"
  shows "next_task sp qs a idle = Some x" "choose_array sp qs a = a"
proof -
  have "qarr qs a \<noteq> {}" using assms set_run_order [of qs a] by auto
  then obtain j where j: "best qs a = Some j" using best_None by blast
  then show "choose_array sp qs a = a" by (simp add: choose_array_def)
  from j have l: "j < MAX_PRIO" "qs a j \<noteq> []" "\<forall>i < j. qs a i = []" by (auto simp: best_Some)
  have e: "concat (map (qs a) [0..<j]) = []" using l(3) by simp
  have "hd (run_order qs a) = hd (qs a j)" unfolding run_order_def concat_split [OF l(1)] e using l(2) by simp
  with j show "next_task sp qs a idle = Some x" using assms by (simp add: next_task_def choose_array_def)
qed

lemma next_task_empty: "qarr qs a = {} \<Longrightarrow> sp a \<noteq> 0 \<Longrightarrow> next_task sp qs a idle = idle" "qarr qs a = {} \<Longrightarrow> sp a \<noteq> 0 \<Longrightarrow> choose_array sp qs a = a"
  by (simp_all add: next_task_def choose_array_def best_None [symmetric])

lemma run_order_unqueue: "run_order (unqueue c qs) a = removeAll c (run_order qs a)"
  unfolding run_order_def unqueue_def by (induction "[0..<MAX_PRIO]") (simp_all add: removeAll_filter_not_eq filter_concat comp_def)

lemma run_order_queue_in: "e \<noteq> a \<Longrightarrow> run_order (queue_in e j t qs) a = run_order qs a"
  unfolding run_order_def queue_in_def set_queue_def by simp

lemma run_order_distinct:
  assumes r: "sched_rep k R qs" and a: "a < 2"
  shows "distinct (run_order qs a)"
proof -
  have "n \<le> MAX_PRIO \<Longrightarrow> distinct (concat (map (qs a) [0..<n]))" for n
  proof (induction n)
    case (Suc n)
    have "x \<notin> set (qs a i)" if "x \<in> set (qs a n)" "i < n" for x i
      using queued_once(2) [OF r that(1) _ a a, of i] that(2) Suc.prems by auto
    then show ?case using Suc queue_distinct [OF r a, of n] by auto
  qed simp
  then show ?thesis by (simp add: run_order_def)
qed

text \<open>\<open>n\<close> ticks, and a turn: the ticks of the time slice of the current task, then \<^verbatim>\<open>schedule\<close>.\<close>

fun ticks :: "nat \<Rightarrow> kern \<Rightarrow> kern option" where
  "ticks 0 k = Some k"
| "ticks (Suc n) k = Option.bind (scheduler_tick k) (ticks n)"

definition turn :: "kern \<Rightarrow> kern option" where
  "turn k = Option.bind (ticks (unat (t_time_slice (tasks k (get_current k)))) k) schedule"

fun turns :: "nat \<Rightarrow> kern \<Rightarrow> kern option" where
  "turns 0 k = Some k"
| "turns (Suc n) k = Option.bind (turn k) (turns n)"

lemma ticks_ok:
  assumes "sched_inv k R qs" "counted sp k qs" "c = get_current k" "c \<noteq> 0" "c \<in> qarr qs (rq_active (runqueue k))"
    "unat (t_time_slice (tasks k c)) = Suc n"
  shows "\<exists>k' R'. ticks (Suc n) k = Some k' \<and> sched_inv k' R' (queue_in (rq_expired (runqueue k)) (queue_index (t_prio (tasks k c))) c (unqueue c qs))
    \<and> counted sp k' (queue_in (rq_expired (runqueue k)) (queue_index (t_prio (tasks k c))) c (unqueue c qs)) \<and> get_current k' = c
    \<and> rq_active (runqueue k') = rq_active (runqueue k) \<and> rq_expired (runqueue k') = rq_expired (runqueue k) \<and> same_lists R R'
    \<and> (\<forall>t. t_state (tasks k' t) = t_state (tasks k t) \<and> t_prio (tasks k' t) = t_prio (tasks k t)
        \<and> t_time_slice (tasks k' t) = (if t = c then task_timeslice (tasks k c) else t_time_slice (tasks k t)))"
  using assms
proof (induction n arbitrary: k R)
  case (0 k R)
  note r = sched_invD(1) [OF 0(1)]
  have x: "expires k" using 0 by (simp add: expires_def word_le_nat_alt)
  have q: "c \<in> qall qs" using 0(5) qarr_sub [OF sched_repD(7) [OF r]] by blast
  have "c \<notin> qarr qs (rq_expired (runqueue k))" by (rule one_array [OF r 0(5)])
  moreover have "after_tick k qs = queue_in (rq_expired (runqueue k)) (queue_index (t_prio (tasks k c))) c (unqueue c qs)"
    using x q 0(3) by (simp add: after_tick_def Let_def)
  moreover have "tick_slice k = task_timeslice (tasks k c)" using x 0(3,4) by (simp add: tick_slice_def Let_def)
  ultimately show ?case using scheduler_tick_ok [OF 0(1) 0(3), where sp = sp] x 0(2) by auto
next
  case (Suc n k R)
  have x: "\<not> expires k" using Suc.prems by (simp add: expires_def word_le_nat_alt)
  have at: "after_tick k qs = qs" using x by (simp add: after_tick_def Let_def)
  from scheduler_tick_ok [OF Suc.prems(1,3), where sp = sp] obtain k1 R1 where
    k1: "scheduler_tick k = Some k1" "sched_inv k1 R1 qs" "same_lists R R1" "counted sp k1 qs" "get_current k1 = c"
      "rq_active (runqueue k1) = rq_active (runqueue k)" "rq_expired (runqueue k1) = rq_expired (runqueue k)"
      "\<And>t. t_state (tasks k1 t) = t_state (tasks k t) \<and> t_prio (tasks k1 t) = t_prio (tasks k t)
          \<and> t_time_slice (tasks k1 t) = (if t = c then tick_slice k else t_time_slice (tasks k t))"
    using x Suc.prems(2) at by auto
  have "tick_slice k = t_time_slice (tasks k c) - 1" using x Suc.prems(3,4) by (simp add: tick_slice_def Let_def)
  moreover have "unat (t_time_slice (tasks k c) - 1) = unat (t_time_slice (tasks k c)) - 1"
    using Suc.prems(6) by (intro unat_minus_one) auto
  ultimately have "unat (t_time_slice (tasks k1 c)) = Suc n" using k1(8) [of c] Suc.prems(6) by simp
  from Suc.IH [OF k1(2,4) _ Suc.prems(4) _ this] Suc.prems(5) k1
  obtain k' R' where "ticks (Suc n) k1 = Some k'" and rest: "sched_inv k' R' (queue_in (rq_expired (runqueue k)) (queue_index (t_prio (tasks k c))) c (unqueue c qs))"
    "counted sp k' (queue_in (rq_expired (runqueue k)) (queue_index (t_prio (tasks k c))) c (unqueue c qs))" "get_current k' = c"
    "rq_active (runqueue k') = rq_active (runqueue k)" "rq_expired (runqueue k') = rq_expired (runqueue k)" "same_lists R1 R'"
    "\<forall>t. t_state (tasks k' t) = t_state (tasks k t) \<and> t_prio (tasks k' t) = t_prio (tasks k t)
        \<and> t_time_slice (tasks k' t) = (if t = c then task_timeslice (tasks k c) else t_time_slice (tasks k t))"
    using task_timeslice_cong [of "tasks k1 c" "tasks k c"] by auto
  then have "ticks (Suc (Suc n)) k = Some k'" using k1(1) by simp
  then show ?case using rest same_lists_trans [OF k1(3)] by blast
qed

lemma turn_ok:
  assumes i: "sched_inv k R qs" and x: "counted sp k qs" and o: "run_order qs (rq_active (runqueue k)) = c # xs"
    and c: "c = get_current k" "c \<noteq> 0" "t_state (tasks k c) = TASK_RUNNING" "t_time_slice (tasks k c) \<noteq> 0"
    and q: "qs' = queue_in (rq_expired (runqueue k)) (queue_index (t_prio (tasks k c))) c (unqueue c qs)"
  shows "\<exists>k' R'. turn k = Some k' \<and> sched_inv k' R' qs' \<and> counted sp k' qs'
    \<and> rq_curr (runqueue k') = next_task sp qs' (rq_active (runqueue k)) (Some 0) \<and> run_order qs' (rq_active (runqueue k)) = xs
    \<and> rq_active (runqueue k') = choose_array sp qs' (rq_active (runqueue k)) \<and> c \<in> qarr qs' (rq_expired (runqueue k))
    \<and> (\<forall>t. t_state (tasks k' t) = t_state (tasks k t) \<and> t_prio (tasks k' t) = t_prio (tasks k t)
        \<and> t_time_slice (tasks k' t) = (if t = c then task_timeslice (tasks k c) else t_time_slice (tasks k t)))"
proof -
  note r = sched_invD(1) [OF i]
  let ?a = "rq_active (runqueue k)" and ?e = "rq_expired (runqueue k)"
  have ca: "c \<in> qarr qs ?a" using o set_run_order [of qs ?a] by auto
  obtain n where n: "unat (t_time_slice (tasks k c)) = Suc n" using c(4) by (metis not0_implies_Suc unat_eq_zero)
  from ticks_ok [OF i x c(1,2) ca n] obtain k1 R1 where
    k1: "ticks (Suc n) k = Some k1" "sched_inv k1 R1 qs'" "counted sp k1 qs'" "get_current k1 = c" "rq_active (runqueue k1) = ?a"
      "rq_expired (runqueue k1) = ?e" "same_lists R R1"
      "\<And>t. t_state (tasks k1 t) = t_state (tasks k t)"
      "\<And>t. t_prio (tasks k1 t) = t_prio (tasks k t) \<and> t_time_slice (tasks k1 t) = (if t = c then task_timeslice (tasks k c) else t_time_slice (tasks k t))"
    unfolding q [symmetric] by blast
  have ab: "after_block k1 qs' = qs'" using k1(4,8) c(3) by (simp add: after_block_def)
  from schedule_ok [OF k1(2) k1(4) [symmetric] ab [symmetric], where sp = sp and sp' = sp] obtain k2 R2 where
    k2: "schedule k1 = Some k2" "sched_inv k2 R2 qs'" "counted sp k2 qs'" "rq_curr (runqueue k2) = next_task sp qs' ?a (Some 0)"
      "rq_active (runqueue k2) = choose_array sp qs' ?a" "\<And>t. t_state (tasks k2 t) = t_state (tasks k1 t)"
      "\<And>t. t_time_slice (tasks k2 t) = t_time_slice (tasks k1 t) \<and> t_prio (tasks k2 t) = t_prio (tasks k1 t)"
    using k1(3-5,8) c(3) by (auto simp: block_surplus_def)
  have "?e \<noteq> ?a" using sched_repD(8) [OF r] by presburger
  then have "run_order qs' ?a = removeAll c (run_order qs ?a)" unfolding q by (simp add: run_order_queue_in run_order_unqueue)
  also have "\<dots> = xs" using run_order_distinct [OF r sched_repD(7) [OF r]] o by simp
  finally have o': "run_order qs' ?a = xs" .
  have ce: "c \<in> qarr qs' ?e" unfolding q queue_in_def by (auto simp: qarr_mem intro!: exI [of _ "queue_index (t_prio (tasks k c))"])
  have "turn k = Some k2" using k1(1) k2(1) n c(1) by (simp add: turn_def)
  then show ?thesis using k2 k1(8,9) o' ce by (intro exI [of _ k2] exI [of _ R2]) simp
qed

text \<open>Every task of the active array gets its turn, in the order of the queues.\<close>

definition all_ready :: "kern \<Rightarrow> nat list \<Rightarrow> bool" where
  "all_ready k xs \<longleftrightarrow> (\<forall>t \<in> set xs. t \<noteq> 0 \<and> t_state (tasks k t) = TASK_RUNNING \<and> t_time_slice (tasks k t) \<noteq> 0)"

lemma turns_ok:
  assumes "sched_inv k R qs" "counted sp k qs" "run_order qs (rq_active (runqueue k)) = xs" "xs \<noteq> []" "get_current k = hd xs"
    "all_ready k xs" "i < length xs"
  shows "\<exists>k'. turns i k = Some k' \<and> get_current k' = xs ! i"
  using assms
proof (induction i arbitrary: k R qs xs)
  case 0
  then show ?case by (simp add: hd_conv_nth)
next
  case (Suc i)
  from Suc.prems(7) obtain c x ys where xs: "xs = c # x # ys" by (metis Suc_length_conv length_Suc_conv less_Suc_eq_0_disj list.exhaust list.size(3) not_less_zero Suc_less_eq length_Cons)
  have d: "all_ready k xs" "distinct xs" using Suc.prems(6) run_order_distinct [OF sched_invD(1) [OF Suc.prems(1)] sched_repD(7) [OF sched_invD(1) [OF Suc.prems(1)]]] Suc.prems(3) by auto
  from turn_ok [OF Suc.prems(1,2) Suc.prems(3) [unfolded xs] _ _ _ _ refl] obtain k' R' qs' where
    k': "turn k = Some k'" "sched_inv k' R' qs'" "counted sp k' qs'" "run_order qs' (rq_active (runqueue k)) = x # ys"
      "rq_curr (runqueue k') = next_task sp qs' (rq_active (runqueue k)) (Some 0)" "rq_active (runqueue k') = choose_array sp qs' (rq_active (runqueue k))"
      "\<And>t. t_state (tasks k' t) = t_state (tasks k t)" "\<And>t. t \<noteq> c \<Longrightarrow> t_time_slice (tasks k' t) = t_time_slice (tasks k t)"
    using Suc.prems(5) d(1) xs unfolding all_ready_def by auto
  note o = next_task_order [OF k'(4)]
  have "t \<noteq> c" if "t \<in> set (x # ys)" for t using d(2) xs that by auto
  then have "all_ready k' (x # ys)" using d(1) k'(7,8) xs unfolding all_ready_def by simp
  moreover have "get_current k' = x" using sched_invD(4) [OF k'(2)] k'(5) o(1) by simp
  moreover have "rq_active (runqueue k') = rq_active (runqueue k)" using k'(6) o(2) by simp
  ultimately show ?case using Suc.IH [OF k'(2,3), of "x # ys"] k'(1,4) Suc.prems(7) xs by auto
qed

text \<open>C24: When the counters and bitmaps of the two arrays agree exactly with the queues, and the current task, if it
  blocks, is not on the expired array, \<^verbatim>\<open>schedule\<close> implements the choice \<open>next_task\<close>: it returns, takes a blocked current task off
  the queues, and switches to the first task of the best queue of the active array, of the expired
  array if the active one is empty, and to the idle task if nothing is queued; the counters stay exact.  (Without the two
  conditions the idle task can be chosen although tasks are queued, as the part on starvation below shows.)\<close>

theorem schedule_correct:
  assumes "sched_inv k R qs" "exact k qs" "qs' = after_block k qs"
    "t_state (tasks k (get_current k)) \<noteq> TASK_RUNNING \<Longrightarrow> get_current k \<notin> qarr qs (rq_expired (runqueue k))"
  shows "\<exists>k' R'. schedule k = Some k' \<and> sched_inv k' R' qs' \<and> exact k' qs' \<and> same_lists R R'
    \<and> Some (get_current k') = next_task (\<lambda>_. 0) qs' (rq_active (runqueue k)) (Some 0)
    \<and> rq_active (runqueue k') = choose_array (\<lambda>_. 0) qs' (rq_active (runqueue k))"
proof -
  have "block_surplus (\<lambda>_. 0) k qs (\<lambda>_. 0)" using assms(4) by (auto simp: block_surplus_def deq_surplus_def)
  then show ?thesis
    using schedule_ok [OF assms(1) refl assms(3), where sp = "\<lambda>_. 0" and sp' = "\<lambda>_. 0"] assms(2) sched_invD(4) by fastforce
qed

text \<open>C26: Round robin.  When the tasks of the active array are ready and each has a time slice, the
  task at place \<open>i\<close> of the order has the CPU after exactly \<open>i\<close> turns (the ticks of one time
  slice, then \<^verbatim>\<open>schedule\<close>).\<close>

theorem round_robin:
  assumes "sched_inv k R qs" "exact k qs" "xs = run_order qs (rq_active (runqueue k))" "get_current k = hd xs"
    "all_ready k xs" "i < length xs"
  shows "\<exists>k'. turns i k = Some k' \<and> get_current k' = xs ! i"
proof -
  have "xs \<noteq> []" using assms(6) by auto
  from turns_ok [OF assms(1,2) assms(3) [symmetric] this assms(4-6)] show ?thesis .
qed


subsection \<open>Starvation\<close>

text \<open>
  A surplus of the counter of the active array: when its queues are empty, the idle task is chosen
  for ever, whatever waits in the expired array.
\<close>

definition starved :: "kern \<Rightarrow> (lnode \<Rightarrow> lnode list option) \<Rightarrow> queues \<Rightarrow> bool" where
  "starved k R qs \<longleftrightarrow> sched_inv k R qs \<and> get_current k = 0 \<and> t_state (tasks k 0) = TASK_RUNNING
     \<and> qarr qs (rq_active (runqueue k)) = {} \<and> (\<exists>sp. counted sp k qs \<and> sp (rq_active (runqueue k)) \<noteq> 0)"

lemma starved_step:
  assumes "starved k R qs"
  shows "\<exists>k' R'. Option.bind (scheduler_tick k) schedule = Some k' \<and> starved k' R' qs
    \<and> (\<forall>t. t_state (tasks k' t) = t_state (tasks k t))"
proof -
  from assms obtain sp where i: "sched_inv k R qs" and c: "get_current k = 0" and s: "t_state (tasks k 0) = TASK_RUNNING"
    and a: "qarr qs (rq_active (runqueue k)) = {}" and sp: "counted sp k qs" "sp (rq_active (runqueue k)) \<noteq> 0"
    unfolding starved_def by blast
  have "after_tick k qs = qs" "\<not> expires k" using c by (simp_all add: after_tick_def expires_def)
  with scheduler_tick_ok [OF i refl, where sp = sp] sp(1) c obtain k1 R1 where
    k1: "scheduler_tick k = Some k1" "sched_inv k1 R1 qs" "counted sp k1 qs" "get_current k1 = 0"
      "rq_active (runqueue k1) = rq_active (runqueue k)" "\<And>t. t_state (tasks k1 t) = t_state (tasks k t)" by auto
  have ab: "after_block k1 qs = qs" using k1(4,6) s by (simp add: after_block_def)
  from schedule_ok [OF k1(2) refl ab [symmetric], where sp = sp and sp' = sp] obtain k2 R2 where
    k2: "schedule k1 = Some k2" "sched_inv k2 R2 qs" "counted sp k2 qs" "rq_curr (runqueue k2) = next_task sp qs (rq_active (runqueue k)) (Some 0)"
      "rq_active (runqueue k2) = choose_array sp qs (rq_active (runqueue k))" "\<And>t. t_state (tasks k2 t) = t_state (tasks k1 t)"
    using k1(3,4,5,6) s by (auto simp: block_surplus_def)
  note n = next_task_empty [where sp = sp, OF a sp(2)]
  have "get_current k2 = 0" using sched_invD(4) [OF k2(2)] k2(4) n(1) [of "Some 0"] by simp
  then have "starved k2 R2 qs" unfolding starved_def using k2 n(2) a sp(2) k1(6) s by auto
  then show ?thesis using k1(1,6) k2(1,6) by auto
qed

text \<open>\<open>n\<close> rounds of a tick and a call of \<^verbatim>\<open>schedule\<close>.\<close>

fun idle_rounds :: "nat \<Rightarrow> kern \<Rightarrow> kern option" where
  "idle_rounds 0 k = Some k"
| "idle_rounds (Suc n) k = Option.bind (Option.bind (scheduler_tick k) schedule) (idle_rounds n)"

lemma starved_forever:
  "starved k R qs \<Longrightarrow> \<exists>k'. idle_rounds n k = Some k' \<and> get_current k' = 0 \<and> (\<forall>t. t_state (tasks k' t) = t_state (tasks k t)
      \<and> t_on_rq (tasks k' t) = t_on_rq (tasks k t))"
proof (induction n arbitrary: k R)
  case 0
  then show ?case by (simp add: starved_def)
next
  case (Suc n)
  from starved_step [OF Suc.prems] obtain k1 R1 where
    k1: "Option.bind (scheduler_tick k) schedule = Some k1" "starved k1 R1 qs" "\<forall>t. t_state (tasks k1 t) = t_state (tasks k t)" by blast
  have "t_on_rq (tasks k1 t) = t_on_rq (tasks k t)" for t
    using sched_repD(4) [OF sched_invD(1)] Suc.prems k1(2) unfolding starved_def by metis
  with k1 Suc.IH [OF k1(2)] show ?case by auto
qed

lemma next_task_swap:
  assumes "qarr qs a = {}" "sp a = 0" "run_order qs (1 - a) = x # xs"
  shows "next_task sp qs a idle = Some x" "choose_array sp qs a = 1 - a"
proof -
  have b: "best qs a = None" using assms(1) by (simp add: best_None)
  then show "choose_array sp qs a = 1 - a" using assms(2) by (simp add: choose_array_def)
  moreover have "choose_array sp qs (1 - a) = 1 - a" "next_task sp qs (1 - a) idle = Some x" by (rule next_task_order [OF assms(3)])+
  ultimately show "next_task sp qs a idle = Some x" by (simp add: next_task_def split: option.splits)
qed

lemma distinct_single: "distinct xs \<Longrightarrow> set xs = {b} \<Longrightarrow> xs = [b]"
  by (cases xs; cases "tl xs") auto

lemma qarr_queue_in: "j < MAX_PRIO \<Longrightarrow> qarr (queue_in a j t qs) b = (if b = a then insert t (qarr qs a) else qarr qs b)"
  unfolding queue_in_def qarr_def by (auto split: if_splits)

text \<open>C27: A task that blocks after its time slice was used up, while it waits in the expired array with
  one other task: the counter of that array stays too high, the other task runs for one time slice, and from then
  on the idle task runs for ever although the other task is ready and queued.\<close>

theorem blocked_expired_starves:
  assumes i: "sched_inv k R qs" and x: "exact k qs" and c: "c = get_current k" "t_state (tasks k c) \<noteq> TASK_RUNNING"
    and a: "qarr qs (rq_active (runqueue k)) = {}" and e: "qarr qs (rq_expired (runqueue k)) = {b, c}"
    and b: "b \<noteq> c" "b \<noteq> 0" "t_state (tasks k b) = TASK_RUNNING" "t_time_slice (tasks k b) \<noteq> 0" "t_prio (tasks k b) = t_prio (tasks k c)"
    and idle: "t_state (tasks k 0) = TASK_RUNNING"
  shows "\<exists>k1 k2. schedule k = Some k1 \<and> get_current k1 = b \<and> turn k1 = Some k2
    \<and> (\<forall>n. \<exists>k3. idle_rounds n k2 = Some k3 \<and> get_current k3 = 0 \<and> t_state (tasks k3 b) = TASK_RUNNING \<and> t_on_rq (tasks k3 b))"
proof -
  let ?a = "rq_active (runqueue k)" and ?e = "rq_expired (runqueue k)" and ?q = "unqueue c qs"
  note r = sched_invD(1) [OF i] note d = sched_repD [OF r]
  let ?s = "(\<lambda>_. 0 :: nat)(rq_expired (runqueue k) := 1)"
  have e1: "1 - ?a = ?e" "?a \<noteq> ?e" "1 - ?e = ?a" using d(7,8) by (auto simp: less_2_cases_iff)
  have "b \<in> set (qs ?e (queue_index (t_prio (tasks k c))))"
    using e b(5) d(6) [of ?e _ b] d(8) by (fastforce simp: qarr_mem)
  then have ne: "qs ?e (queue_index (t_prio (tasks k c))) \<noteq> [c]" using b(1) by auto
  have bs: "block_surplus (\<lambda>_. 0) k qs ?s" using c a e ne by (simp add: block_surplus_def deq_surplus_def)
  have ab: "?q = after_block k qs" using c by (simp add: after_block_def)
  from schedule_ok [OF i c(1) ab, where sp = "\<lambda>_. 0" and sp' = ?s] bs x obtain k1 R1 where
    k1: "schedule k = Some k1" "sched_inv k1 R1 ?q" "counted ?s k1 ?q" "rq_curr (runqueue k1) = next_task ?s ?q ?a (Some 0)"
      "rq_active (runqueue k1) = choose_array ?s ?q ?a" "\<And>t. t_state (tasks k1 t) = t_state (tasks k t)"
      "\<And>t. t_time_slice (tasks k1 t) = t_time_slice (tasks k t)" by blast
  note r1 = sched_invD(1) [OF k1(2)]
  have "distinct (run_order ?q ?e)" by (rule run_order_distinct [OF r1]) (simp add: d(8))
  moreover have "set (run_order ?q ?e) = {b}" using e b(1) by (auto simp: set_run_order)
  ultimately have o: "run_order ?q ?e = [b]" by (rule distinct_single)
  have n: "next_task ?s ?q ?a (Some 0) = Some b" "choose_array ?s ?q ?a = ?e"
    using next_task_swap [where qs = ?q and a = ?a and sp = ?s and x = b and xs = "[]"] a o e1 by simp_all
  have cur: "get_current k1 = b" using sched_invD(4) [OF k1(2)] k1(4) n(1) by simp
  have act: "rq_active (runqueue k1) = ?e" using k1(5) n(2) by simp
  from turn_ok [OF k1(2,3) o [folded act] _ _ _ _ refl] cur b k1(6,7) obtain k2 R2 qs2 where
    k2: "turn k1 = Some k2" "sched_inv k2 R2 qs2" "counted ?s k2 qs2" "rq_curr (runqueue k2) = next_task ?s qs2 ?e (Some 0)"
      "run_order qs2 ?e = []" "rq_active (runqueue k2) = choose_array ?s qs2 ?e" "b \<in> qarr qs2 (rq_expired (runqueue k1))"
      "\<And>t. t_state (tasks k2 t) = t_state (tasks k1 t)" unfolding act by auto
  have qe: "qarr qs2 ?e = {}" using k2(5) set_run_order [of qs2 ?e] by simp
  note n2 = next_task_empty [where sp = ?s, OF qe]
  have "get_current k2 = 0" using sched_invD(4) [OF k2(2)] k2(4) n2(1) [of "Some 0"] by simp
  then have st: "starved k2 R2 qs2" unfolding starved_def using k2(2,3,6,8) qe n2(2) k1(6) idle by auto
  have "rq_expired (runqueue k1) < 2" using sched_repD(8) [OF r1] by simp
  then have "b \<in> qall qs2" using k2(7) qarr_sub by blast
  then have "t_on_rq (tasks k2 b)" using sched_repD(4) [OF sched_invD(1) [OF k2(2)]] by blast
  then have "\<exists>k3. idle_rounds n k2 = Some k3 \<and> get_current k3 = 0 \<and> t_state (tasks k3 b) = TASK_RUNNING \<and> t_on_rq (tasks k3 b)" for n
    using starved_forever [OF st, of n] k1(6) k2(8) b(3) by auto
  then show ?thesis using k1(1) cur k2(1) by blast
qed

subsection \<open>A concrete run\<close>

text \<open>Two tasks of priority 129, each with a time slice of one tick, created and started after \<^verbatim>\<open>sched_init\<close>.\<close>

definition two_tasks :: kern where
  "two_tasks = upd_task 1 (\<lambda>t. t\<lparr>t_prio := 129\<rparr>) (upd_task 2 (\<lambda>t. t\<lparr>t_prio := 129\<rparr>) (static_kern boot_slabs))"

definition two_queued :: queues where
  "two_queued = queue_in 0 129 2 (queue_in 0 129 1 (\<lambda>a j. []))"

lemma idx129: "queue_index 129 = 129" "129 < MAX_PRIO" by (simp_all add: queue_index_def MAX_PRIO_def)

lemma slice129: "t_prio t = 129 \<Longrightarrow> task_timeslice t = 1"
  by (simp add: task_timeslice_def DEFAULT_PRIO_def DEF_TIMESLICE_def MIN_TIMESLICE_def MAX_TIMESLICE_def)

lemma two_queued_order: "run_order two_queued 0 = [1, 2]"
proof -
  have e: "concat (map (two_queued 0) [0..<129]) = []" "concat (map (two_queued 0) [Suc 129..<MAX_PRIO]) = []"
    by (simp_all add: two_queued_def queue_in_def)
  show ?thesis unfolding run_order_def concat_split [OF idx129(2)] e by (simp add: two_queued_def queue_in_def)
qed

lemma static_simps:
  "tasks (static_kern m) = (\<lambda>_. zero_task)(0 := init_task)" "task_table (static_kern m) = (\<lambda>_. None)" "get_current (static_kern m) = 0"
  by (simp_all add: static_kern_def get_current_def)

lemma two_running:
  "\<exists>k R. sched_run two_tasks k \<and> sched_inv k R two_queued \<and> exact k two_queued \<and> rq_active (runqueue k) = 0 \<and> get_current k = 1
    \<and> all_ready k [1, 2] \<and> t_prio (tasks k 1) = 129 \<and> t_prio (tasks k 2) = 129 \<and> t_state (tasks k 0) = TASK_RUNNING
    \<and> t_time_slice (tasks k 1) = 1 \<and> t_time_slice (tasks k 2) = 1"
proof -
  have r: "rings (lists_of two_tasks) Map.empty" "nodes Map.empty = ({} :: lnode set)" by (simp_all add: rings_def nodes_def)
  have u: "\<not> t_on_rq (tasks two_tasks t)" "get_current two_tasks = 0" "task_table two_tasks i \<noteq> Some t"
    "t_prio (tasks two_tasks 1) = 129" "t_prio (tasks two_tasks 2) = 129" "t_state (tasks two_tasks 0) = TASK_RUNNING" for t i
    by (simp_all add: two_tasks_def static_simps zero_task_def init_task_def)
  let ?k0 = "sched_init two_tasks" and ?q0 = "\<lambda>a j. []" let ?q1 = "queue_in 0 129 1 ?q0"
  have k0: "sched_inv ?k0 (with_queues Map.empty) ?q0" "exact ?k0 ?q0" "tasks ?k0 = tasks two_tasks" "get_current ?k0 = 0" "rq_active (runqueue ?k0) = 0"
    by (rule sched_init_ok [OF r(1)]; use u r(2) in simp)+
  have q0: "1 \<notin> qall ?q0" by (simp add: qall_mem)
  have q1: "2 \<notin> qall ?q1" by (simp add: qall_mem queue_in_def)
  from wake_up_new_task_ok [OF k0(1) q0 _ refl, where sp = "\<lambda>_. 0"] k0 u idx129 obtain k1 R1 where
    k1: "wake_up_new_task (Some 1) ?k0 = Some k1" "sched_inv k1 R1 ?q1" "exact k1 ?q1" "get_current k1 = 0" "rq_active (runqueue k1) = 0"
      "\<And>u. t_state (tasks k1 u) = (if u = 1 then TASK_RUNNING else t_state (tasks two_tasks u)) \<and> t_prio (tasks k1 u) = t_prio (tasks two_tasks u)
        \<and> t_time_slice (tasks k1 u) = (if u = 1 then task_timeslice (tasks two_tasks 1) else t_time_slice (tasks two_tasks u))"
    by auto
  from wake_up_new_task_ok [OF k1(2) q1 _ refl, where sp = "\<lambda>_. 0"] k1 u idx129 obtain k2 R2 where
    k2: "wake_up_new_task (Some 2) k1 = Some k2" "sched_inv k2 R2 two_queued" "exact k2 two_queued" "get_current k2 = 0" "rq_active (runqueue k2) = 0"
      "\<And>u. t_state (tasks k2 u) = (if u = 2 then TASK_RUNNING else t_state (tasks k1 u)) \<and> t_prio (tasks k2 u) = t_prio (tasks k1 u)
        \<and> t_time_slice (tasks k2 u) = (if u = 2 then task_timeslice (tasks k1 2) else t_time_slice (tasks k1 u))"
    unfolding two_queued_def by auto
  have st: "t_state (tasks k2 0) = TASK_RUNNING" "after_block k2 two_queued = two_queued" using k1(6) k2(4,6) u(6) by (simp_all add: after_block_def)
  from schedule_ok [OF k2(2) refl st(2) [symmetric], where sp = "\<lambda>_. 0" and sp' = "\<lambda>_. 0"] k2 st next_task_order [OF two_queued_order]
  obtain k3 R3 where k3: "schedule k2 = Some k3" "sched_inv k3 R3 two_queued" "exact k3 two_queued" "rq_curr (runqueue k3) = Some 1" "rq_active (runqueue k3) = 0"
      "\<And>u. t_state (tasks k3 u) = t_state (tasks k2 u) \<and> t_time_slice (tasks k3 u) = t_time_slice (tasks k2 u) \<and> t_prio (tasks k3 u) = t_prio (tasks k2 u)"
    by (auto simp: block_surplus_def)
  have "sched_run two_tasks k1" by (rule sched_run.new [OF sched_run.init _ _ k1(1)]) (use k0(3) u in auto)
  moreover have "\<not> t_on_rq (tasks k1 2)" using sched_repD(4) [OF sched_invD(1) [OF k1(2)]] q1 by blast
  ultimately have "sched_run two_tasks k2" by (intro sched_run.new [OF _ _ _ k2(1)]) auto
  then have "sched_run two_tasks k3" by (rule sched_run.sched [OF _ k3(1)])
  moreover have "get_current k3 = 1" using sched_invD(4) [OF k3(2)] k3(4) by simp
  moreover have "t_prio (tasks k3 1) = 129" "t_prio (tasks k3 2) = 129" "t_time_slice (tasks k3 1) = 1" "t_time_slice (tasks k3 2) = 1"
    "t_state (tasks k3 1) = TASK_RUNNING" "t_state (tasks k3 2) = TASK_RUNNING" "t_state (tasks k3 0) = TASK_RUNNING"
    using k3(6) k2(6) k1(6) u by (simp_all add: slice129)
  ultimately show ?thesis using k3(2,3,5) by (intro exI [of _ k3] exI [of _ R3]) (simp add: all_ready_def)
qed

theorem schedule_correct_witness:
  "\<exists>k k' R'. sched_run two_tasks k \<and> schedule k = Some k' \<and> sched_inv k' R' two_queued \<and> get_current k' = 1"
proof -
  obtain k R where k: "sched_run two_tasks k" "sched_inv k R two_queued" "exact k two_queued" "rq_active (runqueue k) = 0" "get_current k = 1"
    "all_ready k [1, 2]" using two_running by blast
  have r: "t_state (tasks k 1) = TASK_RUNNING" using k(6) by (simp add: all_ready_def)
  then have "two_queued = after_block k two_queued" using k(5) by (simp add: after_block_def)
  from schedule_correct [OF k(2,3) this] k(4,5) r next_task_order [OF two_queued_order] k(1) show ?thesis by fastforce
qed

theorem round_robin_witness: "\<exists>k k'. sched_run two_tasks k \<and> get_current k = 1 \<and> turns 1 k = Some k' \<and> get_current k' = 2"
proof -
  obtain k R where k: "sched_run two_tasks k" "sched_inv k R two_queued" "exact k two_queued" "rq_active (runqueue k) = 0" "get_current k = 1"
    "all_ready k [1, 2]" using two_running by blast
  from round_robin [OF k(2,3), of "[1, 2]" 1] k show ?thesis by (auto simp: two_queued_order)
qed

text \<open>Both tasks used up their time slices, the second one is current and blocks.\<close>

lemma sched_run_ticks: "sched_run k0 k \<Longrightarrow> ticks n k = Some k' \<Longrightarrow> sched_run k0 k'"
  by (induction n arbitrary: k) (auto split: bind_splits intro: sched_run.tick)

lemma sched_run_turn: "sched_run k0 k \<Longrightarrow> turn k = Some k' \<Longrightarrow> sched_run k0 k'"
  unfolding turn_def by (auto split: bind_splits intro: sched_run_ticks sched_run.sched)

lemma both_expired:
  "\<exists>k R qs. sched_run two_tasks k \<and> sched_inv k R qs \<and> exact k qs \<and> get_current k = 2 \<and> t_state (tasks k 2) \<noteq> TASK_RUNNING
    \<and> qarr qs (rq_active (runqueue k)) = {} \<and> qarr qs (rq_expired (runqueue k)) = {1, 2} \<and> t_state (tasks k 1) = TASK_RUNNING
    \<and> t_time_slice (tasks k 1) \<noteq> 0 \<and> t_prio (tasks k 1) = t_prio (tasks k 2) \<and> t_state (tasks k 0) = TASK_RUNNING"
proof -
  obtain k R where k: "sched_run two_tasks k" "sched_inv k R two_queued" "exact k two_queued" "rq_active (runqueue k) = 0" "get_current k = 1"
    "all_ready k [1, 2]" "t_prio (tasks k 1) = 129" "t_prio (tasks k 2) = 129" "t_state (tasks k 0) = TASK_RUNNING"
    "t_time_slice (tasks k 1) = 1" "t_time_slice (tasks k 2) = 1" using two_running by blast
  have e: "rq_expired (runqueue k) = 1" using sched_repD(8) [OF sched_invD(1) [OF k(2)]] k(4) by simp
  have st: "t_state (tasks k 1) = TASK_RUNNING" "t_state (tasks k 2) = TASK_RUNNING" using k(6) by (simp_all add: all_ready_def)
  let ?q1 = "queue_in 1 129 1 (unqueue 1 two_queued)" let ?q2 = "queue_in 1 129 2 (unqueue 2 ?q1)"
  have "run_order two_queued (rq_active (runqueue k)) = 1 # [2]" using k(4) two_queued_order by simp
  from turn_ok [OF k(2,3) this k(5) [symmetric] _ st(1) _ refl] k obtain k1 R1 where
    k1: "turn k = Some k1" "sched_inv k1 R1 ?q1" "exact k1 ?q1" "rq_curr (runqueue k1) = next_task (\<lambda>_. 0) ?q1 0 (Some 0)"
      "run_order ?q1 0 = [2]" "rq_active (runqueue k1) = choose_array (\<lambda>_. 0) ?q1 0"
      "\<And>t. t_state (tasks k1 t) = t_state (tasks k t) \<and> t_prio (tasks k1 t) = t_prio (tasks k t)
        \<and> t_time_slice (tasks k1 t) = (if t = 1 then task_timeslice (tasks k 1) else t_time_slice (tasks k t))"
    unfolding e k(4) k(7) idx129 by auto
  note n = next_task_order [OF k1(5)]
  have a1: "rq_active (runqueue k1) = 0" "get_current k1 = 2" using k1(4,6) n sched_invD(4) [OF k1(2)] by simp_all
  have e1: "rq_expired (runqueue k1) = 1" using sched_repD(8) [OF sched_invD(1) [OF k1(2)]] a1(1) by simp
  have q1: "qarr ?q1 0 = {2}" using k1(5) set_run_order [of ?q1 0] by simp
  from ticks_ok [OF k1(2,3) a1(2) [symmetric], of 0] k1(7) k q1 a1 obtain k2 R2 where
    k2: "ticks 1 k1 = Some k2" "sched_inv k2 R2 ?q2" "exact k2 ?q2" "get_current k2 = 2" "rq_active (runqueue k2) = 0" "rq_expired (runqueue k2) = 1"
      "\<And>t. t_state (tasks k2 t) = t_state (tasks k1 t) \<and> t_prio (tasks k2 t) = t_prio (tasks k1 t)
        \<and> t_time_slice (tasks k2 t) = (if t = 2 then task_timeslice (tasks k1 2) else t_time_slice (tasks k1 t))"
    unfolding e1 a1(1) by (auto simp: idx129)
  have two1: "qarr two_queued 1 = {}" by (simp add: two_queued_def queue_in_def qarr_def)
  have q2: "qarr ?q2 0 = {}" "qarr ?q2 1 = {1, 2}" using q1 two1 by (auto simp: qarr_queue_in idx129)
  let ?k = "upd_task 2 (\<lambda>x. x\<lparr>t_state := TASK_INTERRUPTIBLE, t_chan := None\<rparr>) k2"
  have "sched_run two_tasks ?k" using sched_run.state sched_run_ticks [OF sched_run_turn [OF k(1) k1(1)] k2(1)] by blast
  moreover have "sched_inv ?k R2 ?q2" "exact ?k ?q2" using k2(2,3) by (simp_all add: inv_upd_task)
  ultimately show ?thesis using k2(4-7) k1(7) k(7,8) k(9) st q2 slice129 [of "tasks k 1"]
    by (intro exI [of _ ?k] exI [of _ R2] exI [of _ ?q2]) (simp add: TASK_RUNNING_def TASK_INTERRUPTIBLE_def)
qed

theorem blocked_expired_starves_witness:
  "\<exists>k k1 k2. sched_run two_tasks k \<and> schedule k = Some k1 \<and> get_current k1 = 1 \<and> turn k1 = Some k2
    \<and> (\<forall>n. \<exists>k3. idle_rounds n k2 = Some k3 \<and> get_current k3 = 0 \<and> t_state (tasks k3 1) = TASK_RUNNING \<and> t_on_rq (tasks k3 1))"
proof -
  obtain k R qs where k: "sched_run two_tasks k" "sched_inv k R qs" "exact k qs" "2 = get_current k" "t_state (tasks k 2) \<noteq> TASK_RUNNING"
    "qarr qs (rq_active (runqueue k)) = {}" "qarr qs (rq_expired (runqueue k)) = {1, 2}" "t_state (tasks k 1) = TASK_RUNNING"
    "t_time_slice (tasks k 1) \<noteq> 0" "t_prio (tasks k 1) = t_prio (tasks k 2)" "t_state (tasks k 0) = TASK_RUNNING"
    using both_expired by metis
  from blocked_expired_starves [OF k(2-7) _ _ k(8-11)] k(1) show ?thesis by auto
qed

subsection \<open>Time slices\<close>

text \<open>C28: The time slice of a task of normal priority: it shrinks with the nice value down to one tick, but
  from priority 131 on the subtraction is negative, wraps around as an unsigned number, and gives the tasks of lowest
  priority the maximal slice of 100 ticks.\<close>

theorem task_timeslice_values:
  assumes "100 \<le> t_prio p" "t_prio p < 140"
  shows "task_timeslice p = (if t_prio p \<le> 129 then of_int (130 - t_prio p) else if t_prio p = 130 then 1 else 100)"
proof -
  obtain d where d: "d = 130 - t_prio p" by blast
  then have dr: "-10 < d" "d \<le> 30" using assms by simp_all
  have dd: "DEF_TIMESLICE - (t_prio p - DEFAULT_PRIO) = d" by (simp add: d DEF_TIMESLICE_def DEFAULT_PRIO_def)
  have e: "task_timeslice p = (let w = (of_int d :: u64); w = (if w < 1 then 1 else w) in if w > 100 then 100 else w)"
    using assms unfolding task_timeslice_def MIN_TIMESLICE_def MAX_TIMESLICE_def Let_def dd by simp
  have u: "uint (of_int d :: u64) = (if d < 0 then d + 2 ^ 64 else d)"
    using dr mod_pos_pos_trivial [of "d + 2 ^ 64" "2 ^ 64"] mod_pos_pos_trivial [of d "2 ^ 64"] by (simp add: uint_word_of_int)
  consider "1 \<le> d" | "d = 0" | "d < 0" by linarith
  then show ?thesis
  proof cases
    case 1
    then have "\<not> (of_int d :: u64) < 1" "\<not> (100 :: u64) < of_int d" using u dr unfolding word_less_def by simp_all
    then show ?thesis unfolding e using 1 d by simp
  next
    case 2
    then show ?thesis unfolding e using d by simp
  next
    case 3
    then have "\<not> (of_int d :: u64) < 1" "(100 :: u64) < of_int d" using u dr unfolding word_less_def by simp_all
    then show ?thesis unfolding e using 3 d by simp
  qed
qed

theorem task_timeslice_values_witness:
  "task_timeslice (zero_task\<lparr>t_prio := 120\<rparr>) = 10 \<and> task_timeslice (zero_task\<lparr>t_prio := 135\<rparr>) = 100"
  using task_timeslice_values [of "zero_task\<lparr>t_prio := 120\<rparr>"] task_timeslice_values [of "zero_task\<lparr>t_prio := 135\<rparr>"] by simp

end
