(* ===== verification/Fork.thy ===== *)
theory Fork
  imports SchedInv
begin

text \<open>
  Process creation, \<^verbatim>\<open>kernel/fork.c\<close>: process numbers, task structures and kernel stacks, the copying of
  a process and the creation of kernel threads.  Kernel stacks come from the page allocator and
  \<^verbatim>\<open>mm_struct\<close>s from \<^verbatim>\<open>kmalloc\<close>, both inside \<open>kmem\<close>.  \<^verbatim>\<open>get_current\<close> never returns \<^verbatim>\<open>NULL\<close>, so the branches
  for a missing current task are never taken and are left out; so are the messages on the
  console.  Addresses of code that are stored as numbers (\<^verbatim>\<open>ret_from_fork\<close>, \<^verbatim>\<open>kernel_thread_helper\<close>) are
  fixed by the linker and are arguments.
\<close>

unbundle bit_operations_syntax

record code_syms =
  ret_from_fork :: u64
  kernel_thread_helper :: u64
  init_thread :: u64

subsection \<open>Process numbers\<close>

definition PID_BITMAP_SIZE :: nat where
  "PID_BITMAP_SIZE = (nat PID_MAX + 63) div 64"

text \<open>The loop of \<^verbatim>\<open>ffs_zero\<close>; it stops at the latest at bit 64, as its argument is not all ones.\<close>

fun ffs_loop :: "u64 \<Rightarrow> nat \<Rightarrow> nat \<Rightarrow> nat" where
  "ffs_loop word b 0 = b"
| "ffs_loop word b (Suc n) = (if word AND push_bit b 1 \<noteq> 0 then ffs_loop word (Suc b) n else b)"

definition ffs_zero :: "u64 \<Rightarrow> int" where
  "ffs_zero word = (if word = NOT 0 then -1 else int (ffs_loop word 0 64))"

definition pid_spin_lock :: "kern \<Rightarrow> kern option" where
  "pid_spin_lock k = (if pid_lock k then None else Some (k\<lparr>pid_lock := True\<rparr>))"

definition pid_spin_unlock :: "kern \<Rightarrow> kern" where
  "pid_spin_unlock k = k\<lparr>pid_lock := False\<rparr>"

text \<open>
  The search of \<^verbatim>\<open>alloc_pid\<close> from word \<open>i\<close> on, with \<open>n\<close> words left.  As in the code, the variable
  \<open>pid\<close> that gives the first word is overwritten when a free bit turns out to be no valid number.
\<close>

fun pid_search :: "int \<Rightarrow> nat \<Rightarrow> nat \<Rightarrow> kern \<Rightarrow> int \<times> kern" where
  "pid_search pid i 0 k = (-1, k)"
| "pid_search pid i (Suc n) k =
     (let idx = (nat pid div 64 + i) mod PID_BITMAP_SIZE;
          w = pid_bitmap k idx;
          b = ffs_zero w
      in if w \<noteq> NOT 0 \<and> b \<ge> 0
         then
           (let pid' = int idx * 64 + b
            in if pid' > 0 \<and> pid' < PID_MAX
               then (pid', k\<lparr>pid_bitmap := (pid_bitmap k)(idx := w OR push_bit (nat b) 1), last_pid := pid'\<rparr>)
               else pid_search pid' (Suc i) n k)
         else pid_search pid (Suc i) n k)"

definition alloc_pid :: "kern \<Rightarrow> (int \<times> kern) option" where
  "alloc_pid k =
     do {
       k1 \<leftarrow> pid_spin_lock k;
       let pid = last_pid k1 + 1;
       let pid = (if pid \<ge> PID_MAX then 1 else pid);
       let (r, k2) = pid_search pid 0 PID_BITMAP_SIZE k1;
       Some (r, pid_spin_unlock k2)
     }"

definition free_pid :: "int \<Rightarrow> kern \<Rightarrow> kern option" where
  "free_pid pid k =
     (if pid \<le> 0 \<or> pid \<ge> PID_MAX then Some k
      else do {
        k1 \<leftarrow> pid_spin_lock k;
        let i = nat pid div 64;
        Some (pid_spin_unlock (k1\<lparr>pid_bitmap := (pid_bitmap k1)(i := pid_bitmap k1 i AND NOT (push_bit (nat pid mod 64) 1))\<rparr>))
      })"

definition find_task_by_pid :: "int \<Rightarrow> kern \<Rightarrow> nat option" where
  "find_task_by_pid pid k =
     map_option (\<lambda>i. the (task_table k i))
       (find (\<lambda>i. case task_table k i of Some t \<Rightarrow> t_pid (tasks k t) = pid | None \<Rightarrow> False) [0..<MAX_PROCS])"

subsection \<open>Kernel stacks\<close>

definition alloc_thread_info :: "kern \<Rightarrow> u64 \<times> kern" where
  "alloc_thread_info k =
     (let (page, fr) = alloc_pages THREAD_SIZE_ORDER (sframes (kmem k));
          k1 = k\<lparr>kmem := (kmem k)\<lparr>sframes := fr\<rparr>\<rparr>
      in if page = 0 then (0, k1)
         else (page, upd_ti page (\<lambda>ti. ti\<lparr>ti_task := None, ti_flags := 0, ti_preempt_count := 0, ti_cpu := 0, ti_addr_limit := 0,
                                    ti_kernel_sp := page + THREAD_SIZE, ti_user_sp := 0\<rparr>) k1))"

definition free_thread_info :: "u64 \<Rightarrow> kern \<Rightarrow> kern" where
  "free_thread_info ti k =
     (if ti \<noteq> 0 then k\<lparr>kmem := (kmem k)\<lparr>sframes := free_pages ti THREAD_SIZE_ORDER (sframes (kmem k))\<rparr>\<rparr> else k)"

definition setup_thread_info :: "u64 \<Rightarrow> nat option \<Rightarrow> kern \<Rightarrow> kern" where
  "setup_thread_info ti task =
     upd_ti ti (\<lambda>x. x\<lparr>ti_task := task, ti_flags := 0, ti_preempt_count := 0, ti_cpu := 0, ti_addr_limit := 0\<rparr>)"

subsection \<open>Task structures\<close>

definition TASK_CACHE_SIZE :: nat where "TASK_CACHE_SIZE = 64"

text \<open>The list nodes inside a task structure; clearing the structure clears them.\<close>

definition task_nodes :: "nat \<Rightarrow> lnode list" where
  "task_nodes t = [RunList t, Children t, Sibling t, Tasks t, Pending t, WaitHead t]"

definition clear_nodes :: "lnode list \<Rightarrow> lnode lists \<Rightarrow> lnode lists" where
  "clear_nodes ns = fold (\<lambda>n. set_next n None \<circ> set_prev n None) ns"

fun alloc_task_loop :: "nat \<Rightarrow> nat \<Rightarrow> kern \<Rightarrow> nat option \<times> kern" where
  "alloc_task_loop i 0 k = (None, k)"
| "alloc_task_loop i (Suc n) k =
     (if task_cache_bitmap k AND push_bit i 1 = 0
      then (let k1 = k\<lparr>task_cache_bitmap := task_cache_bitmap k OR push_bit i 1\<rparr>;
                p = i + 1;
                k2 = upd_task p (\<lambda>_. zero_task) k1
            in (Some p, k2\<lparr>lists_of := clear_nodes (task_nodes p) (lists_of k2)\<rparr>))
      else alloc_task_loop (Suc i) n k)"

definition alloc_task_struct :: "kern \<Rightarrow> nat option \<times> kern" where
  "alloc_task_struct k = alloc_task_loop 0 TASK_CACHE_SIZE k"

text \<open>\<^verbatim>\<open>init_task\<close> is no element of \<^verbatim>\<open>task_cache\<close>, and its index is out of range.\<close>

definition free_task_struct :: "nat option \<Rightarrow> kern \<Rightarrow> kern" where
  "free_task_struct tsk k =
     (case tsk of
        None \<Rightarrow> k
      | Some t \<Rightarrow>
          (let idx = int t - 1
           in if idx \<ge> 0 \<and> idx < int TASK_CACHE_SIZE
              then k\<lparr>task_cache_bitmap := task_cache_bitmap k AND NOT (push_bit (nat idx) 1)\<rparr> else k))"

definition fork_init :: "kern \<Rightarrow> kern" where
  "fork_init k =
     (let k1 = fold (\<lambda>i k. k\<lparr>task_table := (task_table k)(i := None)\<rparr>) [0..<MAX_PROCS] k;
          k2 = fold (\<lambda>i k. k\<lparr>pid_bitmap := (pid_bitmap k)(i := 0)\<rparr>) [0..<PID_BITMAP_SIZE] k1;
          k3 = k2\<lparr>pid_bitmap := (pid_bitmap k2)(0 := pid_bitmap k2 0 OR 1), task_cache_bitmap := 0\<rparr>;
          k4 = upd_task 0 (\<lambda>t. t\<lparr>t_group_leader := Some 0, t_parent := Some 0, t_real_parent := Some 0\<rparr>) k3;
          k5 = k4\<lparr>task_table := (task_table k4)(0 := Some 0)\<rparr>
      in init_list (RunList 0) (init_list (Sibling 0) (init_list (Children 0) k5)))"

subsection \<open>Copying the parts of a process\<close>

definition sizeof_mm_struct :: u64 where "sizeof_mm_struct = 544"

definition mm_alloc :: "kern \<Rightarrow> (u64 \<times> kern) option" where
  "mm_alloc k =
     (case kmalloc alloc_page sizeof_mm_struct (kmem k) of
        None \<Rightarrow> None
      | Some (None, m) \<Rightarrow> Some (0, k\<lparr>kmem := m\<rparr>)
      | Some (Some mm, m) \<Rightarrow> Some (mm, upd_mm mm (\<lambda>_. zero_mm\<lparr>mm_users := 1, mm_count := 1\<rparr>) (k\<lparr>kmem := m\<rparr>)))"

definition mm_free :: "u64 \<Rightarrow> kern \<Rightarrow> kern option" where
  "mm_free mm k = (if mm \<noteq> 0 then map_option (\<lambda>m. k\<lparr>kmem := m\<rparr>) (kfree free_page (Some mm) (kmem k)) else Some k)"

definition copy_mm :: "u64 \<Rightarrow> nat \<Rightarrow> kern \<Rightarrow> (int \<times> kern) option" where
  "copy_mm clone_flags p k =
     (let oldmm = t_mm (tasks k (get_current k))
      in if oldmm = 0 then Some (0, upd_task p (\<lambda>t. t\<lparr>t_mm := 0, t_active_mm := 0\<rparr>) k)
         else if clone_flags AND CLONE_VM \<noteq> 0
         then Some (0, upd_task p (\<lambda>t. t\<lparr>t_mm := oldmm, t_active_mm := oldmm\<rparr>)
                         (upd_mm oldmm (\<lambda>m. m\<lparr>mm_users := mm_users m + 1\<rparr>) k))
         else do {
           (mm, k1) \<leftarrow> mm_alloc k;
           if mm = 0 then Some (-1, k1)
           else
             (let o1 = mms k1 oldmm;
                  k2 = upd_mm mm (\<lambda>m. m\<lparr>mm_start_code := mm_start_code o1, mm_end_code := mm_end_code o1,
                         mm_start_data := mm_start_data o1, mm_end_data := mm_end_data o1, mm_start_brk := mm_start_brk o1,
                         mm_brk := mm_brk o1, mm_start_stack := mm_start_stack o1, mm_arg_start := mm_arg_start o1,
                         mm_arg_end := mm_arg_end o1, mm_env_start := mm_env_start o1, mm_env_end := mm_env_end o1,
                         mm_pgd := 0, mm_mmap := 0, mm_map_count := 0\<rparr>) k1
              in Some (0, upd_task p (\<lambda>t. t\<lparr>t_mm := mm, t_active_mm := mm\<rparr>) k2))
         })"

definition copy_files :: "u64 \<Rightarrow> nat \<Rightarrow> kern \<Rightarrow> int \<times> kern" where
  "copy_files clone_flags p k =
     (let cur = tasks k (get_current k)
      in if clone_flags AND CLONE_FILES \<noteq> 0
         then (let k1 = upd_task p (\<lambda>t. t\<lparr>t_files := t_files cur\<rparr>) k
               in (0, if t_files cur \<noteq> 0 then k1\<lparr>files_count := (files_count k1)(t_files cur := files_count k1 (t_files cur) + 1)\<rparr> else k1))
         else (0, fold (\<lambda>i. upd_task p (\<lambda>t. t\<lparr>t_ofile := (t_ofile t)(i := t_ofile cur i)\<rparr>)) [0..<MAX_OPEN_FILES] k))"

definition copy_fs :: "u64 \<Rightarrow> nat \<Rightarrow> kern \<Rightarrow> int \<times> kern" where
  "copy_fs clone_flags p k =
     (let cur = tasks k (get_current k);
          k1 = (if clone_flags AND CLONE_FS \<noteq> 0
                then (let k' = upd_task p (\<lambda>t. t\<lparr>t_fs := t_fs cur\<rparr>) k
                      in if t_fs cur \<noteq> 0 then k'\<lparr>fs_count := (fs_count k')(t_fs cur := fs_count k' (t_fs cur) + 1)\<rparr> else k')
                else upd_task p (\<lambda>t. t\<lparr>t_fs := 0\<rparr>) k)
      in (0, upd_task p (\<lambda>t. t\<lparr>t_cwd := t_cwd cur\<rparr>) k1))"

definition copy_sighand :: "u64 \<Rightarrow> nat \<Rightarrow> kern \<Rightarrow> int \<times> kern" where
  "copy_sighand clone_flags p k =
     (let k1 = upd_task p (\<lambda>t. t\<lparr>t_blocked := 0\<rparr>) k;
          k2 = init_list (Pending p) k1;
          k3 = upd_task p (\<lambda>t. t\<lparr>t_pending := 0\<rparr>) k2
      in (0, upd_task p (\<lambda>t. t\<lparr>t_blocked := t_blocked (tasks k3 (get_current k3))\<rparr>) k3))"

definition task_pt_regs :: "task_struct \<Rightarrow> u64" where
  "task_pt_regs t = t_stack t + THREAD_SIZE - PT_REGS_SIZE"

definition upd_frame :: "u64 \<Rightarrow> (trapframe \<Rightarrow> trapframe) \<Rightarrow> kern \<Rightarrow> kern" where
  "upd_frame a f k = k\<lparr>tframes := (tframes k)(a := f (tframes k a))\<rparr>"

definition copy_thread :: "code_syms \<Rightarrow> u64 \<Rightarrow> u64 \<Rightarrow> u64 \<Rightarrow> nat \<Rightarrow> kern \<Rightarrow> int \<times> kern" where
  "copy_thread y clone_flags usp regs p k =
     (let childregs = task_pt_regs (tasks k p);
          k1 = upd_task p (\<lambda>t. t\<lparr>t_trapframe := childregs\<rparr>) k;
          k2 = (if regs \<noteq> 0
                then (let k' = upd_frame childregs (\<lambda>_. (tframes k1 regs)\<lparr>tf_a0 := 0\<rparr>) k1
                      in if usp \<noteq> 0 then upd_frame childregs (\<lambda>f. f\<lparr>tf_sp := usp\<rparr>) k' else k')
                else upd_frame childregs (\<lambda>_. zero_trapframe) k1);
          k3 = upd_task p (\<lambda>t. t\<lparr>t_thread := (t_thread t)\<lparr>th_ra := ret_from_fork y, th_sp := childregs,
                  th_s := (\<lambda>i. if i < 12 then 0 else th_s (t_thread t) i)\<rparr>\<rparr>) k2
      in (0, upd_task p (\<lambda>t. t\<lparr>t_context := (t_context t)\<lparr>c_ra := ret_from_fork y, c_sp := childregs, c_s0 := 0\<rparr>\<rparr>) k3))"

subsection \<open>Processes\<close>

text \<open>Waiting queues: \<^verbatim>\<open>init_waitqueue_head\<close>; the lock inside is never taken.\<close>

definition init_waitqueue_head :: "nat \<Rightarrow> kern \<Rightarrow> kern" where
  "init_waitqueue_head p = init_list (WaitHead p)"

text \<open>The first free entry of the process table, if there is one.\<close>

definition enter_table :: "nat \<Rightarrow> kern \<Rightarrow> kern" where
  "enter_table p k =
     (case find (\<lambda>slot. task_table k slot = None) [0..<MAX_PROCS] of
        None \<Rightarrow> k
      | Some slot \<Rightarrow> k\<lparr>task_table := (task_table k)(slot := Some p)\<rparr>)"

text \<open>Steps 3 to 5 of \<^verbatim>\<open>copy_process\<close>, up to the process number.\<close>

definition inherit :: "nat \<Rightarrow> u64 \<Rightarrow> kern \<Rightarrow> kern" where
  "inherit p ti k =
     (let cur = tasks k (get_current k);
          k1 = upd_task p (\<lambda>t. t\<lparr>t_state := TASK_RUNNING, t_flags := t_flags cur AND NOT PF_IDLE, t_prio := t_prio cur,
                 t_static_prio := t_static_prio cur, t_normal_prio := t_normal_prio cur, t_policy := t_policy cur,
                 t_uid := t_uid cur, t_euid := t_euid cur, t_gid := t_gid cur, t_egid := t_egid cur\<rparr>) k;
          k2 = upd_ti ti (\<lambda>x. x\<lparr>ti_task := Some p\<rparr>) k1
      in upd_task p (\<lambda>t. t\<lparr>t_stack := ti\<rparr>) k2)"

text \<open>The error exits of \<^verbatim>\<open>copy_process\<close>: all labels end in \<^verbatim>\<open>bad_fork_cleanup\<close>.\<close>

definition bad_fork_cleanup :: "nat \<Rightarrow> u64 \<Rightarrow> kern \<Rightarrow> kern option" where
  "bad_fork_cleanup p ti k =
     map_option (\<lambda>k1. free_task_struct (Some p) (free_thread_info ti k1)) (free_pid (t_pid (tasks k p)) k)"

text \<open>Steps 11 to 16.\<close>

definition link_process :: "u64 \<Rightarrow> nat \<Rightarrow> kern \<Rightarrow> kern option" where
  "link_process clone_flags p k =
     (let c = get_current k;
          cur = tasks k c;
          k1 = init_list (RunList p) (init_list (Sibling p) (init_list (Children p) k));
          k2 = upd_task p (\<lambda>t. t\<lparr>t_parent := Some c, t_real_parent := Some c,
                 t_group_leader := (if clone_flags AND CLONE_THREAD \<noteq> 0 then t_group_leader cur else Some p)\<rparr>) k1
      in do {
        k3 \<leftarrow> (if c \<noteq> p then on_lists (list_add_tail (Sibling p) (Children c)) k2 else Some k2);
        let k4 = fold (\<lambda>i. upd_task p (\<lambda>t. t\<lparr>t_comm := (t_comm t)(i := t_comm cur i)\<rparr>)) [0..<TASK_COMM_LEN] k3;
        let k5 = upd_task p (\<lambda>t. t\<lparr>t_exit_code := 0,
                   t_exit_signal := (if clone_flags AND CLONE_THREAD \<noteq> 0 then -1 else SIGCHLD), t_killed := 0, t_chan := None\<rparr>) k4;
        let k6 = enter_table p (init_waitqueue_head p k5);
        on_lists (list_add_tail (Tasks p) (Tasks 0)) k6
      })"

definition copy_process :: "code_syms \<Rightarrow> u64 \<Rightarrow> u64 \<Rightarrow> u64 \<Rightarrow> kern \<Rightarrow> ((int + nat) \<times> kern) option" where
  "copy_process y clone_flags stack_start regs k =
     (case alloc_task_struct k of
        (None, k1) \<Rightarrow> Some (Inl (-1), k1)
      | (Some p, k1) \<Rightarrow>
          (let (ti, k2) = alloc_thread_info k1
           in if ti = 0 then Some (Inl (-1), free_task_struct (Some p) k2)
              else do {
                (pid, k3) \<leftarrow> alloc_pid (inherit p ti k2);
                let k4 = upd_task p (\<lambda>t. t\<lparr>t_pid := pid\<rparr>) k3;
                let cur = tasks k4 (get_current k4);
                if pid < 0 then Some (Inl (-1), free_task_struct (Some p) (free_thread_info ti k4))
                else do {
                  let k5 = upd_task p (\<lambda>t. t\<lparr>t_tgid := (if clone_flags AND CLONE_THREAD \<noteq> 0 then t_tgid cur else pid), t_ppid := t_pid cur,
                             t_on_rq := False, t_time_slice := of_int DEF_TIMESLICE, t_utime := 0, t_stime := 0, t_nvcsw := 0, t_nivcsw := 0\<rparr>) k4;
                  (retval, k6) \<leftarrow> copy_mm clone_flags p k5;
                  if retval \<noteq> 0 then map_option (\<lambda>k'. (Inl retval, k')) (bad_fork_cleanup p ti k6)
                  else do {
                    let (_, k7) = copy_files clone_flags p k6;
                    let (_, k8) = copy_fs clone_flags p k7;
                    let (_, k9) = copy_sighand clone_flags p k8;
                    let (_, k10) = copy_thread y clone_flags stack_start regs p k9;
                    k11 \<leftarrow> link_process clone_flags p k10;
                    Some (Inr p, k11)
                  }
                }
              }))"

definition do_fork :: "code_syms \<Rightarrow> u64 \<Rightarrow> u64 \<Rightarrow> u64 \<Rightarrow> kern \<Rightarrow> (int \<times> kern) option" where
  "do_fork y clone_flags stack_start regs k =
     do {
       (r, k1) \<leftarrow> copy_process y clone_flags stack_start regs k;
       case r of
         Inl e \<Rightarrow> Some (e, k1)
       | Inr p \<Rightarrow> map_option (\<lambda>k2. (t_pid (tasks k2 p), k2)) (wake_up_new_task (Some p) k1)
     }"

definition sys_fork :: "code_syms \<Rightarrow> kern \<Rightarrow> (int \<times> kern) option" where
  "sys_fork y k = do_fork y (of_int SIGCHLD) 0 (task_pt_regs (tasks k (get_current k))) k"

definition sys_vfork :: "code_syms \<Rightarrow> kern \<Rightarrow> (int \<times> kern) option" where
  "sys_vfork y k = do_fork y (CLONE_VFORK OR CLONE_VM OR of_int SIGCHLD) 0 (task_pt_regs (tasks k (get_current k))) k"

definition sys_clone :: "code_syms \<Rightarrow> u64 \<Rightarrow> u64 \<Rightarrow> kern \<Rightarrow> (int \<times> kern) option" where
  "sys_clone y clone_flags newsp k = do_fork y clone_flags newsp (task_pt_regs (tasks k (get_current k))) k"

subsection \<open>Kernel threads\<close>

text \<open>Steps 3 and 5 to 8 of \<^verbatim>\<open>kernel_thread\<close>.\<close>

definition kthread_fields :: "nat \<Rightarrow> u64 \<Rightarrow> kern \<Rightarrow> kern" where
  "kthread_fields p ti k =
     (let k1 = upd_task p (\<lambda>t. t\<lparr>t_state := TASK_RUNNING, t_flags := PF_KTHREAD, t_prio := DEFAULT_PRIO, t_static_prio := DEFAULT_PRIO,
                 t_normal_prio := DEFAULT_PRIO, t_policy := SCHED_NORMAL, t_uid := 0, t_euid := 0, t_gid := 0, t_egid := 0\<rparr>) k;
          k2 = upd_ti ti (\<lambda>x. x\<lparr>ti_task := Some p\<rparr>) k1
      in upd_task p (\<lambda>t. t\<lparr>t_stack := ti\<rparr>) k2)"

definition kthread_entry :: "code_syms \<Rightarrow> u64 \<Rightarrow> u64 \<Rightarrow> nat \<Rightarrow> int \<Rightarrow> u64 \<Rightarrow> kern \<Rightarrow> kern" where
  "kthread_entry y fn arg p pid ti =
     upd_task p (\<lambda>t. t\<lparr>t_tgid := pid, t_ppid := 0, t_mm := 0, t_active_mm := 0, t_on_rq := False,
       t_time_slice := of_int DEF_TIMESLICE, t_utime := 0, t_stime := 0,
       t_thread := (t_thread t)\<lparr>th_kthread_fn := fn, th_kthread_arg := arg, th_ra := kernel_thread_helper y, th_sp := ti + THREAD_SIZE\<rparr>,
       t_context := (t_context t)\<lparr>c_ra := kernel_thread_helper y, c_sp := ti + THREAD_SIZE - 16, c_s0 := 0\<rparr>\<rparr>)"

text \<open>Steps 9 to 14.\<close>

definition link_kthread :: "nat \<Rightarrow> kern \<Rightarrow> kern option" where
  "link_kthread p k =
     (let k1 = init_list (RunList p) (init_list (Sibling p) (init_list (Children p) k));
          k2 = upd_task p (\<lambda>t. t\<lparr>t_parent := Some 0, t_real_parent := Some 0, t_group_leader := Some p\<rparr>) k1
      in do {
        k3 \<leftarrow> on_lists (list_add_tail (Sibling p) (Children 0)) k2;
        let k4 = fold (\<lambda>i. upd_task p (\<lambda>t. t\<lparr>t_comm := (t_comm t)(i := chars_of ''kthread'' i)\<rparr>)) [0..<8] k3;
        let k5 = upd_task p (\<lambda>t. t\<lparr>t_exit_code := 0, t_exit_signal := 0, t_killed := 0, t_chan := None\<rparr>) k4;
        let k6 = enter_table p (init_waitqueue_head p k5);
        on_lists (list_add_tail (Tasks p) (Tasks 0)) k6
      })"

definition kernel_thread :: "code_syms \<Rightarrow> u64 \<Rightarrow> u64 \<Rightarrow> u64 \<Rightarrow> kern \<Rightarrow> (int \<times> kern) option" where
  "kernel_thread y fn arg flags k =
     (case alloc_task_struct k of
        (None, k1) \<Rightarrow> Some (-1, k1)
      | (Some p, k1) \<Rightarrow>
          (let (ti, k2) = alloc_thread_info k1
           in if ti = 0 then Some (-1, free_task_struct (Some p) k2)
              else do {
                (pid, k3) \<leftarrow> alloc_pid (kthread_fields p ti k2);
                let k4 = upd_task p (\<lambda>t. t\<lparr>t_pid := pid\<rparr>) k3;
                if pid < 0 then Some (-1, free_task_struct (Some p) (free_thread_info ti k4))
                else do {
                  k5 \<leftarrow> link_kthread p (kthread_entry y fn arg p pid ti k4);
                  k6 \<leftarrow> wake_up_new_task (Some p) k5;
                  Some (t_pid (tasks k6 p), k6)
                }
              }))"

end
