(* ===== verification/Exit.thy ===== *)
theory Exit
  imports Fork
begin

text \<open>
  Process termination and waiting, \<^verbatim>\<open>kernel/exit.c\<close>, and the start of the process subsystem,
  \<^verbatim>\<open>kernel/init_proc.c\<close>.  As in \<^verbatim>\<open>Fork\<close>, the current task is never \<^verbatim>\<open>NULL\<close>, and console messages are left out.
\<close>

unbundle bit_operations_syntax

subsection \<open>Wait status\<close>

definition ECHILD :: int where "ECHILD = 10"
definition EINTR :: int where "EINTR = 4"
definition WNOHANG :: int where "WNOHANG = 1"

definition WEXITSTATUS :: "int \<Rightarrow> int" where "WEXITSTATUS s = drop_bit 8 s AND 0xff"
definition WTERMSIG :: "int \<Rightarrow> int" where "WTERMSIG s = s AND 0x7f"
definition WIFEXITED :: "int \<Rightarrow> bool" where "WIFEXITED s \<longleftrightarrow> WTERMSIG s = 0"
definition WIFSIGNALED :: "int \<Rightarrow> bool" where "WIFSIGNALED s \<longleftrightarrow> WTERMSIG s \<noteq> 0 \<and> WTERMSIG s \<noteq> 0x7f"
definition WIFSTOPPED :: "int \<Rightarrow> bool" where "WIFSTOPPED s \<longleftrightarrow> WTERMSIG s = 0x7f"

subsection \<open>Releasing the parts of a process\<close>

text \<open>
  \<^verbatim>\<open>exit_mm\<close> clears \<^verbatim>\<open>mm\<close> but not \<^verbatim>\<open>active_mm\<close>, which dangles once \<^verbatim>\<open>mm_free\<close> has given the structure back to
  \<^verbatim>\<open>kmalloc\<close>; the next \<^verbatim>\<open>context_switch\<close> counts \<^verbatim>\<open>mm_count\<close> up and down through it.  The model keeps the \<^verbatim>\<open>mm_struct\<close>s in a map of
  their own, indexed by address, apart from the bytes of the heap.  There such an access after the free changes a counter of a structure nobody
  uses; in the kernel it writes to memory that may already belong to another object.  The theorems on processes say nothing about
  that memory.
\<close>

definition exit_mm :: "nat \<Rightarrow> kern \<Rightarrow> kern option" where
  "exit_mm tsk k =
     (let mm = t_mm (tasks k tsk)
      in if mm = 0 then Some k
         else
           (let k1 = upd_task tsk (\<lambda>t. t\<lparr>t_mm := 0\<rparr>) k;
                k2 = upd_mm mm (\<lambda>m. m\<lparr>mm_users := mm_users m - 1\<rparr>) k1
            in if mm_users (mms k2 mm) = 0 then mm_free mm k2 else Some k2))"

definition exit_files :: "nat \<Rightarrow> kern \<Rightarrow> kern" where
  "exit_files tsk k =
     (let k1 = fold (\<lambda>i. upd_task tsk (\<lambda>t. if t_ofile t i \<noteq> 0 then t\<lparr>t_ofile := (t_ofile t)(i := 0)\<rparr> else t)) [0..<MAX_OPEN_FILES] k;
          f = t_files (tasks k1 tsk)
      in if f \<noteq> 0 then upd_task tsk (\<lambda>t. t\<lparr>t_files := 0\<rparr>) (k1\<lparr>files_count := (files_count k1)(f := files_count k1 f - 1)\<rparr>) else k1)"

definition exit_fs :: "nat \<Rightarrow> kern \<Rightarrow> kern" where
  "exit_fs tsk k =
     (let f = t_fs (tasks k tsk);
          k1 = (if f \<noteq> 0 then upd_task tsk (\<lambda>t. t\<lparr>t_fs := 0\<rparr>) (k\<lparr>fs_count := (fs_count k)(f := fs_count k f - 1)\<rparr>) else k)
      in upd_task tsk (\<lambda>t. t\<lparr>t_cwd := 0\<rparr>) k1)"

definition exit_sighand :: "nat \<Rightarrow> kern \<Rightarrow> kern" where
  "exit_sighand tsk k = init_list (Pending tsk) (upd_task tsk (\<lambda>t. t\<lparr>t_blocked := 0, t_pending := 0\<rparr>) k)"

text \<open>
  The loop over the children: \<open>pos\<close> is the node of the loop variable and \<open>n\<close> the one saved for the
  next round, as in \<^verbatim>\<open>list_for_each_entry_safe\<close>.
\<close>

definition move_child :: "nat \<Rightarrow> kern \<Rightarrow> kern option" where
  "move_child child k =
     (let k1 = upd_task child (\<lambda>t. t\<lparr>t_parent := Some 0, t_real_parent := Some 0\<rparr>) k
      in Option.bind (on_lists (list_del_entry (Sibling child)) k1) (on_lists (list_add_tail (Sibling child) (Children 0))))"

partial_function (option) exit_notify_loop :: "nat \<Rightarrow> lnode \<Rightarrow> lnode \<Rightarrow> kern \<Rightarrow> kern option" where
  "exit_notify_loop tsk pos n k =
     (if pos = Children tsk then Some k
      else
        (case pos of
           Sibling child \<Rightarrow>
             do {
               k1 \<leftarrow> move_child child k;
               n' \<leftarrow> lnext (lists_of k1) n;
               exit_notify_loop tsk n n' k1
             }
         | _ \<Rightarrow> None))"

definition exit_notify :: "nat \<Rightarrow> kern \<Rightarrow> kern option" where
  "exit_notify tsk k =
     do {
       pos \<leftarrow> lnext (lists_of k) (Children tsk);
       n \<leftarrow> lnext (lists_of k) pos;
       exit_notify_loop tsk pos n k
     }"

subsection \<open>Exit\<close>

text \<open>
  The conversion of the argument, a 64-bit \<^verbatim>\<open>long\<close>, when it is assigned to the 32-bit field \<^verbatim>\<open>exit_code\<close>: the low
  32 bits, read as a signed number.
\<close>

definition long_to_int :: "int \<Rightarrow> int" where
  "long_to_int n = signed_take_bit 31 n"

text \<open>The result is the state in which the next task runs: the exiting one never comes back.\<close>

definition do_exit :: "int \<Rightarrow> kern \<Rightarrow> kern option" where
  "do_exit code k =
     (let tsk = get_current k;
          k1 = upd_task tsk (\<lambda>t. t\<lparr>t_flags := t_flags t OR PF_EXITING, t_exit_code := long_to_int code\<rparr>) k
      in do {
        k2 \<leftarrow> exit_mm tsk k1;
        let k3 = exit_sighand tsk (exit_fs tsk (exit_files tsk k2));
        k4 \<leftarrow> exit_notify tsk k3;
        let k5 = upd_task tsk (\<lambda>t. t\<lparr>t_state := TASK_ZOMBIE\<rparr>) k4;
        k6 \<leftarrow> (case t_parent (tasks k5 tsk) of
                 None \<Rightarrow> Some k5
               | Some p \<Rightarrow> if p \<noteq> tsk then wakeup (Some (WaitChldexit p)) k5 else Some k5);
        schedule k6
      })"

definition sys_exit :: "int \<Rightarrow> kern \<Rightarrow> kern option" where
  "sys_exit error_code k = do_exit (push_bit 8 (error_code AND 0xff)) k"

definition sys_exit_group :: "int \<Rightarrow> kern \<Rightarrow> kern option" where
  "sys_exit_group error_code k = do_exit (push_bit 8 (error_code AND 0xff)) k"

subsection \<open>Waiting\<close>

definition leave_table :: "nat \<Rightarrow> kern \<Rightarrow> kern" where
  "leave_table p k =
     (case find (\<lambda>i. task_table k i = Some p) [0..<MAX_PROCS] of
        None \<Rightarrow> k
      | Some i \<Rightarrow> k\<lparr>task_table := (task_table k)(i := None)\<rparr>)"

definition release_task :: "nat option \<Rightarrow> kern \<Rightarrow> kern option" where
  "release_task p k =
     (case p of
        None \<Rightarrow> Some k
      | Some t \<Rightarrow>
          do {
            k1 \<leftarrow> on_lists (list_del_entry (Sibling t)) k;
            k2 \<leftarrow> on_lists (list_del_entry (Tasks t)) k1;
            k3 \<leftarrow> free_pid (t_pid (tasks k2 t)) (leave_table t k2);
            let k4 = (if t_stack (tasks k3 t) \<noteq> 0 then free_thread_info (t_stack (tasks k3 t)) k3 else k3);
            Some (free_task_struct (Some t) k4)
          })"

text \<open>Whether a child is one the caller waits for.\<close>

definition wait_match :: "int \<Rightarrow> nat \<Rightarrow> nat \<Rightarrow> kern \<Rightarrow> bool" where
  "wait_match pid cur child k \<longleftrightarrow>
     \<not> (pid > 0 \<and> t_pid (tasks k child) \<noteq> pid)
     \<and> \<not> (pid = 0 \<and> t_pgrp (tasks k child) \<noteq> t_pgrp (tasks k cur))
     \<and> \<not> (pid < -1 \<and> t_pgrp (tasks k child) \<noteq> - pid)"

text \<open>
  The search among the children: the first matching zombie, or whether there is a matching child
  at all (\<^verbatim>\<open>retval\<close> set to 0).  The loop follows the \<^verbatim>\<open>sibling\<close> nodes until it is back at the head.
\<close>

datatype wait_scan = Zombie nat | Waiting | NoChild

partial_function (option) wait_loop :: "int \<Rightarrow> nat \<Rightarrow> wait_scan \<Rightarrow> lnode \<Rightarrow> kern \<Rightarrow> wait_scan option" where
  "wait_loop pid cur r pos k =
     (if pos = Children cur then Some r
      else
        (case pos of
           Sibling child \<Rightarrow>
             if \<not> wait_match pid cur child k
             then Option.bind (lnext (lists_of k) pos) (\<lambda>n. wait_loop pid cur r n k)
             else if t_state (tasks k child) = TASK_ZOMBIE then Some (Zombie child)
             else Option.bind (lnext (lists_of k) pos) (\<lambda>n. wait_loop pid cur Waiting n k)
         | _ \<Rightarrow> None))"

text \<open>
  One pass of \<^verbatim>\<open>do_wait\<close> by the task \<open>cur\<close>: it returns a value and, for a reaped child, its exit code,
  or blocks, with the state in which another task goes on.  When \<open>cur\<close> runs again it continues with
  \<open>do_wait_resume\<close>.
\<close>

datatype wait_result = Returned int "int option" kern | Blocked kern

definition do_wait_pass :: "int \<Rightarrow> int \<Rightarrow> nat \<Rightarrow> kern \<Rightarrow> wait_result option" where
  "do_wait_pass pid options cur k =
     do {
       first \<leftarrow> lnext (lists_of k) (Children cur);
       r \<leftarrow> wait_loop pid cur NoChild first k;
       case r of
         Zombie child \<Rightarrow>
           map_option (Returned (t_pid (tasks k child)) (Some (t_exit_code (tasks k child)))) (release_task (Some child) k)
       | NoChild \<Rightarrow> Some (Returned (- ECHILD) None k)
       | Waiting \<Rightarrow>
           if options AND WNOHANG \<noteq> 0 then Some (Returned 0 None k)
           else map_option Blocked
                  (schedule (upd_task cur (\<lambda>t. t\<lparr>t_chan := Some (WaitChldexit cur), t_state := TASK_INTERRUPTIBLE\<rparr>) k))
     }"

definition do_wait :: "int \<Rightarrow> int \<Rightarrow> kern \<Rightarrow> wait_result option" where
  "do_wait pid options k = do_wait_pass pid options (get_current k) k"

definition do_wait_resume :: "int \<Rightarrow> int \<Rightarrow> nat \<Rightarrow> kern \<Rightarrow> wait_result option" where
  "do_wait_resume pid options cur k =
     (if t_killed (tasks k cur) \<noteq> 0 then Some (Returned (- EINTR) None k) else do_wait_pass pid options cur k)"

definition sys_wait4 :: "int \<Rightarrow> int \<Rightarrow> kern \<Rightarrow> wait_result option" where
  "sys_wait4 pid options k = do_wait pid options k"

definition sys_waitpid :: "int \<Rightarrow> int \<Rightarrow> kern \<Rightarrow> wait_result option" where
  "sys_waitpid pid options k = do_wait pid options k"

definition sys_wait :: "kern \<Rightarrow> wait_result option" where
  "sys_wait k = do_wait (-1) 0 k"

subsection \<open>Killing\<close>

definition kill_process :: "int \<Rightarrow> kern \<Rightarrow> (int \<times> kern) option" where
  "kill_process pid k =
     (case find_task_by_pid pid k of
        None \<Rightarrow> Some (-1, k)
      | Some p \<Rightarrow>
          (let k1 = upd_task p (\<lambda>t. t\<lparr>t_killed := 1\<rparr>) k
           in if t_state (tasks k1 p) = TASK_INTERRUPTIBLE \<or> t_state (tasks k1 p) = TASK_UNINTERRUPTIBLE
              then map_option (\<lambda>r. (0, snd r)) (wake_up_process (Some p) k1)
              else Some (0, k1)))"

definition sys_kill :: "int \<Rightarrow> int \<Rightarrow> kern \<Rightarrow> (int \<times> kern) option" where
  "sys_kill pid sig k = (if pid > 0 then kill_process pid k else Some (0, k))"

subsection \<open>Start of the process subsystem\<close>

definition setup_idle_process :: "kern \<Rightarrow> kern" where
  "setup_idle_process k =
     (let k1 = (if t_stack (tasks k 0) = 0
                then (let (ti, k') = alloc_thread_info k
                      in if ti \<noteq> 0
                         then upd_ti ti (\<lambda>x. x\<lparr>ti_kernel_sp := ti + THREAD_SIZE\<rparr>)
                                (upd_task 0 (\<lambda>t. t\<lparr>t_stack := ti\<rparr>) (upd_ti ti (\<lambda>x. x\<lparr>ti_task := Some 0\<rparr>) k'))
                         else k')
                else k)
      in set_current (Some 0) k1)"

definition create_init_process :: "code_syms \<Rightarrow> kern \<Rightarrow> kern option" where
  "create_init_process y k =
     do {
       (pid, k1) \<leftarrow> kernel_thread y (init_thread y) 0 0 k;
       if pid < 0 then Some k1
       else (case find_task_by_pid pid k1 of
               None \<Rightarrow> Some k1
             | Some p \<Rightarrow>
                 (let k2 = fold (\<lambda>i. upd_task p (\<lambda>t. t\<lparr>t_comm := (t_comm t)(i := chars_of ''init'' i)\<rparr>)) [0..<5] k1
                  in Some (upd_task p (\<lambda>t. t\<lparr>t_session := pid, t_pgrp := pid\<rparr>) k2)))
     }"

definition proc_subsystem_init :: "kern \<Rightarrow> kern" where
  "proc_subsystem_init k = setup_idle_process (sched_init (fork_init k))"

text \<open>\<^verbatim>\<open>start_init\<close> up to the call of \<^verbatim>\<open>schedule\<close>; what follows is the idle loop.\<close>

definition start_init :: "code_syms \<Rightarrow> kern \<Rightarrow> kern option" where
  "start_init y k = Option.bind (create_init_process y k) schedule"

end
