(* ===== verification/ProcInv.thy ===== *)
theory ProcInv
  imports Exit
begin

text \<open>
  The invariant of the process code and what the operations of the scheduler, of the allocators and of
  the process numbers leave alone.  The invariant, \<open>proc_inv\<close>, ties the bitmap of task structures, the
  process table, the process numbers, the lists of children and of all tasks, the kernel stacks and
  the user counts of address spaces to the set of live tasks.
\<close>

unbundle bit_operations_syntax

subsection \<open>Process numbers\<close>

text \<open>The process numbers in use.\<close>

definition pid_used :: "kern \<Rightarrow> int \<Rightarrow> bool" where
  "pid_used k pid \<longleftrightarrow> 0 \<le> pid \<and> pid < PID_MAX \<and> test_bit (nat pid) (pid_bitmap k)"

lemma ffs_loop_ok:
  "(\<forall>i < b. bit w i) \<Longrightarrow> b + n = 64 \<Longrightarrow> \<exists>i < 64. \<not> bit w i \<Longrightarrow>
   ffs_loop w b n < 64 \<and> \<not> bit w (ffs_loop w b n) \<and> (\<forall>i < ffs_loop w b n. bit w i)"
proof (induction n arbitrary: b)
  case (Suc n)
  show ?case
  proof (cases "bit w b")
    case True
    then have "\<forall>i < Suc b. bit w i" using Suc.prems(1) by (simp add: less_Suc_eq)
    with Suc.IH [of "Suc b"] Suc.prems(2,3) True show ?thesis by (simp add: and_exp_eq_0_iff_not_bit)
  qed (use Suc.prems in \<open>simp add: and_exp_eq_0_iff_not_bit\<close>)
qed auto

lemma word_full: "(w :: u64) = NOT 0 \<longleftrightarrow> (\<forall>i < 64. bit w i)"
  by (auto simp: bit_eq_iff bit_not_iff dest: bit_imp_le_length)

lemma ffs_zero_ok:
  assumes "w \<noteq> NOT 0"
  shows "\<exists>b < 64. ffs_zero w = int b \<and> \<not> bit w b \<and> (\<forall>i < b. bit w i)"
  using ffs_loop_ok [of 0 w 64] assms word_full [of w] by (auto simp: ffs_zero_def)

lemma pid_bitmap_size: "PID_BITMAP_SIZE = 512" by (simp add: PID_BITMAP_SIZE_def PID_MAX_def)

lemma full_word_pids: "pid_bitmap k i = NOT 0 \<longleftrightarrow> (\<forall>b < 64. test_bit (i * 64 + b) (pid_bitmap k))"
  unfolding word_full by (simp add: test_bit_iff)

text \<open>The search, in a state in which number 0 is taken: the words before \<open>i\<close> (from the starting word on) are full.\<close>

lemma pid_search_ok:
  assumes z: "test_bit 0 (pid_bitmap k)" and n: "i + n = 512"
    and full: "\<forall>j < i. pid_bitmap k ((w0 + j) mod 512) = NOT 0" and pid: "w0 = nat pid div 64"
  shows "case pid_search pid i n k of (r, k') \<Rightarrow>
     if r = -1 then k' = k \<and> (\<forall>p. 0 \<le> p \<and> p < PID_MAX \<longrightarrow> pid_used k p)
     else 0 < r \<and> r < PID_MAX \<and> \<not> pid_used k r
       \<and> k' = k\<lparr>pid_bitmap := set_bit_at (nat r) (pid_bitmap k), last_pid := r\<rparr>"
  using n full
proof (induction n arbitrary: i)
  case 0
  have "pid_used k p" if "0 \<le> p" "p < PID_MAX" for p
  proof -
    have lt: "nat p div 64 < 512" using that by (simp add: PID_MAX_def)
    define j where "j = (nat p div 64 + (512 - w0 mod 512)) mod 512"
    have "w0 + (nat p div 64 + (512 - w0 mod 512)) = nat p div 64 + 512 * (w0 div 512 + 1)"
    proof -
      obtain d m where d: "d = w0 div 512" "m = w0 mod 512" by blast
      then have "m < 512" "w0 = 512 * d + m" by simp_all
      then show ?thesis unfolding d [symmetric] by simp
    qed
    then have "(w0 + j) mod 512 = (nat p div 64 + 512 * (w0 div 512 + 1)) mod 512" unfolding j_def by (simp only: mod_add_right_eq)
    also have "\<dots> = nat p div 64" using lt by (simp only: mod_mult_self2 mod_less)
    finally have "(w0 + j) mod 512 = nat p div 64" .
    moreover have "j < i" using 0(1) by (simp add: j_def)
    ultimately have "pid_bitmap k (nat p div 64) = NOT 0" using 0(2) by metis
    then have f: "\<forall>b < 64. test_bit (nat p div 64 * 64 + b) (pid_bitmap k)" unfolding full_word_pids .
    from f [rule_format, of "nat p mod 64"] have "test_bit (nat p) (pid_bitmap k)" by simp
    then show ?thesis using that by (simp add: pid_used_def)
  qed
  then show ?case by simp
next
  case (Suc n)
  let ?x = "(w0 + i) mod 512" let ?w = "pid_bitmap k ?x"
  have x: "(nat pid div 64 + i) mod PID_BITMAP_SIZE = ?x" by (simp add: pid pid_bitmap_size)
  show ?case
  proof (cases "?w = NOT 0")
    case True
    have "\<forall>j < Suc i. pid_bitmap k ((w0 + j) mod 512) = NOT 0" using True Suc.prems(2) by (simp add: less_Suc_eq)
    with Suc.IH [of "Suc i"] Suc.prems(1) True show ?thesis by (simp add: x Let_def)
  next
    case False
    then obtain b where b: "b < 64" "ffs_zero ?w = int b" "\<not> bit ?w b" using ffs_zero_ok by blast
    obtain p where p: "p = ?x * 64 + b" by blast
    have t: "\<not> test_bit p (pid_bitmap k)" using b p by (simp add: test_bit_iff)
    then have p0: "0 < p" using z by (metis gr0I)
    have "?x < 512" by simp
    then have pm: "p < 32768" using b(1) p by linarith
    have e: "int ?x * 64 + int b = int p" by (simp add: p)
    have "set_bit_at p (pid_bitmap k) = (pid_bitmap k)(?x := ?w OR push_bit b 1)" using b(1) p by (simp add: set_bit_at_def)
    then have "pid_search pid i (Suc n) k = (int p, k\<lparr>pid_bitmap := set_bit_at p (pid_bitmap k), last_pid := int p\<rparr>)"
      using False b(2) p0 pm by (simp add: x Let_def PID_MAX_def e)
    then show ?thesis using t p0 pm by (simp add: pid_used_def PID_MAX_def del: pid_search.simps)
  qed
qed

lemma pid_used_lock [simp]: "pid_used (k\<lparr>pid_lock := b\<rparr>) = pid_used k" by (auto simp: pid_used_def)

lemma pid_unlocked: "\<not> pid_lock k \<Longrightarrow> k\<lparr>pid_lock := False\<rparr> = k" by (cases k) simp

text \<open>What \<^verbatim>\<open>alloc_pid\<close> and \<^verbatim>\<open>free_pid\<close> leave alone, and their effect on the numbers in use.\<close>

lemma alloc_pid_ok:
  assumes "\<not> pid_lock k" "pid_used k 0"
  shows "\<exists>r k'. alloc_pid k = Some (r, k') \<and>
     (if r = -1 then k' = k \<and> (\<forall>p. 0 \<le> p \<and> p < PID_MAX \<longrightarrow> pid_used k p)
      else 0 < r \<and> r < PID_MAX \<and> \<not> pid_used k r
        \<and> k' = k\<lparr>pid_bitmap := set_bit_at (nat r) (pid_bitmap k), last_pid := r\<rparr>)"
proof -
  let ?k = "k\<lparr>pid_lock := True\<rparr>" and ?p = "if last_pid k + 1 \<ge> PID_MAX then 1 else last_pid k + 1"
  obtain r k1 where s: "pid_search ?p 0 512 ?k = (r, k1)" by (cases "pid_search ?p 0 512 ?k")
  have "test_bit 0 (pid_bitmap ?k)" using assms(2) by (simp add: pid_used_def)
  from pid_search_ok [OF this, of 0 512 "nat ?p div 64" ?p] s
  have c: "if r = -1 then k1 = ?k \<and> (\<forall>p. 0 \<le> p \<and> p < PID_MAX \<longrightarrow> pid_used k p)
     else 0 < r \<and> r < PID_MAX \<and> \<not> pid_used k r
       \<and> k1 = ?k\<lparr>pid_bitmap := set_bit_at (nat r) (pid_bitmap k), last_pid := r\<rparr>" by (cases "r = -1") simp_all
  have "alloc_pid k = Some (r, pid_spin_unlock k1)"
    unfolding alloc_pid_def pid_spin_lock_def pid_bitmap_size Let_def using assms(1) s by (simp split: if_splits)
  then show ?thesis using c assms(1) pid_unlocked [OF assms(1)] by (cases "r = -1") (auto simp: pid_spin_unlock_def)
qed

lemma free_pid_ok:
  assumes "\<not> pid_lock k"
  shows "free_pid pid k = Some (if 0 < pid \<and> pid < PID_MAX then k\<lparr>pid_bitmap := clear_bit_at (nat pid) (pid_bitmap k)\<rparr> else k)"
  using assms pid_unlocked [OF assms] by (auto simp: free_pid_def pid_spin_lock_def pid_spin_unlock_def clear_bit_at_def Let_def)

lemma pid_used_set: "0 \<le> r \<Longrightarrow> pid_used (k\<lparr>pid_bitmap := set_bit_at (nat r) (pid_bitmap k), last_pid := l\<rparr>) p \<longleftrightarrow> pid_used k p \<or> p = r \<and> r < PID_MAX"
  by (auto simp: pid_used_def test_set_bit)

lemma pid_used_clear: "0 \<le> r \<Longrightarrow> pid_used (k\<lparr>pid_bitmap := clear_bit_at (nat r) (pid_bitmap k)\<rparr>) p \<longleftrightarrow> pid_used k p \<and> p \<noteq> r"
  by (auto simp: pid_used_def test_clear_bit)

subsection \<open>What the scheduler leaves alone\<close>

text \<open>
  \<open>pview k\<close> is the state with everything the scheduler may change blanked out; an operation of the
  scheduler keeps it.
\<close>

definition tview :: "task_struct \<Rightarrow> task_struct" where
  "tview t = t\<lparr>t_state := 0, t_on_rq := False, t_time_slice := 0, t_stime := 0, t_active_mm := 0, t_context := zero_context, t_chan := None\<rparr>"

definition pview :: "kern \<Rightarrow> kern" where
  "pview k = k\<lparr>tasks := (\<lambda>t. tview (tasks k t)), lists_of := static_lists, current_task_ptr := None, runqueue := zero_rq,
     mms := (\<lambda>m. (mms k m)\<lparr>mm_count := 0\<rparr>), tinfos := (\<lambda>_. zero_info), cpu := zero_context, satp := 0, fence_count := 0\<rparr>"

lemma pview_upd [simp]:
  "pview (upd_rq f k) = pview k" "pview (upd_array a g k) = pview k" "pview (upd_ti s h k) = pview k"
  "pview (init_list n k) = pview k" "pview (k\<lparr>lists_of := l\<rparr>) = pview k" "pview (set_current p k) = pview k"
  "pview (k\<lparr>cpu := c\<rparr>) = pview k" "pview (k\<lparr>satp := w, fence_count := fc\<rparr>) = pview k"
  by (simp_all add: pview_def upd_rq_def upd_array_def upd_ti_def upd_mm_def init_list_def set_current_def)

lemma pview_mm: "(\<And>x. (f x)\<lparr>mm_count := 0\<rparr> = x\<lparr>mm_count := 0\<rparr>) \<Longrightarrow> pview (upd_mm m f k) = pview k"
  by (auto simp: pview_def upd_mm_def fun_eq_iff)

lemma pview_task: "(\<And>x. tview (f x) = tview x) \<Longrightarrow> pview (upd_task t f k) = pview k"
  by (auto simp: pview_def upd_task_def fun_eq_iff)

lemma pview_on_lists: "on_lists f k = Some k' \<Longrightarrow> pview k' = pview k"
  by (auto simp: on_lists_def)

lemma pview_lock: "rq_spin_lock k = Some k' \<Longrightarrow> pview k' = pview k" "pview (rq_spin_unlock k) = pview k"
  by (auto simp: rq_spin_lock_def rq_spin_unlock_def split: if_splits)

lemma pview_resched [simp]: "pview (set_tsk_need_resched p k) = pview k" "pview (clear_tsk_need_resched p k) = pview k"
  by (simp_all add: set_tsk_need_resched_def clear_tsk_need_resched_def split: option.splits)

lemma pview_add: "add_to_array a p k = Some k' \<Longrightarrow> pview k' = pview k"
  unfolding add_to_array_def Let_def
  by (auto split: bind_splits dest!: pview_on_lists simp: pview_task tview_def)

lemma pview_enqueue: "enqueue_task p k = Some k' \<Longrightarrow> pview k' = pview k"
  unfolding enqueue_task_def by (rule pview_add)

lemma pview_dequeue: "dequeue_task p k = Some k' \<Longrightarrow> pview k' = pview k"
  unfolding dequeue_task_def Let_def
  by (auto split: bind_splits if_splits dest!: pview_on_lists simp: pview_task tview_def)

lemma pview_pick: "pick_next_task k = Some (p, k') \<Longrightarrow> pview k' = pview k"
  unfolding pick_next_task_def Let_def by (auto split: if_splits)

lemma pview_switch: "pview (context_switch p n k) = pview k"
  unfolding context_switch_def switch_mm_def swtch_def Let_def by (simp add: pview_task pview_mm tview_def)

lemma pview_schedule: "schedule k = Some k' \<Longrightarrow> pview k' = pview k"
  unfolding schedule_def Let_def
  by (auto split: bind_splits if_splits option.splits prod.splits dest!: pview_lock(1) pview_dequeue pview_pick simp: pview_lock(2) pview_switch)

lemma pview_tick_expire: "tick_expire c k = Some k' \<Longrightarrow> pview k' = pview k"
  unfolding tick_expire_def Let_def
  by (auto split: bind_splits if_splits dest!: pview_dequeue pview_add simp: pview_task tview_def)

lemma pview_tick: "scheduler_tick k = Some k' \<Longrightarrow> pview k' = pview k"
  unfolding scheduler_tick_def Let_def
  by (auto split: bind_splits if_splits option.splits dest!: pview_lock(1) pview_tick_expire simp: pview_lock(2) pview_task tview_def)

lemma pview_wake: "wake_up_process p k = Some (n, k') \<Longrightarrow> pview k' = pview k"
  unfolding wake_up_process_def Let_def
  by (auto split: bind_splits if_splits option.splits dest!: pview_lock(1) pview_enqueue simp: pview_lock(2) pview_task tview_def)

lemma pview_wake_new: "wake_up_new_task p k = Some k' \<Longrightarrow> pview k' = pview k"
  unfolding wake_up_new_task_def Let_def
  by (auto split: bind_splits if_splits option.splits dest!: pview_lock(1) pview_enqueue simp: pview_lock(2) pview_task tview_def)

lemma pview_yield: "yield k = Some k' \<Longrightarrow> pview k' = pview k"
  unfolding yield_def Let_def
  by (auto split: bind_splits if_splits dest!: pview_lock(1) pview_enqueue pview_dequeue pview_schedule simp: pview_lock(2))

lemma pview_wakeup_one: "wakeup_one ch i k = Some k' \<Longrightarrow> pview k' = pview k"
  unfolding wakeup_one_def by (auto split: option.splits if_splits dest!: pview_wake simp: pview_task tview_def)

lemma pview_wakeup: "wakeup ch k = Some k' \<Longrightarrow> pview k' = pview k"
proof -
  have n: "fold (\<lambda>i acc. Option.bind acc (wakeup_one ch i)) ns None = None" for ns by (induction ns) auto
  have "fold (\<lambda>i acc. Option.bind acc (wakeup_one ch i)) ns (Some k) = Some k' \<Longrightarrow> pview k' = pview k" for ns
  proof (induction ns arbitrary: k)
    case (Cons i ns)
    then show ?case using n by (cases "wakeup_one ch i k") (auto dest: pview_wakeup_one)
  qed simp
  then show "wakeup ch k = Some k' \<Longrightarrow> pview k' = pview k" unfolding wakeup_def .
qed

lemma pviewD:
  assumes "pview k' = pview k"
  shows "task_table k' = task_table k" "pid_bitmap k' = pid_bitmap k" "pid_lock k' = pid_lock k" "last_pid k' = last_pid k"
    "task_cache_bitmap k' = task_cache_bitmap k" "kmem k' = kmem k" "tframes k' = tframes k"
    "tview (tasks k' t) = tview (tasks k t)" "(mms k' m)\<lparr>mm_count := 0\<rparr> = (mms k m)\<lparr>mm_count := 0\<rparr>"
proof -
  have "pview k' = pview k \<Longrightarrow> f (pview k') = f (pview k)" for f :: "kern \<Rightarrow> 'z" by simp
  note this [OF assms]
  from this [of task_table] this [of pid_bitmap] this [of pid_lock] this [of last_pid] this [of task_cache_bitmap] this [of kmem]
    this [of tframes] this [of "\<lambda>k. tasks k t"] this [of "\<lambda>k. mms k m"]
  show "task_table k' = task_table k" "pid_bitmap k' = pid_bitmap k" "pid_lock k' = pid_lock k" "last_pid k' = last_pid k"
    "task_cache_bitmap k' = task_cache_bitmap k" "kmem k' = kmem k" "tframes k' = tframes k"
    "tview (tasks k' t) = tview (tasks k t)" "(mms k' m)\<lparr>mm_count := 0\<rparr> = (mms k m)\<lparr>mm_count := 0\<rparr>" by (simp_all add: pview_def)
qed

lemma tviewD:
  assumes "tview x = tview y"
  shows "t_pid x = t_pid y" "t_parent x = t_parent y" "t_stack x = t_stack y" "t_prio x = t_prio y" "t_mm x = t_mm y"
    "t_exit_code x = t_exit_code y" "t_pgrp x = t_pgrp y" "t_killed x = t_killed y" "t_trapframe x = t_trapframe y"
  using assms by (cases x; cases y; simp add: tview_def)+

subsection \<open>Kernel stacks and the allocators\<close>

text \<open>The addresses of the blocks of two pages that are handed out.\<close>

definition stacks_of :: "buddy \<Rightarrow> u64 set" where
  "stacks_of f = {page_to_phys f p | p. (p, 1) \<in> allocated f}"

lemma stacks_cong: "same_region f f' \<Longrightarrow> stacks_of f' = {page_to_phys f p | p. (p, 1) \<in> allocated f'}"
  by (simp add: stacks_of_def same_region_def page_to_phys_def page_to_pfn_def)

lemma stacks_alloc_page:
  assumes "manages f M" "alloc_page f = (a, f')"
  shows "stacks_of f' = stacks_of f"
  using assms(1) assms(2) [unfolded alloc_page_def]
proof (cases rule: alloc_pages_cases)
  case (ok p)
  then show ?thesis unfolding stacks_cong [OF ok(4)] ok(7) by (auto simp: stacks_of_def)
qed simp

lemma stacks_free_page:
  assumes "manages f M" "a \<in> owned_frames f"
  shows "stacks_of (free_page a f) = stacks_of f"
proof -
  from assms(2) obtain p where p: "a = page_to_phys f p" "(p, 0) \<in> allocated f" by (auto simp: owned_frames_def)
  have e: "free_page a f = free_pages (page_to_phys f p) (int 0) f" by (simp add: free_page_def p(1))
  note fp = free_pages_ok [OF assms(1) p(2) e]
  show ?thesis unfolding stacks_cong [OF fp(3)] fp(2) by (auto simp: stacks_of_def)
qed

lemma stacks_alloc:
  assumes m: "manages f M" and a: "alloc_pages 1 f = (a, f')" "a \<noteq> 0"
  shows "manages f' M" "a \<notin> stacks_of f" "stacks_of f' = insert a (stacks_of f)" "owned_frames f' = owned_frames f"
    "unat (free_page_count f') + 2 = unat (free_page_count f)"
proof -
  from m a(1) obtain p where p: "a = page_to_phys f p" "manages f' M" "same_region f f'" "(p, 1) \<notin> allocated f"
    "allocated f' = insert (p, 1) (allocated f)" "unat (free_page_count f') + 2 = unat (free_page_count f)"
  proof (cases rule: alloc_pages_cases)
    case (ok p)
    then show ?thesis using that by simp
  qed (use a(2) in simp)
  have "p < npages f" using manages_allocated(4) [OF p(2), of p 1] p(3,5) by (simp add: same_region_def npages_def)
  then show "a \<notin> stacks_of f"
    using p(1,4) page_addr_inj [OF manages_range [OF m], of p] manages_allocated(4) [OF m] by (auto simp: stacks_of_def)
  show "stacks_of f' = insert a (stacks_of f)" unfolding stacks_cong [OF p(3)] p(1,5) by (auto simp: stacks_of_def)
  show "owned_frames f' = owned_frames f" unfolding owned_frames_cong [OF p(3)] p(5) by (auto simp: owned_frames_def)
  show "manages f' M" "unat (free_page_count f') + 2 = unat (free_page_count f)" by (fact p(2), fact p(6))
qed

lemma stacks_free:
  assumes m: "manages f M" and a: "a \<in> stacks_of f"
  shows "manages (free_pages a 1 f) M" "stacks_of (free_pages a 1 f) = stacks_of f - {a}" "owned_frames (free_pages a 1 f) = owned_frames f"
    "unat (free_page_count (free_pages a 1 f)) = unat (free_page_count f) + 2" "a \<noteq> 0"
proof -
  from a obtain p where p: "a = page_to_phys f p" "(p, 1) \<in> allocated f" by (auto simp: stacks_of_def)
  have e: "free_pages a 1 f = free_pages (page_to_phys f p) (int 1) f" by (simp add: p(1))
  note fp = free_pages_ok [OF m p(2) e]
  note ad = page_addr_inj [OF manages_range [OF m]]
  have inj: "q = p" if "(q, 1) \<in> allocated f" "page_to_phys f q = page_to_phys f p" for q
    using ad [OF manages_allocated(4) [OF m that(1)] manages_allocated(4) [OF m p(2)] that(2)] .
  show "stacks_of (free_pages a 1 f) = stacks_of f - {a}"
    unfolding stacks_cong [OF fp(3)] fp(2) unfolding stacks_of_def p(1) using inj by (auto simp: One_nat_def [symmetric] simp del: One_nat_def)
  show "owned_frames (free_pages a 1 f) = owned_frames f" unfolding owned_frames_cong [OF fp(3)] fp(2) by (auto simp: owned_frames_def)
  show "manages (free_pages a 1 f) M" "unat (free_page_count (free_pages a 1 f)) = unat (free_page_count f) + 2" using fp(1,4) by simp_all
  show "a \<noteq> 0" using manages_addr(1) [OF m p(2)] p(1) by simp
qed

text \<open>
  The frames of the slab caches come from a source that keeps a given set of kernel stacks: the
  page allocator is one, so everything shown for slab caches and \<^verbatim>\<open>kmalloc\<close> also keeps the stacks.
\<close>

definition stack_ok :: "u64 set \<Rightarrow> buddy \<Rightarrow> bool" where
  "stack_ok S f \<longleftrightarrow> (\<exists>M. manages f M) \<and> stacks_of f = S"

interpretation stack_frames: frame_source alloc_page free_page "stack_ok S" owned_frames frame_pool for S
proof
  fix s s' :: buddy and a :: u64
  assume ok: "stack_ok S s"
  then obtain M where m: "manages s M" "stacks_of s = S" by (auto simp: stack_ok_def)
  then have e: "\<exists>M. manages s M" by blast
  show "stack_ok S s' \<and> a \<notin> owned_frames s \<and> owned_frames s' = insert a (owned_frames s) \<and> frame_pool s' = frame_pool s"
    if "alloc_page s = (a, s')" "a \<noteq> 0"
    using buddy_alloc_page [OF m(1) that] stacks_alloc_page [OF m(1) that(1)] m(2) by (auto simp: stack_ok_def)
  show "s' = s" if "alloc_page s = (0, s')" using buddy_frames.falloc_none [OF e that] .
  show "a \<noteq> 0 \<and> 4096 dvd unat a \<and> unat a < 2 ^ 56" if "a \<in> owned_frames s"
    using buddy_frames.owned_frame [OF e that] .
  show "owned_frames s \<subseteq> frame_pool s" using buddy_frames.owned_pool [OF e] .
  show "stack_ok S (free_page a s) \<and> owned_frames (free_page a s) = owned_frames s - {a} \<and> frame_pool (free_page a s) = frame_pool s"
    if "a \<in> owned_frames s"
    using buddy_free_page [OF m(1) that] stacks_free_page [OF m(1) that] m(2) by (auto simp: stack_ok_def)
qed

text \<open>The memory of the kernel: live objects \<open>L\<close> and kernel stacks \<open>S\<close>.\<close>

definition kmem_ok :: "u64 set \<Rightarrow> buddy slabs \<Rightarrow> (nat \<times> u64) set \<Rightarrow> bool" where
  "kmem_ok S s L \<longleftrightarrow> kmalloc_inv (stack_ok S) owned_frames s L"

lemma kmalloc_inv_frames:
  assumes k: "kmalloc_inv fok owned s L" and f: "fok' f" "owned (sframes s) \<subseteq> owned f"
  shows "kmalloc_inv fok' owned (s\<lparr>sframes := f\<rparr>) L"
proof -
  from k obtain G fs where r: "srep fok owned {} s G fs" and l: "L = live_objs s G fs" and c: "kcaches_ok s"
    unfolding kmalloc_inv_def slab_inv_def by blast
  have h: "heads (s\<lparr>sframes := f\<rparr>) = heads s" by (simp add: heads_def fun_eq_iff)
  have "srep fok' owned {} (s\<lparr>sframes := f\<rparr>) G fs"
    using r f unfolding srep_def by (auto simp: slab_ok_def slab_lists_def h)
  moreover have "live_objs (s\<lparr>sframes := f\<rparr>) G fs = L" using l by (simp add: live_objs_def)
  moreover have "kcaches_ok (s\<lparr>sframes := f\<rparr>)" using c by (simp add: kcaches_ok_def)
  ultimately show ?thesis unfolding kmalloc_inv_def slab_inv_def by blast
qed

lemma kmem_frames: "kmem_ok S s L \<Longrightarrow> stack_ok S (sframes s)"
  unfolding kmem_ok_def kmalloc_inv_def slab_inv_def srep_def by blast

lemma kmem_stack_alloc:
  assumes k: "kmem_ok S s L" and a: "alloc_pages 1 (sframes s) = (a, f)" "a \<noteq> 0"
  shows "kmem_ok (insert a S) (s\<lparr>sframes := f\<rparr>) L" "a \<notin> S"
proof -
  from kmem_frames [OF k] obtain M where m: "manages (sframes s) M" "stacks_of (sframes s) = S" by (auto simp: stack_ok_def)
  note sa = stacks_alloc [OF m(1) a]
  have "stack_ok (insert a S) f" using sa(1,3) m(2) by (auto simp: stack_ok_def)
  then show "kmem_ok (insert a S) (s\<lparr>sframes := f\<rparr>) L" unfolding kmem_ok_def
    by (rule kmalloc_inv_frames [OF k [unfolded kmem_ok_def]]) (simp add: sa(4))
  show "a \<notin> S" using sa(2) m(2) by simp
qed

lemma kmem_stack_free:
  assumes k: "kmem_ok S s L" and a: "a \<in> S"
  shows "kmem_ok (S - {a}) (s\<lparr>sframes := free_pages a 1 (sframes s)\<rparr>) L" "a \<noteq> 0"
    "unat (free_page_count (free_pages a 1 (sframes s))) = unat (free_page_count (sframes s)) + 2"
proof -
  from kmem_frames [OF k] obtain M where m: "manages (sframes s) M" "stacks_of (sframes s) = S" by (auto simp: stack_ok_def)
  note sf = stacks_free [OF m(1), of a, unfolded m(2), OF a]
  have "stack_ok (S - {a}) (free_pages a 1 (sframes s))" using sf(1,2) by (auto simp: stack_ok_def)
  then show "kmem_ok (S - {a}) (s\<lparr>sframes := free_pages a 1 (sframes s)\<rparr>) L" unfolding kmem_ok_def
    by (rule kmalloc_inv_frames [OF k [unfolded kmem_ok_def]]) (simp add: sf(3))
  show "a \<noteq> 0" "unat (free_page_count (free_pages a 1 (sframes s))) = unat (free_page_count (sframes s)) + 2" by (fact sf(5), fact sf(4))
qed

subsection \<open>The invariant\<close>

text \<open>The tasks in use: the idle task and the elements of \<^verbatim>\<open>task_cache\<close> with their bit set.\<close>

definition live :: "kern \<Rightarrow> nat set" where
  "live k = insert 0 {t. 1 \<le> t \<and> t \<le> TASK_CACHE_SIZE \<and> bit (task_cache_bitmap k) (t - 1)}"

text \<open>
  For a set \<open>A\<close> of tasks: the list of all tasks \<open>ts\<close>, the children \<open>cs t\<close> of each task, and no other lists
  than these and the run queues.
\<close>

definition family :: "nat set \<Rightarrow> kern \<Rightarrow> (lnode \<Rightarrow> lnode list option) \<Rightarrow> nat list \<Rightarrow> (nat \<Rightarrow> nat list) \<Rightarrow> bool" where
  "family A k R ts cs \<longleftrightarrow>
     R (Tasks 0) = Some (map Tasks ts) \<and> set ts = A - {0}
     \<and> (\<forall>t \<in> A. R (Children t) = Some (map Sibling (cs t)) \<and> set (cs t) = {c \<in> A - {0}. t_parent (tasks k c) = Some t})
     \<and> (\<forall>c \<in> A - {0}. \<exists>p \<in> A. p \<noteq> c \<and> t_parent (tasks k c) = Some p)
     \<and> (\<forall>h xs. R h = Some xs \<longrightarrow> (\<exists>a < 2. \<exists>j < MAX_PRIO. h = Queue a j) \<or> h = Tasks 0 \<or> (\<exists>t \<in> A. h = Children t))"

definition table_ok :: "nat set \<Rightarrow> kern \<Rightarrow> bool" where
  "table_ok A k \<longleftrightarrow> (\<forall>i t. task_table k i = Some t \<longrightarrow> i < MAX_PROCS \<and> t \<in> A)
     \<and> (\<forall>i j t. task_table k i = Some t \<and> task_table k j = Some t \<longrightarrow> i = j) \<and> task_table k 0 = Some 0"

definition core :: "nat set \<Rightarrow> kern \<Rightarrow> (lnode \<Rightarrow> lnode list option) \<Rightarrow> queues \<Rightarrow> nat list \<Rightarrow> (nat \<Rightarrow> nat list) \<Rightarrow> bool" where
  "core A k R qs ts cs \<longleftrightarrow> sched_inv k R qs \<and> 0 \<in> A \<and> A \<subseteq> {..64} \<and> qall qs \<subseteq> A \<and> get_current k \<in> A
     \<and> family A k R ts cs \<and> table_ok A k"

text \<open>A task that has exited neither runs nor waits in a queue.\<close>

definition rested :: "nat set \<Rightarrow> kern \<Rightarrow> queues \<Rightarrow> bool" where
  "rested A k qs \<longleftrightarrow> t_state (tasks k 0) \<noteq> TASK_ZOMBIE \<and> (\<forall>t \<in> A. t_state (tasks k t) = TASK_ZOMBIE \<longrightarrow> t \<notin> qall qs \<and> t \<noteq> get_current k)"

text \<open>The tasks that have exited; such a task has no children and no address space.\<close>

definition zombies :: "kern \<Rightarrow> nat set" where
  "zombies k = {t. t_state (tasks k t) = TASK_ZOMBIE}"

definition spent :: "nat set \<Rightarrow> kern \<Rightarrow> bool" where
  "spent A k \<longleftrightarrow> (\<forall>t \<in> A \<inter> zombies k. t_mm (tasks k t) = 0 \<and> (\<forall>u \<in> A - {0}. t_parent (tasks k u) \<noteq> Some t))"

text \<open>Process numbers: those in use are the ones of the tasks.\<close>

definition pids :: "nat set \<Rightarrow> kern \<Rightarrow> int set" where
  "pids A k = (\<lambda>t. t_pid (tasks k t)) ` A"

definition idents :: "nat set \<Rightarrow> kern \<Rightarrow> bool" where
  "idents A k \<longleftrightarrow> \<not> pid_lock k \<and> inj_on (\<lambda>t. t_pid (tasks k t)) A \<and> t_pid (tasks k 0) = 0
     \<and> (\<forall>t \<in> A - {0}. 0 < t_pid (tasks k t) \<and> t_pid (tasks k t) < PID_MAX) \<and> (\<forall>p. pid_used k p \<longleftrightarrow> p \<in> pids A k)"

text \<open>
  Memory: every task has a kernel stack of its own (the idle task may have none), and the user count of
  an address space, an object of \<^verbatim>\<open>kmalloc\<close>, is the number of tasks that use it.
\<close>

definition stacks :: "nat set \<Rightarrow> kern \<Rightarrow> u64 set" where
  "stacks A k = (\<lambda>t. t_stack (tasks k t)) ` A - {0}"

definition mm_obj :: "u64 \<Rightarrow> nat \<times> u64" where
  "mm_obj mm = (nat (kmalloc_index sizeof_mm_struct), mm)"

definition spaces :: "nat set \<Rightarrow> kern \<Rightarrow> (nat \<times> u64) set \<Rightarrow> bool" where
  "spaces A k L \<longleftrightarrow> (\<forall>t \<in> A. t_mm (tasks k t) \<noteq> 0 \<longrightarrow> mm_obj (t_mm (tasks k t)) \<in> L
     \<and> mm_users (mms k (t_mm (tasks k t))) = int (card {u \<in> A. t_mm (tasks k u) = t_mm (tasks k t)}))"

definition memory :: "nat set \<Rightarrow> kern \<Rightarrow> (nat \<times> u64) set \<Rightarrow> bool" where
  "memory A k L \<longleftrightarrow> kmem_ok (stacks A k) (kmem k) L \<and> inj_on (\<lambda>t. t_stack (tasks k t)) A
     \<and> (\<forall>t \<in> A - {0}. t_stack (tasks k t) \<noteq> 0) \<and> spaces A k L"

definition proc_inv :: "kern \<Rightarrow> (lnode \<Rightarrow> lnode list option) \<Rightarrow> queues \<Rightarrow> nat list \<Rightarrow> (nat \<Rightarrow> nat list) \<Rightarrow> (nat \<times> u64) set \<Rightarrow> bool" where
  "proc_inv k R qs ts cs L \<longleftrightarrow> core (live k) k R qs ts cs \<and> rested (live k) k qs \<and> spent (live k) k \<and> idents (live k) k \<and> memory (live k) k L"

lemma coreD:
  assumes "core A k R qs ts cs"
  shows "sched_inv k R qs" "0 \<in> A" "A \<subseteq> {..64}" "qall qs \<subseteq> A" "get_current k \<in> A" "family A k R ts cs" "table_ok A k"
    "rings (lists_of k) R"
  using assms sched_repD(1) [OF sched_invD(1)] unfolding core_def by blast+

lemma familyD:
  assumes "family A k R ts cs"
  shows "R (Tasks 0) = Some (map Tasks ts)" "set ts = A - {0}" "\<And>t. t \<in> A \<Longrightarrow> R (Children t) = Some (map Sibling (cs t))"
    "\<And>t. t \<in> A \<Longrightarrow> set (cs t) = {c \<in> A - {0}. t_parent (tasks k c) = Some t}"
    "\<And>c. c \<in> A \<Longrightarrow> c \<noteq> 0 \<Longrightarrow> \<exists>p \<in> A. p \<noteq> c \<and> t_parent (tasks k c) = Some p"
    "\<And>h xs. R h = Some xs \<Longrightarrow> (\<exists>a < 2. \<exists>j < MAX_PRIO. h = Queue a j) \<or> h = Tasks 0 \<or> (\<exists>t \<in> A. h = Children t)"
  using assms unfolding family_def by blast+

text \<open>The nodes in use.\<close>

lemma core_nodes:
  assumes c: "core A k R qs ts cs" and n: "n \<in> nodes R"
  shows "case n of Queue a j \<Rightarrow> a < 2 \<and> j < MAX_PRIO | RunList t \<Rightarrow> t \<in> qall qs | Children t \<Rightarrow> t \<in> A
    | Sibling t \<Rightarrow> t \<in> A - {0} | Tasks t \<Rightarrow> t \<in> A | _ \<Rightarrow> False"
proof -
  note f = familyD [OF coreD(6) [OF c]]
  from n obtain h xs where h: "R h = Some xs" "n = h \<or> n \<in> set xs" by (auto simp: nodes_def)
  from f(6) [OF h(1)] show ?thesis
  proof (elim disjE)
    assume "\<exists>a < 2. \<exists>j < MAX_PRIO. h = Queue a j"
    then obtain a j where q: "a < 2" "j < MAX_PRIO" "h = Queue a j" by blast
    have "t \<in> qall qs" if "t \<in> set (qs a j)" for t unfolding qall_mem by (intro exI conjI, rule q(1), rule q(2), rule that)
    moreover have "n = Queue a j \<or> (\<exists>t \<in> set (qs a j). n = RunList t)"
      using h q(3) sched_repD(2) [OF sched_invD(1) [OF coreD(1) [OF c]] q(1,2)] by auto
    ultimately show ?thesis using q(1,2) by auto
  next
    assume "h = Tasks 0"
    then have "n = Tasks 0 \<or> (\<exists>t \<in> set ts. n = Tasks t)" using h f(1) by auto
    moreover have "t \<in> A" if "t \<in> set ts" for t using that f(2) by blast
    ultimately show ?thesis using coreD(2) [OF c] by auto
  next
    assume "\<exists>t \<in> A. h = Children t"
    then obtain t where t: "t \<in> A" "h = Children t" by blast
    then have "n = Children t \<or> (\<exists>c \<in> set (cs t). n = Sibling c)" using h f(3) [OF t(1)] by auto
    moreover have "c \<in> A - {0}" if "c \<in> set (cs t)" for c using that f(4) [OF t(1)] by blast
    ultimately show ?thesis using t(1) by auto
  qed
qed

lemma fresh_nodes:
  assumes c: "core A k R qs ts cs" and p: "p \<notin> A"
  shows "set (task_nodes p) \<inter> nodes R = {}"
proof -
  have "n \<notin> nodes R" if "n \<in> set (task_nodes p)" for n
    using core_nodes [OF c, of n] p coreD(4) [OF c] that by (auto simp: task_nodes_def)
  then show ?thesis by blast
qed

lemma sched_pview:
  assumes c: "core A k R qs ts cs" and i: "sched_inv k' R' qs'" "same_lists R R'" and v: "pview k' = pview k"
    and q: "\<And>t. t_on_rq (tasks k' t) \<Longrightarrow> t \<in> A" and cur: "get_current k' \<in> A"
  shows "core A k' R' qs' ts cs"
proof -
  have qa: "qall qs' \<subseteq> A" using q sched_repD(4) [OF sched_invD(1) [OF i(1)]] by blast
  have pv: "t_parent (tasks k' t) = t_parent (tasks k t)" for t using tviewD(2) [OF pviewD(8) [OF v]] .
  have R: "R' (Tasks t) = R (Tasks t)" "R' (Children t) = R (Children t)" for t
    using i(2) by (auto simp: same_lists_def)
  have h: "(\<exists>a < 2. \<exists>j < MAX_PRIO. h = Queue a j) \<or> h = Tasks 0 \<or> (\<exists>t \<in> A. h = Children t)" if "R' h = Some xs" for h xs
    using i(2) familyD(6) [OF coreD(6) [OF c], of h xs] that unfolding same_lists_def by metis
  have "family A k' R' ts cs" using coreD(6) [OF c] h unfolding family_def R pv by blast
  moreover have "table_ok A k'" using coreD(7) [OF c] by (simp add: table_ok_def pviewD(1) [OF v])
  ultimately show ?thesis using c i(1) qa cur unfolding core_def by blast
qed

subsection \<open>The scheduler keeps the invariant\<close>

lemma schedule_current:
  assumes i: "sched_inv k R qs" and e: "schedule k = Some k'"
  shows "get_current k' \<in> insert 0 (qall (after_block k qs))"
proof -
  note d = sched_invD [OF i]
  let ?k1 = "upd_rq (\<lambda>r. r\<lparr>rq_lock := True\<rparr>) k" and ?c = "get_current k"
  have r1: "sched_rep ?k1 R qs" using d(1) by (simp only: locked)
  have ab: "after_block ?k1 qs = after_block k qs" by (simp add: after_block_def)
  from block_current [OF r1, where c = ?c and sp = sp and sp' = sp] obtain k2 R' where
    k2: "(if t_state (tasks ?k1 ?c) \<noteq> TASK_RUNNING \<and> t_on_rq (tasks ?k1 ?c) then dequeue_task ?c ?k1 else Some ?k1) = Some k2"
      "sched_rep k2 R' (after_block k qs)" "same_rest ?k1 k2" by (auto simp: ab)
  note s = same_restD [OF k2(3), simplified]
  from pick_next_task_safe [OF k2(2)] obtain n k3 where
    k3: "pick_next_task k2 = Some (Some n, k3)" "k3 = k2 \<or> k3 = swapped k2" "n \<in> insert 0 (qall (after_block k qs))"
    using s(4) d(3) by auto
  have s3: "rq_curr (runqueue k3) = Some ?c" "get_current k3 = ?c" using k3(2) s d by auto
  have "schedule k = Some (switch_to ?c n k3)" using schedule_run [OF d(2) refl, of ?c k2 n k3] d(4) k2(1) k3(1) by simp
  then show ?thesis using switch_to_keeps(3) [OF s3, of n] k3(3) e by simp
qed

lemma after_block_sub: "qall (after_block k qs) \<subseteq> qall qs"
  by (auto simp: after_block_def)

text \<open>
  \<open>schedule\<close> may be called by a task that has just exited: it is taken off its queue and does not come
  back.
\<close>

lemma proc_schedule:
  assumes c: "core A k R qs ts cs" and z: "t_state (tasks k 0) \<noteq> TASK_ZOMBIE"
    "\<And>t. t \<in> A \<Longrightarrow> t_state (tasks k t) = TASK_ZOMBIE \<Longrightarrow> t = get_current k \<or> t \<notin> qall qs"
  shows "\<exists>k' R'. schedule k = Some k' \<and> core A k' R' (after_block k qs) ts cs \<and> rested A k' (after_block k qs) \<and> pview k' = pview k
    \<and> (\<forall>t. t_state (tasks k' t) = t_state (tasks k t)) \<and> zombies k' = zombies k"
proof -
  note d = coreD [OF c]
  from schedule_ok [OF d(1) refl refl] obtain k' R' where
    k': "schedule k = Some k'" "sched_inv k' R' (after_block k qs)" "same_lists R R'" "\<And>t. t_state (tasks k' t) = t_state (tasks k t)" by blast
  note cur = schedule_current [OF d(1) k'(1)]
  have cA: "get_current k' \<in> A" using cur after_block_sub [of k qs] d(2,4) by auto
  have "t \<in> A" if "t_on_rq (tasks k' t)" for t
    using that sched_repD(4) [OF sched_invD(1) [OF k'(2)], of t] after_block_sub [of k qs] d(4) by blast
  then have c': "core A k' R' (after_block k qs) ts cs" by (rule sched_pview [OF c k'(2,3) pview_schedule [OF k'(1)] _ cA])
  have q: "t \<notin> qall (after_block k qs)" if "t \<in> A" "t_state (tasks k t) = TASK_ZOMBIE" for t
  proof (cases "t = get_current k")
    case True
    then show ?thesis using that(2) by (simp add: after_block_def TASK_ZOMBIE_def TASK_RUNNING_def)
  qed (use z(2) that after_block_sub [of k qs] in blast)
  then have "rested A k' (after_block k qs)" using cur z(1) unfolding rested_def k'(4) by (metis insertE)
  moreover have "zombies k' = zombies k" by (simp add: zombies_def k'(4))
  ultimately show ?thesis using k' c' pview_schedule [OF k'(1)] by blast
qed

lemma restedD: "rested A k qs \<Longrightarrow> t_state (tasks k 0) \<noteq> TASK_ZOMBIE"
  "rested A k qs \<Longrightarrow> t \<in> A \<Longrightarrow> t_state (tasks k t) = TASK_ZOMBIE \<Longrightarrow> t \<notin> qall qs \<and> t \<noteq> get_current k"
  unfolding rested_def by blast+

lemma qall_queue_in: "a < 2 \<Longrightarrow> j < MAX_PRIO \<Longrightarrow> qall (queue_in a j t qs) = insert t (qall qs)"
  unfolding queue_in_def by (rule set_queue_add(2))

lemma proc_tick:
  assumes c: "core A k R qs ts cs" and z: "rested A k qs"
  shows "\<exists>k' R'. scheduler_tick k = Some k' \<and> core A k' R' (after_tick k qs) ts cs \<and> rested A k' (after_tick k qs) \<and> pview k' = pview k
    \<and> zombies k' = zombies k"
proof -
  note d = coreD [OF c] note r = sched_invD(1) [OF d(1)]
  from scheduler_tick_ok [OF d(1) refl] obtain k' R' where
    k': "scheduler_tick k = Some k'" "sched_inv k' R' (after_tick k qs)" "same_lists R R'" "\<And>t. t_state (tasks k' t) = t_state (tasks k t)"
    "get_current k' = get_current k" by blast
  have q: "qall (after_tick k qs) = qall qs"
    using sched_repD(7,8) [OF r] by (auto simp: after_tick_def Let_def qall_queue_in less_2_cases_iff)
  have "core A k' R' (after_tick k qs) ts cs"
    by (rule sched_pview [OF c k'(2,3) pview_tick [OF k'(1)]])
      (use sched_repD(4) [OF sched_invD(1) [OF k'(2)]] d(4,5) k'(5) in \<open>auto simp: q\<close>)
  moreover have "rested A k' (after_tick k qs)" using z unfolding rested_def k'(4,5) q .
  moreover have "zombies k' = zombies k" by (simp add: zombies_def k'(4))
  ultimately show ?thesis using k' pview_tick [OF k'(1)] by blast
qed

text \<open>Which tasks an operation of the run queue puts on it.\<close>

lemma on_rq_add: "add_to_array a p k = Some k' \<Longrightarrow> t_on_rq (tasks k' t) \<Longrightarrow> t_on_rq (tasks k t) \<or> t = p"
  unfolding add_to_array_def Let_def by (auto split: bind_splits if_splits simp: on_lists_def)

lemma on_rq_dequeue: "dequeue_task p k = Some k' \<Longrightarrow> t_on_rq (tasks k' t) \<Longrightarrow> t_on_rq (tasks k t)"
  unfolding dequeue_task_def Let_def by (auto split: bind_splits if_splits simp: on_lists_def)

lemma states_add: "add_to_array a p k = Some k' \<Longrightarrow> t_state (tasks k' t) = t_state (tasks k t) \<and> current_task_ptr k' = current_task_ptr k"
  unfolding add_to_array_def Let_def by (auto split: bind_splits if_splits simp: on_lists_def upd_task_def upd_rq_def upd_array_def)

lemma states_dequeue: "dequeue_task p k = Some k' \<Longrightarrow> t_state (tasks k' t) = t_state (tasks k t) \<and> current_task_ptr k' = current_task_ptr k"
  unfolding dequeue_task_def Let_def
  by (auto split: bind_splits if_splits simp: on_lists_def upd_task_def upd_rq_def upd_array_def init_list_def)

lemma wake_frame:
  assumes "wake_up_process (Some p) k = Some (n, k')"
  shows "t_state (tasks k' t) = (if t = p then TASK_RUNNING else t_state (tasks k t))" "t_on_rq (tasks k' t) \<Longrightarrow> t_on_rq (tasks k t) \<or> t = p"
    "get_current k' = get_current k"
proof -
  let ?k1 = "upd_rq (\<lambda>r. r\<lparr>rq_lock := True\<rparr>) k"
  have "tasks k' = tasks k \<and> t_state (tasks k p) = TASK_RUNNING \<and> get_current k' = get_current k
    \<or> (\<exists>k3. (if \<not> t_on_rq (tasks k p) then add_to_array (rq_active (runqueue k)) p (upd_task p (\<lambda>x. x\<lparr>t_state := TASK_RUNNING\<rparr>) ?k1)
             else Some (upd_task p (\<lambda>x. x\<lparr>t_state := TASK_RUNNING\<rparr>) ?k1)) = Some k3
        \<and> tasks k' = tasks k3 \<and> get_current k' = get_current k3)"
    using assms unfolding wake_up_process_def Let_def enqueue_task_def rq_spin_lock_def
    by (auto split: bind_splits if_splits option.splits simp: rq_spin_unlock_def)
  then show "t_state (tasks k' t) = (if t = p then TASK_RUNNING else t_state (tasks k t))" "t_on_rq (tasks k' t) \<Longrightarrow> t_on_rq (tasks k t) \<or> t = p"
    "get_current k' = get_current k"
    by (auto split: if_splits dest: on_rq_add [where t = t] states_add [where t = t] simp: get_current_def upd_task_def upd_rq_def)
qed

lemma core_task:
  assumes "\<And>x. t_on_rq (f x) = t_on_rq x \<and> t_prio (f x) = t_prio x \<and> t_parent (f x) = t_parent x"
  shows "core A (upd_task t f k) R qs ts cs = core A k R qs ts cs"
proof -
  have p: "t_parent (tasks (upd_task t f k) u) = t_parent (tasks k u)" for u using assms by simp
  have "sched_inv (upd_task t f k) R qs = sched_inv k R qs" using assms by (intro inv_upd_task) blast
  then show ?thesis unfolding core_def family_def p table_ok_def by simp
qed

text \<open>
  A task that has not exited is woken.  The set \<open>B\<close> leaves out a task that is just exiting: it is
  still queued when it wakes up its parent.
\<close>

lemma proc_wake:
  assumes c: "core A k R qs ts cs" and z: "rested B k qs" and t: "t \<in> A" "t_state (tasks k t) \<noteq> TASK_ZOMBIE"
  shows "\<exists>n k' R' qs'. wake_up_process (Some t) k = Some (n, k') \<and> core A k' R' qs' ts cs \<and> rested B k' qs' \<and> pview k' = pview k
    \<and> get_current k' = get_current k \<and> zombies k' = zombies k"
proof -
  note d = coreD [OF c]
  have t64: "t \<le> 64" using t(1) d(3) by auto
  from wake_up_process_ok [OF d(1) t64] obtain n k' R' qs' where
    w: "wake_up_process (Some t) k = Some (n, k')" "sched_inv k' R' qs'" "same_lists R R'" by blast
  note f = wake_frame [OF w(1)]
  have rq: "u \<in> qall qs' \<Longrightarrow> u \<in> qall qs \<or> u = t" for u
    using f(2) [of u] sched_repD(4) [OF sched_invD(1) [OF w(2)], of u] sched_repD(4) [OF sched_invD(1) [OF d(1)], of u] by blast
  have "core A k' R' qs' ts cs"
  proof (rule sched_pview [OF c w(2,3) pview_wake [OF w(1)]])
    show "u \<in> A" if "t_on_rq (tasks k' u)" for u
      using that rq [of u] sched_repD(4) [OF sched_invD(1) [OF w(2)], of u] d(4) t(1) by blast
  qed (use f(3) d(5) in simp)
  moreover have "rested B k' qs'"
    using z t(2) rq unfolding rested_def f(1,3) by (auto simp: TASK_ZOMBIE_def TASK_RUNNING_def)
  moreover have "zombies k' = zombies k" using t(2) unfolding zombies_def f(1) by (auto simp: TASK_ZOMBIE_def TASK_RUNNING_def)
  ultimately show ?thesis using w(1) pview_wake [OF w(1)] f(3) by blast
qed

lemma rested_task:
  assumes "\<And>x. t_state (f x) = t_state x"
  shows "rested A (upd_task t f k) qs = rested A k qs"
  using assms unfolding rested_def by auto

lemma proc_wakeup_one:
  assumes c: "core A k R qs ts cs" and z: "rested B k qs"
  shows "\<exists>k' R' qs'. wakeup_one ch i k = Some k' \<and> core A k' R' qs' ts cs \<and> rested B k' qs' \<and> pview k' = pview k \<and> get_current k' = get_current k
    \<and> zombies k' = zombies k"
proof (cases "task_table k i")
  case None
  then show ?thesis using c z by (auto simp: wakeup_one_def)
next
  case (Some p)
  let ?k = "upd_task p (\<lambda>t. t\<lparr>t_chan := None\<rparr>) k"
  have p: "p \<in> A" using Some coreD(7) [OF c] by (auto simp: table_ok_def)
  show ?thesis
  proof (cases "(t_state (tasks k p) = TASK_INTERRUPTIBLE \<or> t_state (tasks k p) = TASK_UNINTERRUPTIBLE) \<and> t_chan (tasks k p) = ch")
    case True
    have "core A ?k R qs ts cs" "rested B ?k qs" using c z by (simp_all add: core_task rested_task)
    moreover have "t_state (tasks ?k p) \<noteq> TASK_ZOMBIE" using True by (auto simp: TASK_ZOMBIE_def TASK_INTERRUPTIBLE_def TASK_UNINTERRUPTIBLE_def)
    ultimately obtain n k' R' qs' where w: "wake_up_process (Some p) ?k = Some (n, k')" "core A k' R' qs' ts cs" "rested B k' qs'" "pview k' = pview ?k"
      "get_current k' = get_current ?k" "zombies k' = zombies ?k"
      using proc_wake [of A ?k R qs ts cs B p] p by blast
    moreover have "zombies ?k = zombies k" by (auto simp: zombies_def)
    moreover have "pview ?k = pview k" by (simp add: pview_task tview_def)
    ultimately show ?thesis using Some True by (auto simp: wakeup_one_def)
  next
    case False
    then show ?thesis using Some c z by (auto simp: wakeup_one_def)
  qed
qed

lemma proc_wakeup:
  assumes c: "core A k R qs ts cs" and z: "rested B k qs"
  shows "\<exists>k' R' qs'. wakeup ch k = Some k' \<and> core A k' R' qs' ts cs \<and> rested B k' qs' \<and> pview k' = pview k \<and> get_current k' = get_current k
    \<and> zombies k' = zombies k"
proof -
  have "\<exists>k' R' qs'. fold (\<lambda>i acc. Option.bind acc (wakeup_one ch i)) ns (Some k) = Some k' \<and> core A k' R' qs' ts cs \<and> rested B k' qs'
      \<and> pview k' = pview k \<and> get_current k' = get_current k \<and> zombies k' = zombies k" for ns
    using c z
  proof (induction ns arbitrary: k R qs)
    case (Cons i ns)
    from proc_wakeup_one [OF Cons.prems] obtain k1 R1 qs1 where k1: "wakeup_one ch i k = Some k1" "core A k1 R1 qs1 ts cs" "rested B k1 qs1"
      "pview k1 = pview k" "get_current k1 = get_current k" "zombies k1 = zombies k" by blast
    from Cons.IH [OF k1(2,3)] obtain k2 R2 qs2 where "fold (\<lambda>i acc. Option.bind acc (wakeup_one ch i)) ns (Some k1) = Some k2" "core A k2 R2 qs2 ts cs"
      "rested B k2 qs2" "pview k2 = pview k" "get_current k2 = get_current k" "zombies k2 = zombies k"
      unfolding k1(4-6) by blast
    then show ?case using k1(1) by (intro exI [of _ k2] exI [of _ R2] exI [of _ qs2]) simp
  qed auto
  then show ?thesis unfolding wakeup_def by blast
qed

lemma proc_yield:
  assumes c: "core A k R qs ts cs" and z: "rested A k qs"
  shows "\<exists>k' R' qs'. yield k = Some k' \<and> core A k' R' qs' ts cs \<and> rested A k' qs' \<and> pview k' = pview k
    \<and> zombies k' = zombies k"
proof -
  note d = coreD [OF c]
  let ?c = "get_current k"
  obtain k1 R1 qs1 where k1: "(if t_state (tasks k ?c) = TASK_RUNNING
      then do { k' \<leftarrow> rq_spin_lock k; k'' \<leftarrow> (if t_on_rq (tasks k' ?c) then Option.bind (dequeue_task ?c k') (enqueue_task ?c) else Some k'); Some (rq_spin_unlock k'') }
      else Some k) = Some k1" "core A k1 R1 qs1 ts cs" "rested A k1 qs1" "pview k1 = pview k" "zombies k1 = zombies k"
  proof (cases "t_state (tasks k ?c) = TASK_RUNNING \<and> t_on_rq (tasks k ?c)")
    case False
    show ?thesis
    proof (cases "t_state (tasks k ?c) = TASK_RUNNING")
      case True
      let ?k = "rq_spin_unlock (upd_rq (\<lambda>r. r\<lparr>rq_lock := True\<rparr>) k)"
      have "?k = k" using sched_invD(2) [OF d(1)] by (simp add: rq_spin_unlock_def upd_rq_def)
      then show ?thesis using True False c z sched_invD(2) [OF d(1)] that [of k R qs] by (simp add: rq_spin_lock_def)
    qed (use c z that in simp)
  next
    case True
    let ?k = "upd_rq (\<lambda>r. r\<lparr>rq_lock := True\<rparr>) k"
    note l = lock_step [OF d(1) refl]
    from requeue [OF l(2), of ?c] d(3,5) obtain k2 R2 qs2 where k2: "Option.bind (dequeue_task ?c ?k) (enqueue_task ?c) = Some k2" "same_rest ?k k2"
      "same_lists R R2" "sched_rep k2 R2 qs2" by auto
    then obtain k3 where k3: "dequeue_task ?c ?k = Some k3" "enqueue_task ?c k3 = Some k2" by (auto split: bind_splits)
    have st: "t_state (tasks k2 t) = t_state (tasks k t)" "get_current k2 = ?c" for t using same_restD(2,6) [OF k2(2)] by simp_all
    have rq: "t_on_rq (tasks k2 t) \<Longrightarrow> t_on_rq (tasks k t) \<or> t = ?c" for t
      using on_rq_add [OF k3(2) [unfolded enqueue_task_def], of t] on_rq_dequeue [OF k3(1), of t] by auto
    have i: "sched_inv (rq_spin_unlock k2) R2 qs2"
      using unlock_step(1) [OF k2(4)] same_restD(1,2,3,4) [OF k2(2)] sched_invD [OF d(1)] by simp
    have pv: "pview (rq_spin_unlock k2) = pview k"
      using pview_dequeue [OF k3(1)] pview_enqueue [OF k3(2)] pview_lock(1) [OF l(1)] by (simp add: pview_lock(2))
    have q2: "t \<in> qall qs2 \<Longrightarrow> t \<in> qall qs \<or> t = ?c" for t
      using rq [of t] sched_repD(4) [OF k2(4), of t] sched_repD(4) [OF sched_invD(1) [OF d(1)], of t] by blast
    have tk: "tasks (rq_spin_unlock k2) = tasks k2" "get_current (rq_spin_unlock k2) = ?c" using st(2) by (simp_all add: rq_spin_unlock_def)
    have "core A (rq_spin_unlock k2) R2 qs2 ts cs"
      by (rule sched_pview [OF c i k2(3) pv]) (use q2 d(4,5) sched_repD(4) [OF k2(4)] in \<open>auto simp: tk\<close>)
    moreover have "rested A (rq_spin_unlock k2) qs2" using z q2 unfolding rested_def tk st(1) by blast
    moreover have "zombies (rq_spin_unlock k2) = zombies k" by (simp add: zombies_def tk st(1))
    moreover have "rq_spin_lock k = Some ?k" by (rule l(1))
    ultimately show ?thesis using that [of "rq_spin_unlock k2" R2 qs2] True k2(1) pv by simp
  qed
  note z1 = restedD [OF k1(3)]
  from proc_schedule [OF k1(2) z1(1)] z1(2) obtain k' R' where "schedule k1 = Some k'" "core A k' R' (after_block k1 qs1) ts cs"
    "rested A k' (after_block k1 qs1)" "pview k' = pview k1" "zombies k' = zombies k1" by blast
  then show ?thesis using k1 unfolding yield_def Let_def by auto
qed

subsection \<open>Task structures\<close>

text \<open>The state in which the task structure \<open>p\<close> has been taken and cleared.\<close>

definition new_task :: "nat \<Rightarrow> kern \<Rightarrow> kern" where
  "new_task p k =
     (let k2 = upd_task p (\<lambda>_. zero_task) (k\<lparr>task_cache_bitmap := task_cache_bitmap k OR push_bit (p - 1) 1\<rparr>)
      in k2\<lparr>lists_of := clear_nodes (task_nodes p) (lists_of k2)\<rparr>)"

lemma alloc_task_loop_ok:
  "i + n = 64 \<Longrightarrow> \<forall>j < i. bit (task_cache_bitmap k) j \<Longrightarrow>
   (case alloc_task_loop i n k of
      (None, k') \<Rightarrow> k' = k \<and> (\<forall>j < 64. bit (task_cache_bitmap k) j)
    | (Some p, k') \<Rightarrow> 1 \<le> p \<and> p \<le> 64 \<and> \<not> bit (task_cache_bitmap k) (p - 1) \<and> k' = new_task p k)"
proof (induction n arbitrary: i)
  case (Suc n)
  show ?case
  proof (cases "bit (task_cache_bitmap k) i")
    case True
    then have "\<forall>j < Suc i. bit (task_cache_bitmap k) j" using Suc.prems(2) by (simp add: less_Suc_eq)
    with Suc.IH [of "Suc i"] Suc.prems(1) True show ?thesis by (simp add: and_exp_eq_0_iff_not_bit)
  next
    case False
    then show ?thesis using Suc.prems by (simp add: and_exp_eq_0_iff_not_bit new_task_def Let_def)
  qed
qed simp

lemma live_mem: "p \<in> live k \<longleftrightarrow> p = 0 \<or> p \<le> 64 \<and> bit (task_cache_bitmap k) (p - 1)"
  by (cases p) (auto simp: live_def TASK_CACHE_SIZE_def)

lemma alloc_task_ok:
  obtains (full) "alloc_task_struct k = (None, k)" "live k = {..64}"
    | (ok) p where "alloc_task_struct k = (Some p, new_task p k)" "1 \<le> p" "p \<le> 64" "p \<notin> live k"
proof (cases "alloc_task_struct k")
  case (Pair q k')
  then have c: "case (q, k') of (None, k') \<Rightarrow> k' = k \<and> (\<forall>j < 64. bit (task_cache_bitmap k) j)
    | (Some p, k') \<Rightarrow> 1 \<le> p \<and> p \<le> 64 \<and> \<not> bit (task_cache_bitmap k) (p - 1) \<and> k' = new_task p k"
    using alloc_task_loop_ok [of 0 64 k] by (simp add: alloc_task_struct_def TASK_CACHE_SIZE_def)
  show thesis
  proof (cases q)
    case None
    then have "live k = {..64}" using c by (auto simp: live_mem)
    then show thesis using full Pair None c by simp
  next
    case (Some p)
    then show thesis using ok [of p] Pair c by (simp add: live_mem)
  qed
qed

lemma live_new: "1 \<le> p \<Longrightarrow> p \<le> 64 \<Longrightarrow> task_cache_bitmap k' = task_cache_bitmap k OR push_bit (p - 1) 1 \<Longrightarrow> live k' = insert p (live k)"
  by (auto simp: live_mem bit_or_iff bit_exp_iff)

lemma free_task_bitmap: "1 \<le> p \<Longrightarrow> p \<le> 64 \<Longrightarrow> free_task_struct (Some p) k = k\<lparr>task_cache_bitmap := task_cache_bitmap k AND NOT (push_bit (p - 1) 1)\<rparr>"
  by (auto simp: free_task_struct_def TASK_CACHE_SIZE_def Let_def nat_diff_distrib')

lemma live_free:
  assumes "1 \<le> p" "p \<le> 64" "task_cache_bitmap k' = task_cache_bitmap k AND NOT (push_bit (p - 1) 1)"
  shows "live k' = live k - {p}"
proof -
  have "t \<in> live k' \<longleftrightarrow> t \<in> live k - {p}" for t
    using assms by (cases t) (auto simp: live_mem bit_and_iff bit_not_iff bit_exp_iff)
  then show ?thesis by blast
qed

lemma bitmap_restore:
  assumes "1 \<le> p" "p \<le> 64" "p \<notin> live k"
  shows "(task_cache_bitmap k OR push_bit (p - 1) 1) AND NOT (push_bit (p - 1) 1) = task_cache_bitmap k"
proof (rule bit_word_eqI)
  fix n
  assume "n < LENGTH(64)"
  then show "bit ((task_cache_bitmap k OR push_bit (p - 1) 1) AND NOT (push_bit (p - 1) 1)) n = bit (task_cache_bitmap k) n"
    using assms by (auto simp: live_mem bit_and_iff bit_or_iff bit_not_iff bit_exp_iff)
qed

lemma clear_nodes_off: "n \<notin> set ns \<Longrightarrow> lnext (clear_nodes ns l) n = lnext l n \<and> lprev (clear_nodes ns l) n = lprev l n"
  unfolding clear_nodes_def by (induction ns arbitrary: l) auto

subsection \<open>Building a task\<close>

text \<open>
  While a task \<open>p\<close> is built, nothing of the other tasks, of the queues, of the process table and of the
  lists in use changes.
\<close>

definition only :: "nat \<Rightarrow> kern \<Rightarrow> kern \<Rightarrow> bool" where
  "only p k k' \<longleftrightarrow> (\<forall>t. t \<noteq> p \<longrightarrow> tasks k' t = tasks k t) \<and> task_table k' = task_table k \<and> current_task_ptr k' = current_task_ptr k
     \<and> runqueue k' = runqueue k
     \<and> (\<forall>n. n \<notin> set (task_nodes p) \<longrightarrow> lnext (lists_of k') n = lnext (lists_of k) n \<and> lprev (lists_of k') n = lprev (lists_of k) n)"

lemma only_refl [simp]: "only p k k" by (simp add: only_def)

lemma only_trans: "only p k k' \<Longrightarrow> only p k' k'' \<Longrightarrow> only p k k''" by (simp add: only_def)

lemma only_new: "only p k (new_task p k)"
  by (simp add: only_def new_task_def Let_def upd_task_def clear_nodes_off)

lemma only_upd:
  "only p k (upd_task p f k)" "only p k (upd_ti a g k)" "only p k (upd_mm m h k)" "only p k (upd_frame a e k)"
  "n \<in> set (task_nodes p) \<Longrightarrow> only p k (init_list n k)"
  by (auto simp: only_def upd_task_def upd_ti_def upd_mm_def upd_frame_def init_list_def)

lemma fresh_rep:
  assumes r: "sched_rep k R qs" and o: "only p k k'" and p: "p \<notin> qall qs" "\<not> t_on_rq (tasks k' p)" and n: "set (task_nodes p) \<inter> nodes R = {}"
  shows "sched_rep k' R qs"
proof -
  note d = sched_repD [OF r]
  have rg: "rings (lists_of k') R" by (rule rings_cong [OF d(1)]) (use o n in \<open>auto simp: only_def\<close>)
  have rq: "runqueue k' = runqueue k" using o by (simp add: only_def)
  have on: "t_on_rq (tasks k' t) \<longleftrightarrow> t \<in> qall qs" for t using o p d(4) by (cases "t = p") (auto simp: only_def)
  have pr: "queue_index (t_prio (tasks k' t)) = j" if "a < 2" "j < MAX_PRIO" "t \<in> set (qs a j)" for a j t
  proof -
    have "t \<noteq> p" using p(1) that qall_mem by blast
    then show ?thesis using d(6) [OF that] o by (simp add: only_def)
  qed
  show ?thesis unfolding sched_rep_def rq using rg d(2,3,5,7-10) on pr by blast
qed

lemma fresh_core:
  assumes c: "core A k R qs ts cs" and o: "only p k k'" and p: "p \<notin> A" "\<not> t_on_rq (tasks k' p)"
  shows "core A k' R qs ts cs" "rested A k' qs = rested A k qs"
proof -
  note d = coreD [OF c]
  have pq: "p \<notin> qall qs" using p(1) d(4) by blast
  have t: "tasks k' t = tasks k t" if "t \<in> A" for t using o that p(1) unfolding only_def by metis
  have g: "get_current k' = get_current k" "task_table k' = task_table k" "runqueue k' = runqueue k"
    using o by (simp_all add: only_def get_current_def)
  have "sched_inv k' R qs"
    using fresh_rep [OF sched_invD(1) [OF d(1)] o pq p(2) fresh_nodes [OF c p(1)]] d(1) unfolding sched_inv_def g by blast
  moreover have "family A k' R ts cs" using d(6) unfolding family_def by (simp add: t cong: conj_cong)
  moreover have "table_ok A k'" using d(7) unfolding table_ok_def g .
  ultimately show "core A k' R qs ts cs" using d(2-5) unfolding core_def g by blast
  show "rested A k' qs = rested A k qs" using t d(2) unfolding rested_def g by auto
qed

text \<open>Linking a new task \<open>p\<close> to its parent \<open>q\<close> and into the list of all tasks.\<close>

definition linked :: "nat \<Rightarrow> nat \<Rightarrow> (lnode \<Rightarrow> lnode list option) \<Rightarrow> nat list \<Rightarrow> (nat \<Rightarrow> nat list) \<Rightarrow> lnode \<Rightarrow> lnode list option" where
  "linked p q R ts cs = R(Children p \<mapsto> [], Children q \<mapsto> map Sibling (cs q @ [p]), Tasks 0 \<mapsto> map Tasks (ts @ [p]))"

lemma nodes_new: "R h = None \<Longrightarrow> nodes (R(h \<mapsto> [])) = insert h (nodes R)"
  unfolding nodes_upd others_def nodes_def by (auto; metis option.discI)

lemma link_lists:
  assumes c: "core A k R qs ts cs" and p: "p \<notin> A" and q: "q \<in> A"
  shows "\<exists>l1 l2. list_add_tail (Sibling p) (Children q) (INIT_LIST_HEAD (RunList p) (INIT_LIST_HEAD (Sibling p) (INIT_LIST_HEAD (Children p) (lists_of k)))) = Some l1
    \<and> list_add_tail (Tasks p) (Tasks 0) (INIT_LIST_HEAD (WaitHead p) l1) = Some l2 \<and> rings l2 (linked p q R ts cs)"
    "nodes (linked p q R ts cs) = {Children p, Sibling p, Tasks p} \<union> nodes R"
proof -
  note d = coreD [OF c] note f = familyD [OF d(6)]
  have fr: "Children p \<notin> nodes R" "Sibling p \<notin> nodes R" "RunList p \<notin> nodes R" "Tasks p \<notin> nodes R" "WaitHead p \<notin> nodes R"
    using fresh_nodes [OF c p] by (auto simp: task_nodes_def)
  have pq: "p \<noteq> q" using p q by auto
  obtain R1 where R1: "R1 = R(Children p \<mapsto> [])" by blast
  let ?l0 = "INIT_LIST_HEAD (RunList p) (INIT_LIST_HEAD (Sibling p) (INIT_LIST_HEAD (Children p) (lists_of k)))"
  have h0: "R (Children p) = None" using fr(1) by (cases "R (Children p)") (auto simp: nodes_def)
  have n1: "nodes R1 = insert (Children p) (nodes R)" unfolding R1 by (rule nodes_new [where h = "Children p" and R = R, OF h0])
  have r0: "rings (INIT_LIST_HEAD (Children p) (lists_of k)) R1" unfolding R1 by (rule init_head [OF d(8) fr(1)])
  have m: "Sibling p \<notin> nodes R1" "RunList p \<notin> nodes R1" using fr n1 by simp_all
  note r1 = init_off [OF init_off [OF r0 m(1)] m(2)]
  have q1: "R1 (Children q) = Some (map Sibling (cs q))" using f(3) [OF q] pq R1 by simp
  obtain R2 where R2: "R2 = R1(Children q \<mapsto> map Sibling (cs q) @ [Sibling p])" by blast
  have "Sibling p \<notin> nodes R1" using fr n1 by simp
  from list_add_tail_ok [OF r1 q1 this, folded R2] obtain l1 where
    l1: "list_add_tail (Sibling p) (Children q) ?l0 = Some l1" "rings l1 R2" by blast
  have n2: "nodes R2 = insert (Sibling p) (nodes R1)" unfolding R2 by (rule nodes_add [where h = "Children q" and R = R1, OF q1])
  have r2: "rings (INIT_LIST_HEAD (WaitHead p) l1) R2" by (rule init_off [OF l1(2)]) (use fr n1 n2 in simp)
  have t2: "R2 (Tasks 0) = Some (map Tasks ts)" using f(1) R1 R2 by simp
  have e: "R2(Tasks 0 \<mapsto> map Tasks ts @ [Tasks p]) = linked p q R ts cs" by (simp add: linked_def R1 R2)
  have "Tasks p \<notin> nodes R2" using fr n1 n2 by simp
  from list_add_tail_ok [OF r2 t2 this, unfolded e] obtain l2 where
    l2: "list_add_tail (Tasks p) (Tasks 0) (INIT_LIST_HEAD (WaitHead p) l1) = Some l2" "rings l2 (linked p q R ts cs)" by blast
  show "\<exists>l1 l2. list_add_tail (Sibling p) (Children q) ?l0 = Some l1
    \<and> list_add_tail (Tasks p) (Tasks 0) (INIT_LIST_HEAD (WaitHead p) l1) = Some l2 \<and> rings l2 (linked p q R ts cs)"
    using l1(1) l2 by blast
  show "nodes (linked p q R ts cs) = {Children p, Sibling p, Tasks p} \<union> nodes R"
    unfolding e [symmetric] nodes_add [where h = "Tasks 0" and R = R2, OF t2] n2 n1 by blast
qed

lemma table_okD:
  assumes "table_ok A k"
  shows "task_table k i = Some t \<Longrightarrow> i < MAX_PROCS \<and> t \<in> A" "task_table k i = Some t \<Longrightarrow> task_table k j = Some t \<Longrightarrow> i = j" "task_table k 0 = Some 0"
  using assms unfolding table_ok_def by blast+

lemma enter_table_ok:
  assumes t: "table_ok A k" and p: "p \<notin> A"
  shows "table_ok (insert p A) (enter_table p k)" "\<exists>tt. enter_table p k = k\<lparr>task_table := tt\<rparr>"
proof -
  show "table_ok (insert p A) (enter_table p k)"
  proof (cases "find (\<lambda>slot. task_table k slot = None) [0..<MAX_PROCS]")
    case None
    then have "enter_table p k = k" by (simp add: enter_table_def)
    then show ?thesis using t unfolding table_ok_def by (metis insertCI)
  next
    case (Some s)
    then have s: "s < MAX_PROCS" "task_table k s = None" by (auto simp: find_Some_iff)
    have np: "task_table k i \<noteq> Some p" for i using table_okD(1) [OF t] p by blast
    have e: "task_table (enter_table p k) i = (if i = s then Some p else task_table k i)" for i using Some by (simp add: enter_table_def)
    have "i < MAX_PROCS \<and> u \<in> insert p A" if "task_table (enter_table p k) i = Some u" for i u
      using that table_okD(1) [OF t, of i u] s(1) unfolding e by (cases "i = s") auto
    moreover have "i = j" if "task_table (enter_table p k) i = Some u" "task_table (enter_table p k) j = Some u" for i j u
      using that table_okD(2) [OF t, of i u j] np unfolding e by (cases "i = s"; cases "j = s") auto
    moreover have "task_table (enter_table p k) 0 = Some 0" using table_okD(3) [OF t] s(2) unfolding e by (cases "s = 0") auto
    ultimately show ?thesis unfolding table_ok_def by blast
  qed
  show "\<exists>tt. enter_table p k = k\<lparr>task_table := tt\<rparr>"
    by (rule exI [of _ "task_table (enter_table p k)"]) (simp add: enter_table_def split: option.splits)
qed

lemma family_child: "family A k R ts cs \<Longrightarrow> t \<in> A \<Longrightarrow> c \<in> set (cs t) \<longleftrightarrow> c \<in> A \<and> c \<noteq> 0 \<and> t_parent (tasks k c) = Some t"
  by (simp add: familyD(4))

lemma core_link:
  assumes c: "core A k R qs ts cs" and p: "p \<notin> A" "p \<le> 64" and q: "q \<in> A"
    and k': "rings (lists_of k') (linked p q R ts cs)" "runqueue k' = runqueue k" "current_task_ptr k' = current_task_ptr k"
      "task_table k' = task_table (enter_table p k)" "\<And>t. t \<noteq> p \<Longrightarrow> tasks k' t = tasks k t"
      "t_parent (tasks k' p) = Some q" "\<not> t_on_rq (tasks k' p)"
  shows "core (insert p A) k' (linked p q R ts cs) qs (ts @ [p]) (cs(p := [], q := cs q @ [p]))"
proof -
  note d = coreD [OF c] note f = familyD [OF d(6)] note r = sched_repD [OF sched_invD(1) [OF d(1)]]
  let ?R = "linked p q R ts cs" and ?cs = "cs(p := [], q := cs q @ [p])"
  have pq: "p \<noteq> q" "p \<noteq> 0" "p \<notin> qall qs" using p q d(2,4) by (metis, metis, blast)
  have g: "get_current k' = get_current k" using k'(3) by (simp add: get_current_def)
  have tA: "tasks k' t = tasks k t" if "t \<in> A" for t using that p(1) k'(5) by metis
  have rn: "RunList t \<in> nodes ?R \<longleftrightarrow> t \<in> qall qs" for t using link_lists(2) [OF c p(1) q] r(3) by auto
  have on: "t_on_rq (tasks k' t) \<longleftrightarrow> t \<in> qall qs" for t using pq(3) k'(5,7) r(4) by (cases "t = p") auto
  have pr: "queue_index (t_prio (tasks k' t)) = j" if "a < 2" "j < MAX_PRIO" "t \<in> set (qs a j)" for a j t
  proof -
    have "t \<noteq> p" using pq(3) that qall_mem by blast
    then show ?thesis using r(6) [OF that] k'(5) by simp
  qed
  have rQ: "?R (Queue a j) = R (Queue a j)" for a j by (simp add: linked_def)
  have rep: "sched_rep k' ?R qs" unfolding sched_rep_def k'(2) rQ using k'(1) r(2,5,7-10) rn on pr by blast
  note tb = enter_table_ok(1) [OF d(7) p(1)]
  have tb': "table_ok (insert p A) k'" using tb unfolding table_ok_def k'(4) .
  have A64: "insert p A \<subseteq> {..64}" using d(3) p(2) by auto
  have tb64: "t \<le> 64" if "task_table k' i = Some t" for i t using table_okD(1) [OF tb' that] A64 by auto
  then have inv: "sched_inv k' ?R qs" using rep d(1) unfolding sched_inv_def k'(2) g by blast
  have par: "t_parent (tasks k' t) = (if t = p then Some q else t_parent (tasks k t))" if "t \<in> insert p A" for t using that tA k'(6) by auto
  have ch: "?R (Children t) = Some (map Sibling (?cs t))" if "t \<in> insert p A" for t
    using that f(3) pq(1) by (auto simp: linked_def)
  have np: "t_parent (tasks k c) \<noteq> Some p" if "c \<in> A" "c \<noteq> 0" for c using f(5) [OF that] p(1) by auto
  have cset: "set (?cs t) = {c \<in> insert p A - {0}. t_parent (tasks k' c) = Some t}" if "t \<in> insert p A" for t
  proof -
    have "c \<in> set (?cs t) \<longleftrightarrow> c \<in> insert p A - {0} \<and> t_parent (tasks k' c) = Some t" for c
    proof (cases "c = p")
      case True
      have "p \<notin> set (cs t)" if "t \<in> A" for t using family_child [OF d(6) that] p(1) by blast
      then show ?thesis using True pq k'(6) that q by auto
    next
      case False
      have "c \<in> set (cs t) \<longleftrightarrow> c \<in> A \<and> c \<noteq> 0 \<and> t_parent (tasks k c) = Some t" if "t \<in> A" for t
        by (rule family_child [OF d(6) that])
      then show ?thesis using False that q np par [of c] tA by auto
    qed
    then show ?thesis by (simp only: set_eq_iff mem_Collect_eq simp_thms)
  qed
  have own: "\<exists>r \<in> insert p A. r \<noteq> c \<and> t_parent (tasks k' c) = Some r" if "c \<in> insert p A - {0}" for c
    using that f(5) [of c] par [of c] pq(1) q by (cases "c = p") auto
  have hd: "(\<exists>a < 2. \<exists>j < MAX_PRIO. h = Queue a j) \<or> h = Tasks 0 \<or> (\<exists>t \<in> insert p A. h = Children t)" if "?R h = Some xs" for h xs
    using that f(6) [of h] q unfolding linked_def by (auto split: if_splits)
  have "set (ts @ [p]) = insert p A - {0}" using f(2) pq(2) by auto
  then have "family (insert p A) k' ?R (ts @ [p]) ?cs" unfolding family_def using ch cset own hd by (auto simp: linked_def)
  then show ?thesis unfolding core_def g using inv A64 d(2,4,5) tb' by blast
qed

end
