(* ===== verification/ForkProps.thy ===== *)
theory ForkProps
  imports ProcInv
begin

text \<open>
  Process creation keeps the process invariant: \<^verbatim>\<open>do_fork\<close> and \<^verbatim>\<open>kernel_thread\<close> either build a complete
  new task (\<open>forked\<close>, \<open>threaded\<close>) or fail and give everything back, and the start of the process
  subsystem establishes the invariant.
\<close>

unbundle bit_operations_syntax

subsection \<open>Address spaces\<close>

lemma mm_class: "kclass sizeof_mm_struct c \<Longrightarrow> mm_obj mm = (c, mm)"
  by (simp add: kclass_def mm_obj_def)

lemma kmem_kmalloc:
  assumes "kmem_ok S s L"
  shows "\<exists>w s'. kmalloc alloc_page sizeof_mm_struct s = Some (w, s')
    \<and> (case w of None \<Rightarrow> s' = s | Some mm \<Rightarrow> mm \<noteq> 0 \<and> mm_obj mm \<notin> L \<and> kmem_ok S s' (insert (mm_obj mm) L))"
proof -
  from stack_frames.kmalloc_ok [OF assms [unfolded kmem_ok_def], of sizeof_mm_struct] obtain w s' where
    w: "kmalloc alloc_page sizeof_mm_struct s = Some (w, s')"
      "case w of None \<Rightarrow> s' = s \<and> (sizeof_mm_struct = 0 \<or> 2048 < sizeof_mm_struct \<or> fst (alloc_page (sframes s)) = 0)
       | Some x \<Rightarrow> \<exists>c. kclass sizeof_mm_struct c \<and> (c, x) \<notin> L \<and> kmalloc_inv (stack_ok S) owned_frames s' (insert (c, x) L)" by blast
  have "mm \<noteq> 0" if "w = Some mm" for mm
  proof -
    obtain c where c: "kmalloc_inv (stack_ok S) owned_frames s' (insert (c, mm) L)" using w(2) \<open>w = Some mm\<close> by auto
    have x: "(c, mm) \<in> insert (c, mm) L" by simp
    have i: "slab_inv (stack_ok S) owned_frames s' (insert (c, mm) L)" using c by (simp add: kmalloc_inv_def)
    from stack_frames.live_objD [OF i x] obtain p where p: "p \<in> owned_frames (sframes s')" "mm AND NOT (PAGE_SIZE - 1) = p" by metis
    have "stack_ok S (sframes s')" using i unfolding slab_inv_def srep_def by blast
    then have "p \<noteq> 0" using stack_frames.owned_frame p(1) by blast
    then show ?thesis using p(2) by auto
  qed
  then show ?thesis using w by (cases w) (auto simp: kmem_ok_def mm_class)
qed

lemma kmem_kfree:
  assumes "kmem_ok S s L" "mm_obj mm \<in> L"
  shows "\<exists>s'. kfree free_page (Some mm) s = Some s' \<and> kmem_ok S s' (L - {mm_obj mm})"
  using stack_frames.kfree_ok [OF assms(1) [unfolded kmem_ok_def], of "fst (mm_obj mm)" mm] assms(2) by (simp add: kmem_ok_def mm_obj_def)

lemma spacesD:
  assumes "spaces A k L" "t \<in> A" "t_mm (tasks k t) = mm" "mm \<noteq> 0"
  shows "mm_obj mm \<in> L" "mm_users (mms k mm) = int (card {u \<in> A. t_mm (tasks k u) = mm})"
  using assms unfolding spaces_def by blast+

text \<open>The \<^verbatim>\<open>mm_struct\<close> of a new process that does not share the one of its parent.\<close>

definition copied_mm :: "mm_struct \<Rightarrow> mm_struct" where
  "copied_mm o1 = zero_mm\<lparr>mm_users := 1, mm_count := 1, mm_start_code := mm_start_code o1, mm_end_code := mm_end_code o1,
     mm_start_data := mm_start_data o1, mm_end_data := mm_end_data o1, mm_start_brk := mm_start_brk o1,
     mm_brk := mm_brk o1, mm_start_stack := mm_start_stack o1, mm_arg_start := mm_arg_start o1,
     mm_arg_end := mm_arg_end o1, mm_env_start := mm_env_start o1, mm_env_end := mm_env_end o1\<rparr>"

text \<open>The address space of a new process: none, the one of the parent, or a new one.\<close>

definition new_space :: "u64 \<Rightarrow> u64 \<Rightarrow> (u64 \<Rightarrow> mm_struct) \<Rightarrow> (nat \<times> u64) set \<Rightarrow> u64 \<Rightarrow> (u64 \<Rightarrow> mm_struct) \<Rightarrow> (nat \<times> u64) set \<Rightarrow> bool" where
  "new_space clone_flags oldmm M L mm M' L' \<longleftrightarrow>
     (if oldmm = 0 then mm = 0 \<and> M' = M \<and> L' = L
      else if clone_flags AND CLONE_VM \<noteq> 0 then mm = oldmm \<and> M' = M(mm := (M mm)\<lparr>mm_users := mm_users (M mm) + 1\<rparr>) \<and> L' = L
      else mm \<noteq> 0 \<and> mm_obj mm \<notin> L \<and> M' = M(mm := copied_mm (M oldmm)) \<and> L' = insert (mm_obj mm) L)"

lemma copy_mm_ok:
  assumes m: "kmem_ok S (kmem k) L" and o: "oldmm = t_mm (tasks k (get_current k))" "oldmm \<noteq> 0 \<Longrightarrow> mm_obj oldmm \<in> L"
  shows "copy_mm clone_flags p k = Some (-1, k) \<and> oldmm \<noteq> 0 \<and> clone_flags AND CLONE_VM = 0
    \<or> (\<exists>mm m' M' L'. copy_mm clone_flags p k = Some (0, upd_task p (\<lambda>t. t\<lparr>t_mm := mm, t_active_mm := mm\<rparr>) (k\<lparr>kmem := m', mms := M'\<rparr>))
        \<and> new_space clone_flags oldmm (mms k) L mm M' L' \<and> kmem_ok S m' L')"
proof (cases "oldmm = 0 \<or> clone_flags AND CLONE_VM \<noteq> 0")
  case True
  let ?M = "if oldmm = 0 then mms k else (mms k)(oldmm := (mms k oldmm)\<lparr>mm_users := mm_users (mms k oldmm) + 1\<rparr>)"
  have "copy_mm clone_flags p k = Some (0, upd_task p (\<lambda>t. t\<lparr>t_mm := oldmm, t_active_mm := oldmm\<rparr>) (k\<lparr>kmem := kmem k, mms := ?M\<rparr>))"
    using True unfolding copy_mm_def Let_def o(1) [symmetric] by (auto simp: upd_task_def upd_mm_def)
  moreover have "new_space clone_flags oldmm (mms k) L oldmm ?M L" using True by (auto simp: new_space_def)
  ultimately show ?thesis using m by blast
next
  case False
  from kmem_kmalloc [OF m] obtain w s' where w: "kmalloc alloc_page sizeof_mm_struct (kmem k) = Some (w, s')"
    "case w of None \<Rightarrow> s' = kmem k | Some mm \<Rightarrow> mm \<noteq> 0 \<and> mm_obj mm \<notin> L \<and> kmem_ok S s' (insert (mm_obj mm) L)" by blast
  show ?thesis
  proof (cases w)
    case None
    then have "copy_mm clone_flags p k = Some (-1, k)"
      using w False unfolding copy_mm_def Let_def o(1) [symmetric] by (simp add: mm_alloc_def)
    then show ?thesis using False by blast
  next
    case (Some mm)
    then have mm: "mm \<noteq> 0" "mm_obj mm \<notin> L" "kmem_ok S s' (insert (mm_obj mm) L)" using w(2) by simp_all
    then have "mm \<noteq> oldmm" using o(2) False by blast
    let ?M = "(mms k)(mm := copied_mm (mms k oldmm))"
    have "copy_mm clone_flags p k = Some (0, upd_task p (\<lambda>t. t\<lparr>t_mm := mm, t_active_mm := mm\<rparr>) (k\<lparr>kmem := s', mms := ?M\<rparr>))"
      using w(1) Some False mm(1) \<open>mm \<noteq> oldmm\<close> unfolding copy_mm_def Let_def o(1) [symmetric]
      by (simp add: mm_alloc_def upd_task_def upd_mm_def copied_mm_def zero_mm_def)
    moreover have "new_space clone_flags oldmm (mms k) L mm ?M (insert (mm_obj mm) L)" using False mm by (simp add: new_space_def)
    ultimately show ?thesis using mm(3) by blast
  qed
qed

text \<open>The new task \<open>p\<close> is counted as a user of its address space.\<close>

lemma spaces_new:
  assumes sp: "spaces A k L" and f: "finite A" and p: "p \<notin> A" and q: "q \<in> A"
    and n: "new_space clone_flags (t_mm (tasks k q)) (mms k) L mm (mms k') L'"
    and k': "\<And>t. t \<in> A \<Longrightarrow> tasks k' t = tasks k t" "t_mm (tasks k' p) = mm"
  shows "spaces (insert p A) k' L'"
proof -
  let ?o = "t_mm (tasks k q)"
  let ?us = "\<lambda>x. {u \<in> A. t_mm (tasks k u) = x}"
  have users: "{u \<in> insert p A. t_mm (tasks k' u) = x} = (if x = mm then insert p (?us x) else ?us x)" for x
    using k' p by auto
  have fu: "finite (?us x)" "p \<notin> ?us x" for x using f p by auto
  have cd: "card {u \<in> insert p A. t_mm (tasks k' u) = x} = card (?us x) + (if x = mm then 1 else 0)" for x
    using card_insert_disjoint [OF fu] unfolding users by simp
  have fresh: "?us mm = {}" if "?o \<noteq> 0" "clone_flags AND CLONE_VM = 0"
    using n that spacesD(1) [OF sp] by (auto simp: new_space_def)
  have old: "mm_obj x \<in> L \<and> mm_users (mms k x) = int (card (?us x))" if "x \<noteq> 0" "?us x \<noteq> {}" for x
    using that spacesD [OF sp] by blast
  have "mm_obj x \<in> L' \<and> mm_users (mms k' x) = int (card {u \<in> insert p A. t_mm (tasks k' u) = x})"
    if x: "x \<noteq> 0" "x = mm \<or> ?us x \<noteq> {}" for x
  proof -
    have oq: "?us ?o \<noteq> {}" using q by blast
    consider "?o = 0" | "?o \<noteq> 0" "clone_flags AND CLONE_VM \<noteq> 0" | "?o \<noteq> 0" "clone_flags AND CLONE_VM = 0" by blast
    then show ?thesis
    proof cases
      case 1
      then show ?thesis using n x old [OF x(1)] unfolding cd by (auto simp: new_space_def)
    next
      case 2
      then have e: "mm = ?o" "mms k' = (mms k)(mm := (mms k mm)\<lparr>mm_users := mm_users (mms k mm) + 1\<rparr>)" "L' = L" using n by (simp_all add: new_space_def)
      have "?us x \<noteq> {}" using x(2) oq e(1) by blast
      then show ?thesis using old [OF x(1)] e(2,3) unfolding cd by auto
    next
      case 3
      then have e: "mms k' = (mms k)(mm := copied_mm (mms k ?o))" "L' = insert (mm_obj mm) L" using n by (simp_all add: new_space_def)
      show ?thesis
      proof (cases "x = mm")
        case True
        have "card (?us mm) = 0" by (simp only: fresh [OF 3] card.empty)
        then show ?thesis using True e unfolding cd by (simp add: copied_mm_def)
      next
        case False
        then show ?thesis using e x old [OF x(1)] unfolding cd by auto
      qed
    qed
  qed
  moreover have "t_mm (tasks k' t) = mm \<or> ?us (t_mm (tasks k' t)) \<noteq> {}" if "t \<in> insert p A" for t using that k' by auto
  ultimately show ?thesis unfolding spaces_def by blast
qed

subsection \<open>What a new process looks like\<close>

lemma fold_upd_task: "fold (\<lambda>i. upd_task p (g i)) xs k = upd_task p (fold g xs) k"
  by (induction xs arbitrary: k) (simp_all add: upd_task_def)

lemma fold_upd_ofile: "fold (\<lambda>i t. t\<lparr>t_ofile := (t_ofile t)(i := f i)\<rparr>) xs t = t\<lparr>t_ofile := (\<lambda>i. if i \<in> set xs then f i else t_ofile t i)\<rparr>"
  by (induction xs arbitrary: t) (auto simp: fun_upd_def intro!: arg_cong [where f = "\<lambda>g. t_ofile_update (\<lambda>_. g) _"])

lemma fold_upd_comm: "fold (\<lambda>i t. t\<lparr>t_comm := (t_comm t)(i := f i)\<rparr>) xs t = t\<lparr>t_comm := (\<lambda>i. if i \<in> set xs then f i else t_comm t i)\<rparr>"
  by (induction xs arbitrary: t) (auto simp: fun_upd_def intro!: arg_cong [where f = "\<lambda>g. t_comm_update (\<lambda>_. g) _"])

text \<open>The trap frame of a new process: that of the caller with 0 in register \<^verbatim>\<open>a0\<close>.\<close>

definition child_frame :: "u64 \<Rightarrow> u64 \<Rightarrow> kern \<Rightarrow> trapframe" where
  "child_frame usp regs k =
     (if regs = 0 then zero_trapframe
      else if usp = 0 then (tframes k regs)\<lparr>tf_a0 := 0\<rparr> else (tframes k regs)\<lparr>tf_a0 := 0, tf_sp := usp\<rparr>)"

definition child_regs :: "u64 \<Rightarrow> u64" where
  "child_regs ti = ti + THREAD_SIZE - PT_REGS_SIZE"

text \<open>The parts of a task that \<^verbatim>\<open>copy_files\<close>, \<^verbatim>\<open>copy_fs\<close>, \<^verbatim>\<open>copy_sighand\<close> and \<^verbatim>\<open>copy_thread\<close> fill in.\<close>

definition with_files :: "u64 \<Rightarrow> task_struct \<Rightarrow> task_struct \<Rightarrow> task_struct" where
  "with_files clone_flags cur t =
     (if clone_flags AND CLONE_FILES \<noteq> 0 then t\<lparr>t_files := t_files cur\<rparr>
      else t\<lparr>t_ofile := (\<lambda>i. if i < MAX_OPEN_FILES then t_ofile cur i else t_ofile t i)\<rparr>)"

definition with_fs :: "u64 \<Rightarrow> task_struct \<Rightarrow> task_struct \<Rightarrow> task_struct" where
  "with_fs clone_flags cur t = t\<lparr>t_fs := (if clone_flags AND CLONE_FS \<noteq> 0 then t_fs cur else 0), t_cwd := t_cwd cur\<rparr>"

definition with_sighand :: "task_struct \<Rightarrow> task_struct \<Rightarrow> task_struct" where
  "with_sighand cur t = t\<lparr>t_pending := 0, t_blocked := t_blocked cur\<rparr>"

definition with_thread :: "code_syms \<Rightarrow> task_struct \<Rightarrow> task_struct" where
  "with_thread y t = t\<lparr>t_trapframe := task_pt_regs t,
     t_thread := (t_thread t)\<lparr>th_ra := ret_from_fork y, th_sp := task_pt_regs t, th_s := (\<lambda>i. if i < 12 then 0 else th_s (t_thread t) i)\<rparr>,
     t_context := (t_context t)\<lparr>c_ra := ret_from_fork y, c_sp := task_pt_regs t, c_s0 := 0\<rparr>\<rparr>"

lemma copy_files_run:
  assumes "get_current k \<noteq> p"
  shows "\<exists>fc. copy_files clone_flags p k = (0, k\<lparr>tasks := (tasks k)(p := with_files clone_flags (tasks k (get_current k)) (tasks k p)), files_count := fc\<rparr>)"
proof (cases "clone_flags AND CLONE_FILES \<noteq> 0 \<and> t_files (tasks k (get_current k)) \<noteq> 0")
  case True
  let ?f = "t_files (tasks k (get_current k))"
  show ?thesis using True
    by (intro exI [of _ "(files_count k)(?f := files_count k ?f + 1)"]) (simp add: copy_files_def Let_def with_files_def upd_task_def)
next
  case False
  then show ?thesis
    by (intro exI [of _ "files_count k"]) (auto simp: copy_files_def Let_def with_files_def fold_upd_task fold_upd_ofile upd_task_def)
qed

lemma copy_fs_run:
  assumes "get_current k \<noteq> p"
  shows "\<exists>sc. copy_fs clone_flags p k = (0, k\<lparr>tasks := (tasks k)(p := with_fs clone_flags (tasks k (get_current k)) (tasks k p)), fs_count := sc\<rparr>)"
proof (cases "clone_flags AND CLONE_FS \<noteq> 0 \<and> t_fs (tasks k (get_current k)) \<noteq> 0")
  case True
  let ?f = "t_fs (tasks k (get_current k))"
  show ?thesis using True
    by (intro exI [of _ "(fs_count k)(?f := fs_count k ?f + 1)"]) (auto simp: copy_fs_def Let_def with_fs_def upd_task_def intro!: kern.equality)
next
  case False
  then show ?thesis by (intro exI [of _ "fs_count k"]) (auto simp: copy_fs_def Let_def with_fs_def upd_task_def)
qed

lemma copy_sighand_run:
  assumes "get_current k \<noteq> p"
  shows "copy_sighand clone_flags p k = (0, k\<lparr>tasks := (tasks k)(p := with_sighand (tasks k (get_current k)) (tasks k p)),
    lists_of := INIT_LIST_HEAD (Pending p) (lists_of k)\<rparr>)"
  using assms by (auto simp: copy_sighand_def Let_def with_sighand_def upd_task_def init_list_def get_current_def intro!: kern.equality task_struct.equality)

lemma copy_thread_run:
  "copy_thread y clone_flags usp regs p k = (0, k\<lparr>tasks := (tasks k)(p := with_thread y (tasks k p)),
    tframes := (tframes k)(task_pt_regs (tasks k p) := child_frame usp regs k)\<rparr>)"
  unfolding copy_thread_def Let_def with_thread_def upd_task_def upd_frame_def child_frame_def task_pt_regs_def
  by (cases "regs = 0"; cases "usp = 0"; simp cong: if_cong)

definition entered :: "nat \<Rightarrow> (nat \<Rightarrow> nat option) \<Rightarrow> nat \<Rightarrow> nat option" where
  "entered p tt = (case find (\<lambda>slot. tt slot = None) [0..<MAX_PROCS] of None \<Rightarrow> tt | Some slot \<Rightarrow> tt(slot := Some p))"

lemma enter_table_eq: "enter_table p k = k\<lparr>task_table := entered p (task_table k)\<rparr>"
  by (auto simp: enter_table_def entered_def split: option.splits)

definition with_family :: "u64 \<Rightarrow> nat \<Rightarrow> task_struct \<Rightarrow> nat \<Rightarrow> task_struct \<Rightarrow> task_struct" where
  "with_family clone_flags c cur p t = t\<lparr>t_parent := Some c, t_real_parent := Some c,
     t_group_leader := (if clone_flags AND CLONE_THREAD \<noteq> 0 then t_group_leader cur else Some p),
     t_comm := (\<lambda>i. if i < TASK_COMM_LEN then t_comm cur i else t_comm t i), t_exit_code := 0,
     t_exit_signal := (if clone_flags AND CLONE_THREAD \<noteq> 0 then -1 else SIGCHLD), t_killed := 0, t_chan := None\<rparr>"

lemma link_process_run:
  assumes c: "core A k R qs ts cs" and p: "p \<notin> A"
  shows "\<exists>l. link_process clone_flags p k = Some (k\<lparr>tasks := (tasks k)(p := with_family clone_flags (get_current k) (tasks k (get_current k)) p (tasks k p)),
      task_table := entered p (task_table k), lists_of := l\<rparr>) \<and> rings l (linked p (get_current k) R ts cs)"
proof -
  let ?c = "get_current k"
  have cp: "?c \<in> A" "?c \<noteq> p" using coreD(5) [OF c] p by auto
  from link_lists(1) [OF c p cp(1)] obtain l1 l2 where
    l: "list_add_tail (Sibling p) (Children ?c) (INIT_LIST_HEAD (RunList p) (INIT_LIST_HEAD (Sibling p) (INIT_LIST_HEAD (Children p) (lists_of k)))) = Some l1"
      "list_add_tail (Tasks p) (Tasks 0) (INIT_LIST_HEAD (WaitHead p) l1) = Some l2" "rings l2 (linked p ?c R ts cs)" by blast
  have "link_process clone_flags p k = Some (k\<lparr>tasks := (tasks k)(p := with_family clone_flags ?c (tasks k ?c) p (tasks k p)),
      task_table := entered p (task_table k), lists_of := l2\<rparr>)"
    using cp(2) l unfolding link_process_def Let_def init_waitqueue_head_def enter_table_eq fold_upd_task fold_upd_comm on_lists_def
    by (simp add: upd_task_def with_family_def init_list_def cong: if_cong)
  then show ?thesis using l(3) by blast
qed

subsection \<open>The steps of \<^verbatim>\<open>copy_process\<close>\<close>

lemma proc_invD:
  assumes "proc_inv k R qs ts cs L"
  shows "core (live k) k R qs ts cs" "rested (live k) k qs" "idents (live k) k" "memory (live k) k L" "finite (live k)" "card (live k) \<le> 65"
    "spent (live k) k"
proof -
  show c: "core (live k) k R qs ts cs" "rested (live k) k qs" "idents (live k) k" "memory (live k) k L" "spent (live k) k"
    using assms unfolding proc_inv_def by blast+
  have "live k \<subseteq> {..64}" by (rule coreD(3) [OF c(1)])
  then show "finite (live k)" "card (live k) \<le> 65" using card_mono [of "{..64::nat}" "live k"] by (auto intro: finite_subset)
qed

text \<open>A failed attempt to build \<open>p\<close> leaves the invariant alone.\<close>

lemma proc_inv_fresh:
  assumes i: "proc_inv k R qs ts cs L" and o: "only p k k'" and p: "p \<notin> live k" "\<not> t_on_rq (tasks k' p)" and l: "live k' = live k"
    and d: "pid_lock k' = pid_lock k" "pid_used k' = pid_used k" and m: "kmem_ok (stacks (live k) k) (kmem k') L" "mms k' = mms k"
  shows "proc_inv k' R qs ts cs L"
proof -
  note x = proc_invD [OF i]
  have t: "tasks k' t = tasks k t" if "t \<in> live k" for t using o p(1) that unfolding only_def by metis
  have t0: "tasks k' 0 = tasks k 0" using t coreD(2) [OF x(1)] by blast
  have pd: "pids (live k) k' = pids (live k) k" "stacks (live k) k' = stacks (live k) k" by (simp_all add: pids_def stacks_def t)
  have ij: "inj_on (\<lambda>t. g (tasks k' t)) (live k) = inj_on (\<lambda>t. g (tasks k t)) (live k)" for g :: "task_struct \<Rightarrow> 'z"
    by (rule inj_on_cong) (simp add: t)
  have us: "{u \<in> live k. t_mm (tasks k' u) = v} = {u \<in> live k. t_mm (tasks k u) = v}" for v using t by auto
  have "idents (live k) k'" using x(3) unfolding idents_def d pd ij t0 by (simp add: t)
  moreover have "memory (live k) k' L" using x(4) m unfolding memory_def pd ij spaces_def us by (simp add: t)
  moreover have "spent (live k) k'" using x(7) unfolding spent_def zombies_def by (auto simp: t)
  ultimately show ?thesis using fresh_core [OF x(1) o p] x(2) unfolding proc_inv_def l by simp
qed

lemma pid_available:
  assumes i: "proc_inv k R qs ts cs L"
  shows "\<exists>q. 0 \<le> q \<and> q < PID_MAX \<and> \<not> pid_used k q"
proof (rule ccontr)
  note x = proc_invD [OF i]
  assume "\<nexists>q. 0 \<le> q \<and> q < PID_MAX \<and> \<not> pid_used k q"
  then have "{0..<PID_MAX} \<subseteq> pids (live k) k" using x(3) by (auto simp: idents_def)
  then have "card {0..<PID_MAX} \<le> card (pids (live k) k)" using x(5) by (intro card_mono) (simp_all add: pids_def)
  also have "\<dots> \<le> card (live k)" unfolding pids_def by (rule card_image_le [OF x(5)])
  finally show False using x(6) by (simp add: PID_MAX_def)
qed

text \<open>A new kernel stack.\<close>

definition fresh_info :: "u64 \<Rightarrow> thread_info \<Rightarrow> thread_info" where
  "fresh_info page ti = ti\<lparr>ti_task := None, ti_flags := 0, ti_preempt_count := 0, ti_cpu := 0, ti_addr_limit := 0,
     ti_kernel_sp := page + THREAD_SIZE, ti_user_sp := 0\<rparr>"

lemma alloc_thread_info_ok:
  assumes m: "kmem_ok S (kmem k) L"
  obtains (fail) "alloc_thread_info k = (0, k)" "fst (alloc_pages 1 (sframes (kmem k))) = 0"
    | (ok) ti fr where "ti \<noteq> 0" "alloc_thread_info k = (ti, upd_ti ti (fresh_info ti) (k\<lparr>kmem := (kmem k)\<lparr>sframes := fr\<rparr>\<rparr>))"
        "ti \<notin> S" "kmem_ok (insert ti S) ((kmem k)\<lparr>sframes := fr\<rparr>) L"
proof -
  obtain ti fr where a: "alloc_pages 1 (sframes (kmem k)) = (ti, fr)" by (cases "alloc_pages 1 (sframes (kmem k))")
  from kmem_frames [OF m] obtain M where mg: "manages (sframes (kmem k)) M" by (auto simp: stack_ok_def)
  show thesis
  proof (cases "ti = 0")
    case True
    have "fr = sframes (kmem k)" using mg a unfolding True by (cases rule: alloc_pages_cases) simp_all
    then have "alloc_thread_info k = (0, k)" using a True by (simp add: alloc_thread_info_def THREAD_SIZE_ORDER_def)
    then show thesis using a True by (intro fail) simp_all
  next
    case False
    have "alloc_thread_info k = (ti, upd_ti ti (fresh_info ti) (k\<lparr>kmem := (kmem k)\<lparr>sframes := fr\<rparr>\<rparr>))"
      using a False by (simp add: alloc_thread_info_def THREAD_SIZE_ORDER_def Let_def fresh_info_def [abs_def])
    then show thesis using ok [OF False] kmem_stack_alloc [OF m a False] by blast
  qed
qed

lemma live_pview: assumes "pview k' = pview k" shows "live k' = live k"
  unfolding live_def by (simp only: pviewD(5) [OF assms])

lemma mm_users_pview: assumes "pview k' = pview k" shows "mm_users (mms k' m) = mm_users (mms k m)"
  using pviewD(9) [OF assms, of m] by (cases "mms k' m"; cases "mms k m") simp

text \<open>What the scheduler changes does not matter for numbers and memory.\<close>

lemma proc_inv_pview:
  assumes i: "proc_inv k R qs ts cs L" and v: "pview k' = pview k" and c: "core (live k) k' R' qs' ts cs" "rested (live k) k' qs'"
    and z: "zombies k' = zombies k"
  shows "proc_inv k' R' qs' ts cs L"
proof -
  note x = proc_invD [OF i] note d = pviewD [OF v] note t = tviewD [OF d(8)]
  have "pid_used k' = pid_used k" by (simp add: pid_used_def d(2) fun_eq_iff)
  then have "idents (live k) k'" using x(3) unfolding idents_def pids_def t d(3) by simp
  moreover have "memory (live k) k' L" using x(4) unfolding memory_def stacks_def spaces_def t d(6) mm_users_pview [OF v] .
  moreover have "spent (live k) k'" using x(7) unfolding spent_def z t .
  ultimately show ?thesis using c unfolding proc_inv_def live_pview [OF v] by blast
qed

text \<open>A task \<open>p\<close> that has been built and linked belongs to the live ones.\<close>

lemma birth:
  assumes i: "proc_inv k R qs ts cs L" and p: "p \<notin> live k" and c: "core (insert p (live k)) k' R' qs' ts' cs'" and q: "qs' = qs"
    and t: "\<And>t. t \<noteq> p \<Longrightarrow> tasks k' t = tasks k t" and cur: "get_current k' = get_current k"
    and f: "t_pid (tasks k' p) = pid" "t_stack (tasks k' p) = ti" "t_state (tasks k' p) = TASK_RUNNING"
    and par: "t_parent (tasks k' p) = Some r" "r \<in> live k" "r \<notin> zombies k"
    and l: "live k' = insert p (live k)"
    and pid: "0 < pid" "pid < PID_MAX" "\<not> pid_used k pid" "\<not> pid_lock k'" "\<And>r. pid_used k' r \<longleftrightarrow> pid_used k r \<or> r = pid"
    and m: "ti \<noteq> 0" "ti \<notin> stacks (live k) k" "kmem_ok (insert ti (stacks (live k) k)) (kmem k') L'" "spaces (insert p (live k)) k' L'"
  shows "proc_inv k' R' qs' ts' cs' L'"
proof -
  note x = proc_invD [OF i]
  have 0: "0 \<in> live k" "p \<noteq> 0" using coreD(2) [OF x(1)] p by metis+
  have tA: "tasks k' u = tasks k u" if "u \<in> live k" for u using t that p by metis
  have pn: "pid \<notin> pids (live k) k" using pid(3) x(3) by (simp add: idents_def)
  have pids: "pids (insert p (live k)) k' = insert pid (pids (live k) k)" by (simp add: pids_def f(1) tA)
  have st: "stacks (insert p (live k)) k' = insert ti (stacks (live k) k)" using m(1) by (auto simp: stacks_def f(2) tA)
  have ij: "inj_on (\<lambda>t. g (tasks k' t)) (insert p (live k))"
    if "inj_on (\<lambda>t. g (tasks k t)) (live k)" "g (tasks k' p) \<notin> (\<lambda>t. g (tasks k t)) ` live k" for g :: "task_struct \<Rightarrow> 'z"
  proof -
    have "inj_on (\<lambda>t. g (tasks k' t)) (live k)" using that(1) by (subst inj_on_cong [where g = "\<lambda>t. g (tasks k t)"]) (simp_all add: tA)
    moreover have "(\<lambda>t. g (tasks k' t)) ` live k = (\<lambda>t. g (tasks k t)) ` live k" by (rule image_cong) (simp_all add: tA)
    ultimately show ?thesis using that(2) p by simp
  qed
  have "idents (insert p (live k)) k'"
    using x(3) pid ij [of t_pid] pn f(1) 0 unfolding idents_def pids by (auto simp: pids_def tA)
  moreover have "memory (insert p (live k)) k' L'"
  proof -
    have "inj_on (\<lambda>t. t_stack (tasks k' t)) (insert p (live k))"
      using x(4) m(1,2) f(2) by (intro ij) (auto simp: memory_def stacks_def)
    then show ?thesis using x(4) m f(2) unfolding memory_def st by (auto simp: tA)
  qed
  moreover have "rested (insert p (live k)) k' qs'"
    using x(2) 0 f(3) unfolding rested_def cur q by (auto simp: tA TASK_RUNNING_def TASK_ZOMBIE_def)
  moreover have "spent (insert p (live k)) k'"
  proof -
    have "t_parent (tasks k u) \<noteq> Some p" if "u \<in> live k" "u \<noteq> 0" for u using familyD(5) [OF coreD(6) [OF x(1)] that] p by auto
    then have "t_parent (tasks k' u) \<noteq> Some t" if "t \<in> insert p (live k) \<inter> zombies k'" "u \<in> insert p (live k) - {0}" for t u
      using that x(7) par f(3) 0 unfolding spent_def zombies_def
      by (cases "t = p"; cases "u = p") (auto simp: tA TASK_RUNNING_def TASK_ZOMBIE_def)
    moreover have "t_mm (tasks k' t) = 0" if "t \<in> insert p (live k) \<inter> zombies k'" for t
      using that x(7) f(3) unfolding spent_def zombies_def by (cases "t = p") (auto simp: tA TASK_RUNNING_def TASK_ZOMBIE_def)
    ultimately show ?thesis unfolding spent_def by blast
  qed
  ultimately show ?thesis using c unfolding proc_inv_def l by blast
qed

lemma proc_wake_new:
  assumes i: "proc_inv k R qs ts cs L" and p: "p \<in> live k" "p \<notin> qall qs" "p \<noteq> get_current k" "t_state (tasks k p) = TASK_RUNNING"
  shows "\<exists>k' R' qs'. wake_up_new_task (Some p) k = Some k' \<and> proc_inv k' R' qs' ts cs L \<and> pview k' = pview k \<and> get_current k' = get_current k
    \<and> p \<in> qall qs' \<and> t_state (tasks k' p) = TASK_RUNNING \<and> p \<in> qarr qs' (rq_active (runqueue k')) \<and> (exact k qs \<longrightarrow> exact k' qs')
    \<and> qall qs' = insert p (qall qs)"
proof -
  note x = proc_invD [OF i] note d = coreD [OF x(1)]
  let ?qs = "queue_in (rq_active (runqueue k)) (queue_index (t_prio (tasks k p))) p qs"
  have p64: "p \<le> 64" using p(1) d(3) by auto
  from wake_up_new_task_ok [OF d(1) p(2) p64 refl, where sp = "\<lambda>_. 0"] obtain k' R' where
    k': "wake_up_new_task (Some p) k = Some k'" "sched_inv k' R' ?qs" "same_lists R R'" "get_current k' = get_current k"
      "\<And>u. t_state (tasks k' u) = (if u = p then TASK_RUNNING else t_state (tasks k u))"
      "exact k qs \<Longrightarrow> exact k' ?qs" "rq_active (runqueue k') = rq_active (runqueue k)" by blast
  note v = pview_wake_new [OF k'(1)]
  have q: "qall ?qs = insert p (qall qs)" using sched_repD(7) [OF sched_invD(1) [OF d(1)]] by (simp add: qall_queue_in)
  have "core (live k) k' R' ?qs ts cs"
    by (rule sched_pview [OF x(1) k'(2,3) v])
      (use sched_repD(4) [OF sched_invD(1) [OF k'(2)]] d(4,5) k'(4) p(1) in \<open>auto simp: q\<close>)
  moreover have "rested (live k) k' ?qs"
    using x(2) unfolding rested_def k'(4,5) q by (auto simp: TASK_ZOMBIE_def TASK_RUNNING_def)
  moreover have "p \<notin> zombies k" "zombies k' = zombies k" if "t_state (tasks k p) = TASK_RUNNING"
    using that unfolding zombies_def k'(5) by (auto simp: TASK_ZOMBIE_def TASK_RUNNING_def)
  moreover have "p \<in> qarr ?qs (rq_active (runqueue k'))"
    unfolding queue_in_def k'(7) by (auto simp: qarr_mem intro!: exI [of _ "queue_index (t_prio (tasks k p))"])
  moreover have "p \<in> qall ?qs" unfolding q by simp
  moreover have "t_state (tasks k' p) = TASK_RUNNING" using k'(5) by simp
  ultimately show ?thesis using proc_inv_pview [OF i v] k'(1,4,6) v p(4) q by blast
qed

definition base_task :: "u64 \<Rightarrow> task_struct \<Rightarrow> u64 \<Rightarrow> int \<Rightarrow> task_struct" where
  "base_task clone_flags cur ti pid = zero_task\<lparr>t_state := TASK_RUNNING, t_flags := t_flags cur AND NOT PF_IDLE, t_prio := t_prio cur,
     t_static_prio := t_static_prio cur, t_normal_prio := t_normal_prio cur, t_policy := t_policy cur,
     t_uid := t_uid cur, t_euid := t_euid cur, t_gid := t_gid cur, t_egid := t_egid cur, t_stack := ti, t_pid := pid,
     t_tgid := (if clone_flags AND CLONE_THREAD \<noteq> 0 then t_tgid cur else pid), t_ppid := t_pid cur,
     t_on_rq := False, t_time_slice := of_int DEF_TIMESLICE, t_utime := 0, t_stime := 0, t_nvcsw := 0, t_nivcsw := 0\<rparr>"

text \<open>The task structure of a new process with number \<open>pid\<close>, kernel stack \<open>ti\<close> and address space \<open>mm\<close>.\<close>

definition child_task :: "code_syms \<Rightarrow> u64 \<Rightarrow> kern \<Rightarrow> nat \<Rightarrow> u64 \<Rightarrow> int \<Rightarrow> u64 \<Rightarrow> task_struct" where
  "child_task y clone_flags k p ti pid mm =
     (let cur = tasks k (get_current k)
      in with_family clone_flags (get_current k) cur p (with_thread y (with_sighand cur (with_fs clone_flags cur
           (with_files clone_flags cur ((base_task clone_flags cur ti pid)\<lparr>t_mm := mm, t_active_mm := mm\<rparr>))))))"

lemmas child_defs = child_task_def Let_def with_family_def with_thread_def with_sighand_def with_fs_def with_files_def base_task_def zero_task_def

lemma child_fields:
  "t_pid (child_task y clone_flags k p ti pid mm) = pid" "t_stack (child_task y clone_flags k p ti pid mm) = ti"
  "t_state (child_task y clone_flags k p ti pid mm) = TASK_RUNNING" "\<not> t_on_rq (child_task y clone_flags k p ti pid mm)"
  "t_parent (child_task y clone_flags k p ti pid mm) = Some (get_current k)" "t_mm (child_task y clone_flags k p ti pid mm) = mm"
  "t_prio (child_task y clone_flags k p ti pid mm) = t_prio (tasks k (get_current k))"
  "t_trapframe (child_task y clone_flags k p ti pid mm) = child_regs ti"
  by (simp_all add: child_defs task_pt_regs_def child_regs_def)

text \<open>Steps 7 to 10 of \<^verbatim>\<open>copy_process\<close>, and all that follows the choice of the process number.\<close>

definition copy_parts :: "code_syms \<Rightarrow> u64 \<Rightarrow> u64 \<Rightarrow> u64 \<Rightarrow> nat \<Rightarrow> kern \<Rightarrow> kern" where
  "copy_parts y clone_flags stack_start regs p k6 =
     snd (copy_thread y clone_flags stack_start regs p
       (snd (copy_sighand clone_flags p (snd (copy_fs clone_flags p (snd (copy_files clone_flags p k6)))))))"

lemma copy_parts_run:
  assumes c: "get_current k6 = c" "c \<noteq> p" and b: "b = with_sighand (tasks k6 c) (with_fs clone_flags (tasks k6 c) (with_files clone_flags (tasks k6 c) (tasks k6 p)))"
  shows "\<exists>fc sc. copy_parts y clone_flags stack_start regs p k6 = k6\<lparr>tasks := (tasks k6)(p := with_thread y b), files_count := fc, fs_count := sc,
    lists_of := INIT_LIST_HEAD (Pending p) (lists_of k6), tframes := (tframes k6)(task_pt_regs (tasks k6 p) := child_frame stack_start regs k6)\<rparr>"
proof -
  let ?b7 = "with_files clone_flags (tasks k6 c) (tasks k6 p)"
  let ?b8 = "with_fs clone_flags (tasks k6 c) ?b7"
  from copy_files_run [of k6 p clone_flags] c obtain fc where
    r7: "copy_files clone_flags p k6 = (0, k6\<lparr>tasks := (tasks k6)(p := ?b7), files_count := fc\<rparr>)" by auto
  obtain k7 where k7: "k7 = k6\<lparr>tasks := (tasks k6)(p := ?b7), files_count := fc\<rparr>" by blast
  have t7: "get_current k7 = c" "tasks k7 c = tasks k6 c" "tasks k7 p = ?b7" using c by (auto simp: k7 get_current_def)
  from copy_fs_run [of k7 p clone_flags] t7 c(2) obtain sc where
    r8: "copy_fs clone_flags p k7 = (0, k7\<lparr>tasks := (tasks k7)(p := ?b8), fs_count := sc\<rparr>)" by auto
  obtain k8 where k8: "k8 = k7\<lparr>tasks := (tasks k7)(p := ?b8), fs_count := sc\<rparr>" by blast
  have t8: "get_current k8 = c" "tasks k8 c = tasks k6 c" "tasks k8 p = ?b8" using t7 c(2) by (simp_all add: k8 get_current_def)
  obtain k9 where k9: "k9 = k8\<lparr>tasks := (tasks k8)(p := b), lists_of := INIT_LIST_HEAD (Pending p) (lists_of k8)\<rparr>" by blast
  have r9: "copy_sighand clone_flags p k8 = (0, k9)" using copy_sighand_run [of k8 p clone_flags] t8 c(2) b k9 by simp
  have tf9: "tframes k9 = tframes k6" "tasks k9 p = b" by (simp_all add: k9 k8 k7)
  have cf: "child_frame stack_start regs k9 = child_frame stack_start regs k6" by (simp add: child_frame_def tf9)
  have pr: "task_pt_regs b = task_pt_regs (tasks k6 p)" by (simp add: b task_pt_regs_def with_sighand_def with_fs_def with_files_def)
  have "copy_parts y clone_flags stack_start regs p k6 = k9\<lparr>tasks := (tasks k9)(p := with_thread y b),
      tframes := (tframes k6)(task_pt_regs (tasks k6 p) := child_frame stack_start regs k6)\<rparr>"
    unfolding copy_parts_def copy_thread_run by (simp add: r7 k7 [symmetric] r8 k8 [symmetric] r9 tf9 cf pr)
  then have "copy_parts y clone_flags stack_start regs p k6 = k6\<lparr>tasks := (tasks k6)(p := with_thread y b), files_count := fc, fs_count := sc,
    lists_of := INIT_LIST_HEAD (Pending p) (lists_of k6), tframes := (tframes k6)(task_pt_regs (tasks k6 p) := child_frame stack_start regs k6)\<rparr>"
    by (simp add: k9 k8 k7)
  then show ?thesis by blast
qed

definition fork_tail :: "code_syms \<Rightarrow> u64 \<Rightarrow> u64 \<Rightarrow> u64 \<Rightarrow> nat \<Rightarrow> u64 \<Rightarrow> kern \<Rightarrow> ((int + nat) \<times> kern) option" where
  "fork_tail y clone_flags stack_start regs p ti k5 =
     do {
       (retval, k6) \<leftarrow> copy_mm clone_flags p k5;
       if retval \<noteq> 0 then map_option (\<lambda>k'. (Inl retval, k')) (bad_fork_cleanup p ti k6)
       else do {
         k11 \<leftarrow> link_process clone_flags p (copy_parts y clone_flags stack_start regs p k6);
         Some (Inr p, k11)
       }
     }"

lemma fork_tail_eq:
  "fork_tail y clone_flags stack_start regs p ti k5 =
     do {
       (retval, k6) \<leftarrow> copy_mm clone_flags p k5;
       if retval \<noteq> 0 then map_option (\<lambda>k'. (Inl retval, k')) (bad_fork_cleanup p ti k6)
       else do {
         let (_, k7) = copy_files clone_flags p k6;
         let (_, k8) = copy_fs clone_flags p k7;
         let (_, k9) = copy_sighand clone_flags p k8;
         let (_, k10) = copy_thread y clone_flags stack_start regs p k9;
         k11 \<leftarrow> link_process clone_flags p k10;
         Some (Inr p, k11)
       }
     }"
  unfolding fork_tail_def copy_parts_def case_prod_unfold Let_def ..

text \<open>The state in which the task has its stack and its number: \<open>t\<close> is its structure.\<close>

definition started :: "nat \<Rightarrow> u64 \<Rightarrow> int \<Rightarrow> task_struct \<Rightarrow> kern \<Rightarrow> kern \<Rightarrow> bool" where
  "started p ti pid t k k5 \<longleftrightarrow> only p k k5 \<and> tasks k5 p = t \<and> mms k5 = mms k \<and> tframes k5 = tframes k
     \<and> pid_lock k5 = pid_lock k \<and> pid_bitmap k5 = set_bit_at (nat pid) (pid_bitmap k)
     \<and> task_cache_bitmap k5 = task_cache_bitmap k OR push_bit (p - 1) 1
     \<and> (\<exists>fr. kmem k5 = (kmem k)\<lparr>sframes := fr\<rparr>)"

text \<open>A task structure that is given back at once.\<close>

lemma task_struct_back:
  assumes i: "proc_inv k R qs ts cs L" and p: "p \<notin> live k" "1 \<le> p" "p \<le> 64" and k': "k' = free_task_struct (Some p) (new_task p k)"
  shows "proc_inv k' R qs ts cs L" "only p k k'"
proof -
  note x = proc_invD [OF i]
  have e: "k' = (new_task p k)\<lparr>task_cache_bitmap := task_cache_bitmap k\<rparr>"
    unfolding k' free_task_bitmap [OF p(2,3)] using bitmap_restore [OF p(2,3,1)] by (simp add: new_task_def Let_def upd_task_def)
  show o: "only p k k'" using only_new [of p k] unfolding e only_def by simp
  have kf: "pid_lock k' = pid_lock k" "pid_bitmap k' = pid_bitmap k" "kmem k' = kmem k" "mms k' = mms k" "task_cache_bitmap k' = task_cache_bitmap k"
    "tasks k' p = zero_task" unfolding e by (simp_all add: new_task_def Let_def upd_task_def)
  have "live k' = live k" "pid_used k' = pid_used k" by (simp_all only: live_def pid_used_def [abs_def] kf)
  then show "proc_inv k' R qs ts cs L"
    using x(4) by (intro proc_inv_fresh [OF i o p(1)]) (simp_all add: kf memory_def zero_task_def)
qed

text \<open>There is always a free process number.\<close>

lemma number_new:
  assumes i: "proc_inv k R qs ts cs L" and k: "pid_lock kk = pid_lock k" "pid_bitmap kk = pid_bitmap k"
  shows "\<exists>pid. alloc_pid kk = Some (pid, kk\<lparr>pid_bitmap := set_bit_at (nat pid) (pid_bitmap k), last_pid := pid\<rparr>)
    \<and> 0 < pid \<and> pid < PID_MAX \<and> \<not> pid_used k pid"
proof -
  note x = proc_invD [OF i]
  have pu: "pid_used kk = pid_used k" by (simp add: pid_used_def k fun_eq_iff)
  have "\<not> pid_lock kk" "pid_used kk 0" using x(3) coreD(2) [OF x(1)] unfolding pu k idents_def pids_def by auto
  from alloc_pid_ok [OF this] pid_available [OF i] show ?thesis unfolding pu k(2) by (metis (no_types, lifting))
qed

text \<open>The state with a cleared task structure \<open>p\<close> and a new kernel stack \<open>ti\<close>.\<close>

definition with_stack :: "nat \<Rightarrow> u64 \<Rightarrow> u64 set \<Rightarrow> (nat \<times> u64) set \<Rightarrow> kern \<Rightarrow> kern \<Rightarrow> bool" where
  "with_stack p ti S L k k2 \<longleftrightarrow> only p k k2 \<and> tasks k2 p = zero_task \<and> mms k2 = mms k \<and> tframes k2 = tframes k \<and> pid_lock k2 = pid_lock k
     \<and> pid_bitmap k2 = pid_bitmap k \<and> task_cache_bitmap k2 = task_cache_bitmap k OR push_bit (p - 1) 1
     \<and> (\<exists>fr. kmem k2 = (kmem k)\<lparr>sframes := fr\<rparr>) \<and> ti \<noteq> 0 \<and> ti \<notin> S \<and> kmem_ok (insert ti S) (kmem k2) L"

lemma stack_new:
  assumes i: "proc_inv k R qs ts cs L"
  obtains (fail) "alloc_thread_info (new_task p k) = (0, new_task p k)" "fst (alloc_pages 1 (sframes (kmem k))) = 0"
    | (ok) ti k2 where "alloc_thread_info (new_task p k) = (ti, k2)" "with_stack p ti (stacks (live k) k) L k k2"
proof -
  note x = proc_invD [OF i]
  have kmn: "kmem (new_task p k) = kmem k" by (simp add: new_task_def Let_def upd_task_def)
  have "kmem_ok (stacks (live k) k) (kmem (new_task p k)) L" using x(4) by (simp add: memory_def kmn)
  then show thesis
  proof (cases rule: alloc_thread_info_ok)
    case (ok ti fr)
    let ?k2 = "upd_ti ti (fresh_info ti) ((new_task p k)\<lparr>kmem := (kmem k)\<lparr>sframes := fr\<rparr>\<rparr>)"
    have "only p k ?k2" using only_new [of p k] by (simp add: only_def upd_ti_def)
    then have "with_stack p ti (stacks (live k) k) L k ?k2"
      using ok unfolding with_stack_def by (simp add: kmn new_task_def Let_def upd_task_def upd_ti_def exI [of _ fr])
    then show thesis using ok(2) that(2) by (simp add: kmn)
  qed (rule that(1), simp_all add: kmn)
qed

lemma copy_process_start:
  assumes i: "proc_inv k R qs ts cs L" and a: "alloc_task_struct k = (Some p, new_task p k)" and p: "p \<notin> live k" "1 \<le> p" "p \<le> 64"
  obtains (fail) k' where "copy_process y clone_flags stack_start regs k = Some (Inl (-1), k')" "proc_inv k' R qs ts cs L" "only p k k'"
        "fst (alloc_pages 1 (sframes (kmem k))) = 0"
    | (ok) ti pid k5 where "copy_process y clone_flags stack_start regs k = fork_tail y clone_flags stack_start regs p ti k5"
        "started p ti pid (base_task clone_flags (tasks k (get_current k)) ti pid) k k5"
        "0 < pid" "pid < PID_MAX" "\<not> pid_used k pid" "ti \<noteq> 0" "ti \<notin> stacks (live k) k" "kmem_ok (insert ti (stacks (live k) k)) (kmem k5) L"
proof -
  note x = proc_invD [OF i]
  let ?cur = "tasks k (get_current k)"
  have cp: "get_current k \<noteq> p" using coreD(5) [OF x(1)] p(1) by metis
  from i show thesis
  proof (cases rule: stack_new [where p = p])
    case fail
    then show thesis using that(1) task_struct_back [OF i p refl] a by (simp add: copy_process_def)
  next
    case (ok ti k2)
    note w = ok(2) [unfolded with_stack_def]
    obtain kk where kk: "kk = inherit p ti k2" by blast
    have kf: "pid_lock kk = pid_lock k" "pid_bitmap kk = pid_bitmap k" "kmem kk = kmem k2" "mms kk = mms k" "tframes kk = tframes k"
      "task_cache_bitmap kk = task_cache_bitmap k OR push_bit (p - 1) 1" "get_current kk = get_current k"
      using w by (simp_all add: kk inherit_def Let_def upd_task_def upd_ti_def get_current_def only_def)
    have o1: "only p k k2" using w by blast
    have o2: "only p k2 kk" unfolding kk inherit_def Let_def by (intro only_trans [OF only_trans [OF only_upd(1) only_upd(2)] only_upd(1)])
    note o = only_trans [OF o1 o2]
    from number_new [OF i kf(1,2)] obtain pid where
      pid: "alloc_pid kk = Some (pid, kk\<lparr>pid_bitmap := set_bit_at (nat pid) (pid_bitmap k), last_pid := pid\<rparr>)"
        "0 < pid" "pid < PID_MAX" "\<not> pid_used k pid" by blast
    have tc: "tasks k2 (get_current k) = ?cur" "tasks kk (get_current k) = ?cur" "get_current k2 = get_current k"
      using o1 o cp unfolding only_def get_current_def by auto
    obtain k5 where k5: "k5 = upd_task p (\<lambda>t. t\<lparr>t_tgid := (if clone_flags AND CLONE_THREAD \<noteq> 0 then t_tgid ?cur else pid), t_ppid := t_pid ?cur,
        t_on_rq := False, t_time_slice := of_int DEF_TIMESLICE, t_utime := 0, t_stime := 0, t_nvcsw := 0, t_nivcsw := 0\<rparr>)
        (upd_task p (\<lambda>t. t\<lparr>t_pid := pid\<rparr>) (kk\<lparr>pid_bitmap := set_bit_at (nat pid) (pid_bitmap k), last_pid := pid\<rparr>))" by blast
    have g: "get_current (kk\<lparr>pid_bitmap := b, last_pid := l\<rparr>) = get_current k" for b l using kf(7) by (simp add: get_current_def)
    have run: "copy_process y clone_flags stack_start regs k = fork_tail y clone_flags stack_start regs p ti k5"
      unfolding copy_process_def a fork_tail_eq k5 using ok(1) w pid(1) pid(2) cp by (simp add: Let_def kk [symmetric] g tc)
    have "tasks k5 p = base_task clone_flags ?cur ti pid" using w by (simp add: k5 kk inherit_def Let_def tc base_task_def)
    moreover have "only p k k5" using o unfolding k5 only_def by (simp add: upd_task_def)
    moreover have "kmem k5 = kmem k2" "mms k5 = mms k" "tframes k5 = tframes k" "pid_lock k5 = pid_lock k"
      "pid_bitmap k5 = set_bit_at (nat pid) (pid_bitmap k)" "task_cache_bitmap k5 = task_cache_bitmap k OR push_bit (p - 1) 1"
      by (simp_all add: k5 upd_task_def kf)
    ultimately show thesis using that(2) [OF run _ pid(2-4)] w unfolding started_def by auto
  qed
qed

lemma startedD:
  assumes "started p ti pid t k k5"
  shows "only p k k5" "tasks k5 p = t" "mms k5 = mms k" "tframes k5 = tframes k" "pid_lock k5 = pid_lock k"
    "pid_bitmap k5 = set_bit_at (nat pid) (pid_bitmap k)" "task_cache_bitmap k5 = task_cache_bitmap k OR push_bit (p - 1) 1"
    "\<exists>fr. kmem k5 = (kmem k)\<lparr>sframes := fr\<rparr>"
  using assms unfolding started_def by blast+

lemma clear_set_bit: "\<not> test_bit n bm \<Longrightarrow> clear_bit_at n (set_bit_at n bm) = bm"
  unfolding test_bit_iff clear_bit_at_def set_bit_at_def
  by (rule ext, rule bit_word_eqI) (auto simp: bit_and_iff bit_or_iff bit_not_iff bit_exp_iff)

text \<open>The error exit gives back the number, the stack and the task structure.\<close>

lemma cleanup_ok:
  assumes i: "proc_inv k R qs ts cs L" and p: "p \<notin> live k" "1 \<le> p" "p \<le> 64"
    and s: "started p ti pid t k k5" and t: "t_pid t = pid" "\<not> t_on_rq t"
    and pid: "0 < pid" "pid < PID_MAX" "\<not> pid_used k pid" and ti: "ti \<noteq> 0" "ti \<notin> stacks (live k) k" "kmem_ok (insert ti (stacks (live k) k)) (kmem k5) L"
  shows "\<exists>k'. bad_fork_cleanup p ti k5 = Some k' \<and> proc_inv k' R qs ts cs L \<and> only p k k'"
proof -
  note x = proc_invD [OF i] note d = startedD [OF s]
  let ?k1 = "k5\<lparr>pid_bitmap := pid_bitmap k\<rparr>"
  let ?k2 = "?k1\<lparr>kmem := (kmem k5)\<lparr>sframes := free_pages ti 1 (sframes (kmem k5))\<rparr>\<rparr>"
  let ?k' = "?k2\<lparr>task_cache_bitmap := task_cache_bitmap k\<rparr>"
  have "\<not> pid_lock k5" using x(3) d(5) by (simp add: idents_def)
  moreover have "\<not> test_bit (nat pid) (pid_bitmap k)" using pid by (simp add: pid_used_def)
  ultimately have f: "free_pid (t_pid (tasks k5 p)) k5 = Some ?k1"
    using pid(1,2) by (simp add: free_pid_ok d(2,6) t(1) clear_set_bit)
  have run: "bad_fork_cleanup p ti k5 = Some ?k'"
    unfolding bad_fork_cleanup_def f free_task_bitmap [OF p(2,3)]
    using ti(1) bitmap_restore [OF p(2,3,1)] d(7) by (simp add: free_thread_info_def THREAD_SIZE_ORDER_def)
  have o: "only p k ?k'" using d(1) unfolding only_def by simp
  have "insert ti (stacks (live k) k) - {ti} = stacks (live k) k" using ti(2) by blast
  then have m: "kmem_ok (stacks (live k) k) (kmem ?k') L" using kmem_stack_free(1) [OF ti(3), of ti] by simp
  have kf: "pid_lock ?k' = pid_lock k" "pid_bitmap ?k' = pid_bitmap k" "mms ?k' = mms k" "task_cache_bitmap ?k' = task_cache_bitmap k" "tasks ?k' p = t"
    using d by simp_all
  have l: "live ?k' = live k" "pid_used ?k' = pid_used k" by (simp_all only: live_def pid_used_def [abs_def] kf)
  have "proc_inv ?k' R qs ts cs L" by (rule proc_inv_fresh [OF i o p(1) _ l(1) kf(1) l(2) m kf(3)]) (simp only: kf t(2) not_False_eq_True)
  then show ?thesis using run o by blast
qed

lemma fork_tail_ok:
  assumes i: "proc_inv k R qs ts cs L" and p: "p \<notin> live k" "1 \<le> p" "p \<le> 64" and c: "c = get_current k"
    and s: "started p ti pid (base_task clone_flags (tasks k c) ti pid) k k5"
    and pid: "0 < pid" "pid < PID_MAX" "\<not> pid_used k pid" and ti: "ti \<noteq> 0" "ti \<notin> stacks (live k) k" "kmem_ok (insert ti (stacks (live k) k)) (kmem k5) L"
  obtains (fail) k' where "fork_tail y clone_flags stack_start regs p ti k5 = Some (Inl (-1), k')" "proc_inv k' R qs ts cs L" "only p k k'"
        "t_mm (tasks k c) \<noteq> 0" "clone_flags AND CLONE_VM = 0"
    | (ok) mm L' k' where "fork_tail y clone_flags stack_start regs p ti k5 = Some (Inr p, k')"
        "proc_inv k' (linked p c R ts cs) qs (ts @ [p]) (cs(p := [], c := cs c @ [p])) L'"
        "tasks k' = (tasks k)(p := child_task y clone_flags k p ti pid mm)" "new_space clone_flags (t_mm (tasks k c)) (mms k) L mm (mms k') L'"
        "tframes k' = (tframes k)(child_regs ti := child_frame stack_start regs k)" "live k' = insert p (live k)"
        "get_current k' = c" "runqueue k' = runqueue k"
proof -
  note x = proc_invD [OF i] note d = startedD [OF s]
  have cA: "c \<in> live k" "c \<noteq> p" using coreD(5) [OF x(1)] p(1) c by auto
  have gc: "get_current k5 = c" "tasks k5 c = tasks k c" using d(1) cA(2) c by (simp_all add: only_def get_current_def)
  have sp: "spaces (live k) k L" using x(4) by (simp add: memory_def)
  have "mm_obj (t_mm (tasks k c)) \<in> L" if "t_mm (tasks k c) \<noteq> 0" using spacesD(1) [OF sp cA(1) refl that] .
  from copy_mm_ok [OF ti(3), of "t_mm (tasks k c)" clone_flags p] this gc d(3) consider
    (none) "copy_mm clone_flags p k5 = Some (-1, k5)" "t_mm (tasks k c) \<noteq> 0" "clone_flags AND CLONE_VM = 0"
    | (some) mm m' M' L' where "copy_mm clone_flags p k5 = Some (0, upd_task p (\<lambda>t. t\<lparr>t_mm := mm, t_active_mm := mm\<rparr>) (k5\<lparr>kmem := m', mms := M'\<rparr>))"
        "new_space clone_flags (t_mm (tasks k c)) (mms k) L mm M' L'" "kmem_ok (insert ti (stacks (live k) k)) m' L'" by metis
  then show thesis
  proof cases
    case none
    from cleanup_ok [OF i p s _ _ pid ti] obtain k' where k': "bad_fork_cleanup p ti k5 = Some k'" "proc_inv k' R qs ts cs L" "only p k k'"
      by (auto simp: base_task_def)
    then show thesis using none by (intro fail [of k']) (simp_all add: fork_tail_def)
  next
    case (some mm m' M' L')
    let ?b = "(base_task clone_flags (tasks k c) ti pid)\<lparr>t_mm := mm, t_active_mm := mm\<rparr>"
    obtain k6 where k6: "k6 = k5\<lparr>kmem := m', mms := M', tasks := (tasks k5)(p := ?b)\<rparr>" by blast
    have e6: "upd_task p (\<lambda>t. t\<lparr>t_mm := mm, t_active_mm := mm\<rparr>) (k5\<lparr>kmem := m', mms := M'\<rparr>) = k6" by (simp add: upd_task_def k6 d(2))
    have t6: "tasks k6 p = ?b" "tasks k6 c = tasks k c" "get_current k6 = c" using gc cA(2) by (simp_all add: k6 get_current_def)
    obtain b9 where b9: "b9 = with_sighand (tasks k c) (with_fs clone_flags (tasks k c) (with_files clone_flags (tasks k c) ?b))" by blast
    obtain k10 where k10: "k10 = copy_parts y clone_flags stack_start regs p k6" by blast
    have pr: "task_pt_regs ?b = child_regs ti" by (simp add: task_pt_regs_def child_regs_def base_task_def)
    have cf: "child_frame stack_start regs k6 = child_frame stack_start regs k" by (simp add: child_frame_def k6 d(4))
    from copy_parts_run [OF t6(3) cA(2), of b9 clone_flags y stack_start regs] obtain fc sc where
      e10: "k10 = k6\<lparr>tasks := (tasks k6)(p := with_thread y b9), files_count := fc, fs_count := sc,
        lists_of := INIT_LIST_HEAD (Pending p) (lists_of k6), tframes := (tframes k6)(child_regs ti := child_frame stack_start regs k)\<rparr>"
      by (auto simp: t6 b9 pr cf k10)
    have b10: "tasks k10 = (tasks k5)(p := with_thread y b9)" by (simp add: e10 k6)
    have f10: "kmem k10 = m'" "mms k10 = M'" "pid_lock k10 = pid_lock k5" "pid_bitmap k10 = pid_bitmap k5" "task_cache_bitmap k10 = task_cache_bitmap k5"
      "task_table k10 = task_table k5" "current_task_ptr k10 = current_task_ptr k5" "runqueue k10 = runqueue k5"
      "lists_of k10 = INIT_LIST_HEAD (Pending p) (lists_of k5)" "get_current k10 = c" "tframes k10 = (tframes k)(child_regs ti := child_frame stack_start regs k)"
      using gc(1) by (simp_all add: e10 k6 get_current_def d(4))
    have o10: "only p k k10" using d(1) unfolding only_def b10 f10 by (auto simp: task_nodes_def)
    have nq: "\<not> t_on_rq (tasks k10 p)" by (simp add: b10 with_thread_def b9 with_sighand_def with_fs_def with_files_def base_task_def)
    note c10 = fresh_core [OF x(1) o10 p(1) nq]
    from link_process_run [OF c10(1) p(1), of clone_flags] obtain l where
      l: "link_process clone_flags p k10 = Some (k10\<lparr>tasks := (tasks k10)(p := with_family clone_flags c (tasks k c) p (with_thread y b9)),
            task_table := entered p (task_table k10), lists_of := l\<rparr>)" "rings l (linked p c R ts cs)"
      using gc(2) cA(2) by (auto simp: b10 f10)
    have ch: "with_family clone_flags c (tasks k c) p (with_thread y b9) = child_task y clone_flags k p ti pid mm"
      by (simp add: child_task_def Let_def b9 c)
    obtain k' where k': "k' = k10\<lparr>tasks := (tasks k10)(p := child_task y clone_flags k p ti pid mm), task_table := entered p (task_table k10), lists_of := l\<rparr>" by blast
    have run: "fork_tail y clone_flags stack_start regs p ti k5 = Some (Inr p, k')"
      unfolding fork_tail_def some(1) e6 using l(1) by (simp add: k10 [symmetric] ch k')
    have tk: "tasks k' = (tasks k)(p := child_task y clone_flags k p ti pid mm)" using d(1) by (auto simp: k' b10 only_def)
    have fs: "t_pid (tasks k' p) = pid" "t_stack (tasks k' p) = ti" "t_state (tasks k' p) = TASK_RUNNING" "t_parent (tasks k' p) = Some c"
      "\<not> t_on_rq (tasks k' p)" "t_mm (tasks k' p) = mm" by (simp_all add: tk child_fields c)
    have co: "core (insert p (live k)) k' (linked p c R ts cs) qs (ts @ [p]) (cs(p := [], c := cs c @ [p]))"
      by (rule core_link [OF c10(1) p(1,3) cA(1)]) (use l(2) fs in \<open>simp_all add: k' enter_table_eq\<close>)
    have lv: "live k' = insert p (live k)" by (rule live_new [OF p(2,3)]) (simp add: k' f10 d(7))
    have pu: "pid_used k' r \<longleftrightarrow> pid_used k r \<or> r = pid" for r
      using pid(1,2) by (auto simp: pid_used_def k' f10 d(6) test_set_bit)
    have km: "kmem_ok (insert ti (stacks (live k) k)) (kmem k') L'" using some(3) by (simp add: k' f10)
    have nsp: "new_space clone_flags (t_mm (tasks k c)) (mms k) L mm (mms k') L'" using some(2) by (simp add: k' f10)
    have sp': "spaces (insert p (live k)) k' L'"
      by (rule spaces_new [OF sp x(5) p(1) cA(1) nsp]) (use p(1) fs(6) in \<open>auto simp: tk\<close>)
    have cur: "get_current k' = get_current k" using f10(10) c by (simp add: k' get_current_def)
    have cz: "c \<notin> zombies k" using restedD(2) [OF x(2) cA(1)] c by (auto simp: zombies_def)
    have pl: "\<not> pid_lock k'" using x(3) by (simp add: k' f10 d(5) idents_def)
    have "proc_inv k' (linked p c R ts cs) qs (ts @ [p]) (cs(p := [], c := cs c @ [p])) L'"
      by (rule birth [OF i p(1) co refl _ cur fs(1-4) cA(1) cz lv pid pl pu ti(1,2) km sp']) (simp add: tk)
    moreover have "tframes k' = (tframes k)(child_regs ti := child_frame stack_start regs k)" "runqueue k' = runqueue k"
      using d(1) by (simp_all add: k' f10 only_def)
    ultimately show thesis using ok run tk nsp lv cur c by blast
  qed
qed

lemma wake_new_run:
  assumes "wake_up_new_task (Some p) k = Some k'"
  shows "tasks k' = (tasks k)(p := (tasks k p)\<lparr>t_state := TASK_RUNNING, t_time_slice := task_timeslice (tasks k p), t_on_rq := True\<rparr>)"
    "mms k' = mms k" "tframes k' = tframes k" "kmem k' = kmem k" "tinfos k' = tinfos k"
  using assms unfolding wake_up_new_task_def enqueue_task_def add_to_array_def rq_spin_lock_def rq_spin_unlock_def Let_def on_lists_def
  by (auto split: bind_splits if_splits simp: upd_task_def upd_rq_def upd_array_def)

text \<open>A task that has just been queued for the first time.\<close>

definition queued :: "task_struct \<Rightarrow> task_struct" where
  "queued t = t\<lparr>t_state := TASK_RUNNING, t_time_slice := task_timeslice t, t_on_rq := True\<rparr>"

text \<open>
  \<open>forked\<close>: what a successful \<^verbatim>\<open>do_fork\<close> has done.  \<open>p\<close> is the task structure of the new process, \<open>ti\<close> its kernel
  stack, \<open>mm\<close> its address space.
\<close>

definition forked :: "code_syms \<Rightarrow> u64 \<Rightarrow> u64 \<Rightarrow> u64 \<Rightarrow> kern \<Rightarrow> (nat \<times> u64) set \<Rightarrow> int \<Rightarrow> nat \<Rightarrow> u64 \<Rightarrow> u64 \<Rightarrow> kern \<Rightarrow> (nat \<times> u64) set \<Rightarrow> bool" where
  "forked y clone_flags usp regs k L pid p ti mm k' L' \<longleftrightarrow>
     p \<notin> live k \<and> live k' = insert p (live k) \<and> 0 < pid \<and> pid < PID_MAX \<and> pid \<notin> pids (live k) k \<and> ti \<noteq> 0 \<and> ti \<notin> stacks (live k) k
     \<and> tasks k' = (tasks k)(p := queued (child_task y clone_flags k p ti pid mm))
     \<and> tframes k' = (tframes k)(child_regs ti := child_frame usp regs k)
     \<and> new_space clone_flags (t_mm (tasks k (get_current k))) (mms k) L mm (mms k') L' \<and> get_current k' = get_current k"

lemma do_fork_ok:
  assumes i: "proc_inv k R qs ts cs L" and c: "c = get_current k"
  obtains (fail) k' where "do_fork y clone_flags usp regs k = Some (-1, k')" "proc_inv k' R qs ts cs L" "\<And>t. t \<in> live k \<Longrightarrow> tasks k' t = tasks k t"
      "live k = {..64} \<or> fst (alloc_pages 1 (sframes (kmem k))) = 0 \<or> t_mm (tasks k c) \<noteq> 0 \<and> clone_flags AND CLONE_VM = 0"
    | (ok) pid p ti mm k' R' qs' L' where "do_fork y clone_flags usp regs k = Some (pid, k')" "forked y clone_flags usp regs k L pid p ti mm k' L'"
        "proc_inv k' R' qs' (ts @ [p]) (cs(p := [], c := cs c @ [p])) L'" "p \<in> qall qs'"
proof (cases rule: alloc_task_ok [of k])
  case full
  then show thesis using i by (intro that(1) [of k]) (simp_all add: do_fork_def copy_process_def)
next
  case (ok p)
  note p = ok
  note x = proc_invD [OF i]
  have un: "tasks k' t = tasks k t" if "only p k k'" "t \<in> live k" for k' t using that p(4) unfolding only_def by metis
  from i p(1) p(4,2,3) show thesis
  proof (cases rule: copy_process_start [where y = y and clone_flags = clone_flags and stack_start = usp and regs = regs])
    case (fail k')
    then show thesis using un [of k'] by (intro that(1) [of k']) (simp_all add: do_fork_def)
  next
    case (ok ti pid k5)
    note st = this
    from i p(4,2,3) c st(2) [folded c] st(3-8) show thesis
    proof (cases rule: fork_tail_ok [where y = y and stack_start = usp and regs = regs])
      case (fail k')
      then show thesis using un [of k'] st(1) by (intro that(1) [of k']) (simp_all add: do_fork_def)
    next
      case (ok mm L' k1)
      note n = this
      have q: "p \<in> live k1" "p \<notin> qall qs" "p \<noteq> get_current k1" "t_state (tasks k1 p) = TASK_RUNNING"
        using n(3,6,7) p(4) coreD(4,5) [OF x(1)] c by (auto simp: child_fields)
      from proc_wake_new [OF n(2) q] obtain k' R' qs' where
        w: "wake_up_new_task (Some p) k1 = Some k'" "proc_inv k' R' qs' (ts @ [p]) (cs(p := [], c := cs c @ [p])) L'"
          "pview k' = pview k1" "get_current k' = get_current k1" "p \<in> qall qs'" by blast
      note r = wake_new_run [OF w(1)]
      have "pid \<notin> pids (live k) k" using x(3) st(5) by (simp add: idents_def)
      then have "forked y clone_flags usp regs k L pid p ti mm k' L'"
        using n st p(4) w(4) live_pview [OF w(3)] c unfolding forked_def r by (simp add: queued_def)
      moreover have "do_fork y clone_flags usp regs k = Some (pid, k')"
        unfolding do_fork_def st(1) using n(1,3) w(1) r(1) by (simp add: child_fields)
      ultimately show thesis using that(2) w(2,5) by blast
    qed
  qed
qed

subsection \<open>Kernel threads\<close>

text \<open>The task structure of a kernel thread that runs \<open>fn arg\<close>.\<close>

definition kthread_base :: "u64 \<Rightarrow> int \<Rightarrow> task_struct" where
  "kthread_base ti pid = zero_task\<lparr>t_state := TASK_RUNNING, t_flags := PF_KTHREAD, t_prio := DEFAULT_PRIO, t_static_prio := DEFAULT_PRIO,
     t_normal_prio := DEFAULT_PRIO, t_policy := SCHED_NORMAL, t_uid := 0, t_euid := 0, t_gid := 0, t_egid := 0, t_stack := ti, t_pid := pid\<rparr>"

definition kthread_task :: "code_syms \<Rightarrow> u64 \<Rightarrow> u64 \<Rightarrow> nat \<Rightarrow> u64 \<Rightarrow> int \<Rightarrow> task_struct" where
  "kthread_task y fn arg p ti pid = (kthread_base ti pid)\<lparr>
     t_tgid := pid, t_ppid := 0, t_mm := 0, t_active_mm := 0, t_on_rq := False, t_time_slice := of_int DEF_TIMESLICE, t_utime := 0, t_stime := 0,
     t_thread := zero_thread\<lparr>th_kthread_fn := fn, th_kthread_arg := arg, th_ra := kernel_thread_helper y, th_sp := ti + THREAD_SIZE\<rparr>,
     t_context := zero_context\<lparr>c_ra := kernel_thread_helper y, c_sp := ti + THREAD_SIZE - 16, c_s0 := 0\<rparr>,
     t_parent := Some 0, t_real_parent := Some 0, t_group_leader := Some p, t_comm := chars_of ''kthread'',
     t_exit_code := 0, t_exit_signal := 0, t_killed := 0, t_chan := None\<rparr>"

lemmas kthread_defs = kthread_task_def kthread_base_def zero_task_def

lemma kthread_fields_of:
  "t_pid (kthread_task y fn arg p ti pid) = pid" "t_stack (kthread_task y fn arg p ti pid) = ti"
  "t_state (kthread_task y fn arg p ti pid) = TASK_RUNNING" "\<not> t_on_rq (kthread_task y fn arg p ti pid)"
  "t_parent (kthread_task y fn arg p ti pid) = Some 0" "t_mm (kthread_task y fn arg p ti pid) = 0"
  by (simp_all add: kthread_defs)

lemma link_kthread_run:
  assumes c: "core A k R qs ts cs" and p: "p \<notin> A"
  shows "\<exists>l. link_kthread p k = Some (k\<lparr>tasks := (tasks k)(p := (tasks k p)\<lparr>t_parent := Some 0, t_real_parent := Some 0, t_group_leader := Some p,
      t_comm := (\<lambda>i. if i < 8 then chars_of ''kthread'' i else t_comm (tasks k p) i), t_exit_code := 0, t_exit_signal := 0, t_killed := 0, t_chan := None\<rparr>),
      task_table := entered p (task_table k), lists_of := l\<rparr>) \<and> rings l (linked p 0 R ts cs)"
proof -
  from link_lists(1) [OF c p coreD(2) [OF c]] obtain l1 l2 where
    l: "list_add_tail (Sibling p) (Children 0) (INIT_LIST_HEAD (RunList p) (INIT_LIST_HEAD (Sibling p) (INIT_LIST_HEAD (Children p) (lists_of k)))) = Some l1"
      "list_add_tail (Tasks p) (Tasks 0) (INIT_LIST_HEAD (WaitHead p) l1) = Some l2" "rings l2 (linked p 0 R ts cs)" by blast
  have "link_kthread p k = Some (k\<lparr>tasks := (tasks k)(p := (tasks k p)\<lparr>t_parent := Some 0, t_real_parent := Some 0, t_group_leader := Some p,
      t_comm := (\<lambda>i. if i < 8 then chars_of ''kthread'' i else t_comm (tasks k p) i), t_exit_code := 0, t_exit_signal := 0, t_killed := 0, t_chan := None\<rparr>),
      task_table := entered p (task_table k), lists_of := l2\<rparr>)"
    using l unfolding link_kthread_def Let_def init_waitqueue_head_def enter_table_eq fold_upd_task fold_upd_comm on_lists_def
    by (simp add: upd_task_def init_list_def cong: if_cong)
  then show ?thesis using l(3) by blast
qed

lemma kthread_comm: "(\<lambda>i. if i < 8 then chars_of ''kthread'' i else CHR 0x00) = chars_of ''kthread''"
  by (auto simp: chars_of_def fun_eq_iff)

lemma spaces_none:
  assumes sp: "spaces A k L" and p: "p \<notin> A" and k': "\<And>t. t \<in> A \<Longrightarrow> tasks k' t = tasks k t" "t_mm (tasks k' p) = 0" "mms k' = mms k"
  shows "spaces (insert p A) k' L"
proof -
  have us: "{u \<in> insert p A. t_mm (tasks k' u) = v} = {u \<in> A. t_mm (tasks k u) = v}" if "v \<noteq> 0" for v using that k'(1,2) by auto
  have "mm_obj v \<in> L \<and> mm_users (mms k' v) = int (card {u \<in> insert p A. t_mm (tasks k' u) = v})" if "t \<in> insert p A" "t_mm (tasks k' t) = v" "v \<noteq> 0" for t v
  proof -
    have "t \<in> A" "t_mm (tasks k t) = v" using that k'(1,2) by auto
    then show ?thesis using spacesD [OF sp _ _ that(3)] unfolding us [OF that(3)] k'(3) by blast
  qed
  then show ?thesis unfolding spaces_def by blast
qed

definition threaded :: "code_syms \<Rightarrow> u64 \<Rightarrow> u64 \<Rightarrow> kern \<Rightarrow> int \<Rightarrow> nat \<Rightarrow> u64 \<Rightarrow> kern \<Rightarrow> bool" where
  "threaded y fn arg k pid p ti k' \<longleftrightarrow>
     p \<notin> live k \<and> live k' = insert p (live k) \<and> 0 < pid \<and> pid < PID_MAX \<and> pid \<notin> pids (live k) k \<and> ti \<noteq> 0 \<and> ti \<notin> stacks (live k) k
     \<and> tasks k' = (tasks k)(p := queued (kthread_task y fn arg p ti pid)) \<and> mms k' = mms k \<and> get_current k' = get_current k"

lemma kernel_thread_ok:
  assumes i: "proc_inv k R qs ts cs L"
  obtains (fail) k' where "kernel_thread y fn arg flags k = Some (-1, k')" "proc_inv k' R qs ts cs L" "\<And>t. t \<in> live k \<Longrightarrow> tasks k' t = tasks k t"
      "live k = {..64} \<or> fst (alloc_pages 1 (sframes (kmem k))) = 0"
    | (ok) pid p ti k' R' qs' where "kernel_thread y fn arg flags k = Some (pid, k')" "threaded y fn arg k pid p ti k'"
        "proc_inv k' R' qs' (ts @ [p]) (cs(p := [], 0 := cs 0 @ [p])) L" "p \<in> qarr qs' (rq_active (runqueue k'))"
        "exact k qs \<Longrightarrow> exact k' qs'" "qall qs' = insert p (qall qs)"
proof (cases rule: alloc_task_ok [of k])
  case full
  then show thesis using i by (intro that(1) [of k]) (simp_all add: kernel_thread_def)
next
  case (ok p)
  note p = ok
  note x = proc_invD [OF i]
  have cp: "get_current k \<noteq> p" "0 \<in> live k" "p \<noteq> 0" using coreD(2,5) [OF x(1)] p(4) by (metis, metis, metis)
  from i show thesis
  proof (cases rule: stack_new [where p = p])
    case fail
    note b = task_struct_back [OF i p(4,2,3) refl]
    have "tasks (free_task_struct (Some p) (new_task p k)) t = tasks k t" if "t \<in> live k" for t
      using b(2) that p(4) unfolding only_def by metis
    then show thesis using that(1) b(1) p(1) fail by (simp add: kernel_thread_def)
  next
    case (ok ti k2)
    note w = ok(2) [unfolded with_stack_def]
    obtain kk where kk: "kk = kthread_fields p ti k2" by blast
    have kf: "pid_lock kk = pid_lock k" "pid_bitmap kk = pid_bitmap k" "kmem kk = kmem k2" "mms kk = mms k"
      "task_cache_bitmap kk = task_cache_bitmap k OR push_bit (p - 1) 1" "get_current kk = get_current k"
      using w by (simp_all add: kk kthread_fields_def Let_def upd_task_def upd_ti_def get_current_def only_def)
    have o1: "only p k k2" using w by blast
    have o2: "only p k2 kk" unfolding kk kthread_fields_def Let_def by (intro only_trans [OF only_trans [OF only_upd(1) only_upd(2)] only_upd(1)])
    note o = only_trans [OF o1 o2]
    from number_new [OF i kf(1,2)] obtain pid where
      pid: "alloc_pid kk = Some (pid, kk\<lparr>pid_bitmap := set_bit_at (nat pid) (pid_bitmap k), last_pid := pid\<rparr>)"
        "0 < pid" "pid < PID_MAX" "\<not> pid_used k pid" by blast
    obtain k4 where k4: "k4 = kthread_entry y fn arg p pid ti (upd_task p (\<lambda>t. t\<lparr>t_pid := pid\<rparr>) (kk\<lparr>pid_bitmap := set_bit_at (nat pid) (pid_bitmap k), last_pid := pid\<rparr>))" by blast
    have o4: "only p k k4" using o unfolding k4 only_def by (simp add: upd_task_def kthread_entry_def)
    have f4: "kmem k4 = kmem k2" "mms k4 = mms k" "pid_lock k4 = pid_lock k" "pid_bitmap k4 = set_bit_at (nat pid) (pid_bitmap k)"
      "task_cache_bitmap k4 = task_cache_bitmap k OR push_bit (p - 1) 1" by (simp_all add: k4 upd_task_def kthread_entry_def kf)
    have tp: "(tasks k4 p)\<lparr>t_parent := Some 0, t_real_parent := Some 0, t_group_leader := Some p, t_comm := (\<lambda>i. if i < 8 then chars_of ''kthread'' i else t_comm (tasks k4 p) i),
        t_exit_code := 0, t_exit_signal := 0, t_killed := 0, t_chan := None\<rparr> = kthread_task y fn arg p ti pid" "\<not> t_on_rq (tasks k4 p)"
      using w by (simp_all add: k4 kk kthread_entry_def kthread_fields_def Let_def kthread_defs kthread_comm cong: if_cong)
    note c4 = fresh_core [OF x(1) o4 p(4) tp(2)]
    from link_kthread_run [OF c4(1) p(4)] obtain l where l: "link_kthread p k4 = Some (k4\<lparr>tasks := (tasks k4)(p := kthread_task y fn arg p ti pid),
        task_table := entered p (task_table k4), lists_of := l\<rparr>)" "rings l (linked p 0 R ts cs)" unfolding tp(1) by blast
    obtain k1 where k1: "k1 = k4\<lparr>tasks := (tasks k4)(p := kthread_task y fn arg p ti pid), task_table := entered p (task_table k4), lists_of := l\<rparr>" by blast
    have tk: "tasks k1 = (tasks k)(p := kthread_task y fn arg p ti pid)" using o4 by (auto simp: k1 only_def)
    have fs: "t_pid (tasks k1 p) = pid" "t_stack (tasks k1 p) = ti" "t_state (tasks k1 p) = TASK_RUNNING" "t_parent (tasks k1 p) = Some 0"
      "\<not> t_on_rq (tasks k1 p)" "t_mm (tasks k1 p) = 0" by (simp_all add: tk kthread_fields_of)
    have co: "core (insert p (live k)) k1 (linked p 0 R ts cs) qs (ts @ [p]) (cs(p := [], 0 := cs 0 @ [p]))"
      by (rule core_link [OF c4(1) p(4,3) cp(2)]) (use l(2) fs in \<open>simp_all add: k1 enter_table_eq\<close>)
    have lv: "live k1 = insert p (live k)" by (rule live_new [OF p(2,3)]) (simp add: k1 f4)
    have pu: "pid_used k1 r \<longleftrightarrow> pid_used k r \<or> r = pid" for r using pid(2,3) by (auto simp: pid_used_def k1 f4 test_set_bit)
    have sp: "spaces (live k) k L" using x(4) by (simp add: memory_def)
    have m1: "mms k1 = mms k" by (simp add: k1 f4)
    have sp': "spaces (insert p (live k)) k1 L" by (rule spaces_none [OF sp p(4)]) (use p(4) fs(6) m1 in \<open>auto simp: tk\<close>)
    have cur: "get_current k1 = get_current k" using o4 by (simp add: k1 get_current_def only_def)
    have cz: "0 \<notin> zombies k" using restedD(1) [OF x(2)] by (simp add: zombies_def)
    have pl: "\<not> pid_lock k1" using x(3) by (simp add: k1 f4 idents_def)
    have ti: "ti \<noteq> 0" "ti \<notin> stacks (live k) k" "kmem_ok (insert ti (stacks (live k) k)) (kmem k1) L" using w by (simp_all add: k1 f4)
    have i1: "proc_inv k1 (linked p 0 R ts cs) qs (ts @ [p]) (cs(p := [], 0 := cs 0 @ [p])) L"
      by (rule birth [OF i p(4) co refl _ cur fs(1-4) cp(2) cz lv pid(2-4) pl pu ti sp']) (simp add: tk)
    have q: "p \<in> live k1" "p \<notin> qall qs" "p \<noteq> get_current k1" "t_state (tasks k1 p) = TASK_RUNNING" using lv cur p(4) coreD(4,5) [OF x(1)] fs(3) by auto
    from proc_wake_new [OF i1 q] obtain k' R' qs' where
      v: "wake_up_new_task (Some p) k1 = Some k'" "proc_inv k' R' qs' (ts @ [p]) (cs(p := [], 0 := cs 0 @ [p])) L"
        "pview k' = pview k1" "get_current k' = get_current k1" "p \<in> qarr qs' (rq_active (runqueue k'))" "exact k1 qs \<Longrightarrow> exact k' qs'"
        "qall qs' = insert p (qall qs)" by blast
    note r = wake_new_run [OF v(1)]
    have "pid \<notin> pids (live k) k" using x(3) pid(4) by (simp add: idents_def)
    then have "threaded y fn arg k pid p ti k'"
      using pid p(4) v(4) live_pview [OF v(3)] lv cur ti tk unfolding threaded_def r by (simp add: queued_def k1 f4)
    moreover have "kernel_thread y fn arg flags k = Some (pid, k')"
      unfolding kernel_thread_def p(1) using ok(1) ti(1) pid(1,2) l(1) v(1) r(1) tk by (simp add: Let_def kk [symmetric] k4 [symmetric] k1 [symmetric] kthread_fields_of)
    moreover have "exact k1 qs" if "exact k qs" using that o4 by (simp add: counted_def k1 only_def)
    ultimately show thesis using that(2) v(2,5,6,7) by blast
  qed
qed

subsection \<open>The start of the process subsystem\<close>

lemma boot_kmem: "kmem_ok {} boot_slabs {}"
proof -
  have "stack_ok {} (sframes boot_slabs)"
    unfolding boot_sframes stack_ok_def stacks_of_def page_init_ok(2) using page_init_ok(1) by blast
  from kmalloc_inv_frames [OF kbuddy_boot [unfolded kbuddy_def], of "stack_ok {}" "sframes boot_slabs", OF this subset_refl]
  show ?thesis by (simp add: kmem_ok_def)
qed

definition boot_lists :: "lnode \<Rightarrow> lnode list option" where
  "boot_lists = [Tasks 0 \<mapsto> [], Children 0 \<mapsto> []]"

lemma fold_table: "fold (\<lambda>i k. k\<lparr>task_table := (task_table k)(i := None)\<rparr>) [0..<n] k = k\<lparr>task_table := (\<lambda>i. if i < n then None else task_table k i)\<rparr>"
  by (induction n) (auto simp: fun_upd_def intro!: arg_cong [where f = "\<lambda>g. task_table_update (\<lambda>_. g) _"])

lemma fold_pids: "fold (\<lambda>i k. k\<lparr>pid_bitmap := (pid_bitmap k)(i := 0)\<rparr>) [0..<n] k = k\<lparr>pid_bitmap := (\<lambda>i. if i < n then 0 else pid_bitmap k i)\<rparr>"
  by (induction n) (auto simp: fun_upd_def intro!: arg_cong [where f = "\<lambda>g. pid_bitmap_update (\<lambda>_. g) _"])

lemma fork_init_ok:
  fixes m defines "k \<equiv> fork_init (static_kern m)"
  shows "rings (lists_of k) boot_lists" "task_table k = [0 \<mapsto> 0]" "live k = {0}" "\<not> t_on_rq (tasks k t)" "get_current k = 0"
    "t_pid (tasks k 0) = 0" "t_stack (tasks k 0) = 0" "t_mm (tasks k t) = 0" "\<not> pid_lock k" "pid_used k p \<longleftrightarrow> p = 0" "kmem k = m"
    "t_state (tasks k 0) = TASK_RUNNING"
proof -
  have e: "k = init_list (RunList 0) (init_list (Sibling 0) (init_list (Children 0)
      ((static_kern m)\<lparr>task_table := [0 \<mapsto> 0], pid_bitmap := (\<lambda>_. 0)(0 := 1), task_cache_bitmap := 0,
        tasks := (\<lambda>_. zero_task)(0 := init_task\<lparr>t_group_leader := Some 0, t_parent := Some 0, t_real_parent := Some 0\<rparr>)\<rparr>)))"
    unfolding k_def fork_init_def fold_table fold_pids Let_def
    by (simp add: static_kern_def upd_task_def fun_eq_iff pid_bitmap_size MAX_PROCS_def fun_upd_def cong: if_cong)
  have n: "lnext (lists_of k) (Tasks 0) = Some (Tasks 0)" "lprev (lists_of k) (Tasks 0) = Some (Tasks 0)"
    "lnext (lists_of k) (Children 0) = Some (Children 0)" "lprev (lists_of k) (Children 0) = Some (Children 0)"
    by (simp_all add: e static_kern_def static_lists_def init_list_def)
  show "rings (lists_of k) boot_lists" using n by (auto simp: rings_def ring_def boot_lists_def split: if_splits)
  show "task_table k = [0 \<mapsto> 0]" "\<not> pid_lock k" "kmem k = m" by (simp_all add: e init_list_def static_kern_def)
  show "\<not> t_on_rq (tasks k t)" "t_mm (tasks k t) = 0" by (simp_all add: e init_task_def zero_task_def)
  show "live k = {0}" by (simp add: e live_def init_list_def)
  show "get_current k = 0" by (simp add: e init_list_def get_current_def static_kern_def)
  show "t_pid (tasks k 0) = 0" "t_stack (tasks k 0) = 0" "t_state (tasks k 0) = TASK_RUNNING" by (simp_all add: e init_task_def)
  have "pid_bitmap k = (\<lambda>_. 0)(0 := 1)" by (simp add: e init_list_def)
  then show "pid_used k p \<longleftrightarrow> p = 0" by (auto simp: pid_used_def test_bit_def PID_MAX_def and_exp_eq_0_iff_not_bit bit_1_iff split: if_splits)
qed

lemma core_cong:
  assumes "core A k R qs ts cs" "lists_of k' = lists_of k" "runqueue k' = runqueue k" "get_current k' = get_current k" "task_table k' = task_table k"
    "\<And>t. t_on_rq (tasks k' t) = t_on_rq (tasks k t) \<and> t_prio (tasks k' t) = t_prio (tasks k t) \<and> t_parent (tasks k' t) = t_parent (tasks k t)"
  shows "core A k' R qs ts cs"
proof -
  have "same_queues k k'" using assms unfolding same_queues_def by simp
  then have "sched_inv k' R qs" using coreD(1) [OF assms(1)] unfolding sched_inv_def assms(3-5) by (simp add: same_queues_rep)
  moreover have "family A k' R ts cs" using coreD(6) [OF assms(1)] assms(6) unfolding family_def by simp
  ultimately show ?thesis using assms(1) unfolding core_def table_ok_def assms(4,5) by blast
qed

lemma pview_fold: "(\<And>i k. pview (f i k) = pview k) \<Longrightarrow> pview (fold f xs k) = pview k"
  by (induction xs arbitrary: k) simp_all

lemma pview_sched_init: "pview (sched_init k) = pview k"
proof -
  have "pview (init_array a k) = pview k" for a k unfolding init_array_def Let_def by (simp add: pview_fold)
  then show ?thesis unfolding sched_init_def Let_def by simp
qed

lemma boot_core:
  "core {0} (sched_init (fork_init (static_kern m))) (with_queues boot_lists) (\<lambda>a j. []) [] (\<lambda>_. [])"
proof -
  let ?k = "fork_init (static_kern m)"
  note f = fork_init_ok [of m]
  have nd: "nodes boot_lists = {Tasks 0, Children 0}" by (auto simp: nodes_def boot_lists_def split: if_splits)
  have q: "Queue a j \<notin> nodes boot_lists" "RunList t \<notin> nodes boot_lists" for a j t unfolding nd by simp_all
  have tt: "t \<le> 64" if "task_table ?k i = Some t" for i t using that unfolding f(2) by (cases "i = 0") simp_all
  note s = sched_init_ok [OF f(1) q f(4,5)]
  have i: "sched_inv (sched_init ?k) (with_queues boot_lists) (\<lambda>a j. [])" "get_current (sched_init ?k) = 0" "task_table (sched_init ?k) = [0 \<mapsto> 0]"
    by (rule s(1), erule tt, rule s(5), erule tt, rule trans [OF s(4) f(2)], erule tt)
  have w: "with_queues boot_lists (Tasks 0) = Some []" "with_queues boot_lists (Children 0) = Some []"
    by (auto simp: with_queues_def all_queues_def boot_lists_def)
  have h: "(\<exists>a < 2. \<exists>j < MAX_PRIO. h = Queue a j) \<or> h = Tasks 0 \<or> h = Children 0" if "with_queues boot_lists h = Some xs" for h xs
    using that by (auto simp: with_queues_def all_queues_def boot_lists_def split: if_splits)
  have "family {0} (sched_init ?k) (with_queues boot_lists) [] (\<lambda>_. [])" unfolding family_def using w h by simp
  moreover have "table_ok {0} (sched_init ?k)" unfolding table_ok_def i(3) by (simp add: MAX_PROCS_def)
  ultimately show ?thesis unfolding core_def using i by (simp add: qall_def qarr_def)
qed

lemma setup_idle_ok:
  assumes m: "kmem_ok {} (kmem k) L" and z: "t_stack (tasks k 0) = 0" and c: "get_current k = 0"
  obtains k2 ti where "setup_idle_process k = k2" "lists_of k2 = lists_of k" "runqueue k2 = runqueue k" "task_table k2 = task_table k" "get_current k2 = 0"
    "tasks k2 = (tasks k)(0 := (tasks k 0)\<lparr>t_stack := ti\<rparr>)" "kmem_ok ({ti} - {0}) (kmem k2) L"
    "pid_lock k2 = pid_lock k" "pid_bitmap k2 = pid_bitmap k" "task_cache_bitmap k2 = task_cache_bitmap k"
  using m
proof (cases rule: alloc_thread_info_ok)
  case fail
  have "(tasks k 0)\<lparr>t_stack := 0\<rparr> = tasks k 0" using z by (cases "tasks k 0") simp
  then have "(tasks k)(0 := (tasks k 0)\<lparr>t_stack := 0\<rparr>) = tasks k" by simp
  then show thesis using that [of "set_current (Some 0) k" 0] fail z m
    by (simp add: setup_idle_process_def Let_def set_current_def get_current_def)
next
  case (ok ti fr)
  then show thesis using that [OF refl, of ti] z
    by (simp add: setup_idle_process_def Let_def set_current_def get_current_def upd_task_def upd_ti_def)
qed

text \<open>The state before the first process exists: only the idle task.\<close>

lemma proc_boot:
  assumes m: "kmem_ok {} m L"
  shows "proc_inv (proc_subsystem_init (static_kern m)) (with_queues boot_lists) (\<lambda>a j. []) [] (\<lambda>_. []) L"
proof -
  let ?k0 = "fork_init (static_kern m)" and ?R = "with_queues boot_lists"
  obtain k1 where k1: "k1 = sched_init ?k0" by blast
  note f = fork_init_ok [of m]
  have v: "pview k1 = pview ?k0" unfolding k1 by (rule pview_sched_init)
  note d = pviewD [OF v] note t = tviewD [OF d(8)]
  have c1: "core {0} k1 ?R (\<lambda>a j. []) [] (\<lambda>_. [])" unfolding k1 by (rule boot_core)
  have s0: "t_state (tasks k1 0) = TASK_RUNNING" "get_current k1 = 0"
    using f(12) coreD(5) [OF c1] by (simp_all add: k1 sched_init_def Let_def init_array_simps)
  from setup_idle_ok [of k1 L] m d(6) f(11) t(3) [of 0] f(7) s0(2) obtain k2 ti where k2: "setup_idle_process k1 = k2" "lists_of k2 = lists_of k1" "runqueue k2 = runqueue k1" "task_table k2 = task_table k1"
    "get_current k2 = 0" "tasks k2 = (tasks k1)(0 := (tasks k1 0)\<lparr>t_stack := ti\<rparr>)" "kmem_ok ({ti} - {0}) (kmem k2) L"
    "pid_lock k2 = pid_lock k1" "pid_bitmap k2 = pid_bitmap k1" "task_cache_bitmap k2 = task_cache_bitmap k1" by metis
  have lv: "live k2 = {0}" using f(3) by (simp add: live_def k2 d(5))
  have "core {0} k2 ?R (\<lambda>a j. []) [] (\<lambda>_. [])"
    by (rule core_cong [OF c1 k2(2,3) _ k2(4)]) (simp_all add: k2 s0)
  moreover have "rested {0} k2 (\<lambda>a j. [])" using s0 by (simp add: rested_def k2 TASK_RUNNING_def TASK_ZOMBIE_def)
  moreover have "spent {0} k2" using s0 by (simp add: spent_def zombies_def k2 TASK_RUNNING_def TASK_ZOMBIE_def)
  moreover have "pid_used k2 p \<longleftrightarrow> p = 0" for p using f(10) [of p] by (simp add: pid_used_def k2 d(2))
  then have "idents {0} k2" using f(6,9) d(3) t(1) [of 0] by (simp add: idents_def pids_def k2)
  moreover have "memory {0} k2 L" using k2(7) f(8) t(5) by (auto simp: memory_def stacks_def spaces_def k2(6))
  ultimately show ?thesis unfolding proc_inv_def proc_subsystem_init_def k1 [symmetric] k2(1) lv by blast
qed

subsection \<open>The first process\<close>

text \<open>
  After \<^verbatim>\<open>page_init\<close> there are free blocks of two pages and of eight pages, so that there is room for the kernel stack of
  the idle task and for that of a first process.
\<close>

lemma add_block_lists: "fa_free_list (free_area (add_block k p s) j) = (if j = k then Some p else fa_free_list (free_area s j))"
  by (simp add: add_block_def list_add_def Let_def upd_page_def split: option.split)

lemma add_blocks_lists: "fa_free_list (free_area s j) \<noteq> None \<Longrightarrow> fa_free_list (free_area (add_blocks pfn s) j) \<noteq> None"
proof (induction pfn s rule: add_blocks.induct)
  case (1 pfn s)
  then show ?case by (subst add_blocks.simps) (auto simp: add_block_lists split: option.splits)
qed

lemma largest_order_eq:
  "largest_order e p MAX_ORDER = find (fits e p) [11, 10, 9, 8, 7, 6, 5, 4, 3, 2, 1, 0]"
  by (simp add: MAX_ORDER_def eval_nat_numeral)

lemma add_blocks_step:
  "end_pfn s = 0x88000 \<Longrightarrow> add_blocks 0x80536 s = add_blocks 0x80538 (add_block 1 (0x80536 - start_pfn s) s)"
  "end_pfn s = 0x88000 \<Longrightarrow> add_blocks 0x80538 s = add_blocks 0x80540 (add_block 3 (0x80538 - start_pfn s) s)"
  by (subst add_blocks.simps, simp add: largest_order_eq fits_def)+

lemma page_init_lists: "fa_free_list (free_area (page_init s) 1) \<noteq> None" "fa_free_list (free_area (page_init s) 3) \<noteq> None"
proof -
  obtain s1 where s1: "page_init s = add_blocks 0x80536 s1" "end_pfn s1 = 0x88000"
    unfolding page_init_def Let_def init_constants init_sizes fold_upd_page fold_fun_upd by (simp cong: if_cong)
  then have "page_init s = add_blocks 0x80540 (add_block 3 (0x80538 - start_pfn (add_block 1 (0x80536 - start_pfn s1) s1)) (add_block 1 (0x80536 - start_pfn s1) s1))"
    by (simp add: add_blocks_step)
  then show "fa_free_list (free_area (page_init s) 1) \<noteq> None" "fa_free_list (free_area (page_init s) 3) \<noteq> None"
    using add_blocks_lists by (metis add_block_lists option.distinct(1) numeral_One numeral_eq_iff semiring_norm(86))+
qed

lemma list_del_area: "j \<noteq> k \<Longrightarrow> free_area (list_del k p s) j = free_area s j"
  by (simp add: list_del_def Let_def upd_page_def split: option.split)

lemma mark_used_area: "free_area (mark_used k p s) = free_area s"
  by (simp add: mark_used_def Let_def upd_page_def)

lemma split_block_same: "split_block k k p s = s"
  by (cases k) simp_all

lemma alloc_first:
  assumes "fa_free_list (free_area s 1) \<noteq> None"
  shows "free_area (snd (alloc_pages 1 s)) 3 = free_area s 3"
proof -
  from assms obtain p where p: "fa_free_list (free_area s 1) = Some p" by blast
  then have "alloc_scan 1 1 s = (let s3 = mark_used 1 p (list_del 1 p s) in (page_to_phys s3 p, s3))"
    by (subst alloc_scan.simps) (simp add: MAX_ORDER_def split_block_same [of "Suc 0", simplified] Let_def)
  then show ?thesis by (simp add: alloc_pages_def MAX_ORDER_def Let_def mark_used_area list_del_area)
qed

lemma alloc_some:
  assumes m: "manages s M" and j: "fa_free_list (free_area s j) \<noteq> None" "1 \<le> j" "j \<le> MAX_ORDER"
  shows "fst (alloc_pages 1 s) \<noteq> 0"
proof -
  obtain a s' where a: "alloc_pages 1 s = (a, s')" by (cases "alloc_pages 1 s")
  from m a show ?thesis by (rule alloc_pages_cases) (use j a in \<open>auto simp: MAX_ORDER_def\<close>)
qed

definition booted :: kern where
  "booted = proc_subsystem_init (static_kern boot_slabs)"

lemma booted_inv: "proc_inv booted (with_queues boot_lists) (\<lambda>a j. []) [] (\<lambda>_. []) {}"
  unfolding booted_def by (rule proc_boot [OF boot_kmem])

lemma sched_started: "kmem (sched_init (fork_init (static_kern m))) = m" "t_stack (tasks (sched_init (fork_init (static_kern m))) 0) = 0"
  "exact (sched_init (fork_init (static_kern m))) (\<lambda>a j. [])"
proof -
  let ?k = "fork_init (static_kern m)"
  note f = fork_init_ok [of m] and d = pviewD [OF pview_sched_init [of ?k]]
  show "kmem (sched_init ?k) = m" using d(6) f(11) by simp
  show "t_stack (tasks (sched_init ?k) 0) = 0" using tviewD(3) [OF d(8)] f(7) by simp
  have nd: "nodes boot_lists = {Tasks 0, Children 0}" by (auto simp: nodes_def boot_lists_def split: if_splits)
  show "exact (sched_init ?k) (\<lambda>a j. [])" by (rule sched_init_ok(2) [OF f(1)]) (use f(2,4,5) in \<open>auto simp: nd split: if_splits\<close>)
qed

lemma idle_frames:
  assumes "t_stack (tasks k 0) = 0"
  shows "sframes (kmem (setup_idle_process k)) = snd (alloc_pages 1 (sframes (kmem k)))" "runqueue (setup_idle_process k) = runqueue k"
  using assms by (auto simp: setup_idle_process_def alloc_thread_info_def THREAD_SIZE_ORDER_def Let_def set_current_def upd_task_def upd_ti_def split: prod.splits)

lemma booted_room: "fst (alloc_pages 1 (sframes (kmem booted))) \<noteq> 0"
proof -
  have s: "sframes (kmem booted) = snd (alloc_pages 1 (page_init bss_buddy))"
    unfolding booted_def proc_subsystem_init_def by (simp add: idle_frames sched_started boot_sframes)
  have "fa_free_list (free_area (sframes (kmem booted)) 3) \<noteq> None" unfolding s alloc_first [OF page_init_lists(1)] by (rule page_init_lists(2))
  moreover have "\<exists>M. manages (sframes (kmem booted)) M"
    using proc_invD(4) [OF booted_inv] kmem_frames by (fastforce simp: memory_def stack_ok_def)
  ultimately show ?thesis using alloc_some [of _ _ 3] by (auto simp: MAX_ORDER_def)
qed

lemma setup_idle_state: "t_state (tasks (setup_idle_process k) t) = t_state (tasks k t)"
  by (auto simp: setup_idle_process_def alloc_thread_info_def Let_def set_current_def split: prod.splits)

lemma sched_init_state: "t_state (tasks (sched_init k) t) = t_state (tasks k t)"
  by (simp add: sched_init_def Let_def init_array_simps)

lemma qall_empty [simp]: "qall (\<lambda>a j. []) = {}"
  by (simp add: qall_def qarr_def)

lemma booted_facts: "exact booted (\<lambda>a j. [])" "live booted = {0}" "t_state (tasks booted 0) = TASK_RUNNING" "get_current booted = 0"
proof -
  show "exact booted (\<lambda>a j. [])" using sched_started(3) [of boot_slabs]
    by (simp add: counted_def booted_def proc_subsystem_init_def idle_frames(2) sched_started(2))
  have f: "set [] = live booted - {0}" using familyD(2) [OF coreD(6) [OF proc_invD(1) [OF booted_inv]]] .
  then show "live booted = {0}" using coreD(2) [OF proc_invD(1) [OF booted_inv]] by auto
  then show "get_current booted = 0" using coreD(5) [OF proc_invD(1) [OF booted_inv]] by simp
  show "t_state (tasks booted 0) = TASK_RUNNING"
    unfolding booted_def proc_subsystem_init_def by (simp add: setup_idle_state sched_init_state fork_init_ok(12))
qed

text \<open>A kernel thread \<open>p\<close> is created; then the idle task either runs on or blocks.\<close>

lemma first_thread:
  obtains pid p ti k R qs where "kernel_thread y fn arg flags booted = Some (pid, k)" "threaded y fn arg booted pid p ti k"
    "proc_inv k R qs [p] (\<lambda>t. if t = 0 then [p] else []) {}" "exact k qs" "qall qs = {p}" "p \<in> qarr qs (rq_active (runqueue k))" "p \<noteq> 0"
  using booted_inv
proof (cases rule: kernel_thread_ok [where y = y and fn = fn and arg = arg and flags = flags])
  case (fail k')
  have "(1::nat) \<in> {..64}" "(1::nat) \<notin> {0}" by simp_all
  then have "live booted \<noteq> {..64}" unfolding booted_facts(2) by metis
  then show thesis using fail(4) booted_room by blast
next
  case (ok pid p ti k' R' qs')
  have p: "p \<noteq> 0" using ok(2) booted_facts(2) by (auto simp: threaded_def)
  have "((\<lambda>_. [])(p := [], 0 := [] @ [p])) = (\<lambda>t. if t = 0 then [p] else [])" using p by auto
  moreover have "exact k' qs'" using ok(5) booted_facts(1) .
  moreover have "qall qs' = {p}" using ok(6) by simp
  ultimately show thesis using that [OF ok(1,2) _ _ _ ok(4) p] ok(3) by simp
qed

lemma pick_single:
  assumes "sched_inv k R qs" "exact k qs" "qs' = after_block k qs" "t_state (tasks k (get_current k)) \<noteq> TASK_RUNNING \<Longrightarrow> get_current k \<notin> qall qs"
    "qall qs' = {p}" "p \<in> qarr qs' (rq_active (runqueue k))" "schedule k = Some k'"
  shows "get_current k' = p"
proof -
  let ?a = "rq_active (runqueue k)"
  have "get_current k \<notin> qarr qs (rq_expired (runqueue k))" if "t_state (tasks k (get_current k)) \<noteq> TASK_RUNNING"
    using assms(4) [OF that] sched_repD(7,8) [OF sched_invD(1) [OF assms(1)]] by (auto simp: qall_def less_2_cases_iff)
  then have "block_surplus (\<lambda>_. 0) k qs (\<lambda>_. 0)" by (auto simp: block_surplus_def deq_surplus_def)
  with schedule_ok [OF assms(1) refl assms(3), where sp = "\<lambda>_. 0" and sp' = "\<lambda>_. 0"] assms(2,7)
  obtain R' where n: "sched_inv k' R' qs'" "rq_curr (runqueue k') = next_task (\<lambda>_. 0) qs' ?a (Some 0)" by auto
  obtain j where j: "best qs' ?a = Some j" using assms(6) best_None [of qs' ?a] by fastforce
  then have "hd (qs' ?a j) \<in> set (qs' ?a j)" "j < MAX_PRIO" by (auto simp: best_Some)
  moreover have "?a < 2" using sched_repD(7) [OF sched_invD(1) [OF assms(1)]] .
  ultimately have "hd (qs' ?a j) \<in> qall qs'" unfolding qall_def qarr_def by (cases "?a = 0") (auto simp: less_2_cases_iff)
  then have "next_task (\<lambda>_. 0) qs' ?a (Some 0) = Some p" using j assms(5) by (simp add: next_task_def choose_array_def)
  then show ?thesis using n sched_invD(4) by fastforce
qed

end
