(* ===== verification/ExitProps.thy ===== *)
theory ExitProps
  imports ForkProps
begin

unbundle bit_operations_syntax

text \<open>
  Exit and wait.  The invariant of \<open>ProcInv\<close> is kept when a task hands its children to the idle task,
  gives up its address space and becomes a zombie (\<^verbatim>\<open>do_exit\<close>), and when its parent finds it among its
  children and takes it apart (\<^verbatim>\<open>do_wait\<close>, \<^verbatim>\<open>release_task\<close>).  The loop over the children in \<^verbatim>\<open>exit_notify\<close> unlinks
  the node it stands on and reads the next one afterwards; it is shown to end for every task but the idle one.
\<close>

subsection \<open>Changes of the family\<close>

lemma core_relist:
  assumes c: "core A k R qs ts cs" and k': "runqueue k' = runqueue k" "get_current k' = get_current k"
    "\<And>t. t_on_rq (tasks k' t) = t_on_rq (tasks k t) \<and> t_prio (tasks k' t) = t_prio (tasks k t)"
    and R: "rings (lists_of k') R'" "\<And>a j. R' (Queue a j) = R (Queue a j)" "\<And>t. RunList t \<in> nodes R' \<longleftrightarrow> RunList t \<in> nodes R"
    and A: "0 \<in> A'" "A' \<subseteq> {..64}" "qall qs \<subseteq> A'" "get_current k \<in> A'" "table_ok A' k'" "family A' k' R' ts' cs'"
  shows "core A' k' R' qs ts' cs'"
proof -
  note d = coreD [OF c] note r = sched_repD [OF sched_invD(1) [OF d(1)]]
  have "sched_rep k' R' qs"
    unfolding sched_rep_def k'(1) R(2) using R(1,3) r(2-10) k'(3) by simp
  moreover have "t \<le> 64" if "task_table k' i = Some t" for i t using table_okD(1) [OF A(5) that] A(2) by auto
  ultimately have "sched_inv k' R' qs" using d(1) unfolding sched_inv_def k'(1,2) by blast
  then show ?thesis unfolding core_def k'(2) using A by blast
qed

text \<open>A child \<open>c\<close> leaves the list of \<open>t\<close> for that of the idle task.\<close>

definition moved :: "nat \<Rightarrow> nat \<Rightarrow> (lnode \<Rightarrow> lnode list option) \<Rightarrow> nat list \<Rightarrow> (nat \<Rightarrow> nat list) \<Rightarrow> lnode \<Rightarrow> lnode list option" where
  "moved c t R xs cs = R(Children t \<mapsto> map Sibling xs, Children 0 \<mapsto> map Sibling (cs 0 @ [c]))"

definition orphan :: "task_struct \<Rightarrow> task_struct" where
  "orphan t = t\<lparr>t_parent := Some 0, t_real_parent := Some 0\<rparr>"

lemma move_child_ok:
  assumes c: "core A k R qs ts cs" and t: "t \<in> A" "t \<noteq> 0" and x: "cs t = x # xs"
  shows "\<exists>l. move_child x k = Some (k\<lparr>tasks := (tasks k)(x := orphan (tasks k x)), lists_of := l\<rparr>)
    \<and> core A (k\<lparr>tasks := (tasks k)(x := orphan (tasks k x)), lists_of := l\<rparr>) (moved x t R xs cs) qs ts (cs(t := xs, 0 := cs 0 @ [x]))"
proof -
  note d = coreD [OF c] note f = familyD [OF d(6)] note fc = family_child [OF d(6)]
  let ?tk = "(tasks k)(x := orphan (tasks k x))"
  have h: "R (Children t) = Some ([] @ Sibling x # map Sibling xs)" using f(3) [OF t(1)] x by simp
  obtain R1 where R1: "R1 = R(Children t \<mapsto> map Sibling xs)" by blast
  from list_del_ok [OF d(8) h] obtain l1 where l1: "list_del_entry (Sibling x) (lists_of k) = Some l1" "rings l1 R1" using R1 by auto
  have n1: "nodes R1 = nodes R - {Sibling x}" using nodes_del [OF d(8) h] R1 by simp
  have h0: "R1 (Children 0) = Some (map Sibling (cs 0))" using f(3) [OF d(2)] t(2) R1 by simp
  have "Sibling x \<notin> nodes R1" using n1 by simp
  from list_add_tail_ok [OF l1(2) h0 this] obtain l2 where
    l2: "list_add_tail (Sibling x) (Children 0) l1 = Some l2" "rings l2 (R1(Children 0 \<mapsto> map Sibling (cs 0) @ [Sibling x]))" by blast
  have e: "R1(Children 0 \<mapsto> map Sibling (cs 0) @ [Sibling x]) = moved x t R xs cs" by (simp add: R1 moved_def)
  have n2: "nodes (moved x t R xs cs) = insert (Sibling x) (nodes R1)"
    unfolding e [symmetric] by (rule nodes_add [where R = R1 and h = "Children 0", OF h0])
  let ?k = "k\<lparr>tasks := ?tk, lists_of := l2\<rparr>"
  have run: "move_child x k = Some ?k" using l1(1) l2(1) by (simp add: move_child_def Let_def on_lists_def upd_task_def orphan_def)
  have xA: "x \<in> A" "x \<noteq> 0" "t_parent (tasks k x) = Some t" using fc [OF t(1), of x] x by simp_all
  have dx: "x \<notin> set xs" using ringsD(2) [OF d(8) h] by auto
  have par: "t_parent (?tk u) = (if u = x then Some 0 else t_parent (tasks k u))" for u by (simp add: orphan_def)
  have ch: "moved x t R xs cs (Children u) = Some (map Sibling ((cs(t := xs, 0 := cs 0 @ [x])) u))" if "u \<in> A" for u
    using that f(3) t(2) by (simp add: moved_def)
  have st: "set ((cs(t := xs, 0 := cs 0 @ [x])) u) = {v \<in> A - {0}. t_parent (?tk v) = Some u}" if u: "u \<in> A" for u
  proof -
    have "v \<in> set ((cs(t := xs, 0 := cs 0 @ [x])) u) \<longleftrightarrow> v \<in> A - {0} \<and> t_parent (?tk v) = Some u" for v
      using fc [OF u, of v] fc [OF d(2), of v] fc [OF t(1), of v] xA dx t(2) x unfolding par by (cases "v = x") auto
    then show ?thesis by (simp only: set_eq_iff mem_Collect_eq simp_thms)
  qed
  have own: "\<exists>p \<in> A. p \<noteq> v \<and> t_parent (?tk v) = Some p" if "v \<in> A - {0}" for v
    using f(5) [of v] that d(2) unfolding par by (cases "v = x") auto
  have hd: "(\<exists>a < 2. \<exists>j < MAX_PRIO. h = Queue a j) \<or> h = Tasks 0 \<or> (\<exists>t \<in> A. h = Children t)" if "moved x t R xs cs h = Some ys" for h ys
    using f(6) [of h] that t(1) d(2) unfolding moved_def by (auto split: if_splits)
  have "family A ?k (moved x t R xs cs) ts (cs(t := xs, 0 := cs 0 @ [x]))"
    unfolding family_def using f(1,2) ch st own hd by (simp add: moved_def)
  moreover have "table_ok A ?k" using d(7) by (simp add: table_ok_def)
  ultimately have "core A ?k (moved x t R xs cs) qs ts (cs(t := xs, 0 := cs 0 @ [x]))"
    using l2(2) n1 n2 d(2-5) unfolding e
    by (intro core_relist [OF c]) (simp_all add: orphan_def moved_def get_current_def)
  then show ?thesis using run by blast
qed

text \<open>
  The loop of \<^verbatim>\<open>exit_notify\<close> ends, with every child of \<open>t\<close> handed to the idle task.  The measure is the
  number of children left.
\<close>

definition orphans :: "nat set \<Rightarrow> (nat \<Rightarrow> task_struct) \<Rightarrow> nat \<Rightarrow> task_struct" where
  "orphans X tk u = (if u \<in> X then orphan (tk u) else tk u)"

lemma exit_notify_loop_ok:
  assumes "core A k R qs ts cs" "t \<in> A" "t \<noteq> 0" "cs t = xs"
    "xs \<noteq> [] \<longrightarrow> n = hd (tl (map Sibling xs @ [Children t]))"
  shows "\<exists>l R'. exit_notify_loop t (hd (map Sibling xs @ [Children t])) n k = Some (k\<lparr>tasks := orphans (set xs) (tasks k), lists_of := l\<rparr>)
    \<and> core A (k\<lparr>tasks := orphans (set xs) (tasks k), lists_of := l\<rparr>) R' qs ts (cs(t := [], 0 := cs 0 @ xs))"
  using assms
proof (induction xs arbitrary: k R cs n)
  case Nil
  have "cs(t := [], 0 := cs 0 @ []) = cs" using Nil.prems(4) by (auto simp: fun_eq_iff)
  moreover have "orphans (set []) (tasks k) = tasks k" by (simp add: orphans_def fun_eq_iff)
  ultimately show ?case using Nil.prems(1) by (subst exit_notify_loop.simps) (auto intro!: exI [of _ "lists_of k"] exI [of _ R])
next
  case (Cons x xs)
  let ?cs = "cs(t := xs, 0 := cs 0 @ [x])"
  from move_child_ok [OF Cons.prems(1-3) Cons.prems(4)] obtain l where
    m: "move_child x k = Some (k\<lparr>tasks := (tasks k)(x := orphan (tasks k x)), lists_of := l\<rparr>)"
      "core A (k\<lparr>tasks := (tasks k)(x := orphan (tasks k x)), lists_of := l\<rparr>) (moved x t R xs cs) qs ts ?cs" by blast
  obtain k1 where k1: "k1 = k\<lparr>tasks := (tasks k)(x := orphan (tasks k x)), lists_of := l\<rparr>" by blast
  note c1 = m(2) [folded k1]
  have n: "n = hd (map Sibling xs @ [Children t])" using Cons.prems(5) by simp
  have cst: "?cs t = xs" using Cons.prems(3) by simp
  have xn: "x \<notin> set xs"
  proof -
    have "R (Children t) = Some (map Sibling (x # xs))" using familyD(3) [OF coreD(6) [OF Cons.prems(1)] Cons.prems(2)] Cons.prems(4) by simp
    from ringsD(2) [OF coreD(8) [OF Cons.prems(1)] this] show ?thesis by auto
  qed
  have "seg (lists_of k1) (Children t) (map Sibling xs) (Children t)"
    using ringsD(1) [OF coreD(8) [OF c1] familyD(3) [OF coreD(6) [OF c1] Cons.prems(2)]] cst by simp
  then obtain n' where n': "lnext (lists_of k1) n = Some n'" "xs \<noteq> [] \<longrightarrow> n' = hd (tl (map Sibling xs @ [Children t]))"
    using n seg_first by (cases xs) fastforce+
  from Cons.IH [OF c1 Cons.prems(2,3) cst n'(2)] obtain l' R' where
    ih: "exit_notify_loop t (hd (map Sibling xs @ [Children t])) n' k1 = Some (k1\<lparr>tasks := orphans (set xs) (tasks k1), lists_of := l'\<rparr>)"
      "core A (k1\<lparr>tasks := orphans (set xs) (tasks k1), lists_of := l'\<rparr>) R' qs ts (?cs(t := [], 0 := ?cs 0 @ xs))" by blast
  have tk: "k1\<lparr>tasks := orphans (set xs) (tasks k1), lists_of := l'\<rparr> = k\<lparr>tasks := orphans (set (x # xs)) (tasks k), lists_of := l'\<rparr>"
    using xn by (auto simp: k1 orphans_def fun_eq_iff)
  have e1: "?cs(t := [], 0 := ?cs 0 @ xs) = cs(t := [], 0 := cs 0 @ x # xs)" using Cons.prems(3) by auto
  have e2: "exit_notify_loop t (hd (map Sibling (x # xs) @ [Children t])) n k = exit_notify_loop t (hd (map Sibling xs @ [Children t])) n' k1"
    by (subst exit_notify_loop.simps) (use m(1) n n'(1) k1 in simp)
  show ?case unfolding e2 using ih unfolding tk e1 by blast
qed

lemma exit_notify_ok:
  assumes c: "core A k R qs ts cs" and t: "t \<in> A" "t \<noteq> 0"
  shows "\<exists>l R'. exit_notify t k = Some (k\<lparr>tasks := orphans (set (cs t)) (tasks k), lists_of := l\<rparr>)
    \<and> core A (k\<lparr>tasks := orphans (set (cs t)) (tasks k), lists_of := l\<rparr>) R' qs ts (cs(t := [], 0 := cs 0 @ cs t))"
proof -
  have s: "seg (lists_of k) (Children t) (map Sibling (cs t)) (Children t)"
    using ringsD(1) [OF coreD(8) [OF c] familyD(3) [OF coreD(6) [OF c] t(1)]] .
  let ?p = "hd (map Sibling (cs t) @ [Children t])"
  have p: "lnext (lists_of k) (Children t) = Some ?p" by (rule seg_first [OF s])
  obtain n where n: "lnext (lists_of k) ?p = Some n" "cs t \<noteq> [] \<longrightarrow> n = hd (tl (map Sibling (cs t) @ [Children t]))"
    using s seg_first by (cases "cs t") fastforce+
  show ?thesis using exit_notify_loop_ok [OF c t refl, of n] p n unfolding exit_notify_def by simp
qed

subsection \<open>Exit\<close>

text \<open>The address space is given up; it is freed with its last user.\<close>

lemma exit_mm_ok:
  assumes sp: "spaces A k L" and f: "finite A" and c: "c \<in> A" and m: "kmem_ok S (kmem k) L" and mm: "mm = t_mm (tasks k c)"
    and L': "L' = (if mm = 0 \<or> (\<exists>u \<in> A - {c}. t_mm (tasks k u) = mm) then L else L - {mm_obj mm})"
  shows "\<exists>m' M'. exit_mm c k = Some (k\<lparr>tasks := (tasks k)(c := (tasks k c)\<lparr>t_mm := 0\<rparr>), mms := M', kmem := m'\<rparr>)
    \<and> kmem_ok S m' L' \<and> spaces A (k\<lparr>tasks := (tasks k)(c := (tasks k c)\<lparr>t_mm := 0\<rparr>), mms := M', kmem := m'\<rparr>) L'"
proof (cases "mm = 0")
  case True
  have "(tasks k c)\<lparr>t_mm := t_mm (tasks k c)\<rparr> = tasks k c" by simp
  then have "k\<lparr>tasks := (tasks k)(c := (tasks k c)\<lparr>t_mm := 0\<rparr>), mms := mms k, kmem := kmem k\<rparr> = k"
    using True mm by (simp only: fun_upd_triv) simp
  then show ?thesis using True m sp mm L' by (intro exI [of _ "kmem k"] exI [of _ "mms k"]) (simp add: exit_mm_def)
next
  case False
  let ?us = "\<lambda>x. {u \<in> A. t_mm (tasks k u) = x}" and ?n = "mm_users (mms k mm) - 1"
  let ?M = "(mms k)(mm := (mms k mm)\<lparr>mm_users := ?n\<rparr>)"
  let ?k = "k\<lparr>tasks := (tasks k)(c := (tasks k c)\<lparr>t_mm := 0\<rparr>), mms := ?M\<rparr>"
  note s = spacesD [OF sp c mm [symmetric] False]
  have us: "{u \<in> A. t_mm (tasks ?k u) = x} = ?us x - {c}" if "x \<noteq> 0" for x using that by auto
  have cd: "card (?us mm - {c}) = card (?us mm) - 1" "0 < card (?us mm)" using f c mm by (auto simp: card_gt_0_iff)
  then have n: "?n = int (card (?us mm - {c}))" using s(2) by simp
  have nc: "?us x - {c} = ?us x" if "x \<noteq> mm" for x using that mm by auto
  have n0: "?n = 0 \<longleftrightarrow> \<not> (\<exists>u \<in> A - {c}. t_mm (tasks k u) = mm)" unfolding n using f by auto
  have old: "mm_obj x \<in> L' \<and> mm_users (?M x) = int (card (?us x - {c}))" if "u \<in> A - {c}" "t_mm (tasks k u) = x" "x \<noteq> 0" for u x
  proof (cases "x = mm")
    case True
    then show ?thesis using that n n0 s(1) unfolding L' by (auto simp: False)
  next
    case x: False
    then have "mm_obj x \<noteq> mm_obj mm" by (simp add: mm_obj_def)
    then show ?thesis using that spacesD [OF sp, of u x] x nc [OF x] unfolding L' by simp
  qed
  have sp': "spaces A (?k\<lparr>kmem := m'\<rparr>) L'" for m'
  proof -
    have "mm_obj x \<in> L' \<and> mm_users (?M x) = int (card {u \<in> A. t_mm (tasks ?k u) = x})"
      if "u \<in> A" "t_mm (tasks ?k u) = x" "x \<noteq> 0" for u x using old [of u x] that us [of x] by (cases "u = c") auto
    then show ?thesis unfolding spaces_def by simp
  qed
  have "mm_users (?M mm) = ?n" by simp
  then have run: "exit_mm c k = (if ?n = 0 then mm_free mm ?k else Some ?k)"
    using False unfolding exit_mm_def Let_def mm [symmetric] by (simp add: upd_task_def upd_mm_def)
  show ?thesis
  proof (cases "?n = 0")
    case True
    from kmem_kfree [OF m s(1)] obtain m' where "kfree free_page (Some mm) (kmem k) = Some m'" "kmem_ok S m' (L - {mm_obj mm})" by blast
    moreover have "L' = L - {mm_obj mm}" using True n0 False L' by simp
    ultimately show ?thesis using run True False sp' [of m'] by (intro exI [of _ m'] exI [of _ ?M]) (simp add: mm_free_def)
  next
    case nz: False
    then have "L' = L" using n0 L' by simp
    then show ?thesis using run nz m sp' [of "kmem k"] by (intro exI [of _ "kmem k"] exI [of _ ?M]) simp
  qed
qed

text \<open>The fields of a task that the invariant looks at.\<close>

definition key :: "task_struct \<Rightarrow> int \<times> u64 \<times> nat option \<times> int \<times> bool \<times> int \<times> u64 \<times> int" where
  "key t = (t_pid t, t_stack t, t_parent t, t_prio t, t_on_rq t, t_state t, t_mm t, t_exit_code t)"

lemma keyD: "key x = key y \<Longrightarrow> t_pid x = t_pid y" "key x = key y \<Longrightarrow> t_stack x = t_stack y" "key x = key y \<Longrightarrow> t_parent x = t_parent y"
  "key x = key y \<Longrightarrow> t_prio x = t_prio y" "key x = key y \<Longrightarrow> t_on_rq x = t_on_rq y" "key x = key y \<Longrightarrow> t_state x = t_state y"
  "key x = key y \<Longrightarrow> t_mm x = t_mm y" "key x = key y \<Longrightarrow> t_exit_code x = t_exit_code y"
  by (simp_all add: key_def)

lemma fold_key: "(\<And>i x. key (g i x) = key x) \<Longrightarrow> key (fold g xs t) = key t"
  by (induction xs arbitrary: t) simp_all

lemma exit_parts_run:
  "\<exists>t fc sc. exit_sighand c (exit_fs c (exit_files c k)) =
     k\<lparr>tasks := (tasks k)(c := t), files_count := fc, fs_count := sc, lists_of := INIT_LIST_HEAD (Pending c) (lists_of k)\<rparr> \<and> key t = key (tasks k c)"
proof -
  let ?g = "\<lambda>i t. if t_ofile t i \<noteq> 0 then t\<lparr>t_ofile := (t_ofile t)(i := 0)\<rparr> else t"
  let ?t1 = "fold ?g [0..<MAX_OPEN_FILES] (tasks k c)"
  have "key ?t1 = key (tasks k c)" by (rule fold_key) (simp add: key_def)
  moreover have "\<exists>t2 fc. exit_files c k = k\<lparr>tasks := (tasks k)(c := t2), files_count := fc\<rparr> \<and> key t2 = key ?t1"
  proof (cases "t_files ?t1 = 0")
    case True
    then show ?thesis by (intro exI [of _ ?t1] exI [of _ "files_count k"]) (simp add: exit_files_def Let_def fold_upd_task upd_task_def)
  next
    case False
    then show ?thesis
      by (intro exI [of _ "?t1\<lparr>t_files := 0\<rparr>"] exI [of _ "(files_count k)(t_files ?t1 := files_count k (t_files ?t1) - 1)"])
        (simp add: exit_files_def Let_def fold_upd_task upd_task_def key_def)
  qed
  then obtain t2 fc where e2: "exit_files c k = k\<lparr>tasks := (tasks k)(c := t2), files_count := fc\<rparr>" "key t2 = key ?t1" by blast
  obtain k2 where k2: "k2 = k\<lparr>tasks := (tasks k)(c := t2), files_count := fc\<rparr>" by blast
  have "\<exists>t3 sc. exit_fs c k2 = k2\<lparr>tasks := (tasks k2)(c := t3), fs_count := sc\<rparr> \<and> key t3 = key t2"
  proof (cases "t_fs t2 = 0")
    case True
    then show ?thesis
      by (intro exI [of _ "t2\<lparr>t_cwd := 0\<rparr>"] exI [of _ "fs_count k2"]) (simp add: exit_fs_def Let_def upd_task_def k2 key_def)
  next
    case False
    then show ?thesis
      by (intro exI [of _ "t2\<lparr>t_fs := 0, t_cwd := 0\<rparr>"] exI [of _ "(fs_count k2)(t_fs t2 := fs_count k2 (t_fs t2) - 1)"])
        (simp add: exit_fs_def Let_def upd_task_def k2 key_def)
  qed
  then obtain t3 sc where e3: "exit_fs c k2 = k2\<lparr>tasks := (tasks k2)(c := t3), fs_count := sc\<rparr>" "key t3 = key t2" by blast
  have "exit_sighand c (exit_fs c (exit_files c k)) = k\<lparr>tasks := (tasks k)(c := t3\<lparr>t_blocked := 0, t_pending := 0\<rparr>), files_count := fc, fs_count := sc,
      lists_of := INIT_LIST_HEAD (Pending c) (lists_of k)\<rparr>"
    unfolding e2(1) k2 [symmetric] e3(1) by (simp add: exit_sighand_def upd_task_def init_list_def k2)
  moreover have "key (t3\<lparr>t_blocked := 0, t_pending := 0\<rparr>) = key t3" by (simp add: key_def)
  ultimately show ?thesis using e2(2) e3(2)
    by (intro exI [of _ "t3\<lparr>t_blocked := 0, t_pending := 0\<rparr>"] exI [of _ fc] exI [of _ sc]) simp
qed

lemma family_cong: "family A k R ts cs \<Longrightarrow> (\<And>t. t \<in> A \<Longrightarrow> t_parent (tasks k' t) = t_parent (tasks k t)) \<Longrightarrow> family A k' R ts cs"
  unfolding family_def by (auto 0 3)

lemma idents_cong:
  assumes "idents A k" "pid_lock k' = pid_lock k" "pid_bitmap k' = pid_bitmap k" "\<And>t. t_pid (tasks k' t) = t_pid (tasks k t)"
  shows "idents A k'"
  using assms unfolding idents_def pids_def pid_used_def by simp

lemma stacks_tasks: "(\<And>t. t_stack (tasks k' t) = t_stack (tasks k t)) \<Longrightarrow> stacks A k' = stacks A k"
  by (simp add: stacks_def)

lemma pview_idents: "pview k' = pview k \<Longrightarrow> idents A k = idents A k'" for k k' :: kern
  using idents_cong [of A k k'] idents_cong [of A k' k] pviewD(2,3,8) [of k' k] tviewD(1) by metis

text \<open>What \<^verbatim>\<open>do_exit\<close> has done to the state when it marks the current task as a zombie.\<close>

definition ended :: "int \<Rightarrow> nat \<Rightarrow> nat list \<Rightarrow> kern \<Rightarrow> kern \<Rightarrow> bool" where
  "ended code c kids k k5 \<longleftrightarrow>
     (\<forall>t. t_pid (tasks k5 t) = t_pid (tasks k t) \<and> t_stack (tasks k5 t) = t_stack (tasks k t)
        \<and> t_parent (tasks k5 t) = (if t \<in> set kids then Some 0 else t_parent (tasks k t))
        \<and> t_mm (tasks k5 t) = (if t = c then 0 else t_mm (tasks k t))
        \<and> t_state (tasks k5 t) = (if t = c then TASK_ZOMBIE else t_state (tasks k t))
        \<and> t_chan (tasks k5 t) = (if t = c then t_chan (tasks k5 t) else t_chan (tasks k t))
        \<and> t_exit_code (tasks k5 t) = (if t = c then code else t_exit_code (tasks k t)))
     \<and> task_table k5 = task_table k \<and> pid_bitmap k5 = pid_bitmap k \<and> pid_lock k5 = pid_lock k \<and> task_cache_bitmap k5 = task_cache_bitmap k
     \<and> get_current k5 = get_current k"

definition left_objs :: "nat \<Rightarrow> kern \<Rightarrow> (nat \<times> u64) set \<Rightarrow> (nat \<times> u64) set" where
  "left_objs c k L =
     (let mm = t_mm (tasks k c)
      in if mm = 0 \<or> (\<exists>u \<in> live k - {c}. t_mm (tasks k u) = mm) then L else L - {mm_obj mm})"

lemma exit_prefix:
  assumes i: "proc_inv k R qs ts cs L" and c: "c = get_current k" "c \<noteq> 0"
  obtains k2 k4 k5 R5 where "exit_mm c (upd_task c (\<lambda>t. t\<lparr>t_flags := t_flags t OR PF_EXITING, t_exit_code := code\<rparr>) k) = Some k2"
    "exit_notify c (exit_sighand c (exit_fs c (exit_files c k2))) = Some k4" "k5 = upd_task c (\<lambda>t. t\<lparr>t_state := TASK_ZOMBIE\<rparr>) k4"
    "core (live k) k5 R5 qs ts (cs(c := [], 0 := cs 0 @ cs c))" "ended code c (cs c) k k5" "memory (live k) k5 (left_objs c k L)"
proof -
  note x = proc_invD [OF i] note d = coreD [OF x(1)] note fc = family_child [OF d(6)]
  let ?A = "live k" and ?L = "left_objs c k L"
  have cA: "c \<in> ?A" using d(5) c(1) by simp
  obtain t1 where t1: "t1 = (tasks k c)\<lparr>t_flags := t_flags (tasks k c) OR PF_EXITING, t_exit_code := code\<rparr>" by blast
  obtain k1 where k1: "k1 = k\<lparr>tasks := (tasks k)(c := t1)\<rparr>" by blast
  have e1: "upd_task c (\<lambda>t. t\<lparr>t_flags := t_flags t OR PF_EXITING, t_exit_code := code\<rparr>) k = k1" by (simp add: upd_task_def k1 t1)
  have mk1: "t_mm (tasks k1 u) = t_mm (tasks k u)" for u by (simp add: k1 t1)
  have sp1: "spaces ?A k1 L" using x(4) unfolding memory_def spaces_def mk1 by (simp add: k1)
  have km1: "kmem_ok (stacks ?A k) (kmem k1) L" using x(4) by (simp add: memory_def k1)
  have L': "?L = (if t_mm (tasks k1 c) = 0 \<or> (\<exists>u \<in> ?A - {c}. t_mm (tasks k1 u) = t_mm (tasks k1 c)) then L else L - {mm_obj (t_mm (tasks k1 c))})"
    unfolding left_objs_def Let_def mk1 ..
  from exit_mm_ok [OF sp1 x(5) cA km1 refl L'] obtain m' M' where
    r2: "exit_mm c k1 = Some (k1\<lparr>tasks := (tasks k1)(c := (tasks k1 c)\<lparr>t_mm := 0\<rparr>), mms := M', kmem := m'\<rparr>)" "kmem_ok (stacks ?A k) m' ?L"
      "spaces ?A (k1\<lparr>tasks := (tasks k1)(c := (tasks k1 c)\<lparr>t_mm := 0\<rparr>), mms := M', kmem := m'\<rparr>) ?L" by blast
  obtain k2 where k2: "k2 = k\<lparr>tasks := (tasks k)(c := t1\<lparr>t_mm := 0\<rparr>), mms := M', kmem := m'\<rparr>" by blast
  have e2: "k1\<lparr>tasks := (tasks k1)(c := (tasks k1 c)\<lparr>t_mm := 0\<rparr>), mms := M', kmem := m'\<rparr> = k2" by (simp add: k1 k2)
  from exit_parts_run [of c k2] obtain t3 fs ss where
    r3: "exit_sighand c (exit_fs c (exit_files c k2)) = k2\<lparr>tasks := (tasks k2)(c := t3), files_count := fs, fs_count := ss,
       lists_of := INIT_LIST_HEAD (Pending c) (lists_of k2)\<rparr>" "key t3 = key (tasks k2 c)" by blast
  obtain k3 where k3: "k3 = k2\<lparr>tasks := (tasks k2)(c := t3), files_count := fs, fs_count := ss, lists_of := INIT_LIST_HEAD (Pending c) (lists_of k2)\<rparr>" by blast
  have t3: "t_pid t3 = t_pid (tasks k c)" "t_stack t3 = t_stack (tasks k c)" "t_parent t3 = t_parent (tasks k c)" "t_prio t3 = t_prio (tasks k c)"
    "t_on_rq t3 = t_on_rq (tasks k c)" "t_mm t3 = 0" "t_exit_code t3 = code"
    using keyD [OF r3(2)] by (simp_all add: k2 t1)
  have tk3: "tasks k3 = (tasks k)(c := t3)" by (simp add: k3 k2)
  have "rings (lists_of k3) R" using init_off [OF d(8), of "Pending c"] core_nodes [OF x(1), of "Pending c"] by (auto simp: k3 k2)
  moreover have "family ?A k3 R ts cs" by (rule family_cong [OF d(6)]) (simp add: tk3 t3)
  moreover have "table_ok ?A k3" using d(7) by (simp add: table_ok_def k3 k2)
  ultimately have c3: "core ?A k3 R qs ts cs" using d(2-5)
    by (intro core_relist [OF x(1)]) (simp_all add: tk3 t3, simp_all add: k3 k2 get_current_def)
  from exit_notify_ok [OF c3 cA c(2)] obtain l R4 where
    r4: "exit_notify c k3 = Some (k3\<lparr>tasks := orphans (set (cs c)) (tasks k3), lists_of := l\<rparr>)"
      "core ?A (k3\<lparr>tasks := orphans (set (cs c)) (tasks k3), lists_of := l\<rparr>) R4 qs ts (cs(c := [], 0 := cs 0 @ cs c))" by blast
  obtain k5 where k5: "k5 = upd_task c (\<lambda>t. t\<lparr>t_state := TASK_ZOMBIE\<rparr>) (k3\<lparr>tasks := orphans (set (cs c)) (tasks k3), lists_of := l\<rparr>)" by blast
  have c5: "core ?A k5 R4 qs ts (cs(c := [], 0 := cs 0 @ cs c))" unfolding k5 using r4(2) by (simp add: core_task)
  have cn: "c \<notin> set (cs c)" using fc [OF cA, of c] familyD(5) [OF d(6) cA c(2)] by auto
  have tk5: "tasks k5 t = (if t = c then t3\<lparr>t_state := TASK_ZOMBIE\<rparr> else if t \<in> set (cs c) then orphan (tasks k t) else tasks k t)" for t
    using cn by (simp add: k5 orphans_def tk3)
  have "ended code c (cs c) k k5"
    unfolding ended_def using t3 cn by (auto simp: tk5 orphan_def) (simp_all add: k5 upd_task_def k3 k2 get_current_def)
  moreover have "memory ?A k5 ?L"
  proof -
    have st: "t_stack (tasks k5 t) = t_stack (tasks k t)" "t_mm (tasks k5 t) = t_mm (tasks k2 t)" for t
      using t3 by (simp_all add: tk5 orphan_def k2)
    have "kmem k5 = m'" "mms k5 = M'" by (simp_all add: k5 upd_task_def k3 k2)
    then show ?thesis using x(4) r2(2) r2(3) [unfolded e2] unfolding memory_def spaces_def st stacks_tasks [of k5 k, OF st(1)] by (simp add: k2)
  qed
  ultimately show thesis using that [of k2 _ k5 R4] r2(1) r4(1) c5 unfolding e1 e2 r3(1) k3 [symmetric] k5 by blast
qed

lemma do_exit_ok:
  assumes i: "proc_inv k R qs ts cs L" and c: "c = get_current k" "c \<noteq> 0"
  obtains k5 k' R' qs' where "do_exit code k = Some k'" "ended (long_to_int code) c (cs c) k k5" "pview k' = pview k5"
    "proc_inv k' R' qs' ts (cs(c := [], 0 := cs 0 @ cs c)) (left_objs c k L)" "t_state (tasks k' c) = TASK_ZOMBIE"
    "\<exists>p k6. t_parent (tasks k c) = Some p \<and> wakeup (Some (WaitChldexit p)) k5 = Some k6 \<and> rq_curr (runqueue k6) = Some c \<and> schedule k6 = Some k'
      \<and> (\<forall>t. t_state (tasks k' t) = t_state (tasks k6 t))"
proof -
  note x = proc_invD [OF i] note d = coreD [OF x(1)]
  from exit_prefix [OF i c, of "long_to_int code"] obtain k2 k4 k5 R5 where
    p: "exit_mm c (upd_task c (\<lambda>t. t\<lparr>t_flags := t_flags t OR PF_EXITING, t_exit_code := long_to_int code\<rparr>) k) = Some k2"
      "exit_notify c (exit_sighand c (exit_fs c (exit_files c k2))) = Some k4" "k5 = upd_task c (\<lambda>t. t\<lparr>t_state := TASK_ZOMBIE\<rparr>) k4"
      "core (live k) k5 R5 qs ts (cs(c := [], 0 := cs 0 @ cs c))" "ended (long_to_int code) c (cs c) k k5" "memory (live k) k5 (left_objs c k L)" by blast
  note e = p(5) [unfolded ended_def]
  have cA: "c \<in> live k" using d(5) c(1) by simp
  obtain q where q: "t_parent (tasks k c) = Some q" "q \<noteq> c" using familyD(5) [OF d(6) cA c(2)] by blast
  have cn: "c \<notin> set (cs c)" using family_child [OF d(6) cA, of c] q by auto
  have q5: "t_parent (tasks k5 c) = Some q" using e cn q(1) by simp
  have z5: "rested (live k - {c}) k5 qs" using x(2) e c unfolding rested_def by auto
  from proc_wakeup [OF p(4) z5, of "Some (WaitChldexit q)"] obtain k6 R6 qs6 where
    w: "wakeup (Some (WaitChldexit q)) k5 = Some k6" "core (live k) k6 R6 qs6 ts (cs(c := [], 0 := cs 0 @ cs c))" "rested (live k - {c}) k6 qs6"
      "pview k6 = pview k5" "get_current k6 = get_current k5" "zombies k6 = zombies k5" by blast
  have g6: "get_current k6 = c" using w(5) e c(1) by simp
  have "t_state (tasks k6 0) \<noteq> TASK_ZOMBIE" using restedD(1) [OF w(3)] .
  moreover have "t = get_current k6 \<or> t \<notin> qall qs6" if "t \<in> live k" "t_state (tasks k6 t) = TASK_ZOMBIE" for t
    using restedD(2) [OF w(3), of t] that g6 by auto
  ultimately obtain k' R' where
    s: "schedule k6 = Some k'" "core (live k) k' R' (after_block k6 qs6) ts (cs(c := [], 0 := cs 0 @ cs c))" "rested (live k) k' (after_block k6 qs6)"
      "pview k' = pview k6" "\<And>t. t_state (tasks k' t) = t_state (tasks k6 t)" "zombies k' = zombies k6" using proc_schedule [OF w(2)] by blast
  have "t_parent (tasks k4 c) = Some q" using q5 p(3) by simp
  then have run: "do_exit code k = Some k'"
    unfolding do_exit_def Let_def c(1) [symmetric] using p(1,2) p(3) [symmetric] q5 q(2) w(1) s(1) by simp
  have v: "pview k' = pview k5" using s(4) w(4) by simp
  have lv: "live k5 = live k" using e by (simp add: live_def)
  have "idents (live k) k5" using e by (intro idents_cong [OF x(3)]) simp_all
  moreover have lz: "t_state (tasks k' c) = TASK_ZOMBIE"
  proof -
    have "c \<in> zombies k5" using e by (simp add: zombies_def)
    then have "c \<in> zombies k'" using s(6) w(6) by simp
    then show ?thesis by (simp add: zombies_def)
  qed
  moreover have "proc_inv k' R' (after_block k6 qs6) ts (cs(c := [], 0 := cs 0 @ cs c)) (left_objs c k L)"
  proof -
    have "idents (live k) k'" using pview_idents [OF v] calculation(1) by simp
    moreover have "memory (live k) k' (left_objs c k L)"
      using p(6) unfolding memory_def stacks_def spaces_def pviewD(6) [OF v] tviewD [OF pviewD(8) [OF v]] mm_users_pview [OF v] .
    moreover have "spent (live k) k'"
    proof -
      have z': "t \<in> zombies k' \<longleftrightarrow> t = c \<or> t \<in> zombies k" for t using s(6) w(6) e by (simp add: zombies_def)
      have pa: "t_parent (tasks k' u) = (if u \<in> set (cs c) then Some 0 else t_parent (tasks k u))" for u
        using tviewD(2) [OF pviewD(8) [OF v]] e by simp
      have "0 \<notin> zombies k'" using restedD(1) [OF s(3)] by (simp add: zombies_def)
      then have "t_parent (tasks k' u) \<noteq> Some t" if "t \<in> live k" "t \<in> zombies k'" "u \<in> live k" "u \<noteq> 0" for t u
        using that x(7) family_child [OF d(6) cA, of u] unfolding z' pa spent_def by auto
      moreover have "t_mm (tasks k' t) = 0" if "t \<in> live k" "t \<in> zombies k'" for t
        using that x(7) e tviewD(5) [OF pviewD(8) [OF v], of t] unfolding z' spent_def by auto
      ultimately show ?thesis unfolding spent_def by blast
    qed
    ultimately show ?thesis using s(2,3) unfolding proc_inv_def live_pview [OF v] lv by blast
  qed
  moreover have "rq_curr (runqueue k6) = Some c" using sched_invD(4) [OF coreD(1) [OF w(2)]] g6 by simp
  ultimately show thesis using that run p(5) v q(1) w(1) s(1,5) by blast
qed

subsection \<open>Waiting\<close>

text \<open>What \<^verbatim>\<open>do_wait\<close> is to find among the children \<open>xs\<close>: the first zombie that matches, if there is one.\<close>

definition awaited :: "int \<Rightarrow> nat \<Rightarrow> kern \<Rightarrow> nat list \<Rightarrow> wait_scan" where
  "awaited pid cur k xs =
     (case find (\<lambda>x. wait_match pid cur x k \<and> t_state (tasks k x) = TASK_ZOMBIE) xs of
        Some x \<Rightarrow> Zombie x
      | None \<Rightarrow> if \<exists>x \<in> set xs. wait_match pid cur x k then Waiting else NoChild)"

lemma wait_loop_ok:
  assumes "seg (lists_of k) h (map Sibling xs) (Children cur)" "r = Waiting \<or> r = NoChild"
  shows "wait_loop pid cur r (hd (map Sibling xs @ [Children cur])) k =
    Some (case awaited pid cur k xs of NoChild \<Rightarrow> r | v \<Rightarrow> v)"
  using assms
proof (induction xs arbitrary: h r)
  case Nil
  then show ?case by (subst wait_loop.simps) (simp add: awaited_def)
next
  case (Cons x xs)
  have s: "seg (lists_of k) (Sibling x) (map Sibling xs) (Children cur)" using Cons.prems(1) by simp
  note n = seg_first [OF s]
  show ?case
  proof (cases "wait_match pid cur x k")
    case False
    then have "awaited pid cur k (x # xs) = awaited pid cur k xs" by (auto simp: awaited_def)
    then show ?thesis using False n Cons.IH [OF s Cons.prems(2)] by (subst wait_loop.simps) simp
  next
    case True
    show ?thesis
    proof (cases "t_state (tasks k x) = TASK_ZOMBIE")
      case True
      then show ?thesis using \<open>wait_match pid cur x k\<close> by (subst wait_loop.simps) (simp add: awaited_def)
    next
      case False
      then have "awaited pid cur k (x # xs) = (case awaited pid cur k xs of NoChild \<Rightarrow> Waiting | v \<Rightarrow> v)"
        using True by (auto simp: awaited_def split: option.splits)
      moreover have "wait_loop pid cur r (hd (map Sibling (x # xs) @ [Children cur])) k = wait_loop pid cur Waiting (hd (map Sibling xs @ [Children cur])) k"
        using False True n by (subst wait_loop.simps) simp
      ultimately show ?thesis using Cons.IH [OF s, of Waiting] by (simp split: wait_scan.splits)
    qed
  qed
qed

lemma wait_scan_ok:
  assumes c: "core A k R qs ts cs" and t: "t \<in> A"
  shows "Option.bind (lnext (lists_of k) (Children t)) (\<lambda>first. wait_loop pid t NoChild first k) = Some (awaited pid t k (cs t))"
proof -
  have s: "seg (lists_of k) (Children t) (map Sibling (cs t)) (Children t)"
    using ringsD(1) [OF coreD(8) [OF c] familyD(3) [OF coreD(6) [OF c] t]] .
  show ?thesis using seg_first [OF s] wait_loop_ok [OF s, of NoChild pid] by (simp split: wait_scan.splits)
qed

lemma leave_table_eq: "leave_table p k = k\<lparr>task_table := task_table (leave_table p k)\<rparr>"
  by (auto simp: leave_table_def split: option.splits)

lemma leave_table_ok:
  assumes t: "table_ok A k" and p: "p \<noteq> 0"
  shows "table_ok (A - {p}) (leave_table p k)" "task_table (leave_table p k) i \<noteq> Some p"
    "task_table (leave_table p k) i = (if task_table k i = Some p then None else task_table k i)"
proof -
  show e: "task_table (leave_table p k) i = (if task_table k i = Some p then None else task_table k i)" for i
  proof (cases "find (\<lambda>i. task_table k i = Some p) [0..<MAX_PROCS]")
    case None
    then have "task_table k j \<noteq> Some p" for j using table_okD(1) [OF t, of j p] by (auto simp: find_None_iff)
    then show ?thesis using None by (simp add: leave_table_def)
  next
    case (Some s)
    then have "task_table k s = Some p" by (auto simp: find_Some_iff)
    then have "task_table k j = Some p \<longleftrightarrow> j = s" for j using table_okD(2) [OF t, of j p s] by blast
    then show ?thesis using Some by (simp add: leave_table_def)
  qed
  show "task_table (leave_table p k) i \<noteq> Some p" unfolding e by simp
  show "table_ok (A - {p}) (leave_table p k)" unfolding table_ok_def e using table_okD [OF t] p
    by (metis DiffI option.inject option.simps(3) singletonD)
qed

text \<open>The lists without the task \<open>x\<close>, a child of \<open>q\<close>.\<close>

definition unlinked :: "nat \<Rightarrow> nat \<Rightarrow> (lnode \<Rightarrow> lnode list option) \<Rightarrow> nat list \<Rightarrow> (nat \<Rightarrow> nat list) \<Rightarrow> lnode \<Rightarrow> lnode list option" where
  "unlinked x q R ts cs = R(Children q \<mapsto> map Sibling (remove1 x (cs q)), Tasks 0 \<mapsto> map Tasks (remove1 x ts), Children x := None)"

lemma rings_drop: "rings s R \<Longrightarrow> rings s (R(h := None))"
  unfolding rings_def by (auto split: if_splits)

lemma nodes_drop:
  assumes "rings s R" "R h = Some []"
  shows "nodes (R(h := None)) = nodes R - {h}"
proof -
  have n: "nodes R = insert h (others R h)" using nodes_others [where R = R and h = h, OF assms(2)] by simp
  have "nodes (R(h := None)) = others R h" unfolding nodes_def others_def by (auto split: if_splits)
  moreover have "h \<notin> others R h" using ringsD(3) [OF assms(1) assms(2)] unfolding others_def by fastforce
  ultimately show ?thesis using n by auto
qed

lemma unlink_lists:
  assumes c: "core A k R qs ts cs" and x: "x \<in> A" "x \<noteq> 0" "cs x = []" and q: "t_parent (tasks k x) = Some q"
  shows "\<exists>l1 l2. list_del_entry (Sibling x) (lists_of k) = Some l1 \<and> list_del_entry (Tasks x) l1 = Some l2 \<and> rings l2 (unlinked x q R ts cs)"
    "RunList t \<in> nodes (unlinked x q R ts cs) \<longleftrightarrow> RunList t \<in> nodes R" "q \<in> A" "q \<noteq> x"
proof -
  note d = coreD [OF c] note f = familyD [OF d(6)]
  show qA: "q \<in> A" "q \<noteq> x" using f(5) [OF x(1,2)] q by auto
  have "x \<in> set (cs q)" using family_child [OF d(6) qA(1), of x] x q by simp
  then obtain ys zs where yz: "cs q = ys @ x # zs" by (meson split_list)
  have h: "R (Children q) = Some (map Sibling ys @ Sibling x # map Sibling zs)" using f(3) [OF qA(1)] yz by simp
  have "x \<notin> set ys" using ringsD(2) [OF d(8) h] by auto
  then have r1: "remove1 x (cs q) = ys @ zs" using yz by (simp add: remove1_append)
  obtain R1 where R1: "R1 = R(Children q \<mapsto> map Sibling ys @ map Sibling zs)" by blast
  from list_del_ok [OF d(8) h] R1 obtain l1 where l1: "list_del_entry (Sibling x) (lists_of k) = Some l1" "rings l1 R1" by blast
  have n1: "nodes R1 = nodes R - {Sibling x}" unfolding R1 by (rule nodes_del [OF d(8), where h = "Children q", OF h])
  have "x \<in> set ts" using f(2) x by simp
  then obtain us vs where uv: "ts = us @ x # vs" by (meson split_list)
  have h1: "R1 (Tasks 0) = Some (map Tasks us @ Tasks x # map Tasks vs)" using f(1) uv by (simp add: R1)
  have "x \<notin> set us" using ringsD(2) [OF l1(2) h1] by auto
  then have r2: "remove1 x ts = us @ vs" using uv by (simp add: remove1_append)
  obtain R2 where R2: "R2 = R1(Tasks 0 \<mapsto> map Tasks us @ map Tasks vs)" by blast
  from list_del_ok [OF l1(2) h1] R2 obtain l2 where l2: "list_del_entry (Tasks x) l1 = Some l2" "rings l2 R2" by blast
  have n2: "nodes R2 = nodes R1 - {Tasks x}" unfolding R2 by (rule nodes_del [OF l1(2), where h = "Tasks 0", OF h1])
  have e: "unlinked x q R ts cs = R2(Children x := None)" by (simp add: unlinked_def R2 R1 r1 r2)
  have hx: "R2 (Children x) = Some []" using f(3) [OF x(1)] x(3) qA(2) by (simp add: R2 R1)
  show "\<exists>l1 l2. list_del_entry (Sibling x) (lists_of k) = Some l1 \<and> list_del_entry (Tasks x) l1 = Some l2 \<and> rings l2 (unlinked x q R ts cs)"
    using l1(1) l2(1) rings_drop [OF l2(2)] unfolding e by blast
  show "RunList t \<in> nodes (unlinked x q R ts cs) \<longleftrightarrow> RunList t \<in> nodes R"
    unfolding e nodes_drop [OF l2(2) hx] n2 n1 by simp
qed

lemma family_unlink:
  assumes f: "family A k R ts cs" and r: "rings (lists_of k) R" and x: "x \<in> A" "x \<noteq> 0" "cs x = []" and q: "t_parent (tasks k x) = Some q" "q \<in> A" "q \<noteq> x"
    and k': "\<And>t. t \<in> A \<Longrightarrow> tasks k' t = tasks k t" and z: "0 \<in> A"
  shows "family (A - {x}) k' (unlinked x q R ts cs) (remove1 x ts) (cs(q := remove1 x (cs q)))"
proof -
  note d = familyD [OF f] note fc = family_child [OF f]
  have dist: "distinct (cs t)" if "t \<in> A" for t using ringsD(2) [OF r d(3) [OF that]] by (auto simp: distinct_map)
  have dts: "distinct ts" using ringsD(2) [OF r d(1)] by (auto simp: distinct_map)
  have ch: "unlinked x q R ts cs (Children t) = Some (map Sibling ((cs(q := remove1 x (cs q))) t))" if "t \<in> A - {x}" for t
    using that d(3) q(3) by (auto simp: unlinked_def)
  have st: "set ((cs(q := remove1 x (cs q))) t) = {c \<in> A - {x} - {0}. t_parent (tasks k' c) = Some t}" if t: "t \<in> A - {x}" for t
  proof -
    have "c \<in> set ((cs(q := remove1 x (cs q))) t) \<longleftrightarrow> c \<in> A - {x} - {0} \<and> t_parent (tasks k' c) = Some t" for c
      using fc [of t c] t fc [OF q(2), of c] dist [OF q(2)] q(1) k' by (cases "t = q") auto
    then show ?thesis by (simp only: set_eq_iff mem_Collect_eq simp_thms)
  qed
  have own: "\<exists>p \<in> A - {x}. p \<noteq> c \<and> t_parent (tasks k' c) = Some p" if c: "c \<in> A - {x} - {0}" for c
  proof -
    from d(5) [of c] c obtain p where p: "p \<in> A" "p \<noteq> c" "t_parent (tasks k c) = Some p" by auto
    have "p \<noteq> x" using fc [OF x(1), of c] x(3) p(3) c by auto
    then show ?thesis using p c k' by auto
  qed
  have hd: "(\<exists>a < 2. \<exists>j < MAX_PRIO. h = Queue a j) \<or> h = Tasks 0 \<or> (\<exists>t \<in> A - {x}. h = Children t)" if "unlinked x q R ts cs h = Some ys" for h ys
    using that d(6) [of h] q(2,3) unfolding unlinked_def by (auto split: if_splits)
  have "set (remove1 x ts) = A - {x} - {0}" using d(2) dts by auto
  then show ?thesis unfolding family_def using ch st own hd by (simp add: unlinked_def)
qed

text \<open>\<open>reaped\<close>: the child \<open>x\<close> is gone, with its task structure, its number, its stack and its entry of the table.\<close>

definition reaped :: "nat \<Rightarrow> kern \<Rightarrow> kern \<Rightarrow> bool" where
  "reaped x k k' \<longleftrightarrow> live k' = live k - {x} \<and> tasks k' = tasks k \<and> get_current k' = get_current k \<and> runqueue k' = runqueue k
     \<and> (\<forall>p. pid_used k' p \<longleftrightarrow> pid_used k p \<and> p \<noteq> t_pid (tasks k x)) \<and> (\<forall>i. task_table k' i = (if task_table k i = Some x then None else task_table k i))
     \<and> unat (free_page_count (sframes (kmem k'))) = unat (free_page_count (sframes (kmem k))) + 2"

lemma release_task_ok:
  assumes i: "proc_inv k R qs ts cs L" and x: "x \<in> live k" "x \<noteq> 0" "t_state (tasks k x) = TASK_ZOMBIE" and q: "t_parent (tasks k x) = Some q"
  shows "\<exists>k' R'. release_task (Some x) k = Some k' \<and> proc_inv k' R' qs (remove1 x ts) (cs(q := remove1 x (cs q))) L \<and> reaped x k k'"
proof -
  note y = proc_invD [OF i] note d = coreD [OF y(1)] note m = y(4) [unfolded memory_def]
  have x64: "1 \<le> x" "x \<le> 64" using x d(3) by auto
  have z: "x \<in> zombies k" using x(3) by (simp add: zombies_def)
  have csx: "cs x = []"
  proof -
    have "c \<notin> set (cs x)" for c using family_child [OF d(6) x(1), of c] y(7) z x(1) unfolding spent_def by auto
    then show ?thesis by (metis list.set_intros(1) neq_Nil_conv)
  qed
  have xq: "x \<notin> qall qs" "x \<noteq> get_current k" using restedD(2) [OF y(2) x(1,3)] by auto
  note u = unlink_lists [OF y(1) x(1,2) csx q]
  from u(1) obtain l1 l2 where l: "list_del_entry (Sibling x) (lists_of k) = Some l1" "list_del_entry (Tasks x) l1 = Some l2" "rings l2 (unlinked x q R ts cs)" by blast
  have pid: "0 < t_pid (tasks k x)" "t_pid (tasks k x) < PID_MAX" "\<not> pid_lock k" using y(3) x(1,2) by (auto simp: idents_def)
  have st: "t_stack (tasks k x) \<in> stacks (live k) k" "t_stack (tasks k x) \<noteq> 0" using m x(1,2) by (auto simp: stacks_def)
  let ?p = "t_pid (tasks k x)" and ?ti = "t_stack (tasks k x)"
  obtain tt where tt: "tt = task_table (leave_table x k)" by blast
  have lt: "leave_table x (k\<lparr>lists_of := l2\<rparr>) = k\<lparr>lists_of := l2, task_table := tt\<rparr>" by (simp add: tt leave_table_def split: option.splits)
  let ?fr = "free_pages ?ti 1 (sframes (kmem k))"
  obtain k' where k': "k' = k\<lparr>lists_of := l2, task_table := tt, pid_bitmap := clear_bit_at (nat ?p) (pid_bitmap k), kmem := (kmem k)\<lparr>sframes := ?fr\<rparr>,
      task_cache_bitmap := task_cache_bitmap k AND NOT (push_bit (x - 1) 1)\<rparr>" by blast
  have run: "release_task (Some x) k = Some k'"
    using l(1,2) pid st(2) by (simp add: release_task_def on_lists_def lt free_pid_ok free_thread_info_def THREAD_SIZE_ORDER_def free_task_bitmap [OF x64] k')
  have lv: "live k' = live k - {x}" by (rule live_free [OF x64]) (simp add: k')
  have tb: "table_ok (live k - {x}) k'" using leave_table_ok(1) [OF d(7) x(2)] by (simp add: table_ok_def k' tt)
  have fam: "family (live k - {x}) k' (unlinked x q R ts cs) (remove1 x ts) (cs(q := remove1 x (cs q)))"
    by (rule family_unlink [OF d(6,8) x(1,2) csx q u(3,4) _ d(2)]) (simp add: k')
  have "core (live k - {x}) k' (unlinked x q R ts cs) qs (remove1 x ts) (cs(q := remove1 x (cs q)))"
    by (rule core_relist [OF y(1) _ _ _ _ _ u(2) _ _ _ _ tb fam])
      (use l(3) d xq x(2) in \<open>auto simp: k' get_current_def unlinked_def\<close>)
  moreover have "rested (live k - {x}) k' qs" using y(2) unfolding rested_def by (simp add: k' get_current_def)
  moreover have "spent (live k - {x}) k'" using y(7) unfolding spent_def zombies_def by (simp add: k')
  moreover have pu: "pid_used k' r \<longleftrightarrow> pid_used k r \<and> r \<noteq> ?p" for r using pid(1) by (auto simp: pid_used_def k' test_clear_bit)
  have ij: "inj_on (\<lambda>t. t_pid (tasks k t)) (live k)" "inj_on (\<lambda>t. t_stack (tasks k t)) (live k)" using y(3) m by (auto simp: idents_def)
  have im: "(\<lambda>t. t_pid (tasks k t)) ` (live k - {x}) = pids (live k) k - {?p}" "stacks (live k - {x}) k = stacks (live k) k - {?ti}"
    using inj_on_image_set_diff [OF ij(1), of "live k" "{x}"] inj_on_image_set_diff [OF ij(2), of "live k" "{x}"] x(1)
    by (auto simp: pids_def stacks_def)
  have tk: "tasks k' = tasks k" by (simp add: k')
  have "idents (live k - {x}) k'"
  proof -
    have "pids (live k - {x}) k' = pids (live k) k - {?p}" using im(1) by (simp add: pids_def tk)
    then show ?thesis using y(3) pu ij(1) unfolding idents_def by (auto simp: tk inj_on_diff) (simp_all add: k')
  qed
  moreover have sf: "kmem_ok (stacks (live k) k - {?ti}) (kmem k') L" "unat (free_page_count ?fr) = unat (free_page_count (sframes (kmem k))) + 2"
    using kmem_stack_free(1,3) [OF conjunct1 [OF m] st(1)] by (simp_all add: k')
  have "memory (live k - {x}) k' L"
  proof -
    have "t_mm (tasks k x) = 0" using y(7) x(1) z by (auto simp: spent_def)
    then have us: "{u \<in> live k - {x}. t_mm (tasks k u) = v} = {u \<in> live k. t_mm (tasks k u) = v}" if "v \<noteq> 0" for v using that by auto
    have sp: "spaces (live k) k L" using m by blast
    have "mm_obj v \<in> L \<and> mm_users (mms k' v) = int (card {u \<in> live k - {x}. t_mm (tasks k' u) = v})" if "t \<in> live k" "t_mm (tasks k t) = v" "v \<noteq> 0" for t v
      using spacesD [OF sp that] us [OF that(3)] by (simp add: tk) (simp add: k')
    then have "spaces (live k - {x}) k' L" unfolding spaces_def tk by blast
    moreover have "stacks (live k - {x}) k' = stacks (live k) k - {?ti}" using im(2) by (simp add: stacks_def tk)
    ultimately show ?thesis using sf(1) m ij(2) unfolding memory_def by (auto simp: tk inj_on_diff)
  qed
  ultimately have inv: "proc_inv k' (unlinked x q R ts cs) qs (remove1 x ts) (cs(q := remove1 x (cs q))) L" unfolding proc_inv_def lv by blast
  have "task_table k' j = (if task_table k j = Some x then None else task_table k j)" for j
    using leave_table_ok(3) [OF d(7) x(2), of j] by (simp add: k' tt)
  then have "reaped x k k'" unfolding reaped_def lv using pu sf(2) by (simp add: tk) (simp add: k' get_current_def)
  then show ?thesis using run inv by blast
qed

text \<open>\<^verbatim>\<open>schedule\<close> does not touch the channel a task sleeps on.\<close>

lemma chan_dequeue: "dequeue_task p k = Some k' \<Longrightarrow> t_chan (tasks k' t) = t_chan (tasks k t)"
  unfolding dequeue_task_def Let_def by (auto split: bind_splits if_splits simp: on_lists_def)

lemma chan_pick: "pick_next_task k = Some (p, k') \<Longrightarrow> tasks k' = tasks k"
  unfolding pick_next_task_def Let_def by (auto split: if_splits)

lemma chan_switch: "t_chan (tasks (context_switch p n k) t) = t_chan (tasks k t)"
  unfolding context_switch_def switch_mm_def swtch_def Let_def by simp

lemma schedule_chan: "schedule k = Some k' \<Longrightarrow> t_chan (tasks k' t) = t_chan (tasks k t)"
  unfolding schedule_def Let_def rq_spin_lock_def rq_spin_unlock_def
  by (auto split: bind_splits if_splits option.splits prod.splits dest!: chan_dequeue [where t = t] chan_pick simp: chan_switch set_current_def)

text \<open>A task blocks on a channel.\<close>

lemma proc_block:
  assumes i: "proc_inv k R qs ts cs L" and c: "c = get_current k" and k1: "k1 = upd_task c (\<lambda>t. t\<lparr>t_chan := ch, t_state := TASK_INTERRUPTIBLE\<rparr>) k"
  shows "\<exists>k' R'. schedule k1 = Some k' \<and> proc_inv k' R' (after_block k1 qs) ts cs L
    \<and> t_state (tasks k' c) = TASK_INTERRUPTIBLE \<and> t_chan (tasks k' c) = ch"
proof -
  note y = proc_invD [OF i] note d = coreD [OF y(1)]
  have cA: "c \<in> live k" using d(5) c by simp
  have c1: "core (live k) k1 R qs ts cs" using y(1) by (simp add: k1 core_task)
  have st: "t_state (tasks k1 t) = TASK_ZOMBIE \<longleftrightarrow> t_state (tasks k t) = TASK_ZOMBIE" for t
    using restedD(2) [OF y(2) cA] c by (auto simp: k1 TASK_INTERRUPTIBLE_def TASK_ZOMBIE_def)
  have z: "t_state (tasks k1 0) \<noteq> TASK_ZOMBIE" unfolding st by (rule restedD(1) [OF y(2)])
  have "t = get_current k1 \<or> t \<notin> qall qs" if "t \<in> live k" "t_state (tasks k1 t) = TASK_ZOMBIE" for t
    using restedD(2) [OF y(2) that(1)] that(2) unfolding st by blast
  from proc_schedule [OF c1 z this] obtain k' R' where
    s: "schedule k1 = Some k'" "core (live k) k' R' (after_block k1 qs) ts cs" "rested (live k) k' (after_block k1 qs)" "pview k' = pview k1"
      "\<And>t. t_state (tasks k' t) = t_state (tasks k1 t)" "zombies k' = zombies k1" by blast
  have v: "pview k' = pview k" using s(4) by (simp add: k1 pview_task tview_def)
  have "zombies k' = zombies k" using s(6) st by (simp add: zombies_def)
  from proc_inv_pview [OF i v s(2,3) this] have "proc_inv k' R' (after_block k1 qs) ts cs L" .
  then show ?thesis using s(1,5) schedule_chan [OF s(1), of c] by (auto simp: k1)
qed

text \<open>One call of \<^verbatim>\<open>do_wait\<close>, up to the point where the caller blocks.\<close>

definition waiting :: "nat \<Rightarrow> kern \<Rightarrow> kern" where
  "waiting c k = upd_task c (\<lambda>t. t\<lparr>t_chan := Some (WaitChldexit c), t_state := TASK_INTERRUPTIBLE\<rparr>) k"

lemma do_wait_ok:
  assumes i: "proc_inv k R qs ts cs L" and c: "c = get_current k"
  shows "case awaited pid c k (cs c) of
      Zombie x \<Rightarrow> \<exists>k' R'. do_wait pid options k = Some (Returned (t_pid (tasks k x)) (Some (t_exit_code (tasks k x))) k')
        \<and> reaped x k k' \<and> proc_inv k' R' qs (remove1 x ts) (cs(c := remove1 x (cs c))) L
    | NoChild \<Rightarrow> do_wait pid options k = Some (Returned (- ECHILD) None k)
    | Waiting \<Rightarrow>
        if options AND WNOHANG \<noteq> 0 then do_wait pid options k = Some (Returned 0 None k)
        else \<exists>k' R'. do_wait pid options k = Some (Blocked k') \<and> schedule (waiting c k) = Some k'
          \<and> proc_inv k' R' (after_block (waiting c k) qs) ts cs L
          \<and> t_state (tasks k' c) = TASK_INTERRUPTIBLE \<and> t_chan (tasks k' c) = Some (WaitChldexit c)"
proof -
  note y = proc_invD [OF i] note d = coreD [OF y(1)]
  have cA: "c \<in> live k" using d(5) c by simp
  have b: "do_wait pid options k = (case awaited pid c k (cs c) of
       Zombie child \<Rightarrow> map_option (Returned (t_pid (tasks k child)) (Some (t_exit_code (tasks k child)))) (release_task (Some child) k)
     | NoChild \<Rightarrow> Some (Returned (- ECHILD) None k)
     | Waiting \<Rightarrow> if options AND WNOHANG \<noteq> 0 then Some (Returned 0 None k) else map_option Blocked (schedule (waiting c k)))"
    using wait_scan_ok [OF y(1) cA, of pid] unfolding do_wait_def do_wait_pass_def c [symmetric] waiting_def
    by (auto split: bind_splits)
  show ?thesis
  proof (cases "awaited pid c k (cs c)")
    case (Zombie x)
    then have x: "x \<in> set (cs c)" "t_state (tasks k x) = TASK_ZOMBIE" by (auto simp: awaited_def find_Some_iff split: option.splits if_splits)
    then have "x \<in> live k" "x \<noteq> 0" "t_parent (tasks k x) = Some c" using family_child [OF d(6) cA, of x] by simp_all
    from release_task_ok [OF i this(1,2) x(2) this(3)] show ?thesis unfolding b Zombie by auto
  next
    case Waiting
    from proc_block [OF i c waiting_def] show ?thesis unfolding b Waiting by auto
  qed (simp add: b)
qed

subsection \<open>What a wake-up does\<close>

definition asleep_on :: "chan option \<Rightarrow> task_struct \<Rightarrow> bool" where
  "asleep_on ch t \<longleftrightarrow> (t_state t = TASK_INTERRUPTIBLE \<or> t_state t = TASK_UNINTERRUPTIBLE) \<and> t_chan t = ch"

lemma chan_add: "add_to_array a p k = Some k' \<Longrightarrow> t_chan (tasks k' t) = t_chan (tasks k t)"
  unfolding add_to_array_def Let_def by (auto split: bind_splits if_splits simp: on_lists_def)

lemma on_rq_added: "add_to_array a p k = Some k' \<Longrightarrow> t_on_rq (tasks k' t) \<longleftrightarrow> t_on_rq (tasks k t) \<or> t = p"
  unfolding add_to_array_def Let_def by (auto split: bind_splits if_splits simp: on_lists_def)

lemma wake_effect:
  assumes "wake_up_process (Some p) k = Some (n, k')" "t_state (tasks k p) \<noteq> TASK_RUNNING"
  shows "t_chan (tasks k' t) = t_chan (tasks k t)" "t_on_rq (tasks k' t) \<longleftrightarrow> t_on_rq (tasks k t) \<or> t = p"
proof -
  let ?k1 = "upd_rq (\<lambda>r. r\<lparr>rq_lock := True\<rparr>) k"
  from assms have "\<exists>k3. (if \<not> t_on_rq (tasks k p) then add_to_array (rq_active (runqueue k)) p (upd_task p (\<lambda>x. x\<lparr>t_state := TASK_RUNNING\<rparr>) ?k1)
             else Some (upd_task p (\<lambda>x. x\<lparr>t_state := TASK_RUNNING\<rparr>) ?k1)) = Some k3 \<and> tasks k' = tasks k3"
    unfolding wake_up_process_def Let_def enqueue_task_def rq_spin_lock_def
    by (auto split: bind_splits if_splits option.splits simp: rq_spin_unlock_def)
  then show "t_chan (tasks k' t) = t_chan (tasks k t)" "t_on_rq (tasks k' t) \<longleftrightarrow> t_on_rq (tasks k t) \<or> t = p"
    by (auto split: if_splits dest: on_rq_added [where t = t] chan_add [where t = t] simp: upd_task_def upd_rq_def)
qed

lemma not_asleep: "t_state x = TASK_RUNNING \<Longrightarrow> \<not> asleep_on ch x"
  by (auto simp: asleep_on_def TASK_RUNNING_def TASK_INTERRUPTIBLE_def TASK_UNINTERRUPTIBLE_def)

lemma wakeup_one_effect:
  assumes "wakeup_one ch i k = Some k'"
  shows "task_table k' = task_table k \<and> (\<forall>t.
    t_state (tasks k' t) = (if task_table k i = Some t \<and> asleep_on ch (tasks k t) then TASK_RUNNING else t_state (tasks k t))
    \<and> (asleep_on ch (tasks k' t) \<longleftrightarrow> asleep_on ch (tasks k t) \<and> task_table k i \<noteq> Some t)
    \<and> (t_on_rq (tasks k' t) \<longleftrightarrow> t_on_rq (tasks k t) \<or> task_table k i = Some t \<and> asleep_on ch (tasks k t)))"
proof -
  consider (no) "k' = k" "\<And>t. task_table k i = Some t \<Longrightarrow> \<not> asleep_on ch (tasks k t)"
    | (yes) p n where "task_table k i = Some p" "asleep_on ch (tasks k p)"
        "wake_up_process (Some p) (upd_task p (\<lambda>t. t\<lparr>t_chan := None\<rparr>) k) = Some (n, k')"
    using assms unfolding wakeup_one_def asleep_on_def by (auto split: option.splits if_splits)
  then show ?thesis
  proof cases
    case no
    then show ?thesis by auto
  next
    case (yes p n)
    have nr: "t_state (tasks (upd_task p (\<lambda>t. t\<lparr>t_chan := None\<rparr>) k) p) \<noteq> TASK_RUNNING" using yes(2) not_asleep by auto
    note f = wake_frame(1) [OF yes(3)] wake_effect [OF yes(3) nr]
    have "task_table k' = task_table k" using pviewD(1) [OF pview_wake [OF yes(3)]] by simp
    moreover have "t_state (tasks k' t) = (if t = p then TASK_RUNNING else t_state (tasks k t))" for t using f(1) [of t] by simp
    moreover have "asleep_on ch (tasks k' t) \<longleftrightarrow> asleep_on ch (tasks k t) \<and> t \<noteq> p" for t
      using not_asleep [of "tasks k' t" ch] f(1,2) [of t] by (cases "t = p") (simp_all add: asleep_on_def)
    moreover have "t_on_rq (tasks k' t) \<longleftrightarrow> t_on_rq (tasks k t) \<or> t = p" for t using f(3) [of t] by auto
    ultimately show ?thesis using yes(1,2) by auto
  qed
qed

lemma wakeup_effect:
  assumes "wakeup ch k = Some k'"
  shows "t_state (tasks k' t) = (if asleep_on ch (tasks k t) \<and> (\<exists>i < MAX_PROCS. task_table k i = Some t) then TASK_RUNNING else t_state (tasks k t))"
    "t_on_rq (tasks k' t) \<longleftrightarrow> t_on_rq (tasks k t) \<or> asleep_on ch (tasks k t) \<and> (\<exists>i < MAX_PROCS. task_table k i = Some t)"
proof -
  have bn: "fold (\<lambda>i acc. Option.bind acc (wakeup_one ch i)) ns None = None" for ns by (induction ns) simp_all
  have "t_state (tasks k' t) = (if asleep_on ch (tasks k t) \<and> (\<exists>i \<in> set ns. task_table k i = Some t) then TASK_RUNNING else t_state (tasks k t))
     \<and> (t_on_rq (tasks k' t) \<longleftrightarrow> t_on_rq (tasks k t) \<or> asleep_on ch (tasks k t) \<and> (\<exists>i \<in> set ns. task_table k i = Some t))"
    if "fold (\<lambda>i acc. Option.bind acc (wakeup_one ch i)) ns (Some k) = Some k'" for ns
    using that
  proof (induction ns arbitrary: k)
    case (Cons i ns)
    then obtain k1 where k1: "wakeup_one ch i k = Some k1" "fold (\<lambda>i acc. Option.bind acc (wakeup_one ch i)) ns (Some k1) = Some k'"
      by (cases "wakeup_one ch i k") (auto simp: bn)
    note e = wakeup_one_effect [OF k1(1)]
    note e1 = spec [OF conjunct2 [OF e], of t]
    obtain a b where ab: "a = asleep_on ch (tasks k t)" "b = (task_table k i = Some t)" by blast
    have "t_state (tasks k1 t) = (if b \<and> a then TASK_RUNNING else t_state (tasks k t))" "asleep_on ch (tasks k1 t) \<longleftrightarrow> a \<and> \<not> b"
      "t_on_rq (tasks k1 t) \<longleftrightarrow> t_on_rq (tasks k t) \<or> b \<and> a" using e1 unfolding ab by blast+
    with Cons.IH [OF k1(2)] show ?case unfolding conjunct1 [OF e] ab(1) [symmetric]
      using ab(2) by (cases a; cases b) simp_all
  qed simp
  from this [OF assms [unfolded wakeup_def]]
  show "t_state (tasks k' t) = (if asleep_on ch (tasks k t) \<and> (\<exists>i < MAX_PROCS. task_table k i = Some t) then TASK_RUNNING else t_state (tasks k t))"
    "t_on_rq (tasks k' t) \<longleftrightarrow> t_on_rq (tasks k t) \<or> asleep_on ch (tasks k t) \<and> (\<exists>i < MAX_PROCS. task_table k i = Some t)" by auto
qed

text \<open>\<^verbatim>\<open>schedule\<close> takes no task but the current one off its queue.\<close>

lemma on_rq_dequeued: "dequeue_task p k = Some k' \<Longrightarrow> t \<noteq> p \<Longrightarrow> t_on_rq (tasks k' t) = t_on_rq (tasks k t)"
  unfolding dequeue_task_def Let_def by (auto split: bind_splits if_splits simp: on_lists_def)

lemma on_rq_switch: "t_on_rq (tasks (context_switch p n k) t) = t_on_rq (tasks k t)"
  unfolding context_switch_def switch_mm_def swtch_def Let_def by simp

lemma schedule_on_rq: "schedule k = Some k' \<Longrightarrow> rq_curr (runqueue k) \<noteq> Some t \<Longrightarrow> t_on_rq (tasks k' t) = t_on_rq (tasks k t)"
  unfolding schedule_def Let_def rq_spin_lock_def rq_spin_unlock_def
  by (auto split: bind_splits if_splits option.splits prod.splits dest!: on_rq_dequeued [where t = t] chan_pick simp: on_rq_switch set_current_def)

subsection \<open>Killing\<close>

lemma find_task_live:
  assumes c: "core A k R qs ts cs" and f: "find_task_by_pid pid k = Some p"
  shows "p \<in> A" "t_pid (tasks k p) = pid"
proof -
  from f obtain i where "task_table k i = Some p" "t_pid (tasks k p) = pid"
    by (auto simp: find_task_by_pid_def find_Some_iff split: option.splits)
  then show "p \<in> A" "t_pid (tasks k p) = pid" using coreD(7) [OF c] by (auto simp: table_ok_def)
qed

lemma kill_process_ok:
  assumes i: "proc_inv k R qs ts cs L"
  shows "\<exists>r k' R' qs'. kill_process pid k = Some (r, k') \<and> proc_inv k' R' qs' ts cs L"
proof (cases "find_task_by_pid pid k")
  case None
  then show ?thesis using i by (auto simp: kill_process_def)
next
  case (Some p)
  note y = proc_invD [OF i]
  let ?k = "upd_task p (\<lambda>t. t\<lparr>t_killed := 1\<rparr>) k"
  have l: "live ?k = live k" by (simp add: live_def upd_task_def)
  have c1: "core (live k) ?k R qs ts cs" "rested (live k) ?k qs" using y(1,2) by (simp_all add: core_task rested_task)
  have f: "t_pid (tasks ?k t) = t_pid (tasks k t)" "t_stack (tasks ?k t) = t_stack (tasks k t)" "t_mm (tasks ?k t) = t_mm (tasks k t)"
    "t_state (tasks ?k t) = t_state (tasks k t)" "t_parent (tasks ?k t) = t_parent (tasks k t)" for t by simp_all
  have g: "pid_used ?k = pid_used k" "mms ?k = mms k" "kmem ?k = kmem k" "pid_lock ?k = pid_lock k" by (simp_all add: pid_used_def upd_task_def fun_eq_iff)
  have "proc_inv ?k R qs ts cs L"
    using i c1 unfolding proc_inv_def l spent_def idents_def memory_def spaces_def stacks_def pids_def zombies_def f g by blast
  moreover have "\<exists>n k' R' qs'. wake_up_process (Some p) ?k = Some (n, k') \<and> proc_inv k' R' qs' ts cs L"
    if "t_state (tasks ?k p) = TASK_INTERRUPTIBLE \<or> t_state (tasks ?k p) = TASK_UNINTERRUPTIBLE"
  proof -
    have "t_state (tasks ?k p) \<noteq> TASK_ZOMBIE" using that by (auto simp: TASK_INTERRUPTIBLE_def TASK_UNINTERRUPTIBLE_def TASK_ZOMBIE_def)
    from proc_wake [OF c1 find_task_live(1) [OF y(1) Some] this] obtain n k' R' qs' where
      w: "wake_up_process (Some p) ?k = Some (n, k')" "core (live ?k) k' R' qs' ts cs" "rested (live ?k) k' qs'" "pview k' = pview ?k" "zombies k' = zombies ?k"
      unfolding l by blast
    from proc_inv_pview [OF calculation w(4,2,3,5)] show ?thesis using w(1) by blast
  qed
  ultimately show ?thesis using Some by (auto simp: kill_process_def Let_def)
qed

end
