(* ===== verification/ProcProps.thy ===== *)
theory ProcProps
  imports ExitProps
begin

unbundle bit_operations_syntax

text \<open>
  The process subsystem as a whole: its runs (\<open>proc_step\<close>), the invariant of every state they reach, a
  first run with one thread, and the properties of fork, exit and wait.
\<close>

subsection \<open>Runs of the process subsystem\<close>

text \<open>
  A step is one call of an operation on the state of the kernel, by the current task or by the timer.  The
  idle task does not exit.
\<close>

inductive proc_step :: "code_syms \<Rightarrow> kern \<Rightarrow> kern \<Rightarrow> bool" for y where
  tick: "scheduler_tick k = Some k' \<Longrightarrow> proc_step y k k'"
| resched: "schedule k = Some k' \<Longrightarrow> proc_step y k k'"
| yielded: "yield k = Some k' \<Longrightarrow> proc_step y k k'"
| sleeps: "sleep ch k = Some k' \<Longrightarrow> proc_step y k k'"
| wakes: "wakeup ch k = Some k' \<Longrightarrow> proc_step y k k'"
| forks: "do_fork y clone_flags usp regs k = Some (r, k') \<Longrightarrow> proc_step y k k'"
| threads: "kernel_thread y fn arg flags k = Some (r, k') \<Longrightarrow> proc_step y k k'"
| exits: "get_current k \<noteq> 0 \<Longrightarrow> do_exit code k = Some k' \<Longrightarrow> proc_step y k k'"
| waits: "do_wait pid options k = Some (Returned r s k') \<Longrightarrow> proc_step y k k'"
| wait_blocks: "do_wait pid options k = Some (Blocked k') \<Longrightarrow> proc_step y k k'"
| kills: "kill_process pid k = Some (r, k') \<Longrightarrow> proc_step y k k'"

abbreviation proc_reach :: "code_syms \<Rightarrow> kern \<Rightarrow> bool" where
  "proc_reach y \<equiv> (proc_step y)\<^sup>*\<^sup>* booted"

definition proc_ok :: "kern \<Rightarrow> bool" where
  "proc_ok k \<longleftrightarrow> (\<exists>R qs ts cs L. proc_inv k R qs ts cs L)"

lemma proc_okI: "proc_inv k R qs ts cs L \<Longrightarrow> proc_ok k"
  unfolding proc_ok_def by blast

text \<open>Each operation returns and keeps the invariant.\<close>

lemma same_ok:
  assumes "proc_inv k R qs ts cs L" "core (live k) k' R' qs' ts cs" "rested (live k) k' qs'" "pview k' = pview k" "zombies k' = zombies k"
  shows "proc_ok k'"
  using proc_inv_pview [OF assms(1,4,2,3,5)] by (rule proc_okI)

lemma ops_sched:
  assumes "proc_ok k"
  shows "\<exists>k'. scheduler_tick k = Some k' \<and> proc_ok k'" "\<exists>k'. schedule k = Some k' \<and> proc_ok k'" "\<exists>k'. yield k = Some k' \<and> proc_ok k'"
    "\<exists>k'. sleep ch k = Some k' \<and> proc_ok k'" "\<exists>k'. wakeup ch k = Some k' \<and> proc_ok k'" "\<exists>r k'. kill_process pid k = Some (r, k') \<and> proc_ok k'"
proof -
  from assms obtain R qs ts cs L where i: "proc_inv k R qs ts cs L" by (auto simp: proc_ok_def)
  note y = proc_invD [OF i]
  show "\<exists>k'. scheduler_tick k = Some k' \<and> proc_ok k'" using proc_tick [OF y(1,2)] same_ok [OF i] by metis
  show "\<exists>k'. schedule k = Some k' \<and> proc_ok k'"
    using proc_schedule [OF y(1) restedD(1) [OF y(2)]] restedD(2) [OF y(2)] same_ok [OF i] by metis
  show "\<exists>k'. yield k = Some k' \<and> proc_ok k'" using proc_yield [OF y(1,2)] same_ok [OF i] by metis
  show "\<exists>k'. sleep ch k = Some k' \<and> proc_ok k'" using proc_block [OF i refl refl, of ch] proc_okI unfolding sleep_def by blast
  show "\<exists>k'. wakeup ch k = Some k' \<and> proc_ok k'" using proc_wakeup [OF y(1,2), of ch] same_ok [OF i] by metis
  show "\<exists>r k'. kill_process pid k = Some (r, k') \<and> proc_ok k'" using kill_process_ok [OF i, of pid] proc_okI by blast
qed

lemma ops_proc:
  assumes "proc_ok k"
  shows "\<exists>r k'. do_fork y clone_flags usp regs k = Some (r, k') \<and> proc_ok k'" "\<exists>r k'. kernel_thread y fn arg flags k = Some (r, k') \<and> proc_ok k'"
    "get_current k \<noteq> 0 \<Longrightarrow> \<exists>k'. do_exit code k = Some k' \<and> proc_ok k'"
    "(\<exists>r s k'. do_wait pid options k = Some (Returned r s k') \<and> proc_ok k') \<or> (\<exists>k'. do_wait pid options k = Some (Blocked k') \<and> proc_ok k')"
proof -
  from assms obtain R qs ts cs L where i: "proc_inv k R qs ts cs L" by (auto simp: proc_ok_def)
  show "\<exists>r k'. do_fork y clone_flags usp regs k = Some (r, k') \<and> proc_ok k'"
    using i by (cases rule: do_fork_ok [OF _ refl, where y = y and clone_flags = clone_flags and usp = usp and regs = regs]) (blast intro: proc_okI)+
  show "\<exists>r k'. kernel_thread y fn arg flags k = Some (r, k') \<and> proc_ok k'"
    using i by (cases rule: kernel_thread_ok [where y = y and fn = fn and arg = arg and flags = flags]) (blast intro: proc_okI)+
  show "\<exists>k'. do_exit code k = Some k' \<and> proc_ok k'" if "get_current k \<noteq> 0"
    using i refl that by (rule do_exit_ok [where code = code]) (blast intro: proc_okI)
  show "(\<exists>r s k'. do_wait pid options k = Some (Returned r s k') \<and> proc_ok k') \<or> (\<exists>k'. do_wait pid options k = Some (Blocked k') \<and> proc_ok k')"
    using do_wait_ok [OF i refl, of pid options] proc_okI i by (auto split: wait_scan.splits if_splits)
qed

lemma step_ok: "proc_step y k k' \<Longrightarrow> proc_ok k \<Longrightarrow> proc_ok k'"
proof (induction rule: proc_step.induct)
  case (forks clone_flags usp regs k r k')
  then show ?case using ops_proc(1) [of k y clone_flags usp regs] by auto
next
  case (threads fn arg flags k r k')
  then show ?case using ops_proc(2) [of k y fn arg flags] by auto
next
  case (exits k code k')
  then show ?case using ops_proc(3) [of k code] by auto
next
  case (waits pid options k r s k')
  then show ?case using ops_proc(4) [of k pid options] by auto
next
  case (wait_blocks pid options k k')
  then show ?case using ops_proc(4) [of k pid options] by auto
next
  case (kills pid k r k')
  then show ?case using ops_sched(6) [of k pid] by auto
next
  case (sleeps ch k k')
  then show ?case using ops_sched(4) [of k ch] by auto
next
  case (wakes ch k k')
  then show ?case using ops_sched(5) [of k ch] by auto
qed (use ops_sched(1-3) in force)+

lemma reach_ok: "proc_reach y k \<Longrightarrow> proc_ok k"
  by (induction rule: rtranclp_induct) (use proc_okI [OF booted_inv] step_ok in blast)+

lemma proc_ok_current: "proc_ok k \<Longrightarrow> get_current k \<in> live k \<and> t_state (tasks k (get_current k)) \<noteq> TASK_ZOMBIE"
  unfolding proc_ok_def using coreD(5) [OF proc_invD(1)] restedD(2) [OF proc_invD(2)] by blast

lemma proc_ok_distinct:
  assumes "proc_ok k" "s \<in> live k" "t \<in> live k" "s \<noteq> t"
  shows "t_pid (tasks k s) \<noteq> t_pid (tasks k t)" "t_stack (tasks k s) \<noteq> t_stack (tasks k t)"
proof -
  from assms(1) obtain R qs ts cs L where i: "proc_inv k R qs ts cs L" by (auto simp: proc_ok_def)
  have "inj_on (\<lambda>t. t_pid (tasks k t)) (live k)" "inj_on (\<lambda>t. t_stack (tasks k t)) (live k)"
    using proc_invD(3,4) [OF i] by (auto simp: idents_def memory_def)
  then show "t_pid (tasks k s) \<noteq> t_pid (tasks k t)" "t_stack (tasks k s) \<noteq> t_stack (tasks k t)"
    using assms(2-4) by (auto dest: inj_onD)
qed

subsection \<open>A first run\<close>

text \<open>The idle task creates a thread \<open>p\<close> and waits for it: the thread runs, the idle task sleeps in \<^verbatim>\<open>do_wait\<close>.\<close>

definition some_syms :: code_syms where
  "some_syms = \<lparr>ret_from_fork = 0x80200100, kernel_thread_helper = 0x80200200, init_thread = 0x80200300\<rparr>"

lemma first_wait:
  obtains pid p k1 k R qs where "kernel_thread y fn arg flags booted = Some (pid, k1)" "do_wait (-1) 0 k1 = Some (Blocked k)"
    "proc_inv k R qs [p] (\<lambda>t. if t = 0 then [p] else []) {}" "get_current k = p" "p \<noteq> 0" "t_parent (tasks k p) = Some 0" "t_pid (tasks k p) = pid"
    "asleep_on (Some (WaitChldexit 0)) (tasks k 0)" "t_state (tasks k 0) = TASK_INTERRUPTIBLE" "live k = {0, p}"
proof (rule first_thread [where y = y and fn = fn and arg = arg and flags = flags])
  fix pid p ti k1 R qs
  assume t: "kernel_thread y fn arg flags booted = Some (pid, k1)" "threaded y fn arg booted pid p ti k1"
    "proc_inv k1 R qs [p] (\<lambda>t. if t = 0 then [p] else []) {}" "exact k1 qs" "qall qs = {p}" "p \<in> qarr qs (rq_active (runqueue k1))" "p \<noteq> 0"
  note h = t(2) [unfolded threaded_def]
  have tp: "tasks k1 p = queued (kthread_task y fn arg p ti pid)" "tasks k1 0 = tasks booted 0" using h t(7) by simp_all
  have f: "t_parent (tasks k1 p) = Some 0" "t_pid (tasks k1 p) = pid" "t_state (tasks k1 p) = TASK_RUNNING"
    by (simp_all add: tp queued_def kthread_fields_of)
  have c0: "get_current k1 = 0" using h booted_facts(4) by simp
  have "awaited (-1) 0 k1 [p] = Waiting" using f(3) by (simp add: awaited_def wait_match_def TASK_RUNNING_def TASK_ZOMBIE_def)
  with do_wait_ok [OF t(3) c0 [symmetric], of "-1" 0] obtain k R' where
    k: "do_wait (-1) 0 k1 = Some (Blocked k)" "schedule (waiting 0 k1) = Some k" "proc_inv k R' (after_block (waiting 0 k1) qs) [p] (\<lambda>t. if t = 0 then [p] else []) {}"
      "t_state (tasks k 0) = TASK_INTERRUPTIBLE" "t_chan (tasks k 0) = Some (WaitChldexit 0)" by auto
  have w: "tasks (waiting 0 k1) 0 = (tasks k1 0)\<lparr>t_chan := Some (WaitChldexit 0), t_state := TASK_INTERRUPTIBLE\<rparr>" "get_current (waiting 0 k1) = 0"
    "runqueue (waiting 0 k1) = runqueue k1" "\<And>u. t_parent (tasks (waiting 0 k1) u) = t_parent (tasks k1 u) \<and> t_pid (tasks (waiting 0 k1) u) = t_pid (tasks k1 u)"
    using c0 by (simp_all add: waiting_def)
  have ab: "qarr (after_block (waiting 0 k1) qs) a = qarr qs a - {0}" for a
    unfolding after_block_def using w(1,2) by (auto simp: unqueue_def qarr_def TASK_INTERRUPTIBLE_def TASK_RUNNING_def)
  have s: "sched_inv (waiting 0 k1) R qs" using coreD(1) [OF proc_invD(1) [OF t(3)]] by (simp add: waiting_def inv_upd_task)
  have cur: "get_current k = p"
    by (rule pick_single [OF s _ refl _ _ _ k(2)]) (use t(4-7) w in \<open>auto simp: counted_def ab qall_def\<close>)
  have v: "pview k = pview k1" using pview_schedule [OF k(2)] by (simp add: waiting_def pview_task tview_def)
  note tv = tviewD [OF pviewD(8) [OF v]]
  have "live k = {0, p}" using live_pview [OF v] h booted_facts(2) by auto
  then show thesis using that [OF t(1) k(1) k(3) cur t(7)] f tv(1,2) k(4,5) by (simp add: asleep_on_def)
qed

subsection \<open>Properties\<close>

lemma booted_mm: "t_mm (tasks booted 0) = 0"
proof -
  have "t_mm (tasks (setup_idle_process k) 0) = t_mm (tasks k 0)" for k
    by (auto simp: setup_idle_process_def alloc_thread_info_def Let_def set_current_def split: prod.splits)
  then show ?thesis using tviewD(5) [OF pviewD(8) [OF pview_sched_init]] fork_init_ok(8) by (simp add: booted_def proc_subsystem_init_def)
qed

lemma exit_zombie:
  assumes "proc_inv k R qs ts cs L" "c \<in> live k" "t_state (tasks k c) = TASK_ZOMBIE"
  shows "get_current k \<noteq> c" "c \<notin> qall qs"
  using restedD(2) [OF proc_invD(2) [OF assms(1)] assms(2,3)] by auto

lemma exit_current:
  assumes i: "proc_inv k R qs ts cs L" and c: "c = get_current k" "c \<noteq> 0" and x: "do_exit code k = Some k'"
  shows "get_current k' \<noteq> c" "get_current k' \<in> live k"
proof -
  obtain k5 R' qs' where e: "ended (long_to_int code) c (cs c) k k5" "pview k' = pview k5" "t_state (tasks k' c) = TASK_ZOMBIE"
    "proc_inv k' R' qs' ts (cs(c := [], 0 := cs 0 @ cs c)) (left_objs c k L)"
    using do_exit_ok [OF i c, of code] x by (metis option.inject)
  have l: "live k' = live k" using live_pview [OF e(2)] e(1) by (simp add: live_def ended_def)
  have "c \<in> live k'" using coreD(5) [OF proc_invD(1) [OF i]] c(1) l by simp
  from exit_zombie(1) [OF e(4) this e(3)] coreD(5) [OF proc_invD(1) [OF e(4)]] l
  show "get_current k' \<noteq> c" "get_current k' \<in> live k" by simp_all
qed

text \<open>C29: Every state the process subsystem can reach from its start by ticks, rescheduling, sleeping and waking,
  fork, kernel threads, exit, wait and kill is sound: the current task is a live task that has not exited, no
  two live tasks share a process number or a kernel stack, and each of these operations returns from it: no loop
  over a list runs forever, no lock is taken twice, no null pointer is followed.\<close>

theorem proc_reach_safe:
  assumes "(proc_step y)\<^sup>*\<^sup>* booted k"
  shows "get_current k \<in> live k \<and> t_state (tasks k (get_current k)) \<noteq> TASK_ZOMBIE
    \<and> (\<forall>s \<in> live k. \<forall>t \<in> live k. s \<noteq> t \<longrightarrow> t_pid (tasks k s) \<noteq> t_pid (tasks k t) \<and> t_stack (tasks k s) \<noteq> t_stack (tasks k t))
    \<and> scheduler_tick k \<noteq> None \<and> schedule k \<noteq> None \<and> yield k \<noteq> None \<and> sleep ch k \<noteq> None \<and> wakeup ch k \<noteq> None
    \<and> kill_process pid k \<noteq> None \<and> do_fork y clone_flags usp regs k \<noteq> None \<and> kernel_thread y fn arg flags k \<noteq> None
    \<and> do_wait pid options k \<noteq> None \<and> (get_current k \<noteq> 0 \<longrightarrow> do_exit code k \<noteq> None)"
proof -
  note o = reach_ok [OF assms]
  have "\<forall>s \<in> live k. \<forall>t \<in> live k. s \<noteq> t \<longrightarrow> t_pid (tasks k s) \<noteq> t_pid (tasks k t) \<and> t_stack (tasks k s) \<noteq> t_stack (tasks k t)"
    using proc_ok_distinct [OF o] by blast
  moreover have "scheduler_tick k \<noteq> None" "schedule k \<noteq> None" "yield k \<noteq> None" "sleep ch k \<noteq> None" "wakeup ch k \<noteq> None" "kill_process pid k \<noteq> None"
    using ops_sched(1-3) [OF o] ops_sched(4,5) [OF o, of ch] ops_sched(6) [OF o, of pid] by auto
  moreover have "do_fork y clone_flags usp regs k \<noteq> None" "kernel_thread y fn arg flags k \<noteq> None" "do_wait pid options k \<noteq> None"
    "get_current k \<noteq> 0 \<longrightarrow> do_exit code k \<noteq> None"
    using ops_proc(1) [OF o, of y clone_flags usp regs] ops_proc(2) [OF o, of y fn arg flags] ops_proc(3) [OF o, of code] ops_proc(4) [OF o, of pid options] by auto
  ultimately show ?thesis using proc_ok_current [OF o] by blast
qed

theorem proc_reach_safe_witness:
  "\<exists>k. (proc_step some_syms)\<^sup>*\<^sup>* booted k \<and> get_current k \<noteq> 0 \<and> asleep_on (Some (WaitChldexit 0)) (tasks k 0) \<and> do_exit 7 k \<noteq> None"
proof (rule first_wait [where y = some_syms and fn = "0x80200400" and arg = 0 and flags = 0])
  fix pid p k1 k R qs
  assume w: "kernel_thread some_syms 0x80200400 0 0 booted = Some (pid, k1)" "do_wait (-1) 0 k1 = Some (Blocked k)"
    "get_current k = p" "p \<noteq> 0" "asleep_on (Some (WaitChldexit 0)) (tasks k 0)"
  from w(1,2) have r: "(proc_step some_syms)\<^sup>*\<^sup>* booted k"
    by (meson converse_rtranclp_into_rtranclp proc_step.threads proc_step.wait_blocks r_into_rtranclp)
  with proc_reach_safe [OF r, where code = 7] w(3-5)
  show ?thesis by (intro exI [of _ k]) auto
qed

text \<open>C30: \<^verbatim>\<open>do_fork\<close> returns.  Either it fails with \<^verbatim>\<open>-1\<close>, because all 64 task structures are taken, because there is no
  room for a kernel stack or because the address space would have to be copied, and then every task is as before;
  or it returns a fresh process number, and the new task has a fresh structure, number and stack, is filled
  in as \<open>child_task\<close> says, has the registers of its parent with return value 0, is the last child of the
  caller and is queued to run.\<close>

theorem do_fork_correct:
  assumes "proc_inv k R qs ts cs L" "c = get_current k"
  shows "(\<exists>k'. do_fork y clone_flags usp regs k = Some (-1, k') \<and> proc_inv k' R qs ts cs L \<and> (\<forall>t \<in> live k. tasks k' t = tasks k t)
      \<and> (live k = {..64} \<or> fst (alloc_pages 1 (sframes (kmem k))) = 0 \<or> t_mm (tasks k c) \<noteq> 0 \<and> clone_flags AND CLONE_VM = 0))
    \<or> (\<exists>pid p ti mm k' R' qs' L'. do_fork y clone_flags usp regs k = Some (pid, k')
      \<and> p \<notin> live k \<and> live k' = insert p (live k) \<and> 0 < pid \<and> pid < PID_MAX \<and> pid \<notin> pids (live k) k \<and> ti \<noteq> 0 \<and> ti \<notin> stacks (live k) k
      \<and> tasks k' = (tasks k)(p := queued (child_task y clone_flags k p ti pid mm))
      \<and> tframes k' = (tframes k)(child_regs ti := child_frame usp regs k)
      \<and> proc_inv k' R' qs' (ts @ [p]) (cs(p := [], c := cs c @ [p])) L' \<and> p \<in> qall qs')"
  using assms
proof (cases rule: do_fork_ok [where y = y and clone_flags = clone_flags and usp = usp and regs = regs])
  case (fail k')
  then show ?thesis by blast
next
  case (ok pid p ti mm k' R' qs' L')
  then show ?thesis unfolding forked_def by blast
qed

theorem do_fork_correct_witness:
  "\<exists>pid p k'. do_fork some_syms 0 0 0 booted = Some (pid, k') \<and> 0 < pid \<and> live k' = {0, p} \<and> p \<noteq> 0 \<and> t_parent (tasks k' p) = Some 0"
proof -
  have "(1::nat) \<in> {..64}" "(1::nat) \<notin> {0}" by simp_all
  then have "live booted \<noteq> {..64}" unfolding booted_facts(2) by metis
  then have "\<not> (live booted = {..64} \<or> fst (alloc_pages 1 (sframes (kmem booted))) = 0 \<or> t_mm (tasks booted 0) \<noteq> 0 \<and> 0 AND CLONE_VM = 0)"
    using booted_room booted_mm by blast
  with do_fork_correct [OF booted_inv booted_facts(4) [symmetric], of some_syms 0 0 0] obtain pid p ti mm k' where
    "do_fork some_syms 0 0 0 booted = Some (pid, k')" "p \<notin> live booted" "live k' = insert p (live booted)" "0 < pid"
    "tasks k' = (tasks booted)(p := queued (child_task some_syms 0 booted p ti pid mm))" by blast
  then show ?thesis using booted_facts(2,4) by (intro exI [of _ pid] exI [of _ p] exI [of _ k']) (auto simp: queued_def child_fields)
qed

text \<open>C31: The loop of \<^verbatim>\<open>exit_notify\<close> over the children of an exiting task ends, although its body moves the node it
  stands on to the list of another task: every child is handed to the idle task, in order, and no other task
  is touched.\<close>

theorem exit_notify_ends:
  assumes "proc_inv k R qs ts cs L" "t \<in> live k" "t \<noteq> 0"
  shows "\<exists>l R'. exit_notify t k = Some (k\<lparr>tasks := orphans (set (cs t)) (tasks k), lists_of := l\<rparr>)
    \<and> core (live k) (k\<lparr>tasks := orphans (set (cs t)) (tasks k), lists_of := l\<rparr>) R' qs ts (cs(t := [], 0 := cs 0 @ cs t))"
  by (rule exit_notify_ok [OF proc_invD(1) [OF assms(1)] assms(2,3)])

theorem exit_notify_ends_witness: "\<exists>k t. t \<in> live k \<and> t \<noteq> 0 \<and> exit_notify t k \<noteq> None"
proof (rule first_wait [where y = some_syms and fn = "0x80200400" and arg = 0 and flags = 0])
  fix p :: nat and k R qs
  assume w: "proc_inv k R qs [p] (\<lambda>t. if t = 0 then [p] else []) {}" "p \<noteq> 0" "live k = {0, p}"
  then show ?thesis using exit_notify_ends [OF w(1), of p] by (intro exI [of _ k] exI [of _ p]) auto
qed

text \<open>C32: \<^verbatim>\<open>do_exit\<close> of a task other than the idle one returns, in another task: the exited one is a zombie with its exit
  code (the argument converted to a 32-bit number), off the queues and without an address space, its children belong to the idle task, and the address
  space it was the last to use has been freed.\<close>

theorem do_exit_correct:
  assumes "proc_inv k R qs ts cs L" "c = get_current k" "c \<noteq> 0"
  shows "\<exists>k' R' qs'. do_exit code k = Some k' \<and> proc_inv k' R' qs' ts (cs(c := [], 0 := cs 0 @ cs c)) (left_objs c k L)
    \<and> t_state (tasks k' c) = TASK_ZOMBIE \<and> t_exit_code (tasks k' c) = long_to_int code \<and> t_mm (tasks k' c) = 0 \<and> live k' = live k
    \<and> (\<forall>t. t_parent (tasks k' t) = (if t \<in> set (cs c) then Some 0 else t_parent (tasks k t))) \<and> get_current k' \<noteq> c \<and> c \<notin> qall qs'"
  using assms
proof (rule do_exit_ok [where code = code])
  fix k5 k' R' qs'
  assume e: "do_exit code k = Some k'" "ended (long_to_int code) c (cs c) k k5" "pview k' = pview k5" "t_state (tasks k' c) = TASK_ZOMBIE"
    "proc_inv k' R' qs' ts (cs(c := [], 0 := cs 0 @ cs c)) (left_objs c k L)"
  note d = e(2) [unfolded ended_def] and v = tviewD [OF pviewD(8) [OF e(3)]]
  have l: "live k' = live k" using live_pview [OF e(3)] d by (simp add: live_def)
  have "c \<in> live k'" using coreD(5) [OF proc_invD(1) [OF assms(1)]] assms(2) l by simp
  note z = exit_zombie [OF e(5) this e(4)]
  have "t_exit_code (tasks k' c) = long_to_int code" "t_mm (tasks k' c) = 0" "\<forall>t. t_parent (tasks k' t) = (if t \<in> set (cs c) then Some 0 else t_parent (tasks k t))"
    using d v(2,5,6) by simp_all
  then show ?thesis using e(1,4,5) l z by blast
qed

theorem do_exit_correct_witness: "\<exists>k k' c. c = get_current k \<and> c \<noteq> 0 \<and> do_exit 0x100000007 k = Some k' \<and> t_state (tasks k' c) = TASK_ZOMBIE \<and> t_exit_code (tasks k' c) = 7"
proof (rule first_wait [where y = some_syms and fn = "0x80200400" and arg = 0 and flags = 0])
  fix p :: nat and k R qs
  assume w: "proc_inv k R qs [p] (\<lambda>t. if t = 0 then [p] else []) {}" "get_current k = p" "p \<noteq> 0"
  have "long_to_int 0x100000007 = 7" by (simp add: long_to_int_def)
  with do_exit_correct [OF w(1) w(2) [symmetric] w(3), of "0x100000007"] show ?thesis using w(2,3) by auto
qed

text \<open>C33: The \<^verbatim>\<open>do_exit\<close> of a child makes a parent that sleeps in \<^verbatim>\<open>do_wait\<close> runnable and queues it, if the parent has a slot
  in the task table.  The wake-up of a parent without a slot is lost: it sleeps on.  A process can be without a slot, since
  \<^verbatim>\<open>copy_process\<close> goes on when the table is full.\<close>

theorem exit_wakes_parent:
  assumes "proc_inv k R qs ts cs L" "c = get_current k" "c \<noteq> 0" "t_parent (tasks k c) = Some q"
    "asleep_on (Some (WaitChldexit q)) (tasks k q)"
  shows "\<exists>k'. do_exit code k = Some k'
    \<and> (if \<exists>i. task_table k i = Some q then t_state (tasks k' q) = TASK_RUNNING \<and> t_on_rq (tasks k' q)
       else t_state (tasks k' q) = t_state (tasks k q))"
  using assms(1-3)
proof (rule do_exit_ok [where code = code])
  fix k5 k' R' qs'
  assume e: "do_exit code k = Some k'" "ended (long_to_int code) c (cs c) k k5"
    "\<exists>p k6. t_parent (tasks k c) = Some p \<and> wakeup (Some (WaitChldexit p)) k5 = Some k6 \<and> rq_curr (runqueue k6) = Some c \<and> schedule k6 = Some k'
      \<and> (\<forall>t. t_state (tasks k' t) = t_state (tasks k6 t))"
  note d = e(2) [unfolded ended_def] and y = proc_invD [OF assms(1)]
  have c: "c \<in> live k" using coreD(5) [OF y(1)] assms(2) by simp
  have q: "q \<noteq> c" using familyD(5) [OF coreD(6) [OF y(1)] c assms(3)] assms(4) by auto
  from e(3) assms(4) obtain k6 where k6: "wakeup (Some (WaitChldexit q)) k5 = Some k6" "rq_curr (runqueue k6) = Some c" "schedule k6 = Some k'"
    "t_state (tasks k' q) = t_state (tasks k6 q)" by auto
  have s: "t_state (tasks k5 q) = t_state (tasks k q)" "t_chan (tasks k5 q) = t_chan (tasks k q)" using d q by metis+
  then have a: "asleep_on (Some (WaitChldexit q)) (tasks k5 q)" using assms(5) by (simp add: asleep_on_def)
  have "(\<exists>i < MAX_PROCS. task_table k5 i = Some q) \<longleftrightarrow> (\<exists>i. task_table k i = Some q)" using d table_okD(1) [OF coreD(7) [OF y(1)]] by auto
  then have "if \<exists>i. task_table k i = Some q then t_state (tasks k6 q) = TASK_RUNNING \<and> t_on_rq (tasks k6 q) else t_state (tasks k6 q) = t_state (tasks k q)"
    using wakeup_effect [OF k6(1), of q] a s(1) by simp
  moreover have "t_on_rq (tasks k' q) = t_on_rq (tasks k6 q)" using schedule_on_rq [OF k6(3)] k6(2) q by simp
  ultimately show ?thesis using e(1) k6(4) by simp
qed

theorem exit_wakes_parent_witness:
  "\<exists>k k' c. t_parent (tasks k c) = Some 0 \<and> t_state (tasks k 0) = TASK_INTERRUPTIBLE \<and> do_exit 7 k = Some k' \<and> t_state (tasks k' 0) = TASK_RUNNING \<and> t_on_rq (tasks k' 0)"
proof (rule first_wait [where y = some_syms and fn = "0x80200400" and arg = 0 and flags = 0])
  fix p :: nat and k R qs
  assume w: "proc_inv k R qs [p] (\<lambda>t. if t = 0 then [p] else []) {}" "get_current k = p" "p \<noteq> 0" "t_parent (tasks k p) = Some 0"
    "asleep_on (Some (WaitChldexit 0)) (tasks k 0)" "t_state (tasks k 0) = TASK_INTERRUPTIBLE"
  have "\<exists>i. task_table k i = Some 0" using table_okD(3) [OF coreD(7) [OF proc_invD(1) [OF w(1)]]] by blast
  with exit_wakes_parent [OF w(1) w(2) [symmetric] w(3-5), of 7] show ?thesis using w(4,6) by (simp only: if_True) blast
qed

text \<open>C34: \<^verbatim>\<open>do_wait\<close> returns.  With \<open>awaited\<close> the outcome of looking through the children for the first matching zombie, it
  takes that zombie apart and returns its number and exit code; without a matching child it fails with \<^verbatim>\<open>ECHILD\<close>;
  and if all matching children are alive it returns 0 under \<^verbatim>\<open>WNOHANG\<close> and else blocks the caller.\<close>

theorem do_wait_correct:
  assumes "proc_inv k R qs ts cs L" "c = get_current k"
  shows "case awaited pid c k (cs c) of
      Zombie x \<Rightarrow> \<exists>k' R'. do_wait pid options k = Some (Returned (t_pid (tasks k x)) (Some (t_exit_code (tasks k x))) k')
        \<and> live k' = live k - {x} \<and> (\<forall>p. pid_used k' p \<longleftrightarrow> pid_used k p \<and> p \<noteq> t_pid (tasks k x))
        \<and> unat (free_page_count (sframes (kmem k'))) = unat (free_page_count (sframes (kmem k))) + 2
        \<and> proc_inv k' R' qs (remove1 x ts) (cs(c := remove1 x (cs c))) L
    | NoChild \<Rightarrow> do_wait pid options k = Some (Returned (- ECHILD) None k)
    | Waiting \<Rightarrow>
        if options AND WNOHANG \<noteq> 0 then do_wait pid options k = Some (Returned 0 None k)
        else \<exists>k' R' qs'. do_wait pid options k = Some (Blocked k') \<and> proc_inv k' R' qs' ts cs L
          \<and> t_state (tasks k' c) = TASK_INTERRUPTIBLE \<and> t_chan (tasks k' c) = Some (WaitChldexit c)"
  using do_wait_ok [OF assms, of pid options] unfolding reaped_def by (cases "awaited pid c k (cs c)") (auto split: if_splits)

theorem do_wait_correct_witness: "do_wait (-1) 0 booted = Some (Returned (- ECHILD) None booted)"
  using do_wait_correct [OF booted_inv booted_facts(4) [symmetric], of "-1" 0] by (simp add: awaited_def)

text \<open>The zombie a parent waits for by its number is the one with this number.\<close>

lemma awaited_pid:
  assumes i: "proc_inv k R qs ts cs L" and p: "p \<in> live k" and c: "c \<in> set (cs p)" "t_state (tasks k c) = TASK_ZOMBIE" and n: "pid = t_pid (tasks k c)"
  shows "awaited pid p k (cs p) = Zombie c"
proof -
  note y = proc_invD [OF i] note d = coreD [OF y(1)]
  have ch: "x \<in> live k \<and> x \<noteq> 0" if "x \<in> set (cs p)" for x using family_child [OF d(6) p, of x] that by simp
  have pos: "0 < pid" using y(3) ch [OF c(1)] n by (auto simp: idents_def)
  have inj: "inj_on (\<lambda>t. t_pid (tasks k t)) (live k)" using y(3) by (simp add: idents_def)
  have m: "wait_match pid p x k \<longleftrightarrow> x = c" if "x \<in> set (cs p)" for x
    using pos n inj_onD [OF inj, of x c] ch [OF that] ch [OF c(1)] by (auto simp: wait_match_def)
  have "find (\<lambda>x. wait_match pid p x k \<and> t_state (tasks k x) = TASK_ZOMBIE) (cs p) = Some c"
  proof (cases "find (\<lambda>x. wait_match pid p x k \<and> t_state (tasks k x) = TASK_ZOMBIE) (cs p)")
    case None
    then show ?thesis using m [OF c(1)] c by (auto simp: find_None_iff)
  next
    case (Some x)
    then show ?thesis using m [of x] by (auto simp: find_Some_iff)
  qed
  then show ?thesis by (simp add: awaited_def)
qed

lemma exit_status_byte: "WEXITSTATUS (push_bit 8 (code AND 0xff)) = code AND 0xff" "WIFEXITED (push_bit 8 (code AND 0xff))"
proof -
  show "WEXITSTATUS (push_bit 8 (code AND 0xff)) = code AND 0xff" by (simp add: WEXITSTATUS_def and.assoc drop_bit_push_bit_int)
  have "(0x7f::int) = mask 7" by (simp add: mask_eq_exp_minus_1)
  then have "push_bit 8 x AND 0x7f = (0::int)" for x by (simp only: take_bit_eq_mask [symmetric] take_bit_push_bit) simp
  then show "WIFEXITED (push_bit 8 (code AND 0xff))" unfolding WIFEXITED_def WTERMSIG_def by blast
qed

lemma exit_status_int: "long_to_int (push_bit 8 (code AND 0xff)) = push_bit 8 (code AND 0xff)"
proof -
  have "(0xff::int) = mask 8" by (simp add: mask_eq_exp_minus_1)
  then have "code AND 0xff = code mod 2 ^ 8" by (simp only: take_bit_eq_mask [symmetric] take_bit_eq_mod)
  then have "0 \<le> code AND 0xff" "code AND 0xff < 256" by simp_all
  then have "- 2147483648 \<le> (code AND 0xff) * 256" "(code AND 0xff) * 256 < 2147483648" by linarith+
  then have "- (2 ^ 31) \<le> push_bit 8 (code AND 0xff)" "push_bit 8 (code AND 0xff) < 2 ^ 31" by (simp_all add: push_bit_eq_mult)
  then show ?thesis unfolding long_to_int_def by (rule signed_take_bit_int_eq_self)
qed

text \<open>C35: The exit status comes back.  When a task has called \<^verbatim>\<open>sys_exit\<close>, a \<^verbatim>\<open>sys_waitpid\<close> on its number by its parent, in any
  later state that differs only in what the scheduler changes, returns this number and a status from which the
  macros of \<^verbatim>\<open>wait.h\<close> read a normal exit with the low byte of the code, and the task is gone.\<close>

theorem exit_wait_roundtrip:
  assumes "proc_inv k R qs ts cs L" "c = get_current k" "c \<noteq> 0" "t_parent (tasks k c) = Some q" "pid = t_pid (tasks k c)"
  shows "\<exists>k' R' qs' cs' L'. sys_exit code k = Some k' \<and> proc_inv k' R' qs' ts cs' L'
    \<and> (\<forall>k2 R2 qs2. pview k2 = pview k' \<and> zombies k2 = zombies k' \<and> proc_inv k2 R2 qs2 ts cs' L' \<and> get_current k2 = q \<longrightarrow>
        (\<exists>status k3. sys_waitpid pid options k2 = Some (Returned pid (Some status) k3)
          \<and> WIFEXITED status \<and> WEXITSTATUS status = code AND 0xff \<and> live k3 = live k - {c} \<and> \<not> pid_used k3 pid))"
  using assms(1-3)
proof (rule do_exit_ok [where code = "push_bit 8 (code AND 0xff)"])
  fix k5 k' R' qs' let ?s = "push_bit 8 (code AND 0xff)"
  assume e: "do_exit ?s k = Some k'" "ended (long_to_int ?s) c (cs c) k k5" "pview k' = pview k5" "t_state (tasks k' c) = TASK_ZOMBIE"
    "proc_inv k' R' qs' ts (cs(c := [], 0 := cs 0 @ cs c)) (left_objs c k L)"
  obtain cs' where cs': "cs' = cs(c := [], 0 := cs 0 @ cs c)" by blast
  note i' = e(5) [folded cs']
  note d = e(2) [unfolded ended_def] and v = tviewD [OF pviewD(8) [OF e(3)]]
  have l: "live k' = live k" using live_pview [OF e(3)] d by (simp add: live_def)
  have c: "c \<in> live k'" using coreD(5) [OF proc_invD(1) [OF assms(1)]] assms(2) l by simp
  have "c \<notin> set (cs c)" using family_child [OF coreD(6) [OF proc_invD(1) [OF assms(1)]], of c c] familyD(5) [OF coreD(6) [OF proc_invD(1) [OF assms(1)]], of c] c l assms(3) by auto
  then have f: "t_pid (tasks k' c) = pid" "t_parent (tasks k' c) = Some q" "t_exit_code (tasks k' c) = ?s" using d exit_status_int [of code] v(1,2,6) assms(4,5) by simp_all
  have "\<exists>status k3. sys_waitpid pid options k2 = Some (Returned pid (Some status) k3) \<and> WIFEXITED status \<and> WEXITSTATUS status = code AND 0xff
      \<and> live k3 = live k - {c} \<and> \<not> pid_used k3 pid"
    if h: "pview k2 = pview k'" "zombies k2 = zombies k'" "proc_inv k2 R2 qs2 ts cs' (left_objs c k L)" "get_current k2 = q" for k2 R2 qs2
  proof -
    note w = tviewD [OF pviewD(8) [OF h(1)]] and y = proc_invD [OF h(3)]
    have l2: "live k2 = live k'" by (rule live_pview [OF h(1)])
    have q: "q \<in> live k2" using coreD(5) [OF y(1)] h(4) by simp
    have z: "t_state (tasks k2 c) = TASK_ZOMBIE" using h(2) e(4) unfolding zombies_def by blast
    have "c \<in> set (cs' q)" using family_child [OF coreD(6) [OF y(1)] q, of c] c l2 assms(3) f(2) w(2) by simp
    from awaited_pid [OF h(3) q this z] have "awaited pid q k2 (cs' q) = Zombie c" using w(1) f(1) by simp
    with do_wait_ok [OF h(3) h(4) [symmetric], of pid options] obtain k3 where
      "do_wait pid options k2 = Some (Returned (t_pid (tasks k2 c)) (Some (t_exit_code (tasks k2 c))) k3)" "reaped c k2 k3" by auto
    then show ?thesis using exit_status_byte [of code] f w(1,6) l l2 unfolding sys_waitpid_def reaped_def by auto
  qed
  then show ?thesis using e(1) i' unfolding sys_exit_def by blast
qed

theorem exit_wait_roundtrip_witness:
  "\<exists>k pid k1 status k2. sys_exit 42 k = Some k1 \<and> sys_waitpid pid 0 k1 = Some (Returned pid (Some status) k2) \<and> WEXITSTATUS status = 42 \<and> live k2 = {0}"
proof (rule first_wait [where y = some_syms and fn = "0x80200400" and arg = 0 and flags = 0])
  fix pid and p :: nat and k R qs
  assume w: "proc_inv k R qs [p] (\<lambda>t. if t = 0 then [p] else []) {}" "get_current k = p" "p \<noteq> 0" "t_parent (tasks k p) = Some 0" "t_pid (tasks k p) = pid" "live k = {0, p}"
  from exit_wait_roundtrip [OF w(1) w(2) [symmetric] w(3,4) w(5) [symmetric], of 42 0] obtain k1 R' qs' cs' L' where
    k1: "sys_exit 42 k = Some k1" "proc_inv k1 R' qs' [p] cs' L'" and
    h: "\<forall>k2 R2 qs2. pview k2 = pview k1 \<and> zombies k2 = zombies k1 \<and> proc_inv k2 R2 qs2 [p] cs' L' \<and> get_current k2 = 0 \<longrightarrow>
        (\<exists>status k3. sys_waitpid pid 0 k2 = Some (Returned pid (Some status) k3) \<and> WIFEXITED status \<and> WEXITSTATUS status = 42 AND 0xff \<and> live k3 = live k - {p} \<and> \<not> pid_used k3 pid)"
    by (elim exE conjE) (rule that, assumption+)
  have "get_current k1 = 0" using exit_current [OF w(1) w(2) [symmetric] w(3), of _ k1] k1(1) w(6) by (auto simp: sys_exit_def)
  with h k1(2) obtain status k3 where
    "sys_waitpid pid 0 k1 = Some (Returned pid (Some status) k3)" "WEXITSTATUS status = 42 AND 0xff" "live k3 = live k - {p}" by blast
  moreover from this(3) have "live k3 = {0}" using w(3,6) by auto
  moreover have "(42::int) AND 0xff = 42" by simp
  ultimately show ?thesis using k1(1) by metis
qed

end
