(* ===== verification/CString.thy ===== *)
theory CString
  imports Prelude
begin

unbundle bit_operations_syntax

text \<open>
  The string library, \<^verbatim>\<open>lib/string.c\<close>, on a memory of bytes.  Pointers are 64-bit addresses.  The loops that count
  down \<open>n\<close> end; those that look for the terminating zero are partial functions with the value \<open>None\<close> when there
  is no zero to find.
\<close>

subsection \<open>The functions\<close>

type_synonym bytes = "u64 \<Rightarrow> u8"

fun memcpy_loop :: "nat \<Rightarrow> u64 \<Rightarrow> u64 \<Rightarrow> bytes \<Rightarrow> bytes" where
  "memcpy_loop 0 d s m = m"
| "memcpy_loop (Suc n) d s m = memcpy_loop n (d + 1) (s + 1) (m(d := m s))"

definition memcpy :: "u64 \<Rightarrow> u64 \<Rightarrow> u64 \<Rightarrow> bytes \<Rightarrow> u64 \<times> bytes" where
  "memcpy dest src n m = (dest, memcpy_loop (unat n) dest src m)"

fun memset_loop :: "nat \<Rightarrow> u64 \<Rightarrow> u8 \<Rightarrow> bytes \<Rightarrow> bytes" where
  "memset_loop 0 p val m = m"
| "memset_loop (Suc n) p val m = memset_loop n (p + 1) val (m(p := val))"

definition memset :: "u64 \<Rightarrow> int \<Rightarrow> u64 \<Rightarrow> bytes \<Rightarrow> u64 \<times> bytes" where
  "memset s c n m = (s, memset_loop (unat n) s (of_int c) m)"

fun memcmp_loop :: "nat \<Rightarrow> u64 \<Rightarrow> u64 \<Rightarrow> bytes \<Rightarrow> int" where
  "memcmp_loop 0 p1 p2 m = 0"
| "memcmp_loop (Suc n) p1 p2 m =
     (if m p1 \<noteq> m p2 then uint (m p1) - uint (m p2) else memcmp_loop n (p1 + 1) (p2 + 1) m)"

definition memcmp :: "u64 \<Rightarrow> u64 \<Rightarrow> u64 \<Rightarrow> bytes \<Rightarrow> int" where
  "memcmp s1 s2 n m = memcmp_loop (unat n) s1 s2 m"

partial_function (option) strlen_loop :: "u64 \<Rightarrow> bytes \<Rightarrow> u64 option" where
  "strlen_loop p m = (if m p \<noteq> 0 then strlen_loop (p + 1) m else Some p)"

definition strlen :: "u64 \<Rightarrow> bytes \<Rightarrow> u64 option" where
  "strlen s m = map_option (\<lambda>p. p - s) (strlen_loop s m)"

partial_function (option) strcmp_loop :: "u64 \<Rightarrow> u64 \<Rightarrow> bytes \<Rightarrow> (u64 \<times> u64) option" where
  "strcmp_loop s1 s2 m = (if m s1 \<noteq> 0 \<and> m s1 = m s2 then strcmp_loop (s1 + 1) (s2 + 1) m else Some (s1, s2))"

definition strcmp :: "u64 \<Rightarrow> u64 \<Rightarrow> bytes \<Rightarrow> int option" where
  "strcmp s1 s2 m = map_option (\<lambda>(p1, p2). uint (m p1) - uint (m p2)) (strcmp_loop s1 s2 m)"

text \<open>In \<^verbatim>\<open>strncmp\<close> the count is decremented by the test itself: it is \<^verbatim>\<open>-1\<close> when the loop ends because the count was 0.\<close>

fun strncmp_loop :: "nat \<Rightarrow> u64 \<Rightarrow> u64 \<Rightarrow> bytes \<Rightarrow> u64 \<times> u64 \<times> u64" where
  "strncmp_loop 0 s1 s2 m = (-1, s1, s2)"
| "strncmp_loop (Suc n) s1 s2 m =
     (if m s1 \<noteq> 0 \<and> m s1 = m s2 then strncmp_loop n (s1 + 1) (s2 + 1) m else (of_nat n, s1, s2))"

definition strncmp :: "u64 \<Rightarrow> u64 \<Rightarrow> u64 \<Rightarrow> bytes \<Rightarrow> int" where
  "strncmp s1 s2 n m =
     (if n = 0 then 0
      else (let (n', p1, p2) = strncmp_loop (unat n) s1 s2 m
            in if n' = -1 then 0 else uint (m p1) - uint (m p2)))"

partial_function (option) strcpy_loop :: "u64 \<Rightarrow> u64 \<Rightarrow> bytes \<Rightarrow> bytes option" where
  "strcpy_loop dest src m =
     (let c = m src; m' = m(dest := c)
      in if c \<noteq> 0 then strcpy_loop (dest + 1) (src + 1) m' else Some m')"

definition strcpy :: "u64 \<Rightarrow> u64 \<Rightarrow> bytes \<Rightarrow> (u64 \<times> bytes) option" where
  "strcpy dest src m = map_option (\<lambda>m'. (dest, m')) (strcpy_loop dest src m)"

fun strncpy_copy :: "nat \<Rightarrow> u64 \<Rightarrow> u64 \<Rightarrow> bytes \<Rightarrow> nat \<times> u64 \<times> bytes" where
  "strncpy_copy 0 dest src m = (0, dest, m)"
| "strncpy_copy (Suc n) dest src m =
     (let c = m src; m' = m(dest := c)
      in if c \<noteq> 0 then strncpy_copy n (dest + 1) (src + 1) m' else (Suc n, dest + 1, m'))"

definition strncpy :: "u64 \<Rightarrow> u64 \<Rightarrow> u64 \<Rightarrow> bytes \<Rightarrow> u64 \<times> bytes" where
  "strncpy dest src n m =
     (let (n', d, m') = strncpy_copy (unat n) dest src m
      in (dest, memset_loop n' d 0 m'))"

subsection \<open>Strings in memory\<close>

lemma unat_sub_of_nat: "k \<le> unat (x :: u64) \<Longrightarrow> k < 2 ^ 64 \<Longrightarrow> unat (x - of_nat k) = unat x - k"
  by (subst unat_sub) (simp_all add: word_le_nat_alt unat_of_nat)

lemma unat_sub_wrap: "unat (x :: u64) < k \<Longrightarrow> k < 2 ^ 64 \<Longrightarrow> unat (x - of_nat k) = 2 ^ 64 + unat x - k"
  by (simp add: unat_sub_if' unat_of_nat)

text \<open>The string of length \<open>l\<close> at address \<open>p\<close>.\<close>

definition is_cstr :: "bytes \<Rightarrow> u64 \<Rightarrow> nat \<Rightarrow> bool" where
  "is_cstr m p l \<longleftrightarrow> (\<forall>i < l. m (p + of_nat i) \<noteq> 0) \<and> m (p + of_nat l) = 0"

definition cstr :: "bytes \<Rightarrow> u64 \<Rightarrow> nat \<Rightarrow> u8 list" where
  "cstr m p l = map (\<lambda>i. m (p + of_nat i)) [0..<l]"


text \<open>The bytes of the block of \<open>n\<close> bytes at \<open>d\<close> are those with an offset below \<open>n\<close>.\<close>

lemma offset_Suc: "n < 2 ^ 64 \<Longrightarrow> unat (x :: u64) < Suc n \<longleftrightarrow> x = 0 \<or> (x \<noteq> 0 \<and> unat (x - 1) < n)"
proof (cases "x = 0")
  case False
  then have "unat (x - 1) = unat x - 1" "0 < unat x" by (simp_all add: unat_minus_one unat_gt_0)
  then show ?thesis using False by auto
qed simp

lemma offset_last: "n < 2 ^ 64 \<Longrightarrow> \<not> unat (- 1 :: u64) < n"
  by (simp add: unsigned_minus_1_eq_mask mask_eq_exp_minus_1)

definition apart :: "u64 \<Rightarrow> u64 \<Rightarrow> nat \<Rightarrow> nat \<Rightarrow> bool" where
  "apart d s n l \<longleftrightarrow> (\<forall>i < l. \<not> unat (s + of_nat i - d) < n)"

lemma memset_loop_eq: "n < 2 ^ 64 \<Longrightarrow> memset_loop n d v m a = (if unat (a - d) < n then v else m a)"
proof (induction n arbitrary: d m)
  case (Suc n)
  have "memset_loop n (d + 1) v (m(d := v)) a = (if unat (a - d - 1) < n then v else (m(d := v)) a)" using Suc by (simp add: diff_diff_eq)
  then show ?case using Suc.prems offset_Suc [of n "a - d"] offset_last [of n] by (cases "a = d") simp_all
qed simp

lemma memcpy_loop_eq:
  assumes "n < 2 ^ 64" "apart d s n n"
  shows "memcpy_loop n d s m a = (if unat (a - d) < n then m (s + (a - d)) else m a)"
  using assms
proof (induction n arbitrary: d s m)
  case (Suc n)
  have "apart (d + 1) (s + 1) n n" unfolding apart_def
  proof (intro allI impI)
    fix i assume "i < n"
    then have "\<not> unat (s + of_nat i - d) < Suc n" using Suc.prems(2) by (simp add: apart_def)
    then show "\<not> unat (s + 1 + of_nat i - (d + 1)) < n" by (simp add: algebra_simps)
  qed
  note ih = Suc.IH [OF Suc_lessD [OF Suc.prems(1)] this, of "m(d := m s)"]
  have ne: "s + (a - d) \<noteq> d" if "unat (a - d) < Suc n"
  proof -
    have "\<not> unat (s + of_nat (unat (a - d)) - d) < Suc n" using Suc.prems(2) that unfolding apart_def by blast
    then show ?thesis by (auto simp: unat_eq_0)
  qed
  have "memcpy_loop n (d + 1) (s + 1) (m(d := m s)) a = (if unat (a - d - 1) < n then (m(d := m s)) (s + (a - d)) else (m(d := m s)) a)"
  proof -
    have e: "s + 1 + (a - (d + 1)) = s + (a - d)" "a - (d + 1) = a - d - 1" by (simp_all add: algebra_simps)
    show ?thesis using ih unfolding e by (simp add: fun_upd_def)
  qed
  then show ?case using ne offset_Suc [of n "a - d"] offset_last [of n] Suc.prems(1) by (cases "a = d") auto
qed simp


lemma is_cstr_Suc: "is_cstr m p (Suc l) \<longleftrightarrow> m p \<noteq> 0 \<and> is_cstr m (p + 1) l"
proof -
  have "(\<forall>i < Suc l. m (p + of_nat i) \<noteq> 0) \<longleftrightarrow> m p \<noteq> 0 \<and> (\<forall>i < l. m (p + 1 + of_nat i) \<noteq> 0)"
    unfolding All_less_Suc2 by (simp add: algebra_simps)
  moreover have "p + of_nat (Suc l) = p + 1 + of_nat l" by (simp add: algebra_simps)
  ultimately show ?thesis unfolding is_cstr_def by metis
qed

lemma is_cstr_0: "is_cstr m p 0 \<longleftrightarrow> m p = 0"
  by (simp add: is_cstr_def)

lemma cstr_Suc: "cstr m p (Suc l) = m p # cstr m (p + 1) l"
  unfolding cstr_def upt_conv_Cons [OF zero_less_Suc] by (simp add: map_Suc_upt [symmetric] algebra_simps del: upt_Suc map_Suc_upt)

lemma strlen_ok: "is_cstr m p l \<Longrightarrow> strlen p m = Some (of_nat l)"
proof -
  have "is_cstr m p l \<Longrightarrow> strlen_loop p m = Some (p + of_nat l)" for p
  proof (induction l arbitrary: p)
    case 0
    then show ?case by (subst strlen_loop.simps) (simp add: is_cstr_0)
  next
    case (Suc l)
    then show ?case using Suc.IH [of "p + 1"] by (subst strlen_loop.simps) (simp add: is_cstr_Suc algebra_simps)
  qed
  then show "is_cstr m p l \<Longrightarrow> strlen p m = Some (of_nat l)" by (simp add: strlen_def)
qed

lemma strcmp_ok: "is_cstr m p l \<Longrightarrow> is_cstr m q l' \<Longrightarrow> \<exists>r. strcmp p q m = Some r \<and> (r = 0 \<longleftrightarrow> cstr m p l = cstr m q l')"
proof (induction l arbitrary: p q l')
  case 0
  then show ?case
    by (cases l') (auto simp: strcmp_def strcmp_loop.simps [of p q] is_cstr_0 is_cstr_Suc cstr_def uint_0_iff)
next
  case (Suc l)
  show ?case
  proof (cases "m p = m q")
    case False
    then have "strcmp p q m = Some (uint (m p) - uint (m q))" by (simp add: strcmp_def strcmp_loop.simps [of p q])
    moreover have "cstr m p (Suc l) \<noteq> cstr m q l'" using False by (cases l') (simp_all add: cstr_Suc, simp add: cstr_def)
    ultimately show ?thesis using False by (simp add: word_uint_eq_iff)
  next
    case True
    with Suc.prems obtain l2 where l2: "l' = Suc l2" by (cases l') (auto simp: is_cstr_Suc is_cstr_0)
    from Suc.prems have "is_cstr m (p + 1) l" "is_cstr m (q + 1) l2" "m p \<noteq> 0" by (simp_all add: is_cstr_Suc l2)
    then show ?thesis using Suc.IH [of "p + 1" "q + 1" l2] True
      by (auto simp: strcmp_def strcmp_loop.simps [of p q] l2 cstr_Suc)
  qed
qed

lemma strncpy_copy_ok:
  "is_cstr m s l \<Longrightarrow> l < n \<Longrightarrow> apart d s (Suc l) (Suc l) \<Longrightarrow> Suc l < 2 ^ 64 \<Longrightarrow> strncpy_copy n d s m = (n - l, d + of_nat (Suc l), memcpy_loop (Suc l) d s m)"
proof (induction l arbitrary: n d s m)
  case 0
  then show ?case by (cases n) (simp_all add: is_cstr_0 fun_upd_def)
next
  case (Suc l)
  then obtain n1 where n1: "n = Suc n1" "l < n1" by (cases n) auto
  let ?m = "m(d := m s)"
  have ap: "\<not> unat (s + of_nat i - d) < Suc (Suc l)" if "i < Suc (Suc l)" for i using Suc.prems(3) that unfolding apart_def by blast
  have a1: "apart (d + 1) (s + 1) (Suc l) (Suc l)" unfolding apart_def
  proof (intro allI impI)
    fix i assume "i < Suc l"
    then have "\<not> unat (s + of_nat i - d) < Suc (Suc l)" using ap [of i] by simp
    then show "\<not> unat (s + 1 + of_nat i - (d + 1)) < Suc l" by (simp add: algebra_simps)
  qed
  have ne: "s + 1 + of_nat i \<noteq> d" if "i \<le> l" for i using ap [of "Suc i"] that by (auto simp: algebra_simps)
  have "is_cstr ?m (s + 1) l" using Suc.prems(1) ne unfolding is_cstr_Suc unfolding is_cstr_def by simp
  from Suc.IH [OF this n1(2) a1] have "strncpy_copy n1 (d + 1) (s + 1) ?m = (n1 - l, d + 1 + of_nat (Suc l), memcpy_loop (Suc l) (d + 1) (s + 1) ?m)"
    using Suc.prems(4) by (simp del: memcpy_loop.simps add: fun_upd_def)
  moreover have "d + 1 + of_nat (Suc l) = d + of_nat (Suc (Suc l))" by simp
  ultimately show ?case using Suc.prems(1) unfolding n1(1) strncpy_copy.simps Let_def is_cstr_Suc by (simp only: memcpy_loop.simps diff_Suc_Suc if_True not_False_eq_True simp_thms)
qed


lemma apart_less: "apart d s n l \<Longrightarrow> n' \<le> n \<Longrightarrow> l' \<le> l \<Longrightarrow> apart d s n' l'"
  unfolding apart_def by (meson dual_order.strict_trans2 less_le_trans)

subsection \<open>Properties\<close>

text \<open>C36: \<^verbatim>\<open>strncpy\<close> of a string shorter than \<open>n\<close> writes \<open>n + 1\<close> bytes: the string, its terminating zero, and then as many zeros
  as if the terminating one had not been counted.  The byte after the buffer of \<open>n\<close> bytes is overwritten.\<close>

theorem strncpy_writes_past:
  assumes "is_cstr m src l" "l < unat n" "n \<noteq> - 1" "apart dest src (Suc (unat n)) (Suc l)"
  shows "snd (strncpy dest src n m) a =
      (if unat (a - dest) \<le> l then m (src + (a - dest)) else if unat (a - dest) \<le> unat n then 0 else m a)
    \<and> snd (strncpy dest src n m) (dest + n) = 0"
proof -
  have n: "unat n < 2 ^ 64 - 1"
  proof -
    have "unat n \<noteq> unat (- 1 :: u64)" using assms(3) by (simp only: word_unat_eq_iff) simp
    moreover have "unat (- 1 :: u64) = 2 ^ 64 - 1" by (simp add: unsigned_minus_1_eq_mask mask_eq_exp_minus_1)
    moreover have "unat n < 2 ^ 64" using unsigned_less [of n] by simp
    ultimately show ?thesis by linarith
  qed
  have e: "snd (strncpy dest src n m) = memset_loop (unat n - l) (dest + of_nat (Suc l)) 0 (memcpy_loop (Suc l) dest src m)"
    using strncpy_copy_ok [OF assms(1,2) apart_less [OF assms(4)]] assms(2) n by (simp add: strncpy_def del: memcpy_loop.simps)
  have ap: "apart dest src (Suc l) (Suc l)" by (rule apart_less [OF assms(4)]) (use assms(2) in simp_all)
  have o: "unat (b - (dest + of_nat (Suc l))) < unat n - l \<longleftrightarrow> l < unat (b - dest) \<and> unat (b - dest) \<le> unat n" for b
  proof (cases "l < unat (b - dest)")
    case True
    have "unat (b - dest - of_nat (Suc l)) = unat (b - dest) - Suc l"
      using True n assms(2) by (intro unat_sub_of_nat) auto
    then show ?thesis using True assms(2) by (auto simp: diff_diff_eq)
  next
    case False
    have "unat (b - dest - of_nat (Suc l)) = 2 ^ 64 + unat (b - dest) - Suc l"
      using False n assms(2) by (intro unat_sub_wrap) auto
    then show ?thesis using False n by (auto simp: diff_diff_eq)
  qed
  have r: "snd (strncpy dest src n m) b = (if unat (b - dest) \<le> l then m (src + (b - dest)) else if unat (b - dest) \<le> unat n then 0 else m b)" for b
  proof -
    have l: "unat n - l < 2 ^ 64" "Suc l < 2 ^ 64" using n assms(2) by linarith+
    show ?thesis unfolding e memset_loop_eq [OF l(1)] o memcpy_loop_eq [OF l(2) ap] less_Suc_eq_le by (simp add: not_le)
  qed
  show ?thesis using r [of a] r [of "dest + n"] assms(2) by simp
qed

theorem strncpy_writes_past_witness:
  "\<exists>m. is_cstr m 100 2 \<and> m 204 = 255 \<and> snd (strncpy 200 100 4 m) 201 = 98 \<and> snd (strncpy 200 100 4 m) 204 = 0"
proof -
  let ?m = "(\<lambda>_. 255)(100 := 97, 101 := 98, 102 := 0) :: bytes"
  have c: "is_cstr ?m 100 2" by (simp add: is_cstr_def less_2_cases_iff all_conj_distrib imp_disjL)
  have "apart 200 100 5 3" by (simp add: apart_def All_less_Suc numeral_3_eq_3)
  then show ?thesis using strncpy_writes_past [of ?m 100 2 4 200 201] c by (intro exI [of _ ?m]) simp
qed

end
