(* ===== verification/Uart.thy ===== *)
theory Uart
  imports Prelude
begin

unbundle bit_operations_syntax

text \<open>
  The UART driver, \<^verbatim>\<open>drivers/char/uart.c\<close>.  The device itself is a parameter: a state \<open>'d\<close> with what a read of a
  register returns and does (\<open>dev_read\<close>) and what a write does (\<open>dev_write\<close>), by the offset of the register.  The
  empty delay loops have no effect and are left out; the two loops that run as long as the device reports data are
  partial functions.  The board is a compile-time choice and a parameter of the definitions that depend on it.
\<close>

subsection \<open>Data\<close>

datatype board = MILKV_DUO | QEMU_VIRT

definition UART_BUFFER_SIZE :: u32 where "UART_BUFFER_SIZE = 256"

definition UART_RBR :: u64 where "UART_RBR = 0x00"
definition UART_THR :: u64 where "UART_THR = 0x00"
definition UART_IER :: u64 where "UART_IER = 0x04"
definition UART_IIR :: u64 where "UART_IIR = 0x08"
definition UART_FCR :: u64 where "UART_FCR = 0x08"
definition UART_LCR :: u64 where "UART_LCR = 0x0C"
definition UART_MCR :: u64 where "UART_MCR = 0x10"
definition UART_LSR :: u64 where "UART_LSR = 0x14"
definition UART_DLL :: u64 where "UART_DLL = 0x00"
definition UART_DLM :: u64 where "UART_DLM = 0x04"

record 'd device =
  dev_read :: "u64 \<Rightarrow> 'd \<Rightarrow> u32 \<times> 'd"
  dev_write :: "u64 \<Rightarrow> u32 \<Rightarrow> 'd \<Rightarrow> 'd"

record uart_buffer =
  ub_data :: "nat \<Rightarrow> u8"
  ub_head :: u32
  ub_tail :: u32
  ub_count :: u32

record uart_stats =
  us_tx_bytes :: u64
  us_rx_bytes :: u64
  us_tx_errors :: u32
  us_rx_errors :: u32
  us_overruns :: u32

record uart_config =
  uc_baud_rate :: u32
  uc_data_bits :: u8
  uc_parity :: u8
  uc_stop_bits :: u8

record uart =
  rx_buffer :: uart_buffer
  tx_buffer :: uart_buffer
  stats :: uart_stats
  config :: uart_config
  tx_busy :: int
  last_read :: u8

subsection \<open>Registers\<close>

definition uart_write_reg :: "'d device \<Rightarrow> u64 \<Rightarrow> u32 \<Rightarrow> 'd \<Rightarrow> 'd" where
  "uart_write_reg h offset v d = dev_write h offset v d"

definition uart_read_reg :: "'d device \<Rightarrow> u64 \<Rightarrow> 'd \<Rightarrow> u32 \<times> 'd" where
  "uart_read_reg h offset d = dev_read h offset d"

definition uart_tx_ready :: "'d device \<Rightarrow> 'd \<Rightarrow> u32 \<times> 'd" where
  "uart_tx_ready h d = (let (lsr, d1) = uart_read_reg h UART_LSR d in (lsr AND 0x20, d1))"

definition uart_rx_ready :: "'d device \<Rightarrow> 'd \<Rightarrow> u32 \<times> 'd" where
  "uart_rx_ready h d = (let (lsr, d1) = uart_read_reg h UART_LSR d in (lsr AND 0x01, d1))"

definition uart_init_board :: "board \<Rightarrow> 'd device \<Rightarrow> 'd \<Rightarrow> 'd" where
  "uart_init_board b h d =
     (let divisor = (case b of MILKV_DUO \<Rightarrow> 25000000 div (16 * 115200) | QEMU_VIRT \<Rightarrow> 1) :: u64;
          d1 = uart_write_reg h UART_IER 0x00 d;
          d2 = uart_write_reg h UART_LCR 0x80 d1;
          d3 = uart_write_reg h UART_DLL (ucast (divisor AND 0xFF)) d2;
          d4 = uart_write_reg h UART_DLM (ucast (drop_bit 8 divisor AND 0xFF)) d3;
          d5 = uart_write_reg h UART_LCR 0x03 d4;
          d6 = uart_write_reg h UART_FCR 0x01 d5
      in uart_write_reg h UART_MCR 0x03 d6)"

subsection \<open>Ring buffers\<close>

definition clear_buffer :: "uart_buffer \<Rightarrow> uart_buffer" where
  "clear_buffer b = b\<lparr>ub_head := 0, ub_tail := 0, ub_count := 0\<rparr>"

definition uart_buffer_init :: "uart \<Rightarrow> uart" where
  "uart_buffer_init u = u\<lparr>rx_buffer := clear_buffer (rx_buffer u), tx_buffer := clear_buffer (tx_buffer u),
     stats := \<lparr>us_tx_bytes = 0, us_rx_bytes = 0, us_tx_errors = 0, us_rx_errors = 0, us_overruns = 0\<rparr>, tx_busy := 0,
     config := \<lparr>uc_baud_rate = 115200, uc_data_bits = 8, uc_parity = 0, uc_stop_bits = 1\<rparr>\<rparr>"

definition buffer_put :: "uart_buffer \<Rightarrow> u8 \<Rightarrow> uart_stats \<Rightarrow> int \<times> uart_buffer \<times> uart_stats" where
  "buffer_put b c st =
     (if ub_count b \<ge> UART_BUFFER_SIZE then (-1, b, st\<lparr>us_overruns := us_overruns st + 1\<rparr>)
      else (0, b\<lparr>ub_data := (ub_data b)(unat (ub_head b) := c), ub_head := (ub_head b + 1) mod UART_BUFFER_SIZE,
               ub_count := ub_count b + 1\<rparr>, st))"

definition buffer_get :: "uart_buffer \<Rightarrow> u8 \<Rightarrow> int \<times> u8 \<times> uart_buffer" where
  "buffer_get b c =
     (if ub_count b = 0 then (-1, c, b)
      else (0, ub_data b (unat (ub_tail b)), b\<lparr>ub_tail := (ub_tail b + 1) mod UART_BUFFER_SIZE, ub_count := ub_count b - 1\<rparr>))"

definition buffer_peek :: "uart_buffer \<Rightarrow> int" where
  "buffer_peek b = (if ub_count b = 0 then -1 else uint (ub_data b (unat (ub_tail b))))"

subsection \<open>Console\<close>

definition console_init :: "board \<Rightarrow> 'd device \<Rightarrow> uart \<Rightarrow> 'd \<Rightarrow> uart \<times> 'd" where
  "console_init b h u d = (uart_buffer_init u, uart_init_board b h d)"

definition uart_putc :: "'d device \<Rightarrow> u8 \<Rightarrow> 'd \<Rightarrow> 'd" where
  "uart_putc h c d =
     (let d1 = uart_write_reg h UART_THR (ucast c) d
      in if c = 10 then uart_write_reg h UART_THR 13 d1 else d1)"

definition uart_haschar :: "'d device \<Rightarrow> 'd \<Rightarrow> int \<times> 'd" where
  "uart_haschar h d = (let (lsr, d1) = uart_read_reg h UART_LSR d in (if lsr AND 0x01 \<noteq> 0 then 1 else 0, d1))"

definition uart_getchar :: "'d device \<Rightarrow> uart \<Rightarrow> 'd \<Rightarrow> u8 \<times> uart \<times> 'd" where
  "uart_getchar h u d =
     (let (v, d1) = uart_read_reg h UART_RBR d;
          ch = ucast (v AND 0xFF) :: u8
      in if ch \<noteq> last_read u then (ch, u\<lparr>last_read := ch\<rparr>, d1) else (0, u, d1))"

definition uart_getc :: "'d device \<Rightarrow> 'd \<Rightarrow> int \<times> 'd" where
  "uart_getc h d =
     (let (lsr, d1) = uart_read_reg h UART_LSR d
      in if lsr AND 0x01 = 0 then (-1, d1)
         else (let (v, d2) = uart_read_reg h UART_RBR d1 in (uint (v AND 0xFF), d2)))"

definition uart_puts :: "'d device \<Rightarrow> u8 list \<Rightarrow> 'd \<Rightarrow> 'd" where
  "uart_puts h s d = fold (uart_putc h) s d"

definition board_putchar :: "'d device \<Rightarrow> u8 \<Rightarrow> 'd \<Rightarrow> 'd" where
  "board_putchar h c d = uart_putc h c d"

definition board_getchar :: "'d device \<Rightarrow> 'd \<Rightarrow> int \<times> 'd" where
  "board_getchar h d = uart_getc h d"

subsection \<open>Configuration\<close>

definition data_bits_lcr :: "u8 \<Rightarrow> u8 option" where
  "data_bits_lcr b = (if b = 5 then Some 0x00 else if b = 6 then Some 0x01 else if b = 7 then Some 0x02 else if b = 8 then Some 0x03 else None)"

definition parity_lcr :: "u8 \<Rightarrow> u8 option" where
  "parity_lcr p = (if p = 0 then Some 0 else if p = 1 then Some 0x08 else if p = 2 then Some 0x18 else None)"

definition uart_configure :: "board \<Rightarrow> 'd device \<Rightarrow> uart_config option \<Rightarrow> uart \<Rightarrow> 'd \<Rightarrow> int \<times> uart \<times> 'd" where
  "uart_configure b h cfg u d =
     (case cfg of
        None \<Rightarrow> (-1, u, d)
      | Some c \<Rightarrow>
          (let u1 = u\<lparr>config := c\<rparr>;
               d1 = uart_write_reg h UART_IER 0x00 d;
               d2 = uart_write_reg h UART_LCR 0x80 d1;
               divisor = (case b of MILKV_DUO \<Rightarrow> 25000000 div ucast (16 * uc_baud_rate c) | QEMU_VIRT \<Rightarrow> 1) :: u64;
               d3 = uart_write_reg h UART_DLL (ucast (divisor AND 0xFF)) d2;
               d4 = uart_write_reg h UART_DLM (ucast (drop_bit 8 divisor AND 0xFF)) d3
           in case data_bits_lcr (uc_data_bits c) of
                None \<Rightarrow> (-1, u1, d4)
              | Some l1 \<Rightarrow>
                  (case parity_lcr (uc_parity c) of
                     None \<Rightarrow> (-1, u1, d4)
                   | Some l2 \<Rightarrow>
                       (let lcr = (l1 OR l2) OR (if uc_stop_bits c = 2 then 0x04 else 0)
                        in (0, u1, uart_write_reg h UART_LCR (ucast lcr) d4)))))"

subsection \<open>Blocks of data\<close>

fun uart_write_loop :: "'d device \<Rightarrow> u8 list \<Rightarrow> uart \<Rightarrow> 'd \<Rightarrow> uart \<times> 'd" where
  "uart_write_loop h [] u d = (u, d)"
| "uart_write_loop h (c # cs) u d =
     uart_write_loop h cs (u\<lparr>stats := (stats u)\<lparr>us_tx_bytes := us_tx_bytes (stats u) + 1\<rparr>\<rparr>) (uart_putc h c d)"

text \<open>The buffer is given by its bytes, \<open>None\<close> for a null pointer; the length is the number of bytes.\<close>

definition uart_write :: "'d device \<Rightarrow> u8 list option \<Rightarrow> uart \<Rightarrow> 'd \<Rightarrow> int \<times> uart \<times> 'd" where
  "uart_write h buf u d =
     (case buf of
        None \<Rightarrow> (0, u, d)
      | Some cs \<Rightarrow>
          if cs = [] then (0, u, d)
          else (let (u1, d1) = uart_write_loop h cs u d in (sint (of_nat (length cs) :: u32), u1, d1)))"

fun uart_read_loop :: "'d device \<Rightarrow> nat \<Rightarrow> u8 list \<Rightarrow> uart \<Rightarrow> 'd \<Rightarrow> u8 list \<times> uart \<times> 'd" where
  "uart_read_loop h 0 acc u d = (acc, u, d)"
| "uart_read_loop h (Suc n) acc u d =
     (let (c, d1) = uart_getc h d
      in if c < 0 then (acc, u, d1)
         else uart_read_loop h n (acc @ [of_int c]) (u\<lparr>stats := (stats u)\<lparr>us_rx_bytes := us_rx_bytes (stats u) + 1\<rparr>\<rparr>) d1)"

text \<open>The result includes the bytes stored in the buffer.\<close>

definition uart_read :: "'d device \<Rightarrow> bool \<Rightarrow> nat \<Rightarrow> uart \<Rightarrow> 'd \<Rightarrow> int \<times> u8 list \<times> uart \<times> 'd" where
  "uart_read h buf_null len u d =
     (if buf_null \<or> len = 0 then (0, [], u, d)
      else (let (cs, u1, d1) = uart_read_loop h len [] u d in (sint (of_nat (length cs) :: u32), cs, u1, d1)))"

partial_function (option) drain :: "'d device \<Rightarrow> 'd \<Rightarrow> 'd option" where
  "drain h d = (let (r, d1) = uart_rx_ready h d in if r \<noteq> 0 then drain h (snd (uart_read_reg h UART_RBR d1)) else Some d1)"

definition uart_flush_rx :: "'d device \<Rightarrow> uart \<Rightarrow> 'd \<Rightarrow> (uart \<times> 'd) option" where
  "uart_flush_rx h u d = map_option (\<lambda>d1. (u\<lparr>rx_buffer := clear_buffer (rx_buffer u)\<rparr>, d1)) (drain h d)"

definition uart_flush_tx :: "uart \<Rightarrow> uart" where
  "uart_flush_tx u = u\<lparr>tx_buffer := clear_buffer (tx_buffer u)\<rparr>"

definition uart_get_stats :: "bool \<Rightarrow> uart \<Rightarrow> int \<times> uart_stats option" where
  "uart_get_stats stats_null u = (if stats_null then (-1, None) else (0, Some (stats u)))"

subsection \<open>Interrupts\<close>

definition upd_ier :: "'d device \<Rightarrow> (u32 \<Rightarrow> u32) \<Rightarrow> 'd \<Rightarrow> 'd" where
  "upd_ier h f d = (let (ier, d1) = uart_read_reg h UART_IER d in uart_write_reg h UART_IER (f ier) d1)"

definition uart_enable_rx_interrupt :: "'d device \<Rightarrow> 'd \<Rightarrow> 'd" where
  "uart_enable_rx_interrupt h d = upd_ier h (\<lambda>ier. ier OR 0x01) d"

definition uart_disable_rx_interrupt :: "'d device \<Rightarrow> 'd \<Rightarrow> 'd" where
  "uart_disable_rx_interrupt h d = upd_ier h (\<lambda>ier. ier AND NOT 0x01) d"

definition uart_enable_tx_interrupt :: "'d device \<Rightarrow> 'd \<Rightarrow> 'd" where
  "uart_enable_tx_interrupt h d = upd_ier h (\<lambda>ier. ier OR 0x02) d"

definition uart_disable_tx_interrupt :: "'d device \<Rightarrow> 'd \<Rightarrow> 'd" where
  "uart_disable_tx_interrupt h d = upd_ier h (\<lambda>ier. ier AND NOT 0x02) d"

partial_function (option) rx_loop :: "'d device \<Rightarrow> uart \<Rightarrow> 'd \<Rightarrow> (uart \<times> 'd) option" where
  "rx_loop h u d =
     (let (r, d1) = uart_rx_ready h d
      in if r \<noteq> 0
         then (let (v, d2) = uart_read_reg h UART_RBR d1;
                   (_, b, st) = buffer_put (rx_buffer u) (ucast (v AND 0xFF)) (stats u)
               in rx_loop h (u\<lparr>rx_buffer := b, stats := st\<lparr>us_rx_bytes := us_rx_bytes st + 1\<rparr>\<rparr>) d2)
         else Some (u, d1))"

definition uart_interrupt_handler :: "'d device \<Rightarrow> uart \<Rightarrow> 'd \<Rightarrow> (uart \<times> 'd) option" where
  "uart_interrupt_handler h u d =
     (let (iir, d1) = uart_read_reg h UART_IIR d
      in if iir AND 0x0F = 0x04 then rx_loop h u d1
         else if iir AND 0x0F = 0x02
         then (let (r, c, b) = buffer_get (tx_buffer u) 0
               in if r = 0
                  then Some (u\<lparr>tx_buffer := b, stats := (stats u)\<lparr>us_tx_bytes := us_tx_bytes (stats u) + 1\<rparr>\<rparr>,
                             uart_write_reg h UART_THR (ucast c) d1)
                  else Some (u\<lparr>tx_busy := 0\<rparr>, uart_disable_tx_interrupt h d1))
         else Some (u, d1))"


subsection \<open>Bounded queues\<close>

text \<open>
  The interface of a bounded queue: \<open>abs\<close> is the list of its elements, the oldest first.  A sequence of calls
  gives the results of the list.
\<close>

datatype 'c fifo_op = Put 'c | Get

datatype 'c fifo_res = Stored bool | Taken "'c option"

fun fifo_run :: "('b \<Rightarrow> 'c \<Rightarrow> 'b option) \<Rightarrow> ('b \<Rightarrow> ('c \<times> 'b) option) \<Rightarrow> 'c fifo_op list \<Rightarrow> 'b \<Rightarrow> 'c fifo_res list" where
  "fifo_run put get [] b = []"
| "fifo_run put get (Put c # os) b =
     (case put b c of None \<Rightarrow> Stored False # fifo_run put get os b | Some b' \<Rightarrow> Stored True # fifo_run put get os b')"
| "fifo_run put get (Get # os) b =
     (case get b of None \<Rightarrow> Taken None # fifo_run put get os b | Some (c, b') \<Rightarrow> Taken (Some c) # fifo_run put get os b')"

fun list_run :: "nat \<Rightarrow> 'c fifo_op list \<Rightarrow> 'c list \<Rightarrow> 'c fifo_res list" where
  "list_run cap [] xs = []"
| "list_run cap (Put c # os) xs =
     (if length xs < cap then Stored True # list_run cap os (xs @ [c]) else Stored False # list_run cap os xs)"
| "list_run cap (Get # os) [] = Taken None # list_run cap os []"
| "list_run cap (Get # os) (x # xs) = Taken (Some x) # list_run cap os xs"

locale bounded_fifo =
  fixes inv :: "'b \<Rightarrow> bool" and abs :: "'b \<Rightarrow> 'c list" and cap :: nat
    and put :: "'b \<Rightarrow> 'c \<Rightarrow> 'b option" and get :: "'b \<Rightarrow> ('c \<times> 'b) option"
  assumes put_full: "inv b \<Longrightarrow> \<not> length (abs b) < cap \<Longrightarrow> put b c = None"
    and put_room: "inv b \<Longrightarrow> length (abs b) < cap \<Longrightarrow> \<exists>b'. put b c = Some b' \<and> inv b' \<and> abs b' = abs b @ [c]"
    and get_empty: "inv b \<Longrightarrow> abs b = [] \<Longrightarrow> get b = None"
    and get_some: "inv b \<Longrightarrow> abs b = x # xs \<Longrightarrow> \<exists>b'. get b = Some (x, b') \<and> inv b' \<and> abs b' = xs"
begin

lemma run_list: "inv b \<Longrightarrow> fifo_run put get os b = list_run cap os (abs b)"
proof (induction os arbitrary: b)
  case (Cons o' os)
  show ?case
  proof (cases o')
    case (Put c)
    then show ?thesis using Cons put_full [OF Cons.prems, of c] put_room [OF Cons.prems, of c] by (cases "length (abs b) < cap") auto
  next
    case Get
    then show ?thesis using Cons get_empty [OF Cons.prems] get_some [OF Cons.prems] by (cases "abs b") fastforce+
  qed
qed simp

end

subsection \<open>The ring buffers are bounded queues\<close>

definition ring_put :: "uart_buffer \<Rightarrow> u8 \<Rightarrow> uart_buffer option" where
  "ring_put b c = (let (r, b', _) = buffer_put b c \<lparr>us_tx_bytes = 0, us_rx_bytes = 0, us_tx_errors = 0, us_rx_errors = 0, us_overruns = 0\<rparr>
                   in if r = 0 then Some b' else None)"

definition ring_get :: "uart_buffer \<Rightarrow> (u8 \<times> uart_buffer) option" where
  "ring_get b = (let (r, c, b') = buffer_get b 0 in if r = 0 then Some (c, b') else None)"

definition ring_ok :: "uart_buffer \<Rightarrow> bool" where
  "ring_ok b \<longleftrightarrow> unat (ub_tail b) < 256 \<and> unat (ub_count b) \<le> 256 \<and> unat (ub_head b) = (unat (ub_tail b) + unat (ub_count b)) mod 256"

definition ring_abs :: "uart_buffer \<Rightarrow> u8 list" where
  "ring_abs b = map (\<lambda>i. ub_data b ((unat (ub_tail b) + i) mod 256)) [0..<unat (ub_count b)]"

lemma next_index: "unat (x :: u32) < 256 \<Longrightarrow> unat ((x + 1) mod UART_BUFFER_SIZE) = (unat x + 1) mod 256"
  by (simp add: UART_BUFFER_SIZE_def unat_mod unat_word_ariths)

lemma mod_shift:
  assumes "i < n" "n < (256::nat)"
  shows "(t + i) mod 256 \<noteq> (t + n) mod 256"
proof
  assume "(t + i) mod 256 = (t + n) mod 256"
  then have "256 dvd n - i" using mod_eq_dvd_iff_nat [of "t + i" "t + n" 256] assms(1) by simp
  then show False using assms by (auto dest: dvd_imp_le)
qed

lemma ring_put_ok:
  assumes "ring_ok b"
  shows "\<not> length (ring_abs b) < 256 \<Longrightarrow> ring_put b c = None"
    "length (ring_abs b) < 256 \<Longrightarrow> \<exists>b'. ring_put b c = Some b' \<and> ring_ok b' \<and> ring_abs b' = ring_abs b @ [c]"
proof -
  note r = assms [unfolded ring_ok_def]
  have ge: "ub_count b \<ge> UART_BUFFER_SIZE \<longleftrightarrow> \<not> unat (ub_count b) < 256" by (simp add: UART_BUFFER_SIZE_def word_le_nat_alt not_less)
  show "\<not> length (ring_abs b) < 256 \<Longrightarrow> ring_put b c = None" by (simp add: ring_abs_def ring_put_def buffer_put_def ge)
  assume l: "length (ring_abs b) < 256"
  then have n: "unat (ub_count b) < 256" by (simp add: ring_abs_def)
  let ?b = "b\<lparr>ub_data := (ub_data b)(unat (ub_head b) := c), ub_head := (ub_head b + 1) mod UART_BUFFER_SIZE, ub_count := ub_count b + 1\<rparr>"
  have c: "unat (ub_count b + 1) = Suc (unat (ub_count b))" using n by (simp add: unat_word_ariths)
  have h: "unat (ub_head b) < 256" "unat ((ub_head b + 1) mod UART_BUFFER_SIZE) = (unat (ub_head b) + 1) mod 256" using r next_index by auto
  have "ring_ok ?b" using r n by (simp add: ring_ok_def c h(2) mod_simps)
  moreover have "ring_abs ?b = ring_abs b @ [c]"
  proof -
    have "(unat (ub_tail b) + i) mod 256 \<noteq> unat (ub_head b)" if "i < unat (ub_count b)" for i
      using r mod_shift [OF that n, of "unat (ub_tail b)"] by simp
    then show ?thesis using r by (simp add: ring_abs_def c)
  qed
  ultimately show "\<exists>b'. ring_put b c = Some b' \<and> ring_ok b' \<and> ring_abs b' = ring_abs b @ [c]" using n by (simp add: ring_put_def buffer_put_def ge)
qed

lemma ring_get_ok:
  assumes "ring_ok b"
  shows "ring_abs b = [] \<Longrightarrow> ring_get b = None"
    "ring_abs b = x # xs \<Longrightarrow> \<exists>b'. ring_get b = Some (x, b') \<and> ring_ok b' \<and> ring_abs b' = xs"
proof -
  note r = assms [unfolded ring_ok_def]
  show "ring_abs b = [] \<Longrightarrow> ring_get b = None" by (simp add: ring_abs_def ring_get_def buffer_get_def unat_eq_0)
  assume x: "ring_abs b = x # xs"
  then obtain n where n: "unat (ub_count b) = Suc n" by (cases "unat (ub_count b)") (simp_all add: ring_abs_def)
  let ?b = "b\<lparr>ub_tail := (ub_tail b + 1) mod UART_BUFFER_SIZE, ub_count := ub_count b - 1\<rparr>"
  have nz: "ub_count b \<noteq> 0" using n by auto
  have c: "unat (ub_count b - 1) = n" "ub_count b \<noteq> 0" using unat_minus_one [OF nz] n nz by simp_all
  have t: "unat ((ub_tail b + 1) mod UART_BUFFER_SIZE) = (unat (ub_tail b) + 1) mod 256" using r next_index by simp
  have a: "ring_abs b = ub_data b (unat (ub_tail b)) # map (\<lambda>i. ub_data b ((unat (ub_tail b) + Suc i) mod 256)) [0..<n]"
    using r unfolding ring_abs_def n upt_conv_Cons [OF zero_less_Suc] by (simp add: map_Suc_upt [symmetric] del: upt_Suc map_Suc_upt)
  have "ring_ok ?b" using r n by (simp add: ring_ok_def c t mod_simps)
  moreover have "ring_abs ?b = xs" using x unfolding a by (simp add: ring_abs_def c t mod_simps)
  moreover have "ub_data b (unat (ub_tail b)) = x" using x unfolding a by simp
  ultimately show "\<exists>b'. ring_get b = Some (x, b') \<and> ring_ok b' \<and> ring_abs b' = xs" using c(2) by (simp add: ring_get_def buffer_get_def)
qed

interpretation ring: bounded_fifo ring_ok ring_abs 256 ring_put ring_get
  by unfold_locales (use ring_put_ok ring_get_ok in blast)+

text \<open>C37: The ring buffers of the driver are bounded queues: from a cleared buffer, any sequence of \<^verbatim>\<open>buffer_put\<close> and \<^verbatim>\<open>buffer_get\<close>
  succeeds, fails and returns what it would on a list of at most 256 characters, whatever the index wraps to.\<close>

theorem uart_buffer_fifo: "fifo_run ring_put ring_get os (clear_buffer b) = list_run 256 os []"
proof -
  have "ring_ok (clear_buffer b)" "ring_abs (clear_buffer b) = []" by (simp_all add: ring_ok_def ring_abs_def clear_buffer_def)
  then show ?thesis using ring.run_list by metis
qed

end
