(* ===== verification/FsData.thy ===== *)
theory FsData
  imports Kmalloc CString
begin

unbundle bit_operations_syntax

text \<open>
  The data of the file systems: the structures of \<^verbatim>\<open>include/minix/vfs.h\<close> and the states of \<^verbatim>\<open>fs/ramfs.c\<close> and \<^verbatim>\<open>fs/devfs.c\<close>.
  A C string is the list of its characters without the terminating zero; a character array that holds a string is
  that string.  A pointer to an inode is a place of the static array of ramfs or an address from \<^verbatim>\<open>kmalloc\<close>;
  \<^verbatim>\<open>fs_private\<close> points to a ramfs file or to a device node; \<open>None\<close> is the null pointer.  The table of function pointers
  \<^verbatim>\<open>fs_ops_t\<close> is a record of functions on the state \<open>fsys\<close>, each of which may be missing.  What the code prints is not part
  of the state.
\<close>

subsection \<open>Strings\<close>

type_synonym cstring = "u8 list"

text \<open>The comparison \<^verbatim>\<open>while (*a && *b && *a == *b)\<close>: what is left of both strings when it stops.\<close>

fun skip_common :: "cstring \<Rightarrow> cstring \<Rightarrow> cstring \<times> cstring" where
  "skip_common (a # as) (b # bs) = (if a = b then skip_common as bs else (a # as, b # bs))"
| "skip_common as bs = (as, bs)"

definition same_string :: "cstring \<Rightarrow> cstring \<Rightarrow> bool" where
  "same_string a b = (let (a', b') = skip_common a b in a' = [] \<and> b' = [])"

text \<open>The copy \<^verbatim>\<open>while (*src && i < n) *dst++ = *src++; *dst = 0\<close> into an array of \<open>n + 1\<close> characters.\<close>

fun copy_name :: "nat \<Rightarrow> cstring \<Rightarrow> cstring" where
  "copy_name (Suc n) (c # cs) = c # copy_name n cs"
| "copy_name n cs = []"

definition slash :: u8 where "slash = 0x2F"
definition dot :: u8 where "dot = 0x2E"

subsection \<open>Structures of the virtual file system\<close>

datatype iptr = RamInode nat | HeapInode u64

datatype fptr = RamFile nat | DevNode nat

record inode =
  i_ino :: u64
  i_mode :: u32
  i_nlink :: u32
  i_uid :: u32
  i_gid :: u32
  i_size :: u64
  i_atime :: u64
  i_mtime :: u64
  i_ctime :: u64
  i_blksize :: u32
  i_blocks :: u64
  i_fs_private :: "fptr option"
  i_parent :: "iptr option"
  i_next :: "iptr option"

record dirent =
  d_ino :: u64
  d_reclen :: u16
  d_type :: u8
  d_name :: cstring

record file_t =
  f_inode :: "iptr option"
  f_pos :: u64
  f_flags :: u32
  f_private :: u64

definition sizeof_inode :: u64 where "sizeof_inode = 96"
definition sizeof_file :: u64 where "sizeof_file = 32"
definition sizeof_dirent :: u16 where "sizeof_dirent = 272"

definition S_IFMT :: u32 where "S_IFMT = 0xF000"
definition S_IFREG :: u32 where "S_IFREG = 0x8000"
definition S_IFDIR :: u32 where "S_IFDIR = 0x4000"
definition S_IFCHR :: u32 where "S_IFCHR = 0x2000"
definition S_IFBLK :: u32 where "S_IFBLK = 0x6000"

definition O_RDONLY :: int where "O_RDONLY = 0x0"
definition O_WRONLY :: int where "O_WRONLY = 0x1"
definition O_RDWR :: int where "O_RDWR = 0x2"
definition O_APPEND :: int where "O_APPEND = 0x8"
definition O_CREAT :: int where "O_CREAT = 0x100"
definition O_TRUNC :: int where "O_TRUNC = 0x200"

subsection \<open>State of the file systems\<close>

definition RAMFS_MAX_FILES :: nat where "RAMFS_MAX_FILES = 256"
definition RAMFS_MAX_FILE_SIZE :: nat where "RAMFS_MAX_FILE_SIZE = 4 * 1024"
definition RAMFS_BUFFER_SIZE :: nat where "RAMFS_BUFFER_SIZE = RAMFS_MAX_FILES * RAMFS_MAX_FILE_SIZE"
definition MAX_DEV_NODES :: nat where "MAX_DEV_NODES = 64"

text \<open>\<^verbatim>\<open>data\<close> points into \<^verbatim>\<open>file_buffers\<close>, which is taken as one array of \<^verbatim>\<open>RAMFS_BUFFER_SIZE\<close> bytes.\<close>

record ramfs_file =
  rf_name :: cstring
  rf_ino :: u64
  rf_mode :: u32
  rf_size :: u32
  rf_data :: "nat option"
  rf_capacity :: u32
  rf_inode :: "iptr option"
  rf_parent :: "fptr option"
  rf_next :: "nat option"

record dev_node =
  dn_name :: cstring
  dn_type :: u8
  dn_major :: u32
  dn_minor :: u32
  dn_mode :: u32
  dn_inode :: "iptr option"
  dn_next :: "nat option"

record fsys =
  ram_files :: "nat \<Rightarrow> ramfs_file"
  ram_inodes :: "nat \<Rightarrow> inode"
  ram_buffers :: "nat \<Rightarrow> u8"
  ram_count :: nat
  ram_root :: "iptr option"
  ram_next_ino :: u64
  dev_nodes :: "nat \<Rightarrow> dev_node"
  dev_count :: nat
  dev_root :: "iptr option"
  heap_inodes :: "u64 \<Rightarrow> inode"
  heap_files :: "u64 \<Rightarrow> file_t"
  fs_mem :: bytes
  fs_kmem :: "buddy slabs"

definition the_inode :: "iptr \<Rightarrow> fsys \<Rightarrow> inode" where
  "the_inode p s = (case p of RamInode i \<Rightarrow> ram_inodes s i | HeapInode a \<Rightarrow> heap_inodes s a)"

definition upd_inode :: "iptr \<Rightarrow> (inode \<Rightarrow> inode) \<Rightarrow> fsys \<Rightarrow> fsys" where
  "upd_inode p f s =
     (case p of
        RamInode i \<Rightarrow> s\<lparr>ram_inodes := (ram_inodes s)(i := f (ram_inodes s i))\<rparr>
      | HeapInode a \<Rightarrow> s\<lparr>heap_inodes := (heap_inodes s)(a := f (heap_inodes s a))\<rparr>)"

definition upd_file :: "u64 \<Rightarrow> (file_t \<Rightarrow> file_t) \<Rightarrow> fsys \<Rightarrow> fsys" where
  "upd_file a f s = s\<lparr>heap_files := (heap_files s)(a := f (heap_files s a))\<rparr>"

definition upd_rf :: "nat \<Rightarrow> (ramfs_file \<Rightarrow> ramfs_file) \<Rightarrow> fsys \<Rightarrow> fsys" where
  "upd_rf i f s = s\<lparr>ram_files := (ram_files s)(i := f (ram_files s i))\<rparr>"

definition upd_dn :: "nat \<Rightarrow> (dev_node \<Rightarrow> dev_node) \<Rightarrow> fsys \<Rightarrow> fsys" where
  "upd_dn i f s = s\<lparr>dev_nodes := (dev_nodes s)(i := f (dev_nodes s i))\<rparr>"

subsection \<open>Operations of a file system\<close>

text \<open>
  A function that may follow a wild pointer returns an option; buffers are addresses (0 for null) in \<open>fs_mem\<close>; the array
  of entries of \<^verbatim>\<open>readdir\<close> is a function of the index.  The members \<^verbatim>\<open>delete_inode\<close>, \<^verbatim>\<open>open\<close>, \<^verbatim>\<open>close\<close> and \<^verbatim>\<open>seek\<close>, which no code calls, are left out.
\<close>

record fs_ops =
  op_mount :: "(cstring \<Rightarrow> cstring \<Rightarrow> fsys \<Rightarrow> (int \<times> fsys) option) option"
  op_unmount :: "(cstring \<Rightarrow> fsys \<Rightarrow> (int \<times> fsys) option) option"
  op_read_inode :: "(u64 \<Rightarrow> fsys \<Rightarrow> iptr option) option"
  op_write_inode :: "(iptr option \<Rightarrow> fsys \<Rightarrow> (int \<times> fsys) option) option"
  op_read :: "(u64 option \<Rightarrow> u64 \<Rightarrow> u64 \<Rightarrow> fsys \<Rightarrow> (int \<times> fsys) option) option"
  op_write :: "(u64 option \<Rightarrow> u64 \<Rightarrow> u64 \<Rightarrow> fsys \<Rightarrow> (int \<times> fsys) option) option"
  op_mkdir :: "(iptr option \<Rightarrow> cstring \<Rightarrow> u32 \<Rightarrow> fsys \<Rightarrow> (int \<times> fsys) option) option"
  op_rmdir :: "(iptr option \<Rightarrow> cstring \<Rightarrow> fsys \<Rightarrow> (int \<times> fsys) option) option"
  op_readdir :: "(iptr option \<Rightarrow> (nat \<Rightarrow> dirent) option \<Rightarrow> int \<Rightarrow> fsys \<Rightarrow> (int \<times> (nat \<Rightarrow> dirent) option) option) option"
  op_lookup :: "(iptr option \<Rightarrow> cstring option \<Rightarrow> fsys \<Rightarrow> iptr option) option"
  op_name :: "cstring option"

subsection \<open>Lemmas\<close>

lemma skip_common_nil: "skip_common a b = ([], []) \<longleftrightarrow> a = b"
  by (induction a b rule: skip_common.induct) auto

lemma same_string_eq [simp]: "same_string a b \<longleftrightarrow> a = b"
proof -
  have "same_string a b \<longleftrightarrow> skip_common a b = ([], [])" unfolding same_string_def by (cases "skip_common a b") auto
  then show ?thesis by (simp add: skip_common_nil)
qed

lemma skip_common_prefix: "fst (skip_common a b) = [] \<longleftrightarrow> (\<exists>c. b = a @ c)" "fst (skip_common a b) = [] \<Longrightarrow> b = a @ snd (skip_common a b)"
  by (induction a b rule: skip_common.induct) (auto split: if_splits)

lemma copy_name_take [simp]: "copy_name n cs = take n cs"
  by (induction n cs rule: copy_name.induct) auto

end
