(* ===== verification/Ramfs.thy ===== *)
theory Ramfs
  imports FsData
begin

unbundle bit_operations_syntax

text \<open>
  The RAM file system, \<^verbatim>\<open>fs/ramfs.c\<close>.  A copy to or from \<^verbatim>\<open>file_buffers\<close> that leaves the array, and the use of a device
  node as a ramfs file, have the value \<open>None\<close>.
\<close>

subsection \<open>Searching\<close>

definition ramfs_find_file :: "fptr option \<Rightarrow> cstring \<Rightarrow> fsys \<Rightarrow> nat option" where
  "ramfs_find_file parent name s = find (\<lambda>i. rf_parent (ram_files s i) = parent \<and> same_string (rf_name (ram_files s i)) name) [0..<ram_count s]"

definition ramfs_find_by_ino :: "u64 \<Rightarrow> fsys \<Rightarrow> nat option" where
  "ramfs_find_by_ino ino s = find (\<lambda>i. rf_ino (ram_files s i) = ino) [0..<ram_count s]"

subsection \<open>Mounting\<close>

definition ramfs_mount :: "cstring \<Rightarrow> cstring \<Rightarrow> fsys \<Rightarrow> (int \<times> fsys) option" where
  "ramfs_mount device mount_point s =
     (let s1 = s\<lparr>ram_next_ino := 2, ram_count := 1\<rparr>;
          s2 = upd_rf 0 (\<lambda>f. f\<lparr>rf_name := [slash], rf_ino := 1, rf_mode := S_IFDIR OR 0x1ED, rf_size := 0, rf_data := None, rf_capacity := 0,
                 rf_parent := None, rf_next := None\<rparr>) s1;
          s3 = s2\<lparr>ram_root := Some (RamInode 0)\<rparr>;
          s4 = upd_inode (RamInode 0) (\<lambda>i. i\<lparr>i_ino := 1, i_mode := S_IFDIR OR 0x1ED, i_nlink := 2, i_uid := 0, i_gid := 0, i_size := 0,
                 i_parent := None, i_next := None, i_fs_private := Some (RamFile 0)\<rparr>) s3
      in Some (0, upd_rf 0 (\<lambda>f. f\<lparr>rf_inode := Some (RamInode 0)\<rparr>) s4))"

text \<open>
  \<^verbatim>\<open>ramfs_unmount\<close> gives the data and inode of every file to \<^verbatim>\<open>kfree\<close>, although they lie in static arrays.  The address of the
  array element decides what \<^verbatim>\<open>kfree\<close> does; it is given by \<open>addr\<close>.
\<close>

definition ramfs_unmount :: "(iptr + nat \<Rightarrow> u64) \<Rightarrow> cstring \<Rightarrow> fsys \<Rightarrow> (int \<times> fsys) option" where
  "ramfs_unmount addr mount_point s =
     do {
       k1 \<leftarrow> fold (\<lambda>i acc. do {
                k \<leftarrow> acc;
                k' \<leftarrow> (case rf_data (ram_files s i) of None \<Rightarrow> Some k | Some o' \<Rightarrow> kfree free_page (Some (addr (Inr o'))) k);
                (case rf_inode (ram_files s i) of None \<Rightarrow> Some k' | Some p \<Rightarrow> kfree free_page (Some (addr (Inl p))) k')
              }) [0..<ram_count s] (Some (fs_kmem s));
       case ram_root s of
         None \<Rightarrow> Some (0, s\<lparr>fs_kmem := k1\<rparr>)
       | Some p \<Rightarrow> map_option (\<lambda>k2. (0, s\<lparr>fs_kmem := k2, ram_root := None\<rparr>)) (kfree free_page (Some (addr (Inl p))) k1)
     }"

subsection \<open>Inodes\<close>

definition ramfs_read_inode :: "u64 \<Rightarrow> fsys \<Rightarrow> iptr option" where
  "ramfs_read_inode ino s =
     (if ino = 1 then ram_root s
      else (case ramfs_find_by_ino ino s of None \<Rightarrow> None | Some i \<Rightarrow> rf_inode (ram_files s i)))"

definition ramfs_write_inode :: "iptr option \<Rightarrow> fsys \<Rightarrow> (int \<times> fsys) option" where
  "ramfs_write_inode p s =
     (case p of
        None \<Rightarrow> Some (-1, s)
      | Some q \<Rightarrow>
          (case i_fs_private (the_inode q s) of
             None \<Rightarrow> Some (-1, s)
           | Some (RamFile i) \<Rightarrow> Some (0, upd_rf i (\<lambda>f. f\<lparr>rf_mode := i_mode (the_inode q s), rf_size := ucast (i_size (the_inode q s))\<rparr>) s)
           | Some (DevNode _) \<Rightarrow> None))"

definition ramfs_lookup :: "iptr option \<Rightarrow> cstring option \<Rightarrow> fsys \<Rightarrow> iptr option" where
  "ramfs_lookup dir name s =
     (case (dir, name) of
        (Some d, Some n) \<Rightarrow>
          (case ramfs_find_file (i_fs_private (the_inode d s)) n s of None \<Rightarrow> None | Some i \<Rightarrow> rf_inode (ram_files s i))
      | _ \<Rightarrow> None)"

subsection \<open>Reading and writing\<close>

text \<open>\<^verbatim>\<open>memcpy\<close> between the buffers and the caller's memory.\<close>

fun copy_out :: "nat \<Rightarrow> u64 \<Rightarrow> nat \<Rightarrow> fsys \<Rightarrow> fsys option" where
  "copy_out 0 dst src s = Some s"
| "copy_out (Suc n) dst src s =
     (if src < RAMFS_BUFFER_SIZE then copy_out n (dst + 1) (Suc src) (s\<lparr>fs_mem := (fs_mem s)(dst := ram_buffers s src)\<rparr>) else None)"

fun copy_in :: "nat \<Rightarrow> nat \<Rightarrow> u64 \<Rightarrow> fsys \<Rightarrow> fsys option" where
  "copy_in 0 dst src s = Some s"
| "copy_in (Suc n) dst src s =
     (if dst < RAMFS_BUFFER_SIZE then copy_in n (Suc dst) (src + 1) (s\<lparr>ram_buffers := (ram_buffers s)(dst := fs_mem s src)\<rparr>) else None)"

definition ramfs_read :: "u64 option \<Rightarrow> u64 \<Rightarrow> u64 \<Rightarrow> fsys \<Rightarrow> (int \<times> fsys) option" where
  "ramfs_read fp buf count s =
     (case fp of
        None \<Rightarrow> Some (-1, s)
      | Some a \<Rightarrow>
          (case f_inode (heap_files s a) of
             None \<Rightarrow> Some (-1, s)
           | Some q \<Rightarrow>
               if buf = 0 then Some (-1, s)
               else
                 (case i_fs_private (the_inode q s) of
                    None \<Rightarrow> Some (0, s)
                  | Some (DevNode _) \<Rightarrow> None
                  | Some (RamFile i) \<Rightarrow>
                      (case rf_data (ram_files s i) of
                         None \<Rightarrow> Some (0, s)
                       | Some base \<Rightarrow>
                           (let pos = f_pos (heap_files s a); size = ucast (rf_size (ram_files s i)) :: u64
                            in if pos \<ge> size then Some (0, s)
                               else
                                 (let to_read = (if pos + count > size then size - pos else count)
                                  in map_option (\<lambda>s'. (sint to_read, upd_file a (\<lambda>f. f\<lparr>f_pos := pos + to_read\<rparr>) s'))
                                       (copy_out (unat to_read) buf (base + unat pos) s)))))))"

text \<open>
  A write to a file without a buffer that asks for no more than its capacity 0 goes to the null pointer; it is harmless
  only if it is empty.
\<close>

definition ramfs_write :: "u64 option \<Rightarrow> u64 \<Rightarrow> u64 \<Rightarrow> fsys \<Rightarrow> (int \<times> fsys) option" where
  "ramfs_write fp buf count s =
     (case fp of
        None \<Rightarrow> Some (-1, s)
      | Some a \<Rightarrow>
          (case f_inode (heap_files s a) of
             None \<Rightarrow> Some (-1, s)
           | Some q \<Rightarrow>
               if buf = 0 then Some (-1, s)
               else
                 (case i_fs_private (the_inode q s) of
                    None \<Rightarrow> Some (-1, s)
                  | Some (DevNode _) \<Rightarrow> None
                  | Some (RamFile i) \<Rightarrow>
                      (let pos = f_pos (heap_files s a);
                           new_size = ucast (pos + count) :: u32
                       in if new_size > of_nat RAMFS_MAX_FILE_SIZE then Some (-1, s)
                          else if new_size > rf_capacity (ram_files s i) \<and> i \<ge> RAMFS_MAX_FILES then Some (-1, s)
                          else
                            (let s1 = (if new_size > rf_capacity (ram_files s i) \<and> rf_data (ram_files s i) = None
                                       then upd_rf i (\<lambda>f. f\<lparr>rf_data := Some (i * RAMFS_MAX_FILE_SIZE), rf_capacity := of_nat RAMFS_MAX_FILE_SIZE\<rparr>) s
                                       else s)
                             in do {
                               s2 \<leftarrow> (case rf_data (ram_files s1 i) of
                                        None \<Rightarrow> (if count = 0 then Some s1 else None)
                                      | Some base \<Rightarrow> copy_in (unat count) (base + unat pos) buf s1);
                               let pos' = pos + count;
                               let s3 = upd_file a (\<lambda>f. f\<lparr>f_pos := pos'\<rparr>) s2;
                               let s4 = (if pos' > ucast (rf_size (ram_files s3 i))
                                         then upd_inode q (\<lambda>x. x\<lparr>i_size := ucast (ucast pos' :: u32)\<rparr>) (upd_rf i (\<lambda>f. f\<lparr>rf_size := ucast pos'\<rparr>) s3)
                                         else s3);
                               Some (sint count, s4)
                             })))))"

subsection \<open>Directories\<close>

definition ramfs_mkdir :: "iptr option \<Rightarrow> cstring \<Rightarrow> u32 \<Rightarrow> fsys \<Rightarrow> (int \<times> fsys) option" where
  "ramfs_mkdir parent name mode s =
     (if ram_count s \<ge> RAMFS_MAX_FILES then Some (-1, s)
      else
        (case parent of
           None \<Rightarrow> None
         | Some p \<Rightarrow>
             (let parent_file = i_fs_private (the_inode p s)
              in if ramfs_find_file parent_file name s \<noteq> None then Some (-1, s)
                 else
                   (let n = ram_count s;
                        s1 = upd_rf n (\<lambda>f. f\<lparr>rf_name := copy_name 63 name, rf_ino := ram_next_ino s, rf_mode := S_IFDIR OR mode, rf_size := 0,
                               rf_data := None, rf_capacity := 0, rf_parent := parent_file, rf_next := None\<rparr>) (s\<lparr>ram_next_ino := ram_next_ino s + 1\<rparr>);
                        s2 = upd_inode (RamInode n) (\<lambda>i. i\<lparr>i_ino := rf_ino (ram_files s1 n), i_mode := rf_mode (ram_files s1 n), i_nlink := 2, i_uid := 0,
                               i_gid := 0, i_size := 0, i_parent := Some p, i_next := None, i_fs_private := Some (RamFile n)\<rparr>) s1;
                        s3 = upd_rf n (\<lambda>f. f\<lparr>rf_inode := Some (RamInode n)\<rparr>) s2;
                        s4 = s3\<lparr>ram_count := n + 1\<rparr>
                    in Some (0, upd_inode p (\<lambda>i. i\<lparr>i_nlink := i_nlink i + 1\<rparr>) s4)))))"

fun ramfs_readdir_loop :: "fptr option \<Rightarrow> int \<Rightarrow> nat list \<Rightarrow> int \<Rightarrow> (nat \<Rightarrow> dirent) \<Rightarrow> fsys \<Rightarrow> int \<times> (nat \<Rightarrow> dirent)" where
  "ramfs_readdir_loop pf count [] n es s = (n, es)"
| "ramfs_readdir_loop pf count (i # is) n es s =
     (if n < count
      then
        (if rf_parent (ram_files s i) = pf
         then ramfs_readdir_loop pf count is (n + 1)
                (es(nat n := (es (nat n))\<lparr>d_ino := rf_ino (ram_files s i), d_type := ucast (rf_mode (ram_files s i) AND S_IFMT),
                     d_name := copy_name 255 (rf_name (ram_files s i)), d_reclen := sizeof_dirent\<rparr>)) s
         else ramfs_readdir_loop pf count is n es s)
      else (n, es))"

definition ramfs_readdir :: "iptr option \<Rightarrow> (nat \<Rightarrow> dirent) option \<Rightarrow> int \<Rightarrow> fsys \<Rightarrow> (int \<times> (nat \<Rightarrow> dirent) option) option" where
  "ramfs_readdir dir entries count s =
     (case (dir, entries) of
        (Some d, Some es) \<Rightarrow>
          (let (n, es') = ramfs_readdir_loop (i_fs_private (the_inode d s)) count [0..<ram_count s] 0 es s
           in Some (n, Some es'))
      | _ \<Rightarrow> Some (0, entries))"

text \<open>The name \<^verbatim>\<open>ramfs\<close> is \<open>[0x72, 0x61, 0x6D, 0x66, 0x73]\<close>.\<close>

definition ramfs_ops :: "(iptr + nat \<Rightarrow> u64) \<Rightarrow> fs_ops" where
  "ramfs_ops addr = \<lparr>op_mount = Some ramfs_mount, op_unmount = Some (ramfs_unmount addr), op_read_inode = Some ramfs_read_inode,
     op_write_inode = Some ramfs_write_inode, op_read = Some ramfs_read, op_write = Some ramfs_write, op_mkdir = Some ramfs_mkdir,
     op_rmdir = None, op_readdir = Some ramfs_readdir, op_lookup = Some ramfs_lookup, op_name = Some [0x72, 0x61, 0x6D, 0x66, 0x73]\<rparr>"

end
