(* ===== verification/Devfs.thy ===== *)
theory Devfs
  imports FsData
begin

unbundle bit_operations_syntax

text \<open>
  The device file system, \<^verbatim>\<open>fs/devfs.c\<close>.  Its inodes come from \<^verbatim>\<open>kmalloc\<close>.
\<close>

definition DEVFS_TYPE_CHAR :: u8 where "DEVFS_TYPE_CHAR = 1"
definition DEVFS_TYPE_BLOCK :: u8 where "DEVFS_TYPE_BLOCK = 2"

definition devfs_find_node :: "cstring \<Rightarrow> fsys \<Rightarrow> nat option" where
  "devfs_find_node name s = find (\<lambda>i. same_string (dn_name (dev_nodes s i)) name) [0..<dev_count s]"

definition devfs_mount :: "cstring \<Rightarrow> cstring \<Rightarrow> fsys \<Rightarrow> (int \<times> fsys) option" where
  "devfs_mount device mount_point s =
     do {
       (a, km) \<leftarrow> kmalloc alloc_page sizeof_inode (fs_kmem s);
       let s1 = s\<lparr>dev_count := 0, fs_kmem := km, dev_root := map_option HeapInode a\<rparr>;
       case a of
         None \<Rightarrow> Some (-1, s1)
       | Some x \<Rightarrow> Some (0, upd_inode (HeapInode x) (\<lambda>i. i\<lparr>i_ino := 1, i_mode := S_IFDIR OR 0x1ED, i_nlink := 2, i_uid := 0, i_gid := 0,
                       i_size := 0, i_parent := None, i_next := None, i_fs_private := None\<rparr>) s1)
     }"

text \<open>The address \<^verbatim>\<open>kfree\<close> is given: that of an inode from \<^verbatim>\<open>kmalloc\<close>.\<close>

definition free_inode :: "iptr \<Rightarrow> fsys \<Rightarrow> fsys option" where
  "free_inode p s = (case p of HeapInode x \<Rightarrow> map_option (\<lambda>km. s\<lparr>fs_kmem := km\<rparr>) (kfree free_page (Some x) (fs_kmem s)) | RamInode _ \<Rightarrow> None)"

definition devfs_unmount :: "cstring \<Rightarrow> fsys \<Rightarrow> (int \<times> fsys) option" where
  "devfs_unmount mount_point s =
     (case dev_root s of
        None \<Rightarrow> Some (0, s)
      | Some p \<Rightarrow> map_option (\<lambda>s1. (0, s1\<lparr>dev_root := None\<rparr>)) (free_inode p s))"

definition devfs_read_inode :: "u64 \<Rightarrow> fsys \<Rightarrow> iptr option" where
  "devfs_read_inode ino s =
     (if ino = 1 then dev_root s
      else (case find (\<lambda>i. case dn_inode (dev_nodes s i) of None \<Rightarrow> False | Some p \<Rightarrow> i_ino (the_inode p s) = ino) [0..<dev_count s] of
              None \<Rightarrow> None | Some i \<Rightarrow> dn_inode (dev_nodes s i)))"

definition devfs_lookup :: "iptr option \<Rightarrow> cstring option \<Rightarrow> fsys \<Rightarrow> iptr option" where
  "devfs_lookup dir name s =
     (case name of
        None \<Rightarrow> None
      | Some n \<Rightarrow> (case devfs_find_node n s of None \<Rightarrow> None | Some i \<Rightarrow> dn_inode (dev_nodes s i)))"

text \<open>\<^verbatim>\<open>type\<close> has 8 bits, so that \<^verbatim>\<open>S_IFCHR\<close> and \<^verbatim>\<open>S_IFBLK\<close> are stored as 0.\<close>

fun devfs_readdir_loop :: "int \<Rightarrow> nat list \<Rightarrow> int \<Rightarrow> (nat \<Rightarrow> dirent) \<Rightarrow> fsys \<Rightarrow> (int \<times> (nat \<Rightarrow> dirent)) option" where
  "devfs_readdir_loop count [] n es s = Some (n, es)"
| "devfs_readdir_loop count (i # is) n es s =
     (if n < count
      then
        (case dn_inode (dev_nodes s i) of
           None \<Rightarrow> None
         | Some p \<Rightarrow>
             devfs_readdir_loop count is (n + 1)
               (es(nat n := (es (nat n))\<lparr>d_ino := i_ino (the_inode p s),
                    d_type := ucast (if dn_type (dev_nodes s i) = DEVFS_TYPE_CHAR then S_IFCHR else S_IFBLK),
                    d_name := copy_name 255 (dn_name (dev_nodes s i)), d_reclen := sizeof_dirent\<rparr>)) s)
      else Some (n, es))"

definition devfs_readdir :: "iptr option \<Rightarrow> (nat \<Rightarrow> dirent) option \<Rightarrow> int \<Rightarrow> fsys \<Rightarrow> (int \<times> (nat \<Rightarrow> dirent) option) option" where
  "devfs_readdir dir entries count s =
     (case entries of
        None \<Rightarrow> if 0 < count \<and> 0 < dev_count s then None else Some (0, None)
      | Some es \<Rightarrow> map_option (\<lambda>(n, es'). (n, Some es')) (devfs_readdir_loop count [0..<dev_count s] 0 es s))"

definition devfs_ops :: fs_ops where
  "devfs_ops = \<lparr>op_mount = Some devfs_mount, op_unmount = Some devfs_unmount, op_read_inode = Some devfs_read_inode, op_write_inode = None,
     op_read = None, op_write = None, op_mkdir = None, op_rmdir = None, op_readdir = Some devfs_readdir, op_lookup = Some devfs_lookup,
     op_name = Some [0x64, 0x65, 0x76, 0x66, 0x73]\<rparr>"

definition devfs_register_device :: "cstring \<Rightarrow> u8 \<Rightarrow> u32 \<Rightarrow> u32 \<Rightarrow> u32 \<Rightarrow> fsys \<Rightarrow> (int \<times> fsys) option" where
  "devfs_register_device name type major minor mode s =
     (if dev_count s \<ge> MAX_DEV_NODES then Some (-1, s)
      else if devfs_find_node name s \<noteq> None then Some (-1, s)
      else
        (let n = dev_count s;
             s1 = upd_dn n (\<lambda>d. d\<lparr>dn_name := copy_name 63 name, dn_type := type, dn_major := major, dn_minor := minor, dn_mode := mode\<rparr>) s
         in do {
           (a, km) \<leftarrow> kmalloc alloc_page sizeof_inode (fs_kmem s1);
           let s2 = s1\<lparr>fs_kmem := km\<rparr>;
           case a of
             None \<Rightarrow> Some (-1, s2)
           | Some x \<Rightarrow>
               (let s3 = upd_inode (HeapInode x) (\<lambda>i. i\<lparr>i_ino := of_nat (n + 2),
                           i_mode := (if type = DEVFS_TYPE_CHAR then S_IFCHR else S_IFBLK) OR mode, i_nlink := 1, i_uid := 0, i_gid := 0, i_size := 0,
                           i_parent := dev_root s2, i_next := None, i_fs_private := Some (DevNode n)\<rparr>) s2;
                    s4 = upd_dn n (\<lambda>d. d\<lparr>dn_inode := Some (HeapInode x), dn_next := None\<rparr>) s3
                in Some (0, s4\<lparr>dev_count := n + 1\<rparr>))
         }))"

text \<open>The search for the index of the node found is the identity on indices.\<close>

definition devfs_unregister_device :: "cstring \<Rightarrow> fsys \<Rightarrow> (int \<times> fsys) option" where
  "devfs_unregister_device name s =
     (case devfs_find_node name s of
        None \<Rightarrow> Some (-1, s)
      | Some idx \<Rightarrow>
          do {
            s1 \<leftarrow> (case dn_inode (dev_nodes s idx) of None \<Rightarrow> Some s | Some p \<Rightarrow> free_inode p s);
            let s2 = fold (\<lambda>i t. t\<lparr>dev_nodes := (dev_nodes t)(i := dev_nodes t (i + 1))\<rparr>) [idx..<dev_count s1 - 1] s1;
            Some (0, s2\<lparr>dev_count := dev_count s2 - 1\<rparr>)
          })"

end
