(* ===== verification/Vfs.thy ===== *)
theory Vfs
  imports Ramfs Devfs
begin

unbundle bit_operations_syntax

text \<open>
  The virtual file system, \<^verbatim>\<open>fs/vfs.c\<close>, and the start of the file systems in \<^verbatim>\<open>kernel/drivers.c\<close>.  The operations of a file
  system are called through the record \<open>fs_ops\<close> of its mount point.  A path is a string, or \<open>None\<close> for a null pointer.
\<close>

subsection \<open>State\<close>

definition MAX_FS_TYPES :: nat where "MAX_FS_TYPES = 16"
definition MAX_MOUNT_POINTS :: nat where "MAX_MOUNT_POINTS = 32"
definition INODE_HASH_SIZE :: nat where "INODE_HASH_SIZE = 256"

record mount_point =
  mp_path :: cstring
  mp_device :: cstring
  mp_fstype :: cstring
  mp_root :: "iptr option"
  mp_ops :: fs_ops

record vfs =
  fs_types :: "nat \<Rightarrow> fs_ops option"
  num_fs_types :: nat
  mount_table :: "nat \<Rightarrow> mount_point"
  num_mounts :: nat
  inode_cache :: "nat \<Rightarrow> iptr option"
  fsys_of :: fsys

definition inode_hash :: "u64 \<Rightarrow> u32" where
  "inode_hash ino = ucast (ino mod of_nat INODE_HASH_SIZE)"

definition vfs_init :: "vfs \<Rightarrow> int \<times> vfs" where
  "vfs_init v = (0, v\<lparr>fs_types := (\<lambda>i. if i < MAX_FS_TYPES then None else fs_types v i),
     inode_cache := (\<lambda>i. if i < INODE_HASH_SIZE then None else inode_cache v i)\<rparr>)"

definition vfs_register_fs :: "cstring \<Rightarrow> fs_ops option \<Rightarrow> vfs \<Rightarrow> int \<times> vfs" where
  "vfs_register_fs name ops v =
     (if num_fs_types v \<ge> MAX_FS_TYPES then (-1, v)
      else if ops = None then (-1, v)
      else (0, v\<lparr>fs_types := (fs_types v)(num_fs_types v := ops), num_fs_types := num_fs_types v + 1\<rparr>))"

definition vfs_find_fs :: "cstring \<Rightarrow> vfs \<Rightarrow> fs_ops option" where
  "vfs_find_fs fstype v =
     (case find (\<lambda>i. case fs_types v i of None \<Rightarrow> False
                     | Some ops \<Rightarrow> (case op_name ops of None \<Rightarrow> False | Some a \<Rightarrow> same_string a fstype)) [0..<num_fs_types v] of
        None \<Rightarrow> None | Some i \<Rightarrow> fs_types v i)"

subsection \<open>Mount points\<close>

definition vfs_mount :: "cstring \<Rightarrow> cstring \<Rightarrow> cstring \<Rightarrow> vfs \<Rightarrow> (int \<times> vfs) option" where
  "vfs_mount device mount_pt fstype v =
     (if num_mounts v \<ge> MAX_MOUNT_POINTS then Some (-1, v)
      else
        (case vfs_find_fs fstype v of
           None \<Rightarrow> Some (-1, v)
         | Some ops \<Rightarrow>
             (let n = num_mounts v;
                  v1 = v\<lparr>mount_table := (mount_table v)(n := (mount_table v n)\<lparr>mp_device := copy_name 255 device, mp_path := copy_name 255 mount_pt,
                          mp_fstype := fstype, mp_ops := ops, mp_root := None\<rparr>)\<rparr>
              in do {
                (r, s) \<leftarrow> (case op_mount ops of None \<Rightarrow> Some (0, fsys_of v1) | Some mnt \<Rightarrow> mnt device mount_pt (fsys_of v1));
                let v2 = v1\<lparr>fsys_of := s\<rparr>;
                if r \<noteq> 0 then Some (-1, v2)
                else
                  (case op_read_inode ops of
                     None \<Rightarrow> Some (0, v2\<lparr>num_mounts := n + 1\<rparr>)
                   | Some rd \<Rightarrow>
                       (let root = rd 1 s;
                            v3 = v2\<lparr>mount_table := (mount_table v2)(n := (mount_table v2 n)\<lparr>mp_root := root\<rparr>)\<rparr>
                        in if root = None then Some (-1, v3) else Some (0, v3\<lparr>num_mounts := n + 1\<rparr>)))
              })))"

definition vfs_unmount :: "cstring \<Rightarrow> vfs \<Rightarrow> (int \<times> vfs) option" where
  "vfs_unmount mount_pt v =
     (case find (\<lambda>i. same_string (mp_path (mount_table v i)) mount_pt) [0..<num_mounts v] of
        None \<Rightarrow> Some (-1, v)
      | Some i \<Rightarrow>
          do {
            s \<leftarrow> (case op_unmount (mp_ops (mount_table v i)) of None \<Rightarrow> Some (fsys_of v) | Some um \<Rightarrow> map_option snd (um mount_pt (fsys_of v)));
            let v1 = v\<lparr>fsys_of := s\<rparr>;
            let v2 = fold (\<lambda>j w. w\<lparr>mount_table := (mount_table w)(j := mount_table w (j + 1))\<rparr>) [i..<num_mounts v1 - 1] v1;
            Some (0, v2\<lparr>num_mounts := num_mounts v2 - 1\<rparr>)
          })"

text \<open>The longest mount path that the path starts with; a length of 0 does not count.\<close>

fun find_mount_loop :: "cstring \<Rightarrow> (nat \<Rightarrow> mount_point) \<Rightarrow> nat list \<Rightarrow> nat option \<Rightarrow> nat \<Rightarrow> nat option" where
  "find_mount_loop path mt [] best_match best_len = best_match"
| "find_mount_loop path mt (i # is) best_match best_len =
     (let (mnt_path, p) = skip_common (mp_path (mt i)) path;
          len = length path - length p
      in if mnt_path = [] \<and> len > best_len then find_mount_loop path mt is (Some i) len
         else find_mount_loop path mt is best_match best_len)"

definition vfs_find_mount :: "cstring \<Rightarrow> vfs \<Rightarrow> mount_point option" where
  "vfs_find_mount path v = map_option (mount_table v) (find_mount_loop path (mount_table v) [0..<num_mounts v] None 0)"

subsection \<open>Paths\<close>

text \<open>The second loop of \<^verbatim>\<open>parse_path_component\<close>: the component, at most \<open>n\<close> characters, and the rest of the path.\<close>

fun copy_component :: "nat \<Rightarrow> cstring \<Rightarrow> cstring \<times> cstring" where
  "copy_component (Suc n) (c # cs) = (if c = slash then ([], c # cs) else (let (a, r) = copy_component n cs in (c # a, r)))"
| "copy_component n cs = ([], cs)"

definition parse_path_component :: "cstring \<Rightarrow> nat \<Rightarrow> cstring \<times> cstring" where
  "parse_path_component path max_len = copy_component (max_len - 1) (dropWhile (\<lambda>c. c = slash) path)"

lemma copy_component_length: "copy_component n cs = (a, r) \<Longrightarrow> length a + length r = length cs"
  by (induction n cs arbitrary: a r rule: copy_component.induct) (auto split: prod.splits if_splits)

lemma parse_path_shorter: "parse_path_component p n = (a, r) \<Longrightarrow> a \<noteq> [] \<Longrightarrow> length r < length p"
  using copy_component_length [of "n - 1" "dropWhile (\<lambda>c. c = slash) p" a r] length_dropWhile_le [of "\<lambda>c. c = slash" p]
  by (cases a) (auto simp: parse_path_component_def)

text \<open>The loop of \<^verbatim>\<open>vfs_lookup_path\<close> over the components.\<close>

function lookup_components :: "fs_ops \<Rightarrow> fsys \<Rightarrow> cstring \<Rightarrow> iptr \<Rightarrow> iptr option" where
  "lookup_components ops s p cur =
     (if p = [] then Some cur
      else
        (let (component, r) = parse_path_component p 256
         in if component = [] then Some cur
            else if component = [dot] then lookup_components ops s r cur
            else if component = [dot, dot]
            then lookup_components ops s r (case i_parent (the_inode cur s) of None \<Rightarrow> cur | Some q \<Rightarrow> q)
            else
              (case op_lookup ops of
                 None \<Rightarrow> None
               | Some lookup \<Rightarrow>
                   (case lookup (Some cur) (Some component) s of
                      None \<Rightarrow> None
                    | Some q \<Rightarrow> lookup_components ops s r q))))"
  by pat_completeness auto
termination
  by (relation "measure (\<lambda>(_, _, p, _). length p)") (auto dest!: parse_path_shorter [OF sym])

declare lookup_components.simps [simp del]

definition vfs_lookup_path :: "cstring option \<Rightarrow> vfs \<Rightarrow> iptr option" where
  "vfs_lookup_path path v =
     (case path of
        None \<Rightarrow> None
      | Some ps \<Rightarrow>
          if ps = [] then None
          else
            (case vfs_find_mount ps v of
               None \<Rightarrow> None
             | Some mnt \<Rightarrow>
                 (case mp_root mnt of
                    None \<Rightarrow> None
                  | Some root \<Rightarrow>
                      (let p = snd (skip_common (mp_path mnt) ps)
                       in if p = [] \<or> p = [slash] then Some root
                          else lookup_components (mp_ops mnt) (fsys_of v) p root))))"

text \<open>
  \<open>split_path\<close>: the directory and the last component of a path, as \<^verbatim>\<open>vfs_open\<close>, \<^verbatim>\<open>vfs_mkdir\<close> and \<^verbatim>\<open>vfs_create\<close> compute them.
  The directory is \<open>None\<close> if the path has no slash but leading ones; both are cut to 255 characters.
\<close>

definition split_path :: "cstring \<Rightarrow> cstring option \<times> cstring" where
  "split_path path =
     (let name = rev (takeWhile (\<lambda>c. c \<noteq> slash) (rev path));
          n = length path - length name
      in if slash \<notin> set path \<or> n = 1 then (None, copy_name 255 (dropWhile (\<lambda>c. c = slash) path))
         else (Some (copy_name 255 (take (n - 1) path)), copy_name 255 name))"

subsection \<open>Files\<close>

text \<open>The inode a file is created in: the root of the mount point, or what the directory part of the path names.\<close>

definition parent_inode :: "cstring \<Rightarrow> mount_point \<Rightarrow> vfs \<Rightarrow> iptr option option" where
  "parent_inode path mnt v =
     (case fst (split_path path) of
        None \<Rightarrow> Some (mp_root mnt)
      | Some pp \<Rightarrow> (case vfs_lookup_path (Some pp) v of None \<Rightarrow> None | Some p \<Rightarrow> Some (Some p)))"

text \<open>The creation of a missing file in \<^verbatim>\<open>vfs_open\<close>; \<open>Inl\<close> when \<^verbatim>\<open>vfs_open\<close> returns a null pointer at once.\<close>

definition open_create :: "cstring \<Rightarrow> vfs \<Rightarrow> (vfs + iptr option \<times> vfs) option" where
  "open_create path v =
     (case vfs_find_mount path v of
        None \<Rightarrow> Some (Inl v)
      | Some mnt \<Rightarrow>
          (case parent_inode path mnt v of
             None \<Rightarrow> Some (Inl v)
           | Some parent \<Rightarrow>
               (case op_mkdir (mp_ops mnt) of
                  None \<Rightarrow> Some (Inr (None, v))
                | Some mkdir \<Rightarrow>
                    do {
                      (r, s) \<leftarrow> mkdir parent (snd (split_path path)) 0x1A4 (fsys_of v);
                      let v1 = v\<lparr>fsys_of := s\<rparr>;
                      if r < 0 then Some (Inl v1)
                      else
                        (case vfs_lookup_path (Some path) v1 of
                           None \<Rightarrow> Some (Inr (None, v1))
                         | Some p \<Rightarrow> Some (Inr (Some p, v1\<lparr>fsys_of := upd_inode p (\<lambda>i. i\<lparr>i_mode := (i_mode i AND NOT S_IFMT) OR S_IFREG\<rparr>) (fsys_of v1)\<rparr>)))
                    })))"

text \<open>The end of \<^verbatim>\<open>vfs_open\<close>: the file structure for an inode.\<close>

definition open_inode :: "iptr \<Rightarrow> int \<Rightarrow> vfs \<Rightarrow> (u64 option \<times> vfs) option" where
  "open_inode p flags v =
     do {
       (a, km) \<leftarrow> kmalloc alloc_page sizeof_file (fs_kmem (fsys_of v));
       let s = (fsys_of v)\<lparr>fs_kmem := km\<rparr>;
       case a of
         None \<Rightarrow> Some (None, v\<lparr>fsys_of := s\<rparr>)
       | Some x \<Rightarrow>
           (let s1 = upd_file x (\<lambda>f. f\<lparr>f_inode := Some p, f_pos := (if flags AND O_APPEND \<noteq> 0 then i_size (the_inode p s) else 0),
                       f_flags := of_int flags, f_private := 0\<rparr>) s
            in if flags AND O_TRUNC = 0 then Some (Some x, v\<lparr>fsys_of := s1\<rparr>)
               else
                 (let s2 = upd_inode p (\<lambda>i. i\<lparr>i_size := 0\<rparr>) s1;
                      v2 = v\<lparr>fsys_of := s2\<rparr>
                  in if i_fs_private (the_inode p s2) = None then Some (Some x, v2)
                     else
                       (case vfs_find_mount [] v2 of
                          None \<Rightarrow> Some (Some x, v2)
                        | Some mnt \<Rightarrow>
                            (case op_write_inode (mp_ops mnt) of
                               None \<Rightarrow> Some (Some x, v2)
                             | Some wr \<Rightarrow> map_option (\<lambda>(r, s3). (Some x, v2\<lparr>fsys_of := s3\<rparr>)) (wr (Some p) s2)))))
     }"

definition vfs_open :: "cstring option \<Rightarrow> int \<Rightarrow> vfs \<Rightarrow> (u64 option \<times> vfs) option" where
  "vfs_open path flags v =
     (case vfs_lookup_path path v of
        Some p \<Rightarrow> open_inode p flags v
      | None \<Rightarrow>
          if flags AND O_CREAT = 0 then Some (None, v)
          else
            (case path of
               None \<Rightarrow> if num_mounts v = 0 then Some (None, v) else None
             | Some ps \<Rightarrow>
                 do {
                   r \<leftarrow> open_create ps v;
                   case r of
                     Inl v1 \<Rightarrow> Some (None, v1)
                   | Inr (None, v1) \<Rightarrow> Some (None, v1)
                   | Inr (Some p, v1) \<Rightarrow> open_inode p flags v1
                 }))"

definition vfs_close :: "u64 option \<Rightarrow> vfs \<Rightarrow> (int \<times> vfs) option" where
  "vfs_close fp v =
     (case fp of
        None \<Rightarrow> Some (-1, v)
      | Some x \<Rightarrow> map_option (\<lambda>km. (0, v\<lparr>fsys_of := (fsys_of v)\<lparr>fs_kmem := km\<rparr>\<rparr>)) (kfree free_page (Some x) (fs_kmem (fsys_of v))))"

definition vfs_read :: "u64 option \<Rightarrow> u64 \<Rightarrow> u64 \<Rightarrow> vfs \<Rightarrow> (int \<times> vfs) option" where
  "vfs_read fp buf count v =
     (case fp of
        None \<Rightarrow> Some (-1, v)
      | Some x \<Rightarrow>
          (case f_inode (heap_files (fsys_of v) x) of
             None \<Rightarrow> Some (-1, v)
           | Some p \<Rightarrow>
               if i_fs_private (the_inode p (fsys_of v)) = None then Some (-1, v)
               else
                 (case vfs_find_mount [slash] v of
                    None \<Rightarrow> Some (-1, v)
                  | Some mnt \<Rightarrow>
                      (case op_read (mp_ops mnt) of
                         None \<Rightarrow> Some (-1, v)
                       | Some rd \<Rightarrow> map_option (\<lambda>(r, s). (r, v\<lparr>fsys_of := s\<rparr>)) (rd (Some x) buf count (fsys_of v))))))"

definition vfs_write :: "u64 option \<Rightarrow> u64 \<Rightarrow> u64 \<Rightarrow> vfs \<Rightarrow> (int \<times> vfs) option" where
  "vfs_write fp buf count v =
     (case fp of
        None \<Rightarrow> Some (-1, v)
      | Some x \<Rightarrow>
          (case f_inode (heap_files (fsys_of v) x) of
             None \<Rightarrow> Some (-1, v)
           | Some p \<Rightarrow>
               if i_fs_private (the_inode p (fsys_of v)) = None then Some (-1, v)
               else
                 (case vfs_find_mount [slash] v of
                    None \<Rightarrow> Some (-1, v)
                  | Some mnt \<Rightarrow>
                      (case op_write (mp_ops mnt) of
                         None \<Rightarrow> Some (-1, v)
                       | Some wr \<Rightarrow> map_option (\<lambda>(r, s). (r, v\<lparr>fsys_of := s\<rparr>)) (wr (Some x) buf count (fsys_of v))))))"

subsection \<open>Directories\<close>

definition vfs_mkdir :: "cstring option \<Rightarrow> u32 \<Rightarrow> vfs \<Rightarrow> (int \<times> vfs) option" where
  "vfs_mkdir path mode v =
     (case path of
        None \<Rightarrow> Some (-1, v)
      | Some ps \<Rightarrow>
          (case vfs_find_mount ps v of
             None \<Rightarrow> Some (-1, v)
           | Some mnt \<Rightarrow>
               (case op_mkdir (mp_ops mnt) of
                  None \<Rightarrow> Some (-1, v)
                | Some mkdir \<Rightarrow>
                    (case parent_inode ps mnt v of
                       None \<Rightarrow> Some (-1, v)
                     | Some parent \<Rightarrow> map_option (\<lambda>(r, s). (r, v\<lparr>fsys_of := s\<rparr>)) (mkdir parent (snd (split_path ps)) mode (fsys_of v))))))"

definition vfs_rmdir :: "cstring option \<Rightarrow> vfs \<Rightarrow> int" where
  "vfs_rmdir path v =
     (case path of
        None \<Rightarrow> -1
      | Some ps \<Rightarrow> (case vfs_find_mount ps v of None \<Rightarrow> -1 | Some mnt \<Rightarrow> if op_rmdir (mp_ops mnt) = None then -1 else -1))"

definition vfs_readdir :: "cstring option \<Rightarrow> (nat \<Rightarrow> dirent) option \<Rightarrow> int \<Rightarrow> vfs \<Rightarrow> (int \<times> (nat \<Rightarrow> dirent) option) option" where
  "vfs_readdir path entries count v =
     (if path = None \<or> entries = None then Some (-1, entries)
      else
        (case vfs_lookup_path path v of
           None \<Rightarrow> Some (-1, entries)
         | Some p \<Rightarrow>
             (case vfs_find_mount (the path) v of
                None \<Rightarrow> Some (-1, entries)
              | Some mnt \<Rightarrow>
                  (case op_readdir (mp_ops mnt) of
                     None \<Rightarrow> Some (-1, entries)
                   | Some rd \<Rightarrow> rd (Some p) entries count (fsys_of v)))))"

definition vfs_create :: "cstring option \<Rightarrow> u32 \<Rightarrow> vfs \<Rightarrow> int" where
  "vfs_create path mode v =
     (case path of
        None \<Rightarrow> -1
      | Some ps \<Rightarrow>
          (case vfs_find_mount ps v of
             None \<Rightarrow> -1
           | Some mnt \<Rightarrow> (case parent_inode ps mnt v of None \<Rightarrow> -1 | Some _ \<Rightarrow> -1)))"

subsection \<open>Start\<close>

definition devfs_init :: "vfs \<Rightarrow> int \<times> vfs" where
  "devfs_init v = vfs_register_fs [0x64, 0x65, 0x76, 0x66, 0x73] (Some devfs_ops) v"

definition ramfs_init :: "(iptr + nat \<Rightarrow> u64) \<Rightarrow> vfs \<Rightarrow> int \<times> vfs" where
  "ramfs_init addr v = vfs_register_fs [0x72, 0x61, 0x6D, 0x66, 0x73] (Some (ramfs_ops addr)) v"

text \<open>
  The part of \<^verbatim>\<open>drivers_init\<close> that concerns the file systems.  The operations of the five disk file systems are the parameter \<open>disks\<close>.
\<close>

definition drivers_init :: "(iptr + nat \<Rightarrow> u64) \<Rightarrow> (cstring \<times> fs_ops) list \<Rightarrow> vfs \<Rightarrow> vfs option" where
  "drivers_init addr disks v =
     (let v1 = snd (vfs_init v);
          v2 = snd (devfs_init v1);
          v3 = snd (ramfs_init addr v2);
          v4 = fold (\<lambda>(n, ops) w. snd (vfs_register_fs n (Some ops) w)) disks v3
      in map_option snd (vfs_mount [0x6E, 0x6F, 0x6E, 0x65] [slash] [0x72, 0x61, 0x6D, 0x66, 0x73] v4))"

end
