(* ===== verification/VfsProps.thy ===== *)
theory VfsProps
  imports Vfs
begin

unbundle bit_operations_syntax

text \<open>
  What the virtual file system guarantees over ramfs: the invariant \<open>fs_ok\<close>, the tree of paths (\<open>walk\<close>) and the contents of the
  files (\<open>file_bytes\<close>) as the abstract view, and the effect of \<^verbatim>\<open>drivers_init\<close>, \<^verbatim>\<open>vfs_open\<close>, \<^verbatim>\<open>vfs_write\<close> and \<^verbatim>\<open>vfs_read\<close> on that view.
\<close>

subsection \<open>Walking a path\<close>

text \<open>A name that is a proper component of a path.\<close>

definition good_name :: "cstring \<Rightarrow> bool" where
  "good_name nm \<longleftrightarrow> nm \<noteq> [] \<and> slash \<notin> set nm \<and> length nm \<le> 63 \<and> nm \<noteq> [dot] \<and> nm \<noteq> [dot, dot]"

fun join_path :: "cstring list \<Rightarrow> cstring" where
  "join_path [] = []"
| "join_path [c] = c"
| "join_path (c # cs) = c @ slash # join_path cs"

fun walk :: "(iptr option \<Rightarrow> cstring option \<Rightarrow> fsys \<Rightarrow> iptr option) \<Rightarrow> fsys \<Rightarrow> cstring list \<Rightarrow> iptr \<Rightarrow> iptr option" where
  "walk lookup s [] cur = Some cur"
| "walk lookup s (c # cs) cur = (case lookup (Some cur) (Some c) s of None \<Rightarrow> None | Some q \<Rightarrow> walk lookup s cs q)"

lemma copy_component_all: "slash \<notin> set c \<Longrightarrow> length c \<le> n \<Longrightarrow> r = [] \<or> hd r = slash \<Longrightarrow> copy_component n (c @ r) = (c, r)"
proof (induction c arbitrary: n)
  case Nil
  then show ?case by (cases n; cases r) auto
next
  case (Cons x c)
  then obtain m where "n = Suc m" by (cases n) auto
  with Cons show ?case by auto
qed

lemma dropWhile_name: "slash \<notin> set c \<Longrightarrow> c \<noteq> [] \<Longrightarrow> dropWhile (\<lambda>x. x = slash) (c @ r) = c @ r"
  by (cases c) auto

lemma parse_name:
  assumes "good_name c" "r = [] \<or> hd r = slash"
  shows "parse_path_component (c @ r) 256 = (c, r)" "parse_path_component (slash # c @ r) 256 = (c, r)"
  using assms copy_component_all [of c 255 r] dropWhile_name [of c r] by (auto simp: parse_path_component_def good_name_def)

lemma lookup_join:
  assumes "op_lookup ops = Some lookup"
  shows "\<forall>c \<in> set cs. good_name c \<Longrightarrow> p = join_path cs \<or> p = slash # join_path cs \<Longrightarrow> cs \<noteq> [] \<Longrightarrow> lookup_components ops s p cur = walk lookup s cs cur"
proof (induction cs arbitrary: p cur rule: join_path.induct)
  case (2 c)
  then have g: "good_name c" by simp
  have "parse_path_component p 256 = (c, [])" "p \<noteq> []" using 2 parse_name [OF g, of "[]"] by (auto simp: good_name_def)
  then show ?case using g assms by (subst lookup_components.simps) (auto simp: good_name_def lookup_components.simps [of _ _ "[]"] split: option.splits)
next
  case (3 c d cs)
  then have g: "good_name c" by simp
  let ?r = "slash # join_path (d # cs)"
  have "parse_path_component p 256 = (c, ?r)" "p \<noteq> []" using "3.prems"(2) parse_name [OF g, of ?r] by (auto simp: good_name_def)
  then show ?case using g assms "3.IH" [of ?r] "3.prems"(1)
    by (subst lookup_components.simps) (auto simp: good_name_def split: option.splits)
qed simp

subsection \<open>The invariant of ramfs\<close>

definition ram_entry :: "fsys \<Rightarrow> nat \<Rightarrow> bool" where
  "ram_entry s i \<longleftrightarrow> rf_inode (ram_files s i) = Some (RamInode i) \<and> i_fs_private (ram_inodes s i) = Some (RamFile i)
     \<and> rf_size (ram_files s i) \<le> rf_capacity (ram_files s i)
     \<and> (case rf_data (ram_files s i) of
          None \<Rightarrow> rf_capacity (ram_files s i) = 0
        | Some b \<Rightarrow> b = i * RAMFS_MAX_FILE_SIZE \<and> rf_capacity (ram_files s i) = of_nat RAMFS_MAX_FILE_SIZE)"

definition ram_link :: "fsys \<Rightarrow> nat \<Rightarrow> bool" where
  "ram_link s i \<longleftrightarrow> (if i = 0 then rf_parent (ram_files s i) = None \<and> i_parent (ram_inodes s i) = None
     else \<exists>p < i. rf_parent (ram_files s i) = Some (RamFile p) \<and> i_parent (ram_inodes s i) = Some (RamInode p))"

definition ram_ok :: "fsys \<Rightarrow> bool" where
  "ram_ok s \<longleftrightarrow> 0 < ram_count s \<and> ram_count s \<le> RAMFS_MAX_FILES \<and> (\<forall>i < ram_count s. ram_entry s i \<and> ram_link s i)"

text \<open>ramfs is mounted on the root directory, and nothing else is mounted.\<close>

definition rooted :: "(iptr + nat \<Rightarrow> u64) \<Rightarrow> vfs \<Rightarrow> bool" where
  "rooted addr v \<longleftrightarrow> num_mounts v = 1 \<and> mp_path (mount_table v 0) = [slash] \<and> mp_root (mount_table v 0) = Some (RamInode 0)
     \<and> mp_ops (mount_table v 0) = ramfs_ops addr"

definition fs_ok :: "(iptr + nat \<Rightarrow> u64) \<Rightarrow> vfs \<Rightarrow> (nat \<times> u64) set \<Rightarrow> bool" where
  "fs_ok addr v L \<longleftrightarrow> rooted addr v \<and> ram_ok (fsys_of v) \<and> kbuddy (fs_kmem (fsys_of v)) L"

lemma find_mount_root:
  assumes "rooted addr v"
  shows "vfs_find_mount (slash # cs) v = Some (mount_table v 0)" "vfs_find_mount [] v = None"
  using assms by (auto simp: rooted_def vfs_find_mount_def)

text \<open>Looking up an absolute path walks down from the root.\<close>

lemma lookup_walk:
  assumes "rooted addr v" "\<forall>c \<in> set cs. good_name c"
  shows "vfs_lookup_path (Some (slash # join_path cs)) v = walk ramfs_lookup (fsys_of v) cs (RamInode 0)"
proof -
  have o: "op_lookup (mp_ops (mount_table v 0)) = Some ramfs_lookup" "mp_path (mount_table v 0) = [slash]" "mp_root (mount_table v 0) = Some (RamInode 0)"
    using assms(1) by (simp_all add: rooted_def ramfs_ops_def)
  show ?thesis
  proof (cases cs)
    case Nil
    then show ?thesis by (simp add: vfs_lookup_path_def find_mount_root [OF assms(1)] o)
  next
    case (Cons c ds)
    have "join_path cs \<noteq> [] \<and> join_path cs \<noteq> [slash]" using assms(2) Cons by (cases ds; cases c) (auto simp: good_name_def)
    then show ?thesis using lookup_join [OF o(1) assms(2), of "join_path cs"] Cons
      by (simp add: vfs_lookup_path_def find_mount_root [OF assms(1)] o)
  qed
qed

subsection \<open>Directories\<close>

lemmas fs_upd_defs = upd_rf_def upd_file_def upd_inode_def the_inode_def

lemma ram_okD:
  assumes "ram_ok s"
  shows "0 < ram_count s" "ram_count s \<le> 256" "\<And>i. i < ram_count s \<Longrightarrow> ram_entry s i" "\<And>i. i < ram_count s \<Longrightarrow> ram_link s i"
  using assms by (auto simp: ram_ok_def RAMFS_MAX_FILES_def)

lemma ram_entryD:
  assumes "ram_entry s i"
  shows "rf_inode (ram_files s i) = Some (RamInode i)" "i_fs_private (ram_inodes s i) = Some (RamFile i)"
    "rf_size (ram_files s i) \<le> rf_capacity (ram_files s i)" "rf_data (ram_files s i) = None \<Longrightarrow> rf_capacity (ram_files s i) = 0"
    "rf_data (ram_files s i) = Some b \<Longrightarrow> b = i * 4096 \<and> rf_capacity (ram_files s i) = 4096"
  using assms by (auto simp: ram_entry_def RAMFS_MAX_FILE_SIZE_def)

lemma find_fileD:
  assumes "ramfs_find_file p nm s = Some j"
  shows "j < ram_count s" "rf_parent (ram_files s j) = p" "rf_name (ram_files s j) = nm"
proof -
  from assms obtain k where "k < length [0..<ram_count s]" "j = [0..<ram_count s] ! k" "rf_parent (ram_files s j) = p" "rf_name (ram_files s j) = nm"
    unfolding ramfs_find_file_def find_Some_iff same_string_eq by blast
  then show "j < ram_count s" "rf_parent (ram_files s j) = p" "rf_name (ram_files s j) = nm" by simp_all
qed

lemma lookup_find:
  assumes "ram_ok s" "i < ram_count s"
  shows "ramfs_lookup (Some (RamInode i)) (Some nm) s = map_option RamInode (ramfs_find_file (Some (RamFile i)) nm s)"
proof -
  have "i_fs_private (the_inode (RamInode i) s) = Some (RamFile i)" using ram_entryD(2) [OF ram_okD(3) [OF assms]] by (simp add: the_inode_def)
  moreover have "rf_inode (ram_files s j) = Some (RamInode j)" if "ramfs_find_file (Some (RamFile i)) nm s = Some j" for j
    by (rule ram_entryD(1) [OF ram_okD(3) [OF assms(1) find_fileD(1) [OF that]]])
  ultimately show ?thesis by (auto simp: ramfs_lookup_def split: option.splits)
qed

text \<open>What a new directory entry changes.\<close>

definition entered_file :: "nat \<Rightarrow> cstring \<Rightarrow> fsys \<Rightarrow> fsys \<Rightarrow> bool" where
  "entered_file i nm s s' \<longleftrightarrow> ram_count s' = Suc (ram_count s) \<and> (\<forall>j < ram_count s. ram_files s' j = ram_files s j)
     \<and> rf_parent (ram_files s' (ram_count s)) = Some (RamFile i) \<and> rf_name (ram_files s' (ram_count s)) = nm
     \<and> rf_size (ram_files s' (ram_count s)) = 0 \<and> i_size (ram_inodes s' (ram_count s)) = 0
     \<and> ram_buffers s' = ram_buffers s \<and> heap_files s' = heap_files s \<and> fs_mem s' = fs_mem s \<and> fs_kmem s' = fs_kmem s"

lemma find_entered:
  assumes e: "entered_file i nm s s'" and n: "ramfs_find_file (Some (RamFile i)) nm s = None"
  shows "ramfs_find_file p x s' = (if p = Some (RamFile i) \<and> x = nm then Some (ram_count s) else ramfs_find_file p x s)"
proof -
  note d = e [unfolded entered_file_def]
  have app: "find P (xs @ [a]) = (case find P xs of None \<Rightarrow> if P a then Some a else None | Some y \<Rightarrow> Some y)" for P :: "nat \<Rightarrow> bool" and xs a
    by (induction xs) auto
  let ?P = "\<lambda>s i. rf_parent (ram_files s i) = p \<and> rf_name (ram_files s i) = x"
  have "find (?P s') [0..<ram_count s] = find (?P s) [0..<ram_count s]" by (rule find_cong) (use d in auto)
  then have "ramfs_find_file p x s' = (case ramfs_find_file p x s of None \<Rightarrow> if ?P s' (ram_count s) then Some (ram_count s) else None | Some y \<Rightarrow> Some y)"
    using d by (simp add: ramfs_find_file_def app)
  then show ?thesis using d n by (auto split: option.splits)
qed

lemma ramfs_mkdir_ok:
  assumes r: "ram_ok s" and i: "i < ram_count s" "ram_count s < 256" and n: "ramfs_find_file (Some (RamFile i)) nm s = None" "length nm \<le> 63"
  shows "\<exists>s'. ramfs_mkdir (Some (RamInode i)) nm mode s = Some (0, s') \<and> ram_ok s' \<and> entered_file i nm s s'
    \<and> i_mode (ram_inodes s' (ram_count s)) = S_IFDIR OR mode"
proof -
  let ?n = "ram_count s"
  have p: "i_fs_private (ram_inodes s i) = Some (RamFile i)" using ram_entryD(2) [OF ram_okD(3) [OF r i(1)]] .
  from n p i obtain s' where m: "ramfs_mkdir (Some (RamInode i)) nm mode s = Some (0, s')"
    and e: "entered_file i nm s s'" "i_mode (ram_inodes s' ?n) = S_IFDIR OR mode" and f: "rf_data (ram_files s' ?n) = None" "rf_capacity (ram_files s' ?n) = 0" "rf_inode (ram_files s' ?n) = Some (RamInode ?n)"
      "i_fs_private (ram_inodes s' ?n) = Some (RamFile ?n)" "i_parent (ram_inodes s' ?n) = Some (RamInode i)"
      "\<And>j. j < ?n \<Longrightarrow> i_fs_private (ram_inodes s' j) = i_fs_private (ram_inodes s j) \<and> i_parent (ram_inodes s' j) = i_parent (ram_inodes s j)"
    by (simp add: ramfs_mkdir_def RAMFS_MAX_FILES_def Let_def fs_upd_defs entered_file_def)
  note d = e(1) [unfolded entered_file_def]
  have "ram_entry s' j \<and> ram_link s' j" if "j < ram_count s'" for j
  proof (cases "j = ?n")
    case True
    then show ?thesis using d f i(1) by (auto simp: ram_entry_def ram_link_def)
  next
    case False
    then have j: "j < ?n" using that d by simp
    have fj: "ram_files s' j = ram_files s j" using d j by blast
    show ?thesis using ram_okD(3,4) [OF r j] f(6) [OF j] unfolding ram_entry_def ram_link_def fj by (cases "j = 0") simp_all
  qed
  then show ?thesis using m e d i by (auto simp: ram_ok_def RAMFS_MAX_FILES_def)
qed

subsection \<open>Reading and writing\<close>

lemma copy_in_eq:
  "dst + n \<le> RAMFS_BUFFER_SIZE \<Longrightarrow> copy_in n dst src s =
     Some (s\<lparr>ram_buffers := \<lambda>a. if dst \<le> a \<and> a < dst + n then fs_mem s (src + of_nat (a - dst)) else ram_buffers s a\<rparr>)"
proof (induction n arbitrary: dst src s)
  case 0
  have "(\<lambda>a. if dst \<le> a \<and> a < dst then fs_mem s (src + of_nat (a - dst)) else ram_buffers s a) = ram_buffers s" by (auto simp: fun_eq_iff)
  then show ?case by simp
next
  case (Suc n)
  let ?s = "s\<lparr>ram_buffers := (ram_buffers s)(dst := fs_mem s src)\<rparr>"
  have "(\<lambda>a. if Suc dst \<le> a \<and> a < Suc dst + n then fs_mem s (src + 1 + of_nat (a - Suc dst)) else ((ram_buffers s)(dst := fs_mem s src)) a)
      = (\<lambda>a. if dst \<le> a \<and> a < dst + Suc n then fs_mem s (src + of_nat (a - dst)) else ram_buffers s a)"
  proof
    fix a
    have "src + 1 + of_nat (a - Suc dst) = (src + of_nat (a - dst) :: u64)" if "Suc dst \<le> a"
      using le_Suc_ex [OF that] by auto
    then show "(if Suc dst \<le> a \<and> a < Suc dst + n then fs_mem s (src + 1 + of_nat (a - Suc dst)) else ((ram_buffers s)(dst := fs_mem s src)) a)
      = (if dst \<le> a \<and> a < dst + Suc n then fs_mem s (src + of_nat (a - dst)) else ram_buffers s a)"
      by (cases "a = dst") auto
  qed
  then show ?case using Suc.IH [of "Suc dst" "src + 1" ?s] Suc.prems by (simp cong: if_cong)
qed

lemma copy_out_eq:
  "src + n \<le> RAMFS_BUFFER_SIZE \<Longrightarrow> n < 2 ^ 64 \<Longrightarrow> copy_out n dst src s =
     Some (s\<lparr>fs_mem := \<lambda>a. if unat (a - dst) < n then ram_buffers s (src + unat (a - dst)) else fs_mem s a\<rparr>)"
proof (induction n arbitrary: dst src s)
  case (Suc n)
  let ?s = "s\<lparr>fs_mem := (fs_mem s)(dst := ram_buffers s src)\<rparr>"
  have "(\<lambda>a. if unat (a - (dst + 1)) < n then ram_buffers s (Suc src + unat (a - (dst + 1))) else ((fs_mem s)(dst := ram_buffers s src)) a)
      = (\<lambda>a. if unat (a - dst) < Suc n then ram_buffers s (src + unat (a - dst)) else fs_mem s a)"
  proof
    fix a
    have e: "a - (dst + 1) = a - dst - 1" by simp
    show "(if unat (a - (dst + 1)) < n then ram_buffers s (Suc src + unat (a - (dst + 1))) else ((fs_mem s)(dst := ram_buffers s src)) a)
      = (if unat (a - dst) < Suc n then ram_buffers s (src + unat (a - dst)) else fs_mem s a)"
    proof (cases "a = dst")
      case True
      then show ?thesis using offset_last [of n] Suc.prems(2) by simp
    next
      case False
      then have "unat (a - dst - 1) = unat (a - dst) - 1" "0 < unat (a - dst)" by (simp_all add: unat_minus_one unat_gt_0)
      then show ?thesis unfolding e using False by auto
    qed
  qed
  then show ?case using Suc.IH [of "Suc src" "dst + 1" ?s] Suc.prems by (simp cong: if_cong)
qed simp

text \<open>
  A write of \<open>n\<close> bytes from \<open>buf\<close> through the file \<open>x\<close>, open on file \<open>i\<close> at position \<open>p\<close>: what it changes.
\<close>

definition wrote :: "u64 \<Rightarrow> nat \<Rightarrow> u64 \<Rightarrow> u64 \<Rightarrow> fsys \<Rightarrow> fsys \<Rightarrow> bool" where
  "wrote x i buf n s s' \<longleftrightarrow>
     (let p = f_pos (heap_files s x)
      in heap_files s' = (heap_files s)(x := (heap_files s x)\<lparr>f_pos := p + n\<rparr>)
       \<and> (\<forall>a. ram_buffers s' a = (if i * 4096 + unat p \<le> a \<and> a < i * 4096 + unat p + unat n then fs_mem s (buf + of_nat (a - (i * 4096 + unat p))) else ram_buffers s a))
       \<and> fs_mem s' = fs_mem s \<and> fs_kmem s' = fs_kmem s \<and> ram_count s' = ram_count s
       \<and> (\<forall>j. rf_name (ram_files s' j) = rf_name (ram_files s j) \<and> rf_parent (ram_files s' j) = rf_parent (ram_files s j)
            \<and> unat (rf_size (ram_files s' j)) = (if j = i then max (unat (rf_size (ram_files s i))) (unat p + unat n) else unat (rf_size (ram_files s j))))
       \<and> (0 < n \<longrightarrow> rf_data (ram_files s' i) \<noteq> None))"

lemma ucast_small: "unat (x :: u64) < 2 ^ 32 \<Longrightarrow> unat (ucast x :: u32) = unat x"
  unfolding unsigned_ucast_eq by (rule take_bit_nat_eq_self) simp
lemma ucast_back: "unat (ucast (z :: u32) :: u64) = unat z"
  unfolding unsigned_ucast_eq
proof (rule take_bit_nat_eq_self)
  have "unat z < 2 ^ 32" using unsigned_less [of z] by simp
  then show "unat z < 2 ^ LENGTH(64)" by simp
qed
lemma sint_small: "unat (n :: u64) < 2 ^ 63 \<Longrightarrow> sint n = int (unat n)"
proof -
  assume "unat n < 2 ^ 63"
  then have "int (unat n) < int (2 ^ 63)" by (simp only: of_nat_less_iff)
  then have a: "int (unat n) < 2 ^ 63" by (simp only: of_nat_power of_nat_numeral)
  have "- (2 ^ 63) \<le> int (unat n)" by (rule order_trans [OF _ of_nat_0_le_iff]) simp
  with a have "signed_take_bit 63 (int (unat n)) = int (unat n)" by (intro signed_take_bit_int_eq_self)
  then show ?thesis unfolding sint_uint uint_nat by simp
qed
lemma small_sum: "unat (p :: u64) + unat n \<le> 4096 \<Longrightarrow> unat (p + n) = unat p + unat n"
  by (simp add: unat_word_ariths)

lemma ram_ok_file:
  assumes r: "ram_ok s" and i: "i < ram_count s" and c: "ram_count s' = ram_count s" "\<And>j. j \<noteq> i \<Longrightarrow> ram_files s' j = ram_files s j"
    "\<And>j. i_fs_private (ram_inodes s' j) = i_fs_private (ram_inodes s j) \<and> i_parent (ram_inodes s' j) = i_parent (ram_inodes s j)"
    and f: "ram_files s' i = f" "rf_inode f = Some (RamInode i)" "rf_parent f = rf_parent (ram_files s i)" "rf_size f \<le> rf_capacity f"
      "case rf_data f of None \<Rightarrow> rf_capacity f = 0 | Some b \<Rightarrow> b = i * 4096 \<and> rf_capacity f = 4096"
  shows "ram_ok s'"
proof -
  have "ram_entry s' j \<and> ram_link s' j" if "j < ram_count s" for j
  proof (cases "j = i")
    case True
    then show ?thesis using ram_okD(3,4) [OF r i] f c(3) [of i] by (auto simp: ram_entry_def ram_link_def RAMFS_MAX_FILE_SIZE_def split: if_splits option.splits)
  next
    case False
    then show ?thesis using ram_okD(3,4) [OF r that] c(3) [of j] unfolding ram_entry_def ram_link_def c(2) [OF False] by (cases "j = 0") simp_all
  qed
  then show ?thesis using r c(1) by (simp add: ram_ok_def)
qed

lemma ramfs_write_ok:
  assumes r: "ram_ok s" and i: "i < ram_count s" and x: "f_inode (heap_files s x) = Some (RamInode i)" and b: "buf \<noteq> 0"
    and n: "unat (f_pos (heap_files s x)) + unat n \<le> 4096"
  shows "\<exists>s'. ramfs_write (Some x) buf n s = Some (int (unat n), s') \<and> ram_ok s' \<and> wrote x i buf n s s'"
proof -
  define p where "p = f_pos (heap_files s x)"
  note e = ram_okD(3) [OF r i] and i2 = ram_okD(2) [OF r]
  have pn: "unat (p + n) = unat p + unat n" using n small_sum by (simp add: p_def)
  define z where "z = (ucast (p + n) :: u32)"
  have z: "unat z = unat p + unat n" using n pn ucast_small [of "p + n"] by (simp add: z_def p_def [symmetric])
  have zp: "(ucast z :: u64) = p + n" unfolding word_unat_eq_iff ucast_back z pn ..
  have fp: "i_fs_private (the_inode (RamInode i) s) = Some (RamFile i)" using ram_entryD(2) [OF e] by (simp add: the_inode_def)
  have sn: "sint n = int (unat n)" using n by (intro sint_small) simp
  have big: "\<not> z > 4096" using z n by (simp add: word_less_nat_alt p_def)
  define f where "f = ram_files s i"
  define f1 where "f1 = (if z > rf_capacity f \<and> rf_data f = None then f\<lparr>rf_data := Some (i * 4096), rf_capacity := 4096\<rparr> else f)"
  define s1 where "s1 = s\<lparr>ram_files := (ram_files s)(i := f1)\<rparr>"
  have s1: "(if z > rf_capacity (ram_files s i) \<and> rf_data (ram_files s i) = None then upd_rf i (\<lambda>f. f\<lparr>rf_data := Some (i * 4096), rf_capacity := 4096\<rparr>) s else s) = s1"
    by (auto simp: s1_def f1_def f_def upd_rf_def)
  have f1: "rf_inode f1 = Some (RamInode i)" "rf_parent f1 = rf_parent f" "rf_name f1 = rf_name f" "rf_size f1 = rf_size f" "rf_size f1 \<le> rf_capacity f1"
    "case rf_data f1 of None \<Rightarrow> rf_capacity f1 = 0 \<and> z = 0 | Some b \<Rightarrow> b = i * 4096 \<and> rf_capacity f1 = 4096"
    using ram_entryD [OF e] by (auto simp: f1_def f_def [symmetric] word_gt_0 split: option.splits)
  define g where "g = (\<lambda>a. if i * 4096 + unat p \<le> a \<and> a < i * 4096 + unat p + unat n then fs_mem s (buf + of_nat (a - (i * 4096 + unat p))) else ram_buffers s a)"
  have c: "(case rf_data (ram_files s1 i) of None \<Rightarrow> (if n = 0 then Some s1 else None) | Some base \<Rightarrow> copy_in (unat n) (base + unat p) buf s1) = Some (s1\<lparr>ram_buffers := g\<rparr>)"
  proof (cases "rf_data f1")
    case None
    then have n0: "unat n = 0" "unat p = 0" using f1(6) z by simp_all
    then have "g = ram_buffers s" by (auto simp: g_def fun_eq_iff)
    then show ?thesis using None n0(1) by (simp add: s1_def unat_eq_0)
  next
    case (Some base)
    then have "base = i * 4096" using f1(6) by simp
    moreover have "i * 4096 + unat p + unat n \<le> RAMFS_BUFFER_SIZE" using n i i2 by (simp add: RAMFS_BUFFER_SIZE_def RAMFS_MAX_FILES_def RAMFS_MAX_FILE_SIZE_def p_def)
    ultimately show ?thesis using Some copy_in_eq [of "i * 4096 + unat p" "unat n" buf s1] by (simp add: s1_def g_def cong: if_cong)
  qed
  define s3 where "s3 = s1\<lparr>ram_buffers := g, heap_files := (heap_files s)(x := (heap_files s x)\<lparr>f_pos := p + n\<rparr>)\<rparr>"
  define s4 where "s4 = (if p + n > ucast (rf_size f) then upd_inode (RamInode i) (\<lambda>y. y\<lparr>i_size := ucast z\<rparr>) (upd_rf i (\<lambda>f. f\<lparr>rf_size := z\<rparr>) s3) else s3)"
  have run: "ramfs_write (Some x) buf n s = Some (int (unat n), s4)"
  proof -
    have k: "of_nat 4096 = (4096 :: u32)" "RAMFS_MAX_FILE_SIZE = 4096" "\<not> i \<ge> RAMFS_MAX_FILES"
      using i i2 by (simp_all add: RAMFS_MAX_FILE_SIZE_def RAMFS_MAX_FILES_def)
    have u: "upd_file x (\<lambda>f. f\<lparr>f_pos := p + n\<rparr>) (s1\<lparr>ram_buffers := g\<rparr>) = s3" "rf_size (ram_files s3 i) = rf_size f"
      by (simp_all add: s3_def s1_def upd_file_def f1(4))
    show ?thesis unfolding ramfs_write_def Let_def
      by (simp only: option.case fptr.case x fp if_not_P [OF b] p_def [symmetric] z_def [symmetric] k s1 simp_thms if_False if_not_P [OF big] c u
          bind.bind_lunit sn s4_def)
  qed
  have gr: "p + n > ucast (rf_size f) \<longleftrightarrow> unat p + unat n > unat (rf_size f)" by (simp add: word_less_nat_alt ucast_back pn)
  define f2 where "f2 = (if p + n > ucast (rf_size f) then f1\<lparr>rf_size := z\<rparr> else f1)"
  have fields: "ram_files s4 = (ram_files s)(i := f2)" "ram_count s4 = ram_count s" "ram_buffers s4 = g" "fs_mem s4 = fs_mem s" "fs_kmem s4 = fs_kmem s"
    "heap_files s4 = (heap_files s)(x := (heap_files s x)\<lparr>f_pos := p + n\<rparr>)"
    "\<And>j. i_fs_private (ram_inodes s4 j) = i_fs_private (ram_inodes s j) \<and> i_parent (ram_inodes s4 j) = i_parent (ram_inodes s j)"
    by (simp_all add: s4_def s3_def s1_def f2_def upd_inode_def upd_rf_def)
  have f2: "rf_inode f2 = Some (RamInode i)" "rf_parent f2 = rf_parent f" "rf_name f2 = rf_name f" "rf_data f2 = rf_data f1" "rf_capacity f2 = rf_capacity f1"
    "unat (rf_size f2) = max (unat (rf_size f)) (unat p + unat n)" using f1 gr z by (auto simp: f2_def)
  have cap: "unat (rf_size f2) \<le> unat (rf_capacity f2)"
  proof (cases "rf_data f1")
    case None
    then show ?thesis using f1(4,5,6) z unfolding f2(5,6) by (simp add: word_le_nat_alt)
  next
    case (Some b)
    then show ?thesis using f1(4,5,6) z n unfolding f2(5,6) by (simp add: word_le_nat_alt p_def)
  qed
  have "ram_ok s4"
    by (rule ram_ok_file [OF r i fields(2) _ fields(7), of f2])
      (use f1(6) f2 cap in \<open>auto simp: fields(1) f_def [symmetric] word_le_nat_alt split: option.splits\<close>)
  moreover have "rf_data f2 \<noteq> None" if "0 < n" using that f1(6) z unfolding f2(4) by (auto simp: word_less_nat_alt split: option.splits)
  moreover have "unat (rf_size (((ram_files s)(i := f2)) j)) = (if j = i then max (unat (rf_size f)) (unat p + unat n) else unat (rf_size (ram_files s j)))" for j using f2(6) by simp
  ultimately have "wrote x i buf n s s4" using f2(2,3) unfolding wrote_def p_def [symmetric] Let_def fields(1-6) g_def f_def by auto
  then show ?thesis using run \<open>ram_ok s4\<close> by blast
qed

lemma small_size:
  assumes "ram_ok s" "i < ram_count s"
  shows "unat (rf_size (ram_files s i)) \<le> 4096"
  using ram_entryD [OF ram_okD(3) [OF assms]] by (cases "rf_data (ram_files s i)") (auto simp: word_le_nat_alt)

text \<open>The contents of file \<open>i\<close>.\<close>

definition file_bytes :: "fsys \<Rightarrow> nat \<Rightarrow> u8 list" where
  "file_bytes s i = map (\<lambda>k. ram_buffers s (i * RAMFS_MAX_FILE_SIZE + k)) [0..<unat (rf_size (ram_files s i))]"

lemma length_file_bytes: "length (file_bytes s i) = unat (rf_size (ram_files s i))"
  by (simp add: file_bytes_def)

text \<open>A write through a file at position \<open>p\<close> replaces the bytes from \<open>p\<close> on and leaves the other files.\<close>

lemma wrote_bytes:
  assumes w: "wrote x i buf n s s'" and p: "p = unat (f_pos (heap_files s x))" "p \<le> length (file_bytes s i)"
  shows "file_bytes s' i = take p (file_bytes s i) @ map (\<lambda>k. fs_mem s (buf + of_nat k)) [0..<unat n] @ drop (p + unat n) (file_bytes s i)"
proof (rule nth_equalityI)
  note d = w [unfolded wrote_def Let_def p(1) [symmetric]]
  have sz: "unat (rf_size (ram_files s' i)) = max (unat (rf_size (ram_files s i))) (p + unat n)" using d by simp
  let ?new = "take p (file_bytes s i) @ map (\<lambda>k. fs_mem s (buf + of_nat k)) [0..<unat n] @ drop (p + unat n) (file_bytes s i)"
  show "length (file_bytes s' i) = length ?new" using p(2) sz by (auto simp: length_file_bytes)
  fix k assume "k < length (file_bytes s' i)"
  then have k: "k < max (unat (rf_size (ram_files s i))) (p + unat n)" by (simp add: length_file_bytes sz)
  then have l: "file_bytes s' i ! k = ram_buffers s' (i * 4096 + k)" by (simp add: file_bytes_def sz RAMFS_MAX_FILE_SIZE_def)
  have r: "ram_buffers s' (i * 4096 + k) = (if p \<le> k \<and> k < p + unat n then fs_mem s (buf + of_nat (k - p)) else ram_buffers s (i * 4096 + k))"
    using d by simp
  show "file_bytes s' i ! k = ?new ! k" using k p(2) unfolding l r
    by (auto simp: nth_append length_file_bytes file_bytes_def RAMFS_MAX_FILE_SIZE_def less_diff_conv)
qed

lemma wrote_others:
  assumes w: "wrote x i buf n s s'" and r: "ram_ok s" and j: "j < ram_count s" "j \<noteq> i" and n: "unat (f_pos (heap_files s x)) + unat n \<le> 4096"
  shows "file_bytes s' j = file_bytes s j"
proof -
  define p where "p = unat (f_pos (heap_files s x))"
  note d = w [unfolded wrote_def Let_def p_def [symmetric]]
  have "ram_buffers s' (j * 4096 + k) = ram_buffers s (j * 4096 + k)" if "k < 4096" for k
  proof -
    have "i * 4096 + 4096 \<le> j * 4096 \<or> j * 4096 + 4096 \<le> i * 4096" using j(2) by linarith
    then have "\<not> (i * 4096 + p \<le> j * 4096 + k \<and> j * 4096 + k < i * 4096 + p + unat n)" using that n unfolding p_def [symmetric] by linarith
    then show ?thesis using d by auto
  qed
  then show ?thesis using d j small_size [OF r j(1)] by (auto simp: file_bytes_def RAMFS_MAX_FILE_SIZE_def)
qed

lemma ramfs_read_ok:
  assumes r: "ram_ok s" and i: "i < ram_count s" and x: "f_inode (heap_files s x) = Some (RamInode i)" and b: "buf \<noteq> 0"
    and p: "p = unat (f_pos (heap_files s x))" "p + unat m < 2 ^ 64" and l: "l = min (unat m) (length (file_bytes s i) - p)"
  shows "ramfs_read (Some x) buf m s = Some (int l, upd_file x (\<lambda>f. f\<lparr>f_pos := f_pos f + of_nat l\<rparr>)
    (s\<lparr>fs_mem := \<lambda>a. if unat (a - buf) < l then file_bytes s i ! (p + unat (a - buf)) else fs_mem s a\<rparr>))"
proof -
  define q where "q = f_pos (heap_files s x)"
  define z where "z = (ucast (rf_size (ram_files s i)) :: u64)"
  note e = ram_okD(3) [OF r i] and i2 = ram_okD(2) [OF r] and sz = small_size [OF r i]
  have fp: "i_fs_private (the_inode (RamInode i) s) = Some (RamFile i)" using ram_entryD(2) [OF e] by (simp add: the_inode_def)
  have z: "unat z = length (file_bytes s i)" unfolding z_def length_file_bytes by (rule ucast_back)
  have pq: "p = unat q" by (simp add: p q_def)
  show ?thesis
  proof (cases "p < length (file_bytes s i)")
    case False
    then have "l = 0" and c: "q \<ge> z" using l z pq by (simp_all add: word_le_nat_alt)
    have "ramfs_read (Some x) buf m s = Some (0, s)" unfolding ramfs_read_def Let_def option.case x if_not_P [OF b] fp fptr.case q_def [symmetric] z_def [symmetric] if_P [OF c]
      by (simp split: option.splits)
    then show ?thesis using \<open>l = 0\<close> by (simp add: upd_file_def)
  next
    case True
    then have d: "rf_data (ram_files s i) = Some (i * 4096)" using ram_entryD(3,4,5) [OF e] by (cases "rf_data (ram_files s i)") (auto simp: length_file_bytes)
    have c: "\<not> q \<ge> z" using True z pq by (simp add: word_le_nat_alt)
    define t where "t = (if q + m > z then z - q else m)"
    have "unat (q + m) = p + unat m" using p(2) pq unat_add_lem [of q m] by simp
    then have t: "unat t = l" using True c pq z l by (auto simp: t_def word_less_nat_alt unat_sub word_le_nat_alt)
    have l2: "l \<le> 4096" "p + l \<le> length (file_bytes s i)" using l True sz by (auto simp: length_file_bytes)
    have st: "sint t = int l" using sint_small [of t] l2 t by simp
    have "i * 4096 + p + l \<le> RAMFS_BUFFER_SIZE" using l2 sz i i2 by (simp add: length_file_bytes RAMFS_BUFFER_SIZE_def RAMFS_MAX_FILES_def RAMFS_MAX_FILE_SIZE_def)
    then have co: "copy_out l buf (i * 4096 + p) s
      = Some (s\<lparr>fs_mem := \<lambda>a. if unat (a - buf) < l then ram_buffers s (i * 4096 + p + unat (a - buf)) else fs_mem s a\<rparr>)"
      using l2 by (intro copy_out_eq) simp_all
    have g: "(\<lambda>a. if unat (a - buf) < l then ram_buffers s (i * 4096 + p + unat (a - buf)) else fs_mem s a)
      = (\<lambda>a. if unat (a - buf) < l then file_bytes s i ! (p + unat (a - buf)) else fs_mem s a)"
    proof
      fix a
      show "(if unat (a - buf) < l then ram_buffers s (i * 4096 + p + unat (a - buf)) else fs_mem s a)
        = (if unat (a - buf) < l then file_bytes s i ! (p + unat (a - buf)) else fs_mem s a)"
        using l2(2) by (simp add: file_bytes_def RAMFS_MAX_FILE_SIZE_def add.assoc)
    qed
    have u: "upd_file x (\<lambda>f. f\<lparr>f_pos := q + t\<rparr>) s' = upd_file x (\<lambda>f. f\<lparr>f_pos := f_pos f + of_nat l\<rparr>) s'" if "heap_files s' = heap_files s" for s'
      using that by (simp add: upd_file_def q_def t [symmetric])
    show ?thesis unfolding ramfs_read_def Let_def
      by (simp only: option.case fptr.case x fp if_not_P [OF b] q_def [symmetric] z_def [symmetric] t_def [symmetric] pq [symmetric] d if_not_P [OF c] t co option.map g st)
        (simp add: u)
  qed
qed

subsection \<open>The tree of paths\<close>

lemma walk_snoc: "walk f s (cs @ [c]) cur = (case walk f s cs cur of None \<Rightarrow> None | Some q \<Rightarrow> f (Some q) (Some c) s)"
  by (induction cs arbitrary: cur) (auto split: option.splits)

lemma walk_ram:
  assumes "ram_ok s"
  shows "walk ramfs_lookup s cs (RamInode 0) = Some p \<Longrightarrow> \<exists>j < ram_count s. p = RamInode j"
proof (induction cs arbitrary: p rule: rev_induct)
  case Nil
  then show ?case using ram_okD(1) [OF assms] by auto
next
  case (snoc c cs)
  then obtain q where q: "walk ramfs_lookup s cs (RamInode 0) = Some q" "ramfs_lookup (Some q) (Some c) s = Some p"
    by (auto simp: walk_snoc split: option.splits)
  with snoc.IH obtain i where "i < ram_count s" "q = RamInode i" by blast
  with q(2) lookup_find [OF assms, of i c] show ?case by (auto dest: find_fileD(1))
qed

lemma walk_snocE:
  assumes "ram_ok s" "walk ramfs_lookup s (cs @ [c]) (RamInode 0) = Some (RamInode j)"
  obtains i where "walk ramfs_lookup s cs (RamInode 0) = Some (RamInode i)" "i < ram_count s" "ramfs_find_file (Some (RamFile i)) c s = Some j"
proof -
  from assms(2) obtain q where q: "walk ramfs_lookup s cs (RamInode 0) = Some q" "ramfs_lookup (Some q) (Some c) s = Some (RamInode j)"
    by (auto simp: walk_snoc split: option.splits)
  with walk_ram [OF assms(1) q(1)] that show thesis using lookup_find [OF assms(1), of _ c] by fastforce
qed

lemma no_child:
  assumes "ram_ok s" "ramfs_find_file (Some (RamFile i)) c s = Some j"
  shows "i < j" "j < ram_count s"
proof -
  note f = find_fileD [OF assms(2)]
  show "j < ram_count s" by (rule f(1))
  show "i < j" using ram_okD(4) [OF assms(1) f(1)] f(2) by (auto simp: ram_link_def split: if_splits)
qed

text \<open>A file is reached by one path only.\<close>

lemma walk_inj:
  assumes "ram_ok s"
  shows "walk ramfs_lookup s cs (RamInode 0) = Some (RamInode j) \<Longrightarrow> walk ramfs_lookup s ds (RamInode 0) = Some (RamInode j) \<Longrightarrow> cs = ds"
proof (induction cs arbitrary: j ds rule: rev_induct)
  case Nil
  show ?case
  proof (cases ds rule: rev_cases)
    case (snoc es e)
    with Nil walk_snocE [OF assms, of es e 0] no_child [OF assms] show ?thesis by (metis not_less0 option.inject iptr.inject(1) walk.simps(1))
  qed simp
next
  case (snoc c cs)
  from walk_snocE [OF assms snoc.prems(1)] obtain i where i: "walk ramfs_lookup s cs (RamInode 0) = Some (RamInode i)" "ramfs_find_file (Some (RamFile i)) c s = Some j" by blast
  show ?case
  proof (cases ds rule: rev_cases)
    case Nil
    then show ?thesis using snoc.prems(2) no_child [OF assms i(2)] by simp
  next
    case (snoc es e)
    with walk_snocE [OF assms, of es e j] snoc.prems(2) obtain k where
      k: "walk ramfs_lookup s es (RamInode 0) = Some (RamInode k)" "ramfs_find_file (Some (RamFile k)) e s = Some j" by blast
    have "k = i" "e = c" using find_fileD(2,3) [OF i(2)] find_fileD(2,3) [OF k(2)] by simp_all
    then show ?thesis using snoc.IH [OF i(1)] k(1) snoc by simp
  qed
qed

lemma walk_entered:
  assumes r: "ram_ok s" "ram_ok s'" and e: "entered_file i nm s s'" and n: "ramfs_find_file (Some (RamFile i)) nm s = None"
    and w: "walk ramfs_lookup s cs (RamInode 0) = Some (RamInode i)" and i: "i < ram_count s"
  shows "walk ramfs_lookup s' ds (RamInode 0) = (if ds = cs @ [nm] then Some (RamInode (ram_count s)) else walk ramfs_lookup s ds (RamInode 0))"
proof (induction ds rule: rev_induct)
  case (snoc d ds)
  have cnt: "ram_count s' = Suc (ram_count s)" using e by (simp add: entered_file_def)
  have l: "ramfs_lookup (Some (RamInode k)) (Some d) s' = map_option RamInode (if k = i \<and> d = nm then Some (ram_count s) else ramfs_find_file (Some (RamFile k)) d s)"
    if "k < Suc (ram_count s)" for k
    using lookup_find [OF r(2), of k d] that cnt find_entered [OF e n, of "Some (RamFile k)" d] by simp
  show ?case
  proof (cases "ds = cs @ [nm]")
    case True
    have "ramfs_find_file (Some (RamFile (ram_count s))) d s = None" using no_child [OF r(1)] by (metis not_less_iff_gr_or_eq option.exhaust)
    moreover have "walk ramfs_lookup s' ds (RamInode 0) = Some (RamInode (ram_count s))" using True snoc by simp
    ultimately have "walk ramfs_lookup s' (ds @ [d]) (RamInode 0) = None" using i l [of "ram_count s"] by (simp add: walk_snoc)
    moreover have "walk ramfs_lookup s ds (RamInode 0) = None" using True w n lookup_find [OF r(1) i, of nm] by (simp add: walk_snoc)
    then have "walk ramfs_lookup s (ds @ [d]) (RamInode 0) = None" by (simp add: walk_snoc)
    ultimately show ?thesis using True by simp
  next
    case False
    show ?thesis
    proof (cases "walk ramfs_lookup s ds (RamInode 0)")
      case None
      then show ?thesis using False snoc w by (auto simp: walk_snoc)
    next
      case (Some q)
      from walk_ram [OF r(1) Some] obtain k where k: "k < ram_count s" "q = RamInode k" by blast
      have "k = i \<longleftrightarrow> ds = cs" using walk_inj [OF r(1) w, of ds] Some k(2) w by auto
      then show ?thesis using False snoc Some k l [of k] lookup_find [OF r(1) k(1), of d] by (simp add: walk_snoc)
    qed
  qed
qed simp

subsection \<open>Creating a file\<close>

lemma join_snoc: "cs \<noteq> [] \<Longrightarrow> join_path (cs @ [nm]) = join_path cs @ slash # nm"
  by (induction cs rule: join_path.induct) auto

lemma split_join:
  assumes "\<forall>c \<in> set (cs @ [nm]). good_name c" "length (join_path cs) < 255"
  shows "split_path (slash # join_path (cs @ [nm])) = (if cs = [] then None else Some (slash # join_path cs), nm)"
proof -
  have g: "slash \<notin> set nm" "length nm \<le> 63" "nm \<noteq> []" using assms(1) by (simp_all add: good_name_def)
  define q where "q = (if cs = [] then [] else slash # join_path cs)"
  have p: "slash # join_path (cs @ [nm]) = q @ slash # nm" using join_snoc [of cs nm] by (auto simp: q_def)
  have "takeWhile (\<lambda>c. c \<noteq> slash) (rev nm @ slash # rev q) = rev nm" using g(1) by (subst takeWhile_append2) auto
  then have t: "rev (takeWhile (\<lambda>c. c \<noteq> slash) (rev (q @ slash # nm))) = nm" by simp
  have l: "length (q @ slash # nm) - length nm = Suc (length q)" by simp
  have d: "dropWhile (\<lambda>c. c = slash) nm = nm" using dropWhile_name [of nm "[]"] g by simp
  have "length q \<le> 255" "q = [] \<longleftrightarrow> cs = []" using assms(2) by (auto simp: q_def)
  then show ?thesis unfolding p split_path_def Let_def t l using g d by (auto simp: q_def)
qed

lemma parent_walk:
  assumes v: "rooted addr v" and g: "\<forall>c \<in> set (cs @ [nm]). good_name c" "length (join_path cs) < 255"
    and w: "walk ramfs_lookup (fsys_of v) cs (RamInode 0) = Some p"
  shows "parent_inode (slash # join_path (cs @ [nm])) (mount_table v 0) v = Some (Some p)"
proof (cases "cs = []")
  case True
  then show ?thesis using v w split_join [OF g] by (simp add: parent_inode_def rooted_def)
next
  case False
  then show ?thesis using lookup_walk [OF v, of cs] g(1) w split_join [OF g] by (simp add: parent_inode_def)
qed

text \<open>What an update of an inode that keeps its links, and of the file structures, leaves as it is.\<close>

definition same_tree :: "fsys \<Rightarrow> fsys \<Rightarrow> bool" where
  "same_tree s s' \<longleftrightarrow> ram_count s' = ram_count s \<and> ram_files s' = ram_files s \<and> ram_buffers s' = ram_buffers s
     \<and> (\<forall>j. i_fs_private (ram_inodes s' j) = i_fs_private (ram_inodes s j) \<and> i_parent (ram_inodes s' j) = i_parent (ram_inodes s j))"

lemma same_tree_trans: "same_tree s s' \<Longrightarrow> same_tree s' s'' \<Longrightarrow> same_tree s s''"
  by (simp add: same_tree_def)

lemma same_treeD:
  assumes "same_tree s s'"
  shows "ram_ok s' \<longleftrightarrow> ram_ok s" "file_bytes s' i = file_bytes s i" "ram_count s' = ram_count s"
proof -
  note t = assms [unfolded same_tree_def]
  have f: "ram_files s' = ram_files s" "ram_count s' = ram_count s" using t by blast+
  have "ram_entry s' j \<longleftrightarrow> ram_entry s j" "ram_link s' j \<longleftrightarrow> ram_link s j" for j
    using t unfolding ram_entry_def ram_link_def f by simp_all
  then show "ram_ok s' \<longleftrightarrow> ram_ok s" by (simp add: ram_ok_def f)
qed (use assms in \<open>simp_all add: same_tree_def file_bytes_def\<close>)

lemma walk_cong:
  assumes "ram_ok s" "ram_ok s'" "ram_count s' = ram_count s" "\<forall>j. rf_name (ram_files s' j) = rf_name (ram_files s j) \<and> rf_parent (ram_files s' j) = rf_parent (ram_files s j)"
  shows "walk ramfs_lookup s' cs (RamInode 0) = walk ramfs_lookup s cs (RamInode 0)"
proof (induction cs rule: rev_induct)
  case (snoc c cs)
  have f: "ramfs_find_file p c s' = ramfs_find_file p c s" for p using assms(3,4) by (simp add: ramfs_find_file_def)
  show ?case
  proof (cases "walk ramfs_lookup s cs (RamInode 0)")
    case None
    then show ?thesis using snoc by (simp add: walk_snoc)
  next
    case (Some q)
    from walk_ram [OF assms(1) Some] obtain k where k: "k < ram_count s" "q = RamInode k" by blast
    have "ramfs_lookup (Some q) (Some c) s' = ramfs_lookup (Some q) (Some c) s"
      using lookup_find [OF assms(2), of k c] lookup_find [OF assms(1), of k c] assms(3) k f by simp
    then show ?thesis using snoc Some by (simp add: walk_snoc)
  qed
qed simp

lemma walk_same: "same_tree s s' \<Longrightarrow> ram_ok s \<Longrightarrow> walk ramfs_lookup s' cs (RamInode 0) = walk ramfs_lookup s cs (RamInode 0)"
  using walk_cong [of s s' cs] same_treeD(1) [of s s'] by (simp add: same_tree_def)

lemma same_tree_upd:
  "(\<And>y. i_fs_private (f y) = i_fs_private y \<and> i_parent (f y) = i_parent y) \<Longrightarrow> same_tree s (upd_inode p f s)"
  "same_tree s (upd_file x g s)" "same_tree s (s\<lparr>fs_kmem := km\<rparr>)" "same_tree s (s\<lparr>fs_mem := m\<rparr>)"
  by (cases p; auto simp: same_tree_def upd_inode_def upd_file_def)+

text \<open>Opening an inode allocates a file structure, or fails when no page is left.\<close>

definition opened :: "iptr \<Rightarrow> u64 \<Rightarrow> vfs \<Rightarrow> (nat \<times> u64) set \<Rightarrow> u64 option \<Rightarrow> vfs \<Rightarrow> (nat \<times> u64) set \<Rightarrow> bool" where
  "opened p pos v L r v' L' \<longleftrightarrow>
     (case r of
        None \<Rightarrow> L' = L \<and> fst (alloc_page (sframes (fs_kmem (fsys_of v)))) = 0
      | Some x \<Rightarrow> (\<exists>c. kclass sizeof_file c \<and> (c, x) \<notin> L \<and> L' = insert (c, x) L)
          \<and> f_inode (heap_files (fsys_of v') x) = Some p
          \<and> f_pos (heap_files (fsys_of v') x) = pos)"

lemma open_inode_ok:
  assumes k: "kbuddy (fs_kmem (fsys_of v)) L" and r: "rooted addr v"
  shows "\<exists>r v' L'. open_inode p flags v = Some (r, v') \<and> rooted addr v' \<and> kbuddy (fs_kmem (fsys_of v')) L' \<and> same_tree (fsys_of v) (fsys_of v')
    \<and> opened p (if flags AND O_APPEND \<noteq> 0 then i_size (the_inode p (fsys_of v)) else 0) v L r v' L'
    \<and> (r \<noteq> None \<longrightarrow> flags AND O_TRUNC \<noteq> 0 \<longrightarrow> i_size (the_inode p (fsys_of v')) = 0) \<and> fs_mem (fsys_of v') = fs_mem (fsys_of v)
    \<and> (\<forall>j. i_mode (ram_inodes (fsys_of v') j) = i_mode (ram_inodes (fsys_of v) j))"
proof -
  from buddy_frames.kmalloc_ok [OF k [unfolded kbuddy_def], of sizeof_file] obtain w km where
    m: "kmalloc alloc_page sizeof_file (fs_kmem (fsys_of v)) = Some (w, km)"
    and c: "case w of None \<Rightarrow> km = fs_kmem (fsys_of v) \<and> (sizeof_file = 0 \<or> 2048 < sizeof_file \<or> fst (alloc_page (sframes (fs_kmem (fsys_of v)))) = 0)
       | Some x \<Rightarrow> \<exists>c. kclass sizeof_file c \<and> (c, x) \<notin> L \<and> kmalloc_inv (\<lambda>b. \<exists>M. manages b M) owned_frames km (insert (c, x) L)" by blast
  have nm: "vfs_find_mount [] w = None" if "mount_table w = mount_table v" "num_mounts w = num_mounts v" for w
    using find_mount_root(2) [of addr w] r that by (simp add: rooted_def)
  show ?thesis
  proof (cases w)
    case None
    with c have "km = fs_kmem (fsys_of v)" "fst (alloc_page (sframes (fs_kmem (fsys_of v)))) = 0" by (auto simp: sizeof_file_def)
    then show ?thesis using m None k r by (simp add: open_inode_def opened_def same_tree_def rooted_def)
  next
    case (Some x)
    with c obtain cl where cl: "kclass sizeof_file cl" "(cl, x) \<notin> L" "kbuddy km (insert (cl, x) L)" by (auto simp: kbuddy_def)
    let ?s = "(fsys_of v)\<lparr>fs_kmem := km\<rparr>"
    let ?f = "\<lambda>f. f\<lparr>f_inode := Some p, f_pos := (if flags AND O_APPEND \<noteq> 0 then i_size (the_inode p ?s) else 0), f_flags := of_int flags, f_private := 0\<rparr>"
    let ?s1 = "upd_file x ?f ?s"
    define s2 where "s2 = (if flags AND O_TRUNC = 0 then ?s1 else upd_inode p (\<lambda>i. i\<lparr>i_size := 0\<rparr>) ?s1)"
    have o: "open_inode p flags v = Some (Some x, v\<lparr>fsys_of := s2\<rparr>)"
      by (simp add: open_inode_def m Some Let_def nm s2_def)
    have t: "same_tree (fsys_of v) s2"
      unfolding s2_def using same_tree_trans [OF same_tree_upd(3) [of "fsys_of v" km] same_tree_upd(2) [of ?s x ?f]] same_tree_upd(1) [of "\<lambda>i. i\<lparr>i_size := 0\<rparr>" ?s1 p]
      by (auto intro: same_tree_trans)
    have h: "fs_kmem s2 = km" "fs_mem s2 = fs_mem (fsys_of v)" "f_inode (heap_files s2 x) = Some p" "flags AND O_TRUNC \<noteq> 0 \<longrightarrow> i_size (the_inode p s2) = 0"
      "\<forall>j. i_mode (ram_inodes s2 j) = i_mode (ram_inodes (fsys_of v) j)" "f_pos (heap_files s2 x) = (if flags AND O_APPEND \<noteq> 0 then i_size (the_inode p (fsys_of v)) else 0)"
      by (cases p; simp add: s2_def upd_file_def upd_inode_def the_inode_def)+
    show ?thesis by (rule exI [of _ "Some x"], rule exI [of _ "v\<lparr>fsys_of := s2\<rparr>"], rule exI [of _ "insert (cl, x) L"]) (use o t h cl r in \<open>auto simp: opened_def rooted_def\<close>)
  qed
qed

lemma open_create_ok:
  assumes v: "rooted addr v" "ram_ok (fsys_of v)" and g: "\<forall>c \<in> set (cs @ [nm]). good_name c" "length (join_path cs) < 255"
    and d: "walk ramfs_lookup (fsys_of v) cs (RamInode 0) = Some (RamInode i)" "walk ramfs_lookup (fsys_of v) (cs @ [nm]) (RamInode 0) = None"
    and n: "ram_count (fsys_of v) < 256"
  shows "\<exists>s s1. open_create (slash # join_path (cs @ [nm])) v = Some (Inr (Some (RamInode (ram_count (fsys_of v))), v\<lparr>fsys_of := s1\<rparr>))
    \<and> ram_ok s \<and> entered_file i nm (fsys_of v) s \<and> same_tree s s1 \<and> fs_kmem s1 = fs_kmem s \<and> fs_mem s1 = fs_mem s
    \<and> i_size (ram_inodes s1 (ram_count (fsys_of v))) = 0 \<and> i_mode (ram_inodes s1 (ram_count (fsys_of v))) = S_IFREG OR 0x1A4
    \<and> (\<forall>ds. walk ramfs_lookup s ds (RamInode 0) = (if ds = cs @ [nm] then Some (RamInode (ram_count (fsys_of v))) else walk ramfs_lookup (fsys_of v) ds (RamInode 0)))"
proof -
  let ?s = "fsys_of v" and ?p = "slash # join_path (cs @ [nm])"
  let ?n = "ram_count ?s"
  from walk_ram [OF v(2) d(1)] have i: "i < ?n" by auto
  have f: "ramfs_find_file (Some (RamFile i)) nm ?s = None" using d lookup_find [OF v(2) i, of nm] by (simp add: walk_snoc)
  have l: "length nm \<le> 63" using g(1) by (simp add: good_name_def)
  from ramfs_mkdir_ok [OF v(2) i n f l, where mode = "0x1A4"] obtain s where
    s: "ramfs_mkdir (Some (RamInode i)) nm 0x1A4 ?s = Some (0, s)" "ram_ok s" "entered_file i nm ?s s" "i_mode (ram_inodes s ?n) = S_IFDIR OR 0x1A4" by blast
  have w: "walk ramfs_lookup s ds (RamInode 0) = (if ds = cs @ [nm] then Some (RamInode ?n) else walk ramfs_lookup ?s ds (RamInode 0))" for ds
    by (rule walk_entered [OF v(2) s(2,3) f d(1) i])
  let ?f = "\<lambda>i :: inode. i\<lparr>i_mode := (i_mode i AND NOT S_IFMT) OR S_IFREG\<rparr>"
  define s1 where "s1 = upd_inode (RamInode ?n) ?f s"
  have r: "rooted addr (v\<lparr>fsys_of := s\<rparr>)" using v(1) by (simp add: rooted_def)
  have look: "vfs_lookup_path (Some ?p) (v\<lparr>fsys_of := s\<rparr>) = Some (RamInode ?n)" using lookup_walk [OF r g(1)] w by simp
  have op: "op_mkdir (mp_ops (mount_table v 0)) = Some ramfs_mkdir" using v(1) by (simp add: rooted_def ramfs_ops_def)
  have sn: "snd (split_path ?p) = nm" unfolding split_join [OF g] by simp
  have "open_create ?p v = Some (Inr (Some (RamInode ?n), v\<lparr>fsys_of := s1\<rparr>))"
    unfolding open_create_def find_mount_root(1) [OF v(1)] parent_walk [OF v(1) g d(1)] op sn option.case s(1)
    by (simp add: look s1_def)
  moreover have "same_tree s s1" unfolding s1_def by (rule same_tree_upd(1)) simp
  moreover have "fs_kmem s1 = fs_kmem s" "fs_mem s1 = fs_mem s" "i_size (ram_inodes s1 ?n) = 0" using s(3) by (simp_all add: s1_def upd_inode_def entered_file_def)
  moreover have "i_mode (ram_inodes s1 ?n) = S_IFREG OR 0x1A4" using s(4) by (simp add: s1_def upd_inode_def S_IFDIR_def S_IFMT_def S_IFREG_def)
  ultimately show ?thesis using s w by blast
qed

lemma bytes_entered:
  assumes "entered_file i nm s s'"
  shows "file_bytes s' (ram_count s) = []" "j < ram_count s \<Longrightarrow> file_bytes s' j = file_bytes s j"
  using assms by (simp_all add: file_bytes_def entered_file_def)

lemma vfs_open_new:
  assumes "n = ram_count (fsys_of v)" "fs_ok addr v L" "\<forall>c \<in> set (cs @ [nm]). good_name c" "length (join_path cs) < 255"
    and "vfs_lookup_path (Some (slash # join_path cs)) v = Some dir" "vfs_lookup_path (Some (slash # join_path (cs @ [nm]))) v = None"
    and "n < RAMFS_MAX_FILES" "flags AND O_CREAT \<noteq> 0"
  shows "\<exists>r v' L'. vfs_open (Some (slash # join_path (cs @ [nm]))) flags v = Some (r, v') \<and> fs_ok addr v' L' \<and> opened (RamInode n) 0 v L r v' L'
    \<and> (\<forall>ds. (\<forall>c \<in> set ds. good_name c) \<longrightarrow>
          vfs_lookup_path (Some (slash # join_path ds)) v' = (if ds = cs @ [nm] then Some (RamInode n) else vfs_lookup_path (Some (slash # join_path ds)) v))
    \<and> file_bytes (fsys_of v') n = [] \<and> (\<forall>j < n. file_bytes (fsys_of v') j = file_bytes (fsys_of v) j)
    \<and> fs_mem (fsys_of v') = fs_mem (fsys_of v) \<and> i_mode (ram_inodes (fsys_of v') n) = S_IFREG OR 0x1A4"
proof -
  let ?p = "slash # join_path (cs @ [nm])"
  have v: "rooted addr v" "ram_ok (fsys_of v)" "kbuddy (fs_kmem (fsys_of v)) L" using assms(2) by (simp_all add: fs_ok_def)
  have w: "walk ramfs_lookup (fsys_of v) cs (RamInode 0) = Some dir" "walk ramfs_lookup (fsys_of v) (cs @ [nm]) (RamInode 0) = None"
    using assms(5,6) lookup_walk [OF v(1), of cs] lookup_walk [OF v(1) assms(3)] assms(3) by simp_all
  from walk_ram [OF v(2) w(1)] obtain i where i: "dir = RamInode i" by blast
  from open_create_ok [OF v(1,2) assms(3,4) w(1) [unfolded i] w(2)] assms(1,7) obtain s s1 where
    c: "open_create ?p v = Some (Inr (Some (RamInode n), v\<lparr>fsys_of := s1\<rparr>))"
    and s: "ram_ok s" "entered_file i nm (fsys_of v) s" "same_tree s s1" "fs_kmem s1 = fs_kmem s" "i_size (ram_inodes s1 n) = 0" "fs_mem s1 = fs_mem s"
      "i_mode (ram_inodes s1 n) = S_IFREG OR 0x1A4"
    and ws: "\<And>ds. walk ramfs_lookup s ds (RamInode 0) = (if ds = cs @ [nm] then Some (RamInode n) else walk ramfs_lookup (fsys_of v) ds (RamInode 0))"
    by (auto simp: RAMFS_MAX_FILES_def)
  have km: "fs_kmem s1 = fs_kmem (fsys_of v)" using s(2,4) by (simp add: entered_file_def)
  let ?v1 = "v\<lparr>fsys_of := s1\<rparr>"
  have r1: "rooted addr ?v1" using v(1) by (simp add: rooted_def)
  from open_inode_ok [of ?v1 L addr "RamInode n" flags] v(3) km r1 obtain r v' L' where
    o: "open_inode (RamInode n) flags ?v1 = Some (r, v')" "rooted addr v'" "kbuddy (fs_kmem (fsys_of v')) L'" "same_tree s1 (fsys_of v')"
      "opened (RamInode n) 0 ?v1 L r v' L'" "fs_mem (fsys_of v') = fs_mem s1" "i_mode (ram_inodes (fsys_of v') n) = i_mode (ram_inodes s1 n)"
    using s(5) by (auto simp: the_inode_def split: if_splits)
  have t: "same_tree s (fsys_of v')" using same_tree_trans [OF s(3) o(4)] .
  note st = same_treeD [OF t]
  have "vfs_open (Some ?p) flags v = Some (r, v')" using assms(6,8) c o(1) by (simp add: vfs_open_def)
  moreover have "fs_ok addr v' L'" using o(2,3) st(1) s(1) by (simp add: fs_ok_def)
  moreover have "opened (RamInode n) 0 v L r v' L'" using o(5) km by (simp add: opened_def split: option.splits)
  moreover have "vfs_lookup_path (Some (slash # join_path ds)) v' = (if ds = cs @ [nm] then Some (RamInode n) else vfs_lookup_path (Some (slash # join_path ds)) v)"
    if "\<forall>c \<in> set ds. good_name c" for ds
    using lookup_walk [OF o(2) that] lookup_walk [OF v(1) that] walk_same [OF t s(1), of ds] ws [of ds] by simp
  moreover have "file_bytes (fsys_of v') n = []" "\<forall>j < n. file_bytes (fsys_of v') j = file_bytes (fsys_of v) j"
    using bytes_entered [OF s(2)] st(2) assms(1) by simp_all
  moreover have "fs_mem (fsys_of v') = fs_mem (fsys_of v)" using o(6) s(2,6) by (simp add: entered_file_def)
  moreover have "i_mode (ram_inodes (fsys_of v') n) = S_IFREG OR 0x1A4" using o(7) s(7) by simp
  ultimately show ?thesis by blast
qed

lemma unat_less: "unat (m :: u64) < 2 ^ 64"
  using unsigned_less [of m, where ?'a = nat] by simp

subsection \<open>Reading and writing through the VFS\<close>

lemma root_ops:
  assumes "rooted addr v"
  shows "vfs_find_mount [slash] v = Some (mount_table v 0)" "op_read (mp_ops (mount_table v 0)) = Some ramfs_read" "op_write (mp_ops (mount_table v 0)) = Some ramfs_write"
  using assms find_mount_root(1) [OF assms, of "[]"] by (simp_all add: rooted_def ramfs_ops_def)

lemma vfs_write_ok:
  assumes v: "fs_ok addr v L" and i: "i < ram_count (fsys_of v)" and x: "f_inode (heap_files (fsys_of v) x) = Some (RamInode i)" and b: "buf \<noteq> 0"
    and n: "unat (f_pos (heap_files (fsys_of v) x)) + unat n \<le> 4096"
  shows "\<exists>s. vfs_write (Some x) buf n v = Some (int (unat n), v\<lparr>fsys_of := s\<rparr>) \<and> fs_ok addr (v\<lparr>fsys_of := s\<rparr>) L \<and> ram_ok s \<and> wrote x i buf n (fsys_of v) s"
proof -
  have r: "rooted addr v" "ram_ok (fsys_of v)" "kbuddy (fs_kmem (fsys_of v)) L" using v by (simp_all add: fs_ok_def)
  from ramfs_write_ok [OF r(2) i x b n] obtain s where
    s: "ramfs_write (Some x) buf n (fsys_of v) = Some (int (unat n), s)" "ram_ok s" "wrote x i buf n (fsys_of v) s" by blast
  have p: "i_fs_private (the_inode (RamInode i) (fsys_of v)) \<noteq> None" using ram_entryD(2) [OF ram_okD(3) [OF r(2) i]] by (simp add: the_inode_def)
  have "vfs_write (Some x) buf n v = Some (int (unat n), v\<lparr>fsys_of := s\<rparr>)"
    unfolding vfs_write_def option.case x if_not_P [OF p] root_ops [OF r(1)] s(1) by simp
  moreover have "fs_ok addr (v\<lparr>fsys_of := s\<rparr>) L" using r s(2,3) by (auto simp: fs_ok_def rooted_def wrote_def Let_def)
  ultimately show ?thesis using s by blast
qed

text \<open>What a read of \<open>l\<close> bytes from position \<open>p\<close> of file \<open>i\<close> through the file \<open>x\<close> makes of the state.\<close>

definition have_read :: "u64 \<Rightarrow> nat \<Rightarrow> u64 \<Rightarrow> nat \<Rightarrow> nat \<Rightarrow> fsys \<Rightarrow> fsys" where
  "have_read x i buf p l s = upd_file x (\<lambda>f. f\<lparr>f_pos := f_pos f + of_nat l\<rparr>)
     (s\<lparr>fs_mem := \<lambda>a. if unat (a - buf) < l then file_bytes s i ! (p + unat (a - buf)) else fs_mem s a\<rparr>)"

lemma have_read_same: "same_tree s (have_read x i buf p l s)" "fs_kmem (have_read x i buf p l s) = fs_kmem s"
  by (simp_all add: have_read_def same_tree_def upd_file_def)

lemma have_read_mem:
  assumes "k < l" "l < 2 ^ 64"
  shows "fs_mem (have_read x i buf p l s) (buf + of_nat k) = file_bytes s i ! (p + k)"
proof -
  have "unat (of_nat k :: u64) = k" using assms by (simp add: unsigned_of_nat take_bit_nat_eq_self)
  then show ?thesis using assms by (simp add: have_read_def upd_file_def)
qed

lemma vfs_read_eq:
  assumes v: "fs_ok addr v L" and i: "i < ram_count (fsys_of v)" and x: "f_inode (heap_files (fsys_of v) x) = Some (RamInode i)" and b: "buf \<noteq> 0"
    and p: "p = unat (f_pos (heap_files (fsys_of v) x))" "p + unat m < 2 ^ 64" and l: "l = min (unat m) (length (file_bytes (fsys_of v) i) - p)"
  shows "vfs_read (Some x) buf m v = Some (int l, v\<lparr>fsys_of := have_read x i buf p l (fsys_of v)\<rparr>)"
proof -
  have r: "rooted addr v" "ram_ok (fsys_of v)" using v by (simp_all add: fs_ok_def)
  have e: "i_fs_private (the_inode (RamInode i) (fsys_of v)) \<noteq> None" using ram_entryD(2) [OF ram_okD(3) [OF r(2) i]] by (simp add: the_inode_def)
  have "ramfs_read (Some x) buf m (fsys_of v) = Some (int l, have_read x i buf p l (fsys_of v))"
    unfolding have_read_def by (rule ramfs_read_ok [OF r(2) i x b p l])
  then show ?thesis unfolding vfs_read_def option.case x if_not_P [OF e] root_ops [OF r(1)] by simp
qed

lemma fs_ok_same: "fs_ok addr v L \<Longrightarrow> same_tree (fsys_of v) s \<Longrightarrow> fs_kmem s = fs_kmem (fsys_of v) \<Longrightarrow> fs_ok addr (v\<lparr>fsys_of := s\<rparr>) L"
  using same_treeD(1) [of "fsys_of v" s] by (simp add: fs_ok_def rooted_def)

lemma vfs_read_ok:
  assumes v: "fs_ok addr v L" and i: "i < ram_count (fsys_of v)" and x: "f_inode (heap_files (fsys_of v) x) = Some (RamInode i)" and b: "buf \<noteq> 0"
    and p: "p = unat (f_pos (heap_files (fsys_of v) x))" "p + unat m < 2 ^ 64" and l: "l = min (unat m) (length (file_bytes (fsys_of v) i) - p)"
  shows "\<exists>v'. vfs_read (Some x) buf m v = Some (int l, v') \<and> fs_ok addr v' L
    \<and> (\<forall>k < l. fs_mem (fsys_of v') (buf + of_nat k) = file_bytes (fsys_of v) i ! (p + k))"
  using vfs_read_eq [OF assms] fs_ok_same [OF v have_read_same] have_read_mem [of _ l x i buf p "fsys_of v"] l p(2) by auto

text \<open>Opening a path that exists.\<close>

lemma vfs_open_existing:
  assumes v: "fs_ok addr v L" and g: "\<forall>c \<in> set ds. good_name c" and d: "vfs_lookup_path (Some (slash # join_path ds)) v = Some (RamInode i)"
    and o: "vfs_open (Some (slash # join_path ds)) flags v = Some (Some y, v')"
  shows "\<exists>L'. fs_ok addr v' L' \<and> i < ram_count (fsys_of v') \<and> file_bytes (fsys_of v') i = file_bytes (fsys_of v) i
    \<and> f_inode (heap_files (fsys_of v') y) = Some (RamInode i)
    \<and> f_pos (heap_files (fsys_of v') y) = (if flags AND O_APPEND \<noteq> 0 then i_size (ram_inodes (fsys_of v) i) else 0)
    \<and> (flags AND O_TRUNC \<noteq> 0 \<longrightarrow> i_size (ram_inodes (fsys_of v') i) = 0)"
proof -
  have r: "rooted addr v" "ram_ok (fsys_of v)" "kbuddy (fs_kmem (fsys_of v)) L" using v by (simp_all add: fs_ok_def)
  have i: "i < ram_count (fsys_of v)" using walk_ram [OF r(2), of ds] d lookup_walk [OF r(1) g] by auto
  from open_inode_ok [OF r(3,1), of "RamInode i" flags] o d obtain L' where
    "rooted addr v'" "kbuddy (fs_kmem (fsys_of v')) L'" and t: "same_tree (fsys_of v) (fsys_of v')"
    and p: "opened (RamInode i) (if flags AND O_APPEND \<noteq> 0 then i_size (the_inode (RamInode i) (fsys_of v)) else 0) v L (Some y) v' L'"
      "flags AND O_TRUNC \<noteq> 0 \<longrightarrow> i_size (the_inode (RamInode i) (fsys_of v')) = 0"
    by (auto simp: vfs_open_def)
  then show ?thesis using same_treeD [OF t] r i by (intro exI [of _ L']) (auto simp: fs_ok_def opened_def the_inode_def)
qed

lemma vfs_write_spec:
  assumes "fs_ok addr v L" "\<forall>c \<in> set ds. good_name c" "vfs_lookup_path (Some (slash # join_path ds)) v = Some (RamInode i)"
    and "f_inode (heap_files (fsys_of v) x) = Some (RamInode i)" "buf \<noteq> 0"
    and "p = unat (f_pos (heap_files (fsys_of v) x))" "p + unat n \<le> RAMFS_MAX_FILE_SIZE" "old = file_bytes (fsys_of v) i" "p \<le> length old"
    and "new = take p old @ map (\<lambda>k. fs_mem (fsys_of v) (buf + of_nat k)) [0..<unat n] @ drop (p + unat n) old"
  shows "\<exists>v1. vfs_write (Some x) buf n v = Some (int (unat n), v1) \<and> fs_ok addr v1 L \<and> fs_kmem (fsys_of v1) = fs_kmem (fsys_of v)
    \<and> file_bytes (fsys_of v1) i = new \<and> unat (f_pos (heap_files (fsys_of v1) x)) = p + unat n
    \<and> (\<forall>j < ram_count (fsys_of v). j \<noteq> i \<longrightarrow> file_bytes (fsys_of v1) j = file_bytes (fsys_of v) j)
    \<and> (\<forall>es. (\<forall>c \<in> set es. good_name c) \<longrightarrow> vfs_lookup_path (Some (slash # join_path es)) v1 = vfs_lookup_path (Some (slash # join_path es)) v)"
proof -
  have r: "rooted addr v" "ram_ok (fsys_of v)" using assms(1) by (simp_all add: fs_ok_def)
  have i: "i < ram_count (fsys_of v)" using walk_ram [OF r(2), of ds] assms(3) lookup_walk [OF r(1) assms(2)] by auto
  have n: "unat (f_pos (heap_files (fsys_of v) x)) + unat n \<le> 4096" using assms(6,7) by (simp add: RAMFS_MAX_FILE_SIZE_def)
  from vfs_write_ok [OF assms(1) i assms(4,5) n] obtain s where
    w: "vfs_write (Some x) buf n v = Some (int (unat n), v\<lparr>fsys_of := s\<rparr>)" "fs_ok addr (v\<lparr>fsys_of := s\<rparr>) L" "ram_ok s" "wrote x i buf n (fsys_of v) s" by blast
  let ?v1 = "v\<lparr>fsys_of := s\<rparr>"
  have new: "file_bytes s i = new" using wrote_bytes [OF w(4) assms(6)] assms(8,9,10) by simp
  have c: "ram_count s = ram_count (fsys_of v)" "unat (f_pos (heap_files s x)) = p + unat n" using w(4) small_sum [OF n] assms(6) by (auto simp: wrote_def Let_def)
  have look: "vfs_lookup_path (Some (slash # join_path es)) ?v1 = vfs_lookup_path (Some (slash # join_path es)) v" if "\<forall>c \<in> set es. good_name c" for es
  proof -
    have "rooted addr ?v1" using w(2) by (simp add: fs_ok_def)
    moreover have "walk ramfs_lookup s es (RamInode 0) = walk ramfs_lookup (fsys_of v) es (RamInode 0)"
      by (rule walk_cong [OF r(2) w(3) c(1)]) (use w(4) in \<open>simp add: wrote_def Let_def\<close>)
    ultimately show ?thesis using lookup_walk [OF _ that] r(1) by simp
  qed
  have "fs_kmem s = fs_kmem (fsys_of v)" using w(4) by (simp add: wrote_def Let_def)
  then show ?thesis by (intro exI [of _ ?v1]) (use w(1,2) new c wrote_others [OF w(4) r(2) _ _ n] look in auto)
qed

text \<open>Reading a file that was just opened.\<close>

lemma vfs_open_read:
  assumes "fs_ok addr v L" "\<forall>c \<in> set ds. good_name c" "vfs_lookup_path (Some (slash # join_path ds)) v = Some (RamInode i)"
    and "vfs_open (Some (slash # join_path ds)) flags v = Some (Some y, v1)" "flags AND O_APPEND = 0" "dst \<noteq> 0"
    and "bs = file_bytes (fsys_of v) i"
  shows "\<exists>v2. vfs_read (Some y) dst m v1 = Some (int (min (unat m) (length bs)), v2)
    \<and> (\<forall>k < min (unat m) (length bs). fs_mem (fsys_of v2) (dst + of_nat k) = bs ! k)"
proof -
  from vfs_open_existing [OF assms(1-4)] assms(5,7) obtain L' where
    o: "fs_ok addr v1 L'" "i < ram_count (fsys_of v1)" "file_bytes (fsys_of v1) i = bs" "f_inode (heap_files (fsys_of v1) y) = Some (RamInode i)"
      "f_pos (heap_files (fsys_of v1) y) = 0" by auto
  from vfs_read_ok [OF o(1,2,4) assms(6), of 0 m] o(3,5) unat_less [of m] show ?thesis by auto
qed

subsection \<open>The file systems after boot\<close>

text \<open>The static data before \<^verbatim>\<open>drivers_init\<close>, over a memory allocator \<open>km\<close>.\<close>

definition bss_inode :: inode where
  "bss_inode = \<lparr>i_ino = 0, i_mode = 0, i_nlink = 0, i_uid = 0, i_gid = 0, i_size = 0, i_atime = 0, i_mtime = 0, i_ctime = 0, i_blksize = 0,
     i_blocks = 0, i_fs_private = None, i_parent = None, i_next = None\<rparr>"

definition bss_ops :: fs_ops where
  "bss_ops = \<lparr>op_mount = None, op_unmount = None, op_read_inode = None, op_write_inode = None, op_read = None, op_write = None, op_mkdir = None,
     op_rmdir = None, op_readdir = None, op_lookup = None, op_name = None\<rparr>"

definition bss_fsys :: "buddy slabs \<Rightarrow> fsys" where
  "bss_fsys km =
     \<lparr>ram_files = (\<lambda>_. \<lparr>rf_name = [], rf_ino = 0, rf_mode = 0, rf_size = 0, rf_data = None, rf_capacity = 0, rf_inode = None, rf_parent = None, rf_next = None\<rparr>),
      ram_inodes = (\<lambda>_. bss_inode), ram_buffers = (\<lambda>_. 0), ram_count = 0, ram_root = None, ram_next_ino = 2,
      dev_nodes = (\<lambda>_. \<lparr>dn_name = [], dn_type = 0, dn_major = 0, dn_minor = 0, dn_mode = 0, dn_inode = None, dn_next = None\<rparr>),
      dev_count = 0, dev_root = None, heap_inodes = (\<lambda>_. bss_inode),
      heap_files = (\<lambda>_. \<lparr>f_inode = None, f_pos = 0, f_flags = 0, f_private = 0\<rparr>), fs_mem = (\<lambda>_. 0), fs_kmem = km\<rparr>"

definition bss_vfs :: "buddy slabs \<Rightarrow> vfs" where
  "bss_vfs km =
     \<lparr>fs_types = (\<lambda>_. None), num_fs_types = 0, mount_table = (\<lambda>_. \<lparr>mp_path = [], mp_device = [], mp_fstype = [], mp_root = None, mp_ops = bss_ops\<rparr>),
      num_mounts = 0, inode_cache = (\<lambda>_. None), fsys_of = bss_fsys km\<rparr>"

text \<open>Registering further file systems keeps the ones that are registered, and mounts nothing.\<close>

lemma register_fold:
  assumes "fs_types v 0 = Some a" "fs_types v 1 = Some b" "2 \<le> num_fs_types v" "num_mounts v = 0"
  shows "let w = fold (\<lambda>(n, ops) w. snd (vfs_register_fs n (Some ops) w)) disks v
     in fs_types w 0 = Some a \<and> fs_types w 1 = Some b \<and> 2 \<le> num_fs_types w \<and> num_mounts w = 0 \<and> fsys_of w = fsys_of v"
  using assms
proof (induction disks arbitrary: v)
  case (Cons d ds)
  obtain n ops where "d = (n, ops)" by (cases d)
  then show ?case using Cons.IH [of "snd (vfs_register_fs n (Some ops) v)"] Cons.prems by (simp add: vfs_register_fs_def Let_def)
qed simp

lemma drivers_init_ok:
  assumes "kbuddy km L"
  shows "\<exists>v. drivers_init addr disks (bss_vfs km) = Some v \<and> fs_ok addr v L \<and> ram_count (fsys_of v) = 1 \<and> fs_kmem (fsys_of v) = km"
proof -
  let ?v2 = "snd (ramfs_init addr (snd (devfs_init (snd (vfs_init (bss_vfs km))))))"
  define w where "w = fold (\<lambda>(n, ops) w. snd (vfs_register_fs n (Some ops) w)) disks ?v2"
  have "fs_types ?v2 0 = Some devfs_ops" "fs_types ?v2 1 = Some (ramfs_ops addr)" "2 \<le> num_fs_types ?v2" "num_mounts ?v2 = 0" "fsys_of ?v2 = bss_fsys km"
    by (simp_all add: ramfs_init_def devfs_init_def vfs_init_def vfs_register_fs_def bss_vfs_def MAX_FS_TYPES_def)
  from register_fold [OF this(1-4), of disks] this(5)
  have w: "fs_types w 0 = Some devfs_ops" "fs_types w 1 = Some (ramfs_ops addr)" "2 \<le> num_fs_types w" "num_mounts w = 0" "fsys_of w = bss_fsys km"
    unfolding w_def [symmetric] Let_def by simp_all
  have "[0..<num_fs_types w] = [0] @ 1 # [2..<num_fs_types w]" using w(3) by (simp add: upt_conv_Cons numeral_2_eq_2)
  then have "vfs_find_fs [0x72, 0x61, 0x6D, 0x66, 0x73] w = Some (ramfs_ops addr)"
    unfolding vfs_find_fs_def using w by (simp add: ramfs_ops_def devfs_ops_def)
  then obtain v where "vfs_mount [0x6E, 0x6F, 0x6E, 0x65] [slash] [0x72, 0x61, 0x6D, 0x66, 0x73] w = Some (0, v)" and f: "fs_ok addr v L" "ram_count (fsys_of v) = 1" "fs_kmem (fsys_of v) = km"
    using w assms
    by (simp add: vfs_mount_def MAX_MOUNT_POINTS_def Let_def ramfs_ops_def ramfs_mount_def ramfs_read_inode_def fs_ok_def rooted_def ram_ok_def ram_entry_def
      ram_link_def fs_upd_defs RAMFS_MAX_FILES_def bss_fsys_def)
  then show ?thesis unfolding drivers_init_def Let_def w_def by simp
qed

lemma boot_page: "fst (alloc_page (sframes boot_slabs)) \<noteq> 0"
proof -
  have m: "\<exists>M. manages (sframes boot_slabs) M" using kbuddy_boot by (auto simp: kbuddy_def kmalloc_inv_def slab_inv_def srep_def)
  have "0 < unat (free_page_count (sframes boot_slabs))" by (simp add: boot_sframes page_init_count)
  from buddy_counted.falloc_avail [OF m this] show ?thesis by (cases "alloc_page (sframes boot_slabs)") auto
qed

lemma opened_boot: "opened p pos v L r v' L' \<Longrightarrow> fs_kmem (fsys_of v) = boot_slabs \<Longrightarrow> \<exists>x. r = Some x"
  using boot_page by (cases r) (auto simp: opened_def)

text \<open>The file \<^verbatim>\<open>/a\<close> does not exist after boot.\<close>

lemma boot_no_file:
  assumes "fs_ok addr v L" "ram_count (fsys_of v) = 1"
  shows "vfs_lookup_path (Some [slash]) v = Some (RamInode 0)" "vfs_lookup_path (Some [slash, 0x61]) v = None"
proof -
  have r: "rooted addr v" "ram_ok (fsys_of v)" using assms(1) by (simp_all add: fs_ok_def)
  have "rf_parent (ram_files (fsys_of v) 0) = None" using ram_okD(4) [OF r(2), of 0] assms(2) by (simp add: ram_link_def)
  then have "ramfs_find_file (Some (RamFile 0)) [0x61] (fsys_of v) = None" using assms(2) by (simp add: ramfs_find_file_def)
  then show "vfs_lookup_path (Some [slash]) v = Some (RamInode 0)" "vfs_lookup_path (Some [slash, 0x61]) v = None"
    using lookup_walk [OF r(1), of "[]"] lookup_walk [OF r(1), of "[[0x61]]"] lookup_find [OF r(2), of 0 "[0x61]"] assms(2)
    by (simp_all add: good_name_def slash_def dot_def)
qed

text \<open>A state with an open, empty file \<^verbatim>\<open>/a\<close> and all memory free.\<close>

lemma some_file:
  "\<exists>v x. fs_ok (\<lambda>_. 0) v {} \<and> fs_kmem (fsys_of v) = boot_slabs \<and> vfs_lookup_path (Some [slash, 0x61]) v = Some (RamInode 1)
     \<and> f_inode (heap_files (fsys_of v) x) = Some (RamInode 1) \<and> f_pos (heap_files (fsys_of v) x) = 0 \<and> file_bytes (fsys_of v) 1 = []"
proof -
  have g: "good_name [0x61]" by (simp add: good_name_def slash_def dot_def)
  from drivers_init_ok [OF kbuddy_boot, of "\<lambda>_. 0" "[]"] obtain v where
    v: "fs_ok (\<lambda>_. 0) v {}" "ram_count (fsys_of v) = 1" "fs_kmem (fsys_of v) = boot_slabs" by blast
  from vfs_open_new [OF v(2) [symmetric] v(1), of "[]" "[0x61]" "RamInode 0" O_CREAT] g boot_no_file [OF v(1,2)] obtain r v' L' where
    o: "fs_ok (\<lambda>_. 0) v' L'" "opened (RamInode 1) 0 v {} r v' L'" "vfs_lookup_path (Some [slash, 0x61]) v' = Some (RamInode 1)" "file_bytes (fsys_of v') 1 = []"
    by (auto simp: O_CREAT_def RAMFS_MAX_FILES_def dest: spec [of _ "[[0x61]]"])
  from opened_boot [OF o(2) v(3)] obtain x where x: "r = Some x" ..
  let ?v = "v'\<lparr>fsys_of := (fsys_of v')\<lparr>fs_kmem := boot_slabs\<rparr>\<rparr>"
  have t: "same_tree (fsys_of v') (fsys_of ?v)" by (simp add: same_tree_upd(3))
  have r: "rooted (\<lambda>_. 0) v'" "ram_ok (fsys_of v')" "rooted (\<lambda>_. 0) ?v" using o(1) by (simp_all add: fs_ok_def rooted_def)
  have "vfs_lookup_path (Some [slash, 0x61]) ?v = Some (RamInode 1)"
    using lookup_walk [OF r(1), of "[[0x61]]"] lookup_walk [OF r(3), of "[[0x61]]"] walk_same [OF t r(2), of "[[0x61]]"] g o(3) by simp
  moreover have "fs_ok (\<lambda>_. 0) ?v {}" using r same_treeD(1) [OF t] kbuddy_boot by (simp add: fs_ok_def)
  ultimately show ?thesis using o(2,4) x same_treeD(2) [OF t, of 1] by (intro exI [of _ ?v] exI [of _ x]) (simp add: opened_def)
qed

text \<open>
  C38: opening a path that does not exist yet with \<open>O_CREAT\<close>, in a directory that does, enters an empty regular file with mode 0644 under that path.
  The names on the path have 1 to 63 characters, none a slash, and are not \<^verbatim>\<open>.\<close> or \<^verbatim>\<open>..\<close>; the path of the directory has fewer than 255 characters, and fewer
  than 256 entries exist.  (A name of 64 characters or more is stored cut off, and the open returns a null pointer.)  Every other path leads where it led, every other file keeps its contents, and the state stays well-formed.  The result is
  a file structure for the new file at position 0 that was not in use, or a null pointer when there is no page left for it.
\<close>

theorem vfs_open_creates:
  assumes "n = ram_count (fsys_of v)" "fs_ok addr v L" "\<forall>c \<in> set (cs @ [nm]). good_name c" "length (join_path cs) < 255"
    and "vfs_lookup_path (Some (slash # join_path cs)) v = Some dir" "vfs_lookup_path (Some (slash # join_path (cs @ [nm]))) v = None"
    and "n < RAMFS_MAX_FILES" "flags AND O_CREAT \<noteq> 0"
  shows "\<exists>r v' L'. vfs_open (Some (slash # join_path (cs @ [nm]))) flags v = Some (r, v') \<and> fs_ok addr v' L' \<and> opened (RamInode n) 0 v L r v' L'
    \<and> (\<forall>ds. (\<forall>c \<in> set ds. good_name c) \<longrightarrow>
          vfs_lookup_path (Some (slash # join_path ds)) v' = (if ds = cs @ [nm] then Some (RamInode n) else vfs_lookup_path (Some (slash # join_path ds)) v))
    \<and> file_bytes (fsys_of v') n = [] \<and> (\<forall>j < n. file_bytes (fsys_of v') j = file_bytes (fsys_of v) j)
    \<and> fs_mem (fsys_of v') = fs_mem (fsys_of v) \<and> i_mode (ram_inodes (fsys_of v') n) = S_IFREG OR 0x1A4"
  by (rule vfs_open_new [OF assms])

theorem vfs_open_creates_witness:
  "\<exists>v x v'. drivers_init (\<lambda>_. 0) [] (bss_vfs boot_slabs) = Some v \<and> vfs_open (Some [slash, 0x61]) O_CREAT v = Some (Some x, v')
     \<and> vfs_lookup_path (Some [slash, 0x61]) v = None \<and> vfs_lookup_path (Some [slash, 0x61]) v' = Some (RamInode 1)
     \<and> i_mode (ram_inodes (fsys_of v') 1) = 0x81A4"
proof -
  from drivers_init_ok [OF kbuddy_boot, of "\<lambda>_. 0" "[]"] obtain v where
    v: "drivers_init (\<lambda>_. 0) [] (bss_vfs boot_slabs) = Some v" "fs_ok (\<lambda>_. 0) v {}" "ram_count (fsys_of v) = 1" "fs_kmem (fsys_of v) = boot_slabs" by blast
  have g: "good_name [0x61]" by (simp add: good_name_def slash_def dot_def)
  from vfs_open_creates [OF v(3) [symmetric] v(2), of "[]" "[0x61]" "RamInode 0" O_CREAT] g boot_no_file [OF v(2,3)] obtain r v' L' where
    o: "vfs_open (Some [slash, 0x61]) O_CREAT v = Some (r, v')" "opened (RamInode 1) 0 v {} r v' L'" "vfs_lookup_path (Some [slash, 0x61]) v' = Some (RamInode 1)"
      "i_mode (ram_inodes (fsys_of v') 1) = 0x81A4"
    by (auto simp: O_CREAT_def RAMFS_MAX_FILES_def S_IFREG_def dest: spec [of _ "[[0x61]]"])
  from opened_boot [OF o(2) v(4)] obtain x where "r = Some x" ..
  then show ?thesis using o v(1) boot_no_file(2) [OF v(2,3)] by blast
qed

text \<open>
  C39: a write through an open file at position \<open>p\<close>, not past its end and within the 4096 bytes a file may have, returns its length, replaces exactly
  the bytes from \<open>p\<close> on, moves the position, and leaves every path and every other file.  Whoever then opens the path of the file
  (without \<open>O_APPEND\<close> and \<open>O_TRUNC\<close>) and reads from it gets the new contents, as far as the read goes.
\<close>

theorem vfs_write_read:
  assumes "fs_ok addr v L" "\<forall>c \<in> set ds. good_name c" "vfs_lookup_path (Some (slash # join_path ds)) v = Some (RamInode i)"
    and "f_inode (heap_files (fsys_of v) x) = Some (RamInode i)" "buf \<noteq> 0"
    and "p = unat (f_pos (heap_files (fsys_of v) x))" "p + unat n \<le> RAMFS_MAX_FILE_SIZE" "old = file_bytes (fsys_of v) i" "p \<le> length old"
    and "new = take p old @ map (\<lambda>k. fs_mem (fsys_of v) (buf + of_nat k)) [0..<unat n] @ drop (p + unat n) old"
  shows "\<exists>v1. vfs_write (Some x) buf n v = Some (int (unat n), v1) \<and> fs_ok addr v1 L
    \<and> file_bytes (fsys_of v1) i = new \<and> unat (f_pos (heap_files (fsys_of v1) x)) = p + unat n
    \<and> (\<forall>j < ram_count (fsys_of v). j \<noteq> i \<longrightarrow> file_bytes (fsys_of v1) j = file_bytes (fsys_of v) j)
    \<and> (\<forall>es. (\<forall>c \<in> set es. good_name c) \<longrightarrow> vfs_lookup_path (Some (slash # join_path es)) v1 = vfs_lookup_path (Some (slash # join_path es)) v)
    \<and> (\<forall>flags y v2 dst m. vfs_open (Some (slash # join_path ds)) flags v1 = Some (Some y, v2) \<longrightarrow> flags AND O_APPEND = 0 \<longrightarrow> flags AND O_TRUNC = 0 \<longrightarrow> dst \<noteq> 0 \<longrightarrow>
         (\<exists>v3. vfs_read (Some y) dst m v2 = Some (int (min (unat m) (length new)), v3)
            \<and> (\<forall>k < min (unat m) (length new). fs_mem (fsys_of v3) (dst + of_nat k) = new ! k)))"
proof -
  from vfs_write_spec [OF assms] obtain v1 where
    w: "vfs_write (Some x) buf n v = Some (int (unat n), v1)" "fs_ok addr v1 L" "file_bytes (fsys_of v1) i = new" "unat (f_pos (heap_files (fsys_of v1) x)) = p + unat n"
      "\<forall>j < ram_count (fsys_of v). j \<noteq> i \<longrightarrow> file_bytes (fsys_of v1) j = file_bytes (fsys_of v) j"
      "\<forall>es. (\<forall>c \<in> set es. good_name c) \<longrightarrow> vfs_lookup_path (Some (slash # join_path es)) v1 = vfs_lookup_path (Some (slash # join_path es)) v" by blast
  have l: "vfs_lookup_path (Some (slash # join_path ds)) v1 = Some (RamInode i)" using w(6) assms(2,3) by simp
  show ?thesis by (rule exI [of _ v1]) (use w vfs_open_read [OF w(2) assms(2) l _ _ _ w(3) [symmetric]] in blast)
qed

theorem vfs_write_read_witness:
  "\<exists>v x v1. fs_ok (\<lambda>_. 0) v {} \<and> file_bytes (fsys_of v) 1 = [] \<and> vfs_write (Some x) 8 3 v = Some (3, v1)
     \<and> file_bytes (fsys_of v1) 1 = map (\<lambda>k. fs_mem (fsys_of v) (8 + of_nat k)) [0..<3]"
proof -
  from some_file obtain v x where v: "fs_ok (\<lambda>_. 0) v {}" "vfs_lookup_path (Some [slash, 0x61]) v = Some (RamInode 1)"
    "f_inode (heap_files (fsys_of v) x) = Some (RamInode 1)" "f_pos (heap_files (fsys_of v) x) = 0" "file_bytes (fsys_of v) 1 = []" by blast
  have g: "good_name [0x61]" by (simp add: good_name_def slash_def dot_def)
  from vfs_write_read [OF v(1) _ _ v(3), of "[[0x61]]" 8 0 3 "[]"] g v(2,4,5) obtain v1 where
    "vfs_write (Some x) 8 3 v = Some (3, v1)" "file_bytes (fsys_of v1) 1 = map (\<lambda>k. fs_mem (fsys_of v) (8 + of_nat k)) [0..<3]"
    by (auto simp: RAMFS_MAX_FILE_SIZE_def)
  then show ?thesis using v(1,5) by blast
qed

text \<open>
  C40: opening a file with \<open>O_TRUNC\<close> sets the size in its inode to 0 but keeps its contents: \<open>vfs_open\<close> looks for the file system
  under the empty path, which no mount point matches, and so never tells it the new size.  The old contents can still be read.
\<close>

theorem vfs_open_trunc_keeps_data:
  assumes "fs_ok addr v L" "\<forall>c \<in> set ds. good_name c" "vfs_lookup_path (Some (slash # join_path ds)) v = Some (RamInode i)"
    and "vfs_open (Some (slash # join_path ds)) O_TRUNC v = Some (Some y, v1)" "dst \<noteq> 0"
    and "old = file_bytes (fsys_of v) i"
  shows "i_size (ram_inodes (fsys_of v1) i) = 0 \<and> file_bytes (fsys_of v1) i = old
    \<and> (\<exists>v2. vfs_read (Some y) dst m v1 = Some (int (min (unat m) (length old)), v2)
        \<and> (\<forall>k < min (unat m) (length old). fs_mem (fsys_of v2) (dst + of_nat k) = old ! k))"
proof -
  from vfs_open_existing [OF assms(1-4)] assms(6) have "i_size (ram_inodes (fsys_of v1) i) = 0" "file_bytes (fsys_of v1) i = old" by (auto simp: O_TRUNC_def)
  moreover have "O_TRUNC AND O_APPEND = 0" by (simp add: O_TRUNC_def O_APPEND_def)
  ultimately show ?thesis using vfs_open_read [OF assms(1-4) _ assms(5,6)] by blast
qed

theorem vfs_open_trunc_keeps_data_witness:
  "\<exists>v y v1 v2. fs_ok (\<lambda>_. 0) v {} \<and> length (file_bytes (fsys_of v) 1) = 3 \<and> vfs_open (Some [slash, 0x61]) O_TRUNC v = Some (Some y, v1)
     \<and> i_size (ram_inodes (fsys_of v1) 1) = 0 \<and> vfs_read (Some y) 8 3 v1 = Some (3, v2)"
proof -
  have g: "\<forall>c \<in> set [[0x61]]. good_name c" by (simp add: good_name_def slash_def dot_def)
  from some_file obtain v0 x where v0: "fs_ok (\<lambda>_. 0) v0 {}" "fs_kmem (fsys_of v0) = boot_slabs" "vfs_lookup_path (Some [slash, 0x61]) v0 = Some (RamInode 1)"
    "f_inode (heap_files (fsys_of v0) x) = Some (RamInode 1)" "f_pos (heap_files (fsys_of v0) x) = 0" "file_bytes (fsys_of v0) 1 = []" by blast
  from vfs_write_spec [OF v0(1) g _ v0(4), of 8 0 3 "[]"] v0 g obtain v where
    v: "fs_ok (\<lambda>_. 0) v {}" "fs_kmem (fsys_of v) = boot_slabs" "length (file_bytes (fsys_of v) 1) = 3" "vfs_lookup_path (Some [slash, 0x61]) v = Some (RamInode 1)"
    by (auto simp: RAMFS_MAX_FILE_SIZE_def dest: spec [of _ "[[0x61]]"])
  have r: "rooted (\<lambda>_. 0) v" "kbuddy (fs_kmem (fsys_of v)) {}" using v(1) by (simp_all add: fs_ok_def)
  from open_inode_ok [OF r(2,1), of "RamInode 1" O_TRUNC] obtain q v1 pos L' where
    o: "open_inode (RamInode 1) O_TRUNC v = Some (q, v1)" "opened (RamInode 1) pos v {} q v1 L'" by blast
  from opened_boot [OF o(2) v(2)] obtain y where "q = Some y" ..
  then have "vfs_open (Some [slash, 0x61]) O_TRUNC v = Some (Some y, v1)" using o(1) v(4) by (simp add: vfs_open_def)
  with vfs_open_trunc_keeps_data [OF v(1) g, of 1 y v1 8 _ 3] v show ?thesis by fastforce
qed

end
