(* ===== verification/Spec2Isabelle.thy ===== *)
theory Spec2Isabelle
  imports VmallocProps Kmalloc SchedProps ProcProps CString Uart VfsProps
begin

text \<open>
  A verification library for the MinixRV64 kernel: its memory management, scheduler and process code, UART driver,
  string library and file systems, as functions on explicit states, with the theorems about them.

  \<^bold>\<open>The parts and how they interact.\<close>  \<^verbatim>\<open>mm_init\<close> starts the page allocator, the slab allocator on top of it, the Sv39 page tables, which
  take their tables from the page allocator, and the virtual memory areas, which use both.  The process code
  takes kernel stacks from the page allocator, address spaces from \<^verbatim>\<open>kmalloc\<close>, and puts tasks on the run queues of the scheduler.  The
  VFS calls ramfs and devfs through tables of operations and takes its file structures from \<^verbatim>\<open>kmalloc\<close>.

  \<^bold>\<open>Theories and sources\<close> (paths under \<^verbatim>\<open>src/\<close>):
  \<^item> \<open>Prelude\<close>: C integer types as words, shared lemmas.  \<open>DLink\<close>: NULL-terminated doubly linked lists, shared by the page and slab
    allocators.  \<open>FrameSource\<close>: the locales \<open>frame_source\<close> and \<open>counted_frames\<close>, the contract of \<^verbatim>\<open>alloc_page\<close> and \<^verbatim>\<open>free_page\<close>.
  \<^item> \<^verbatim>\<open>arch/riscv64/mm/page_alloc.c\<close>: \<open>PageAlloc\<close> (the state \<open>buddy\<close> and every operation), \<open>BuddyInv\<close>, \<open>BuddyOps\<close>, \<open>BuddyAlloc\<close>
    (the invariant \<open>manages\<close>, the loops, the properties; the interpretations \<open>buddy_frames\<close> and \<open>buddy_counted\<close> of the contract).
  \<^item> \<^verbatim>\<open>arch/riscv64/mm/pgtable.c\<close>: \<open>PageTable\<close> (the state \<open>ptab\<close>: tables by address, fences, \<^verbatim>\<open>satp\<close>), \<open>PageTableInv\<close> (the tables are a tree;
    what the operations do to the hardware walk \<open>sv39_leaf\<close>, proved once for any frame source), \<open>PageTableProps\<close>.
  \<^item> \<^verbatim>\<open>arch/riscv64/mm/slab.c\<close>: \<open>Slab\<close> (the state \<open>slabs\<close>), \<open>SlabInv\<close>, \<open>Kmalloc\<close>.
  \<^item> \<^verbatim>\<open>arch/riscv64/mm/vmalloc.c\<close>: \<open>Vmalloc\<close> (the state \<open>vmall\<close>), \<open>VmallocPages\<close> (the loops over pages and the page faults they may cause),
    \<open>VmallocProps\<close>.
  \<^item> \<^verbatim>\<open>include/minix/sched.h, task.h, thread_info.h, mm_types.h\<close>: \<open>ListHead\<close> (intrusive circular lists), \<open>Task\<close> (the state \<open>kern\<close>).
  \<^item> \<^verbatim>\<open>kernel/sched_new.c\<close>, \<^verbatim>\<open>arch/riscv64/kernel/swtch.S\<close>: \<open>Sched\<close>, \<open>SchedInv\<close>, \<open>SchedProps\<close>.
  \<^item> \<^verbatim>\<open>kernel/fork.c\<close>: \<open>Fork\<close>, \<open>ForkProps\<close>.  \<^verbatim>\<open>kernel/exit.c\<close>, \<^verbatim>\<open>kernel/init_proc.c\<close>: \<open>Exit\<close>, \<open>ExitProps\<close>.  \<open>ProcInv\<close> and \<open>ProcProps\<close>: the
    invariant of the process code and the runs of the whole.
  \<^item> \<^verbatim>\<open>lib/string.c\<close>: \<open>CString\<close>.  \<^verbatim>\<open>drivers/char/uart.c\<close>: \<open>Uart\<close> (with the locale \<open>bounded_fifo\<close>, interpreted on the ring buffers).
  \<^item> \<^verbatim>\<open>include/minix/vfs.h\<close>: \<open>FsData\<close>.  \<^verbatim>\<open>fs/ramfs.c\<close>: \<open>Ramfs\<close>.  \<^verbatim>\<open>fs/devfs.c\<close>: \<open>Devfs\<close>.  \<^verbatim>\<open>fs/vfs.c\<close> and \<^verbatim>\<open>kernel/drivers.c\<close>: \<open>Vfs\<close>, \<open>VfsProps\<close>.

  \<^bold>\<open>How code becomes definitions.\<close>  A file's global variables are a record; a C function is a function on it that keeps its name; a
  loop is a recursive function, with the index as an argument.  Machine integers are words and wrap as in C; a few signed results and arguments are
  \<open>int\<close>, and the one narrowing conversion on them (\<^verbatim>\<open>long\<close> to \<^verbatim>\<open>int\<close> in \<^verbatim>\<open>do_exit\<close>) is written out.  A pointer into a static array is an index,
  a heap pointer an address, \<open>None\<close> or 0 the null pointer.  An access through a wild pointer, a page fault, a lock taken twice and a loop
  that does not end have the value \<open>None\<close>.  Loops over linked lists, and loops whose bound may wrap, are \<open>partial_function (option)\<close>;
  there is no fuel, and the theorems that such a function returns prove a result \<open>Some\<close>.
  Console output is not part of any state.

  \<^bold>\<open>What the lemmas show.\<close>
  \<^item> Page allocator: allocation and release are exact on the set of live blocks, which stay aligned and disjoint, and no page is lost; \<^verbatim>\<open>page_init\<close>
    establishes this.
  \<^item> Page tables: mapping and unmapping change the hardware translation of the pages asked for and of no other, where no superpage is in the way; with a
    superpage in the way, what goes wrong.
  \<^item> \<^verbatim>\<open>kmalloc\<close>: objects are large enough and disjoint in every reachable state; \<^verbatim>\<open>kmalloc_verify\<close>; the sizes that are never served.
  \<^item> Virtual memory areas: the search is right and complete, areas are disjoint in every reachable state, \<^verbatim>\<open>iounmap\<close> undoes \<^verbatim>\<open>ioremap\<close>, and on the
    booted kernel every use faults.
  \<^item> Scheduler: every entry point returns in every reachable state; \<^verbatim>\<open>schedule\<close> refines the choice \<open>next_task\<close>; round robin; starvation after a task
    blocks on the expired array; time slices.
  \<^item> Processes: the invariant holds in every state that ticks, scheduling, sleeping, waking, killing, fork, kernel threads, wait and exit can reach,
    and all of them return; what fork, exit and wait do; no status is lost on the way from \<^verbatim>\<open>exit\<close> to \<^verbatim>\<open>waitpid\<close>.
  \<^item> UART: the ring buffers refine bounded lists.  Strings: the exact effect of \<^verbatim>\<open>strncpy\<close>.
  \<^item> Files: \<^verbatim>\<open>vfs_open\<close> with \<^verbatim>\<open>O_CREAT\<close>, \<^verbatim>\<open>vfs_write\<close> and \<^verbatim>\<open>vfs_read\<close> refine a tree of paths with byte contents.

  \<^bold>\<open>Bounds.\<close>  Sizes given to the virtual memory areas are below 2 to the 61 (beyond, the code's own sums wrap, which is shown too).  Regions have
  at most 2 to the 27 pages, all that a 39-bit address space has.  Names of files have at most 63 characters, the array in \<^verbatim>\<open>ramfs_file_t\<close>.  The booted kernel is
  the state after the start-up calls, with the memory that \<^verbatim>\<open>page_alloc.c\<close> manages (\<^verbatim>\<open>PHYS_MEMORY_BASE\<close>, \<^verbatim>\<open>PHYS_MEMORY_SIZE\<close>) and a root table inside the kernel image.

  \<^bold>\<open>Choices to keep in mind.\<close>  Typed objects (tasks, address spaces, inodes, files) live in maps of their own, apart from the bytes of the heap, so
  an access to a freed object is harmless in the model; \<^verbatim>\<open>exit_mm\<close> leaves such a pointer behind (see \<open>Exit\<close>).  There is one processor, and an interrupt
  happens between operations, not inside them.  The context switch replaces the current task at once.  After a change of
  the tables, \<open>Vmalloc\<close> demands that the kernel can fetch its first instruction again; \<open>PageTable\<close> itself leaves such a test to its callers.

  \<^bold>\<open>Not modelled.\<close>  \<^verbatim>\<open>kernel/syscalls.c\<close> (descriptor table and dispatch), \<^verbatim>\<open>kernel/exec.c\<close> (unfinished, nothing calls the loader), \<^verbatim>\<open>kernel/shell.c\<close> and
  \<^verbatim>\<open>lib/printk.c\<close> (console interaction), \<^verbatim>\<open>kernel/proc.c\<close> and \<^verbatim>\<open>kernel/sched.c\<close> (not compiled), \<^verbatim>\<open>mmu.c\<close> and \<^verbatim>\<open>main.c\<close> (sequences of calls), \<^verbatim>\<open>trap.c\<close> and the
  assembly files other than \<^verbatim>\<open>swtch.S\<close> (CSR accesses), \<^verbatim>\<open>board.c\<close> (a table of addresses), \<^verbatim>\<open>drivers/block/blockdev.c\<close> (no driver registers with it), and
  the disk file systems \<^verbatim>\<open>ext2, ext3, ext4, fat, fat32\<close> (stubs beyond \<^verbatim>\<open>mount\<close>; \<^verbatim>\<open>drivers_init\<close> takes them as a parameter).  Of the modelled files,
  functions that only print are left out.
\<close>

end
